(* ===== verification/JsBase.thy ===== *)
theory JsBase
  imports Complex_Main "HOL-Library.AList" "HOL-Library.Multiset"
begin

section \<open>Prelude: the JavaScript values the components share\<close>

text \<open>
  What the TypeScript sources use of the language, once for all components:
  \<^item> a \<^verbatim>\<open>Map\<close> keeps its entries in insertion order, \<^verbatim>\<open>set\<close> on a present key keeps the
    entry's position and \<^verbatim>\<open>delete\<close> removes it: an association list with distinct keys;
  \<^item> \<^verbatim>\<open>Array.prototype.sort\<close> with a comparator is a stable sort;
  \<^item> \<^verbatim>\<open>!x\<close> on a nullable number holds for \<^verbatim>\<open>null\<close>, \<^verbatim>\<open>undefined\<close> and 0;
  \<^item> a deadline may be \<^verbatim>\<open>Number.POSITIVE_INFINITY\<close>;
  \<^item> \<^verbatim>\<open>trim\<close>, \<^verbatim>\<open>includes\<close>, \<^verbatim>\<open>startsWith\<close>, \<^verbatim>\<open>slice\<close> and \<^verbatim>\<open>toLowerCase\<close> on strings, with a
    character read as a code point below 256.
  Time stamps and counters are \<^typ>\<open>int\<close> (the sources keep them far below 2^53, where a
  double is exact); percentages are \<^typ>\<open>rat\<close>, and every double is a rational.
  The interfaces the components are proved against (locales) are at the end.
\<close>

named_theorems jm_simps \<open>lookup, size and order of the entries after a map operation\<close>
named_theorems jm_wf_intros \<open>map operations keep the keys distinct\<close>

subsection \<open>Maps\<close>

type_synonym ('k, 'v) jsmap = "('k \<times> 'v) list"

abbreviation jm_keys :: "('k, 'v) jsmap \<Rightarrow> 'k list" where
  "jm_keys m \<equiv> map fst m"

abbreviation jm_wf :: "('k, 'v) jsmap \<Rightarrow> bool" where
  "jm_wf m \<equiv> distinct (jm_keys m)"

definition jm_get :: "('k, 'v) jsmap \<Rightarrow> 'k \<Rightarrow> 'v option" where
  "jm_get m k = map_of m k"

definition jm_has :: "('k, 'v) jsmap \<Rightarrow> 'k \<Rightarrow> bool" where
  "jm_has m k \<longleftrightarrow> jm_get m k \<noteq> None"

definition jm_set :: "('k, 'v) jsmap \<Rightarrow> 'k \<Rightarrow> 'v \<Rightarrow> ('k, 'v) jsmap" where
  "jm_set m k v = AList.update k v m"

definition jm_delete :: "('k, 'v) jsmap \<Rightarrow> 'k \<Rightarrow> ('k, 'v) jsmap" where
  "jm_delete m k = AList.delete k m"

text \<open>\<^verbatim>\<open>map.delete(k); map.set(k, v)\<close>: the entry moves to the back.\<close>

definition jm_touch :: "('k, 'v) jsmap \<Rightarrow> 'k \<Rightarrow> 'v \<Rightarrow> ('k, 'v) jsmap" where
  "jm_touch m k v = jm_set (jm_delete m k) k v"

lemma jm_get_empty [simp]: "jm_get [] k = None"
  by (simp add: jm_get_def)

lemma jm_get_set [simp, jm_simps]: "jm_get (jm_set m k v) k' = (if k' = k then Some v else jm_get m k')"
  by (simp add: jm_get_def jm_set_def update_conv')

lemma jm_get_delete [simp, jm_simps]: "jm_get (jm_delete m k) k' = (if k' = k then None else jm_get m k')"
  by (simp add: jm_get_def jm_delete_def delete_conv')

lemma jm_get_touch [simp, jm_simps]: "jm_get (jm_touch m k v) k' = (if k' = k then Some v else jm_get m k')"
  by (simp add: jm_touch_def)

lemma jm_get_in_set: "jm_get m k = Some v \<Longrightarrow> (k, v) \<in> set m"
  by (simp add: jm_get_def map_of_SomeD)

lemma jm_get_iff: "jm_wf m \<Longrightarrow> jm_get m k = Some v \<longleftrightarrow> (k, v) \<in> set m"
  by (simp add: jm_get_def)

lemma jm_get_None: "jm_get m k = None \<longleftrightarrow> k \<notin> set (jm_keys m)"
  by (force simp: jm_get_def map_of_eq_None_iff)

lemma jm_wf_set [jm_wf_intros]: "jm_wf m \<Longrightarrow> jm_wf (jm_set m k v)"
  by (simp add: jm_set_def distinct_update)

lemma jm_wf_delete [jm_wf_intros]: "jm_wf m \<Longrightarrow> jm_wf (jm_delete m k)"
  by (simp add: jm_delete_def distinct_delete)

lemma jm_wf_touch [jm_wf_intros]: "jm_wf m \<Longrightarrow> jm_wf (jm_touch m k v)"
  by (simp add: jm_touch_def jm_wf_intros)

lemma jm_wf_filter [jm_wf_intros]: "jm_wf m \<Longrightarrow> jm_wf (filter P m)"
  by (simp add: distinct_map_filter)

lemma jm_wf_drop [jm_wf_intros]: "jm_wf m \<Longrightarrow> jm_wf (drop n m)"
  by (simp add: drop_map [symmetric])

lemma jm_wf_dropWhile [jm_wf_intros]: "jm_wf m \<Longrightarrow> jm_wf (dropWhile P m)"
  by (metis distinct_drop drop_map dropWhile_eq_drop)

lemma jm_delete_filter: "jm_delete m k = filter (\<lambda>(k', _). k \<noteq> k') m"
  by (simp add: jm_delete_def AList.delete_eq)

lemma update_new_snoc: "k \<notin> set (jm_keys m) \<Longrightarrow> AList.update k v m = m @ [(k, v)]"
  by (induction m) auto

lemma jm_set_new: "k \<notin> set (jm_keys m) \<Longrightarrow> jm_set m k v = m @ [(k, v)]"
  by (simp add: jm_set_def update_new_snoc)

lemma jm_touch_snoc: "jm_touch m k v = jm_delete m k @ [(k, v)]"
proof -
  have "k \<notin> set (jm_keys (jm_delete m k))"
    by (auto simp: jm_delete_filter)
  then show ?thesis by (simp add: jm_touch_def jm_set_new)
qed

lemma jm_keys_set [jm_simps]: "set (jm_keys (jm_set m k v)) = insert k (set (jm_keys m))"
  by (simp add: jm_set_def dom_update)

lemma jm_keys_delete [jm_simps]: "set (jm_keys (jm_delete m k)) = set (jm_keys m) - {k}"
  by (auto simp: jm_delete_filter)

lemma jm_set_in_set: "x \<in> set (jm_set m k v) \<Longrightarrow> x = (k, v) \<or> x \<in> set m"
  unfolding jm_set_def by (induction m) (auto split: if_splits)

lemma jm_set_in_set': "jm_wf m \<Longrightarrow> x \<in> set (jm_set m k v) \<Longrightarrow> x = (k, v) \<or> (x \<in> set m \<and> fst x \<noteq> k)"
  unfolding jm_set_def by (induction m) (auto split: if_splits simp: rev_image_eqI)

lemma jm_delete_in_set: "x \<in> set (jm_delete m k) \<longleftrightarrow> x \<in> set m \<and> fst x \<noteq> k"
  by (auto simp: jm_delete_filter)

lemma jm_get_filter:
  assumes "jm_wf m"
  shows "jm_get (filter P m) k = (case jm_get m k of None \<Rightarrow> None | Some v \<Rightarrow> if P (k, v) then Some v else None)"
  using assms by (induction m) (auto simp: jm_get_def map_of_eq_None_iff rev_image_eqI split: option.splits)

lemma jm_length_delete_present: "jm_wf m \<Longrightarrow> k \<in> set (jm_keys m) \<Longrightarrow> Suc (length (jm_delete m k)) = length m"
  by (induction m) (auto simp: jm_delete_def)

lemma jm_delete_new: "k \<notin> set (jm_keys m) \<Longrightarrow> jm_delete m k = m"
  by (simp add: jm_delete_def)

lemma jm_length_delete_le: "length (jm_delete m k) \<le> length m"
  by (simp add: jm_delete_filter)

lemma jm_length_set_le: "length (jm_set m k v) \<le> Suc (length m)"
  unfolding jm_set_def by (induction m) auto

lemma jm_length_set_known: "jm_has m k \<Longrightarrow> length (jm_set m k v) = length m"
  unfolding jm_set_def jm_has_def jm_get_def by (induction m) (auto split: if_splits)

lemma foldl_fixed: "(\<And>x. x \<in> set xs \<Longrightarrow> f s x = s) \<Longrightarrow> foldl f s xs = s"
  by (induction xs) auto

subsection \<open>Nullable numbers and strings\<close>

text \<open>\<^verbatim>\<open>!!x\<close> for a nullable number: present and not 0.\<close>

fun truthy :: "int option \<Rightarrow> bool" where
  "truthy None = False"
| "truthy (Some n) = (n \<noteq> 0)"

text \<open>\<^verbatim>\<open>x?.trim()\<close> is falsy when absent or blank.\<close>

definition is_space :: "char \<Rightarrow> bool" where
  "is_space c \<longleftrightarrow> of_char c \<in> {9, 10, 11, 12, 13, 32, 160 :: nat}"

definition js_trim :: "string \<Rightarrow> string" where
  "js_trim s = rev (dropWhile is_space (rev (dropWhile is_space s)))"

definition trimmed :: "string option \<Rightarrow> string option" where
  "trimmed x = (case x of None \<Rightarrow> None | Some s \<Rightarrow> (let t = js_trim s in if t = [] then None else Some t))"

fun starts_with :: "'a list \<Rightarrow> 'a list \<Rightarrow> bool" where
  "starts_with s [] = True"
| "starts_with [] (p # ps) = False"
| "starts_with (c # s) (p # ps) = (c = p \<and> starts_with s ps)"

fun str_includes :: "'a list \<Rightarrow> 'a list \<Rightarrow> bool" where
  "str_includes [] p = (p = [])"
| "str_includes (c # s) p = (starts_with (c # s) p \<or> str_includes s p)"

definition lower_char :: "char \<Rightarrow> char" where
  "lower_char c = (let n = of_char c :: nat in
     if 65 \<le> n \<and> n \<le> 90 \<or> 192 \<le> n \<and> n \<le> 222 \<and> n \<noteq> 215 then char_of (n + 32) else c)"

definition to_lower :: "string \<Rightarrow> string" where
  "to_lower s = map lower_char s"

lemma starts_with_iff: "starts_with s p \<longleftrightarrow> (\<exists>r. s = p @ r)"
  by (induction s p rule: starts_with.induct) auto

lemma starts_with_append [simp]: "starts_with (p @ r) p"
  by (auto simp: starts_with_iff)

subsection \<open>Deadlines with an infinity\<close>

datatype deadline = At int | Never

instantiation deadline :: linorder
begin

fun less_eq_deadline :: "deadline \<Rightarrow> deadline \<Rightarrow> bool" where
  "less_eq_deadline _ Never = True"
| "less_eq_deadline Never (At _) = False"
| "less_eq_deadline (At a) (At b) = (a \<le> b)"

definition less_deadline :: "deadline \<Rightarrow> deadline \<Rightarrow> bool" where
  "less_deadline a b = (a \<le> b \<and> \<not> b \<le> (a :: deadline))"

instance
proof
  fix x y z :: deadline
  show "x < y \<longleftrightarrow> x \<le> y \<and> \<not> y \<le> x" by (rule less_deadline_def)
  show "x \<le> x" by (cases x) auto
  show "x \<le> y \<Longrightarrow> y \<le> z \<Longrightarrow> x \<le> z" by (cases x; cases y; cases z) auto
  show "x \<le> y \<Longrightarrow> y \<le> x \<Longrightarrow> x = y" by (cases x; cases y) auto
  show "x \<le> y \<or> y \<le> x" by (cases x; cases y) auto
qed

end

lemma less_deadline_simps [simp]:
  "At a < At b \<longleftrightarrow> a < b" "At a < Never" "\<not> Never < d"
  by (auto simp: less_deadline_def)

definition deadline_of :: "int option \<Rightarrow> deadline" where
  "deadline_of x = (case x of None \<Rightarrow> Never | Some n \<Rightarrow> At n)"

subsection \<open>Sorting with a comparator\<close>

text \<open>
  A comparator returns a number whose sign matters: \<^verbatim>\<open>x - y\<close>, as a sign, is
  \<^term>\<open>cmp_num x y\<close>. \<^verbatim>\<open>sort\<close> is insertion from the right, which keeps the order of
  elements the comparator does not separate.
\<close>

definition cmp_num :: "'a :: linorder \<Rightarrow> 'a \<Rightarrow> int" where
  "cmp_num x y = (if x < y then - 1 else if y < x then 1 else 0)"

fun js_insert :: "('a \<Rightarrow> 'a \<Rightarrow> int) \<Rightarrow> 'a \<Rightarrow> 'a list \<Rightarrow> 'a list" where
  "js_insert cmp x [] = [x]"
| "js_insert cmp x (y # ys) = (if cmp x y \<le> 0 then x # y # ys else y # js_insert cmp x ys)"

definition js_sort :: "('a \<Rightarrow> 'a \<Rightarrow> int) \<Rightarrow> 'a list \<Rightarrow> 'a list" where
  "js_sort cmp xs = foldr (js_insert cmp) xs []"

lemma cmp_num_le [simp]: "cmp_num x y \<le> 0 \<longleftrightarrow> x \<le> y"
  by (auto simp: cmp_num_def)

lemma cmp_num_eq [simp]: "cmp_num x y = 0 \<longleftrightarrow> x = y"
  by (auto simp: cmp_num_def)

text \<open>On a list sorted by a key, the prefix below a bound is all that is below it.\<close>

lemma dropWhile_sorted_filter:
  assumes "sorted (map f xs)"
  shows "dropWhile (\<lambda>x. f x < c) xs = filter (\<lambda>x. c \<le> (f x :: 'b :: linorder)) xs"
  using assms
proof (induction xs)
  case (Cons x xs)
  show ?case
  proof (cases "f x < c")
    case True
    with Cons show ?thesis by simp
  next
    case False
    with Cons.prems have "filter (\<lambda>x. c \<le> f x) xs = xs"
      by (intro filter_True) auto
    with False show ?thesis by simp
  qed
qed simp

lemma js_sort_simps [simp]:
  "js_sort cmp [] = []" "js_sort cmp (x # xs) = js_insert cmp x (js_sort cmp xs)"
  by (simp_all add: js_sort_def)

lemma mset_js_insert [simp]: "mset (js_insert cmp x xs) = add_mset x (mset xs)"
  by (induction xs) auto

lemma mset_js_sort [simp]: "mset (js_sort cmp xs) = mset xs"
  by (induction xs) auto

lemma set_js_sort [simp]: "set (js_sort cmp xs) = set xs"
  by (metis mset_js_sort set_mset_mset)

lemma length_js_sort [simp]: "length (js_sort cmp xs) = length xs"
  by (metis mset_js_sort size_mset)

lemma distinct_js_sort [simp]: "distinct (map f (js_sort cmp xs)) = distinct (map f xs)"
  by (metis mset_js_sort mset_map mset_eq_imp_distinct_iff)

lemma js_sort_Nil_iff [simp]: "js_sort cmp xs = [] \<longleftrightarrow> xs = []"
  by (metis length_js_sort length_0_conv)

text \<open>Two comparators that agree through a projection order the projections alike.\<close>

lemma js_insert_map_on:
  assumes "\<And>y. y \<in> set xs \<Longrightarrow> cmp' (f x) (f y) = cmp x y"
  shows "map f (js_insert cmp x xs) = js_insert cmp' (f x) (map f xs)"
  using assms by (induction xs) auto

lemma js_sort_map_on:
  assumes "\<And>x y. x \<in> set xs \<Longrightarrow> y \<in> set xs \<Longrightarrow> cmp' (f x) (f y) = cmp x y"
  shows "map f (js_sort cmp xs) = js_sort cmp' (map f xs)"
  using assms
proof (induction xs)
  case (Cons x xs)
  then have "map f (js_insert cmp x (js_sort cmp xs)) = js_insert cmp' (f x) (map f (js_sort cmp xs))"
    by (intro js_insert_map_on) simp
  with Cons show ?case by simp
qed simp

subsection \<open>Loops that may throw\<close>

primrec fold_result :: "('s \<Rightarrow> 'a \<Rightarrow> 'e + 's) \<Rightarrow> 's \<Rightarrow> 'a list \<Rightarrow> 'e + 's" where
  "fold_result f s [] = Inr s"
| "fold_result f s (x # xs) = (case f s x of Inl e \<Rightarrow> Inl e | Inr s' \<Rightarrow> fold_result f s' xs)"

primrec some_result :: "('a \<Rightarrow> 'e + bool) \<Rightarrow> 'a list \<Rightarrow> 'e + bool" where
  "some_result p [] = Inr False"
| "some_result p (x # xs) = (case p x of Inl e \<Rightarrow> Inl e | Inr b \<Rightarrow> if b then Inr True else some_result p xs)"

primrec every_result :: "('a \<Rightarrow> 'e + bool) \<Rightarrow> 'a list \<Rightarrow> 'e + bool" where
  "every_result p [] = Inr True"
| "every_result p (x # xs) = (case p x of Inl e \<Rightarrow> Inl e | Inr b \<Rightarrow> if b then every_result p xs else Inr False)"

definition bind_result :: "'e + 'a \<Rightarrow> ('a \<Rightarrow> 'e + 'b) \<Rightarrow> 'e + 'b" where
  "bind_result r f = (case r of Inl e \<Rightarrow> Inl e | Inr x \<Rightarrow> f x)"

lemma fold_result_total:
  "(\<And>s x. x \<in> set xs \<Longrightarrow> f s x = Inr (h s x)) \<Longrightarrow> fold_result f s xs = Inr (foldl h s xs)"
  by (induction xs arbitrary: s) simp_all

lemma fold_result_inv:
  assumes "fold_result f s xs = Inr s'" and "P s" and "\<And>s x s'. x \<in> set xs \<Longrightarrow> P s \<Longrightarrow> f s x = Inr s' \<Longrightarrow> P s'"
  shows "P s'"
  using assms
proof (induction xs arbitrary: s)
  case (Cons x xs)
  then obtain s1 where s1: "f s x = Inr s1" "fold_result f s1 xs = Inr s'" by (auto split: sum.splits)
  with Cons.prems(2,3) have "P s1" by (meson list.set_intros(1))
  with s1(2) show ?case using Cons.prems(3) by (rule Cons.IH) simp_all
qed simp

lemma map_sum_Inr: "map_sum f g x = Inr z \<longleftrightarrow> (\<exists>y. x = Inr y \<and> z = g y)"
  by (cases x) auto

lemma bind_result_Inr: "bind_result r f = Inr y \<longleftrightarrow> (\<exists>x. r = Inr x \<and> f x = Inr y)"
  by (cases r) (simp_all add: bind_result_def)

lemma fold_result_find:
  assumes "\<And>s x. f s x = bind_result (m x) (\<lambda>y. Inr (h s x y))"
  shows "fold_result f s xs = Inl e \<longleftrightarrow> (\<exists>x. List.find (\<lambda>x. isl (m x)) xs = Some x \<and> m x = Inl e)"
  by (induction xs arbitrary: s) (auto simp: assms bind_result_def split: sum.splits)

lemma fold_partition:
  assumes "\<And>p r x. h (p, r) x = (if blocked x then (p, note r x) else (p @ [x], r))"
  shows "foldl h (p, r) xs = (p @ filter (\<lambda>x. \<not> blocked x) xs, foldl note r (filter blocked xs))"
  by (induction xs arbitrary: p r) (simp_all add: assms)

lemma foldl_snoc: "foldl (\<lambda>r a. r @ [f a]) r xs = r @ map f xs"
  by (induction xs arbitrary: r) simp_all

lemma find_SomeD: "List.find P xs = Some x \<Longrightarrow> P x \<and> x \<in> set xs"
  by (induction xs) (auto split: if_splits)

lemma find_split:
  "List.find P xs = Some a \<longleftrightarrow> (\<exists>before after. xs = before @ a # after \<and> P a \<and> (\<forall>b \<in> set before. \<not> P b))"
proof
  assume "List.find P xs = Some a"
  then show "\<exists>before after. xs = before @ a # after \<and> P a \<and> (\<forall>b \<in> set before. \<not> P b)"
  proof (induction xs)
    case (Cons x xs)
    show ?case
    proof (cases "P x")
      case True
      with Cons.prems show ?thesis by (intro exI [of _ "[]"] exI [of _ xs]) simp
    next
      case False
      with Cons obtain before after where "xs = before @ a # after" "P a" "\<forall>b \<in> set before. \<not> P b" by auto
      with False show ?thesis by (intro exI [of _ "x # before"] exI [of _ after]) simp
    qed
  qed simp
next
  have "List.find P (before @ a # after) = Some a" if "P a" "\<forall>b \<in> set before. \<not> P b" for before after
    using that by (induction before) simp_all
  then show "\<exists>before after. xs = before @ a # after \<and> P a \<and> (\<forall>b \<in> set before. \<not> P b) \<Longrightarrow> List.find P xs = Some a" by blast
qed

subsection \<open>Interfaces\<close>

text \<open>
  A comparator that is consistent: its sign is a total preorder. Under that contract the
  language fixes the result of \<^verbatim>\<open>sort\<close>, and \<^const>\<open>js_sort\<close> is it: sorted, a permutation,
  stable, and the only list with these properties.
\<close>

locale consistent_comparator =
  fixes cmp :: "'a \<Rightarrow> 'a \<Rightarrow> int" and dom :: "'a \<Rightarrow> bool"
  assumes total: "dom x \<Longrightarrow> dom y \<Longrightarrow> cmp x y \<le> 0 \<or> cmp y x \<le> 0"
    and trans: "dom x \<Longrightarrow> dom y \<Longrightarrow> dom z \<Longrightarrow> cmp x y \<le> 0 \<Longrightarrow> cmp y z \<le> 0 \<Longrightarrow> cmp x z \<le> 0"
begin

lemma insert_sorted:
  "dom x \<Longrightarrow> \<forall>y \<in> set xs. dom y \<Longrightarrow> sorted_wrt (\<lambda>a b. cmp a b \<le> 0) xs \<Longrightarrow>
    sorted_wrt (\<lambda>a b. cmp a b \<le> 0) (js_insert cmp x xs)"
proof (induction xs)
  case (Cons y ys)
  have set_ins: "set (js_insert cmp x ys) = insert x (set ys)"
    by (metis mset_js_insert set_mset_mset set_mset_add_mset_insert)
  show ?case
  proof (cases "cmp x y \<le> 0")
    case True
    with Cons.prems show ?thesis by (auto intro: trans [of x y])
  next
    case False
    with Cons.prems have "cmp y x \<le> 0" using total [of x y] by auto
    with False Cons show ?thesis by (auto simp: set_ins)
  qed
qed simp

lemma sort_sorted:
  "\<forall>x \<in> set xs. dom x \<Longrightarrow> sorted_wrt (\<lambda>a b. cmp a b \<le> 0) (js_sort cmp xs)"
  by (induction xs) (auto intro: insert_sorted)

lemma sort_head_min:
  assumes "\<forall>x \<in> set xs. dom x" and "js_sort cmp xs = h # t" and "y \<in> set xs"
  shows "cmp h y \<le> 0"
proof -
  have sorted: "sorted_wrt (\<lambda>a b. cmp a b \<le> 0) (h # t)"
    using sort_sorted [OF assms(1)] assms(2) by simp
  have y: "y \<in> set (h # t)" and h: "dom h"
    using assms by (metis set_js_sort, metis list.set_intros(1) set_js_sort)
  from h total [of h h] have "cmp h h \<le> 0" by auto
  with sorted y show ?thesis by auto
qed

lemma insert_le_all:
  assumes "\<forall>y \<in> set xs. cmp x y \<le> 0"
  shows "js_insert cmp x xs = x # xs"
  using assms by (cases xs) auto

lemma sort_id:
  "sorted_wrt (\<lambda>a b. cmp a b \<le> 0) xs \<Longrightarrow> js_sort cmp xs = xs"
  by (induction xs) (auto simp: insert_le_all)

lemma stable_insert:
  assumes "dom x" "dom v" "\<forall>y \<in> set xs. dom y"
  shows "filter (\<lambda>y. cmp v y \<le> 0 \<and> cmp y v \<le> 0) (js_insert cmp x xs) =
    filter (\<lambda>y. cmp v y \<le> 0 \<and> cmp y v \<le> 0) (x # xs)"
  using assms
proof (induction xs)
  case (Cons y ys)
  then show ?case using trans [of x v y] trans [of y v x] by auto
qed simp

lemma sort_stable:
  assumes "dom v" and "\<forall>x \<in> set xs. dom x"
  shows "filter (\<lambda>y. cmp v y \<le> 0 \<and> cmp y v \<le> 0) (js_sort cmp xs) =
    filter (\<lambda>y. cmp v y \<le> 0 \<and> cmp y v \<le> 0) xs"
  using assms(2) by (induction xs) (simp_all add: stable_insert [OF _ assms(1)])

end

text \<open>
  A keyed store: what a lookup returns after an insertion or a deletion, and after a loop that fills it.
\<close>

locale keyed_store =
  fixes empty :: "'m" and get :: "'m \<Rightarrow> 'k \<Rightarrow> 'v option"
    and put :: "'m \<Rightarrow> 'k \<Rightarrow> 'v \<Rightarrow> 'm" and del :: "'m \<Rightarrow> 'k \<Rightarrow> 'm" and wf :: "'m \<Rightarrow> bool"
  assumes get_empty: "get empty k = None"
    and get_put: "get (put m k v) k' = (if k' = k then Some v else get m k')"
    and get_del: "get (del m k) k' = (if k' = k then None else get m k')"
    and wf_empty: "wf empty"
    and wf_put: "wf m \<Longrightarrow> wf (put m k v)"
    and wf_del: "wf m \<Longrightarrow> wf (del m k)"
begin

lemma fill_other: "k \<notin> key ` set xs \<Longrightarrow> get (foldl (\<lambda>m x. put m (key x) (val x)) m xs) k = get m k"
  by (induction xs arbitrary: m) (simp_all add: get_put)

lemma fill_get:
  assumes "distinct (map key xs)" and "x \<in> set xs"
  shows "get (foldl (\<lambda>m x. put m (key x) (val x)) m xs) (key x) = Some (val x)"
  using assms by (induction xs arbitrary: m) (auto simp: fill_other get_put image_iff)

end

interpretation jm: keyed_store "[]" jm_get jm_set jm_delete jm_wf
  by unfold_locales (auto simp: jm_wf_set jm_wf_delete)

interpretation jm_lru: keyed_store "[]" jm_get jm_touch jm_delete jm_wf
  by unfold_locales (auto simp: jm_wf_touch jm_wf_delete)

text \<open>
  A component with state: every operation keeps its invariant, so every run does. With an
  abstraction, every run of the component is a run of its specification.
\<close>

locale invariant_system =
  fixes step :: "'s \<Rightarrow> 'e \<Rightarrow> 's" and inv :: "'s \<Rightarrow> bool"
  assumes step_inv: "inv s \<Longrightarrow> inv (step s e)"
begin

lemma run_inv: "inv s \<Longrightarrow> inv (foldl step s es)"
  by (induction es arbitrary: s) (simp_all add: step_inv)

end

locale refined_system = invariant_system step inv
  for step :: "'s \<Rightarrow> 'e \<Rightarrow> 's" and inv :: "'s \<Rightarrow> bool" +
  fixes abs :: "'s \<Rightarrow> 'a" and astep :: "'a \<Rightarrow> 'e \<Rightarrow> 'a"
  assumes step_abs: "inv s \<Longrightarrow> abs (step s e) = astep (abs s) e"
begin

lemma run_abs: "inv s \<Longrightarrow> abs (foldl step s es) = foldl astep (abs s) es"
  by (induction es arbitrary: s) (simp_all add: step_inv step_abs)

end

end
