(* ===== verification/Accounts.thy ===== *)
theory Accounts
  imports JsBase
begin

section \<open>Accounts, providers, models and the shared constants\<close>

text \<open>
  The data every component reads: the \<^verbatim>\<open>Account\<close> domain object
  (\<^verbatim>\<open>packages/types/src/account.ts\<close>), the rate-limit reasons, the provider table
  (\<^verbatim>\<open>packages/types/src/provider-config.ts\<close>), the model families
  (\<^verbatim>\<open>packages/core/src/model-mappings.ts\<close>), the time constants and the backoff ramp
  (\<^verbatim>\<open>packages/core/src/constants.ts\<close>) and the availability test
  (\<^verbatim>\<open>packages/core/src/strategy.ts\<close>). The record has the fields the modelled code reads or
  writes; the remaining columns (tokens, renewal, identity) are carried by no operation here.
\<close>

subsection \<open>Rate-limit reasons\<close>

datatype rate_limit_reason =
    Upstream_429_with_reset
  | Upstream_429_no_reset_probe_cooldown
  | Model_fallback_429
  | All_models_exhausted_429
  | Upstream_529_overloaded_with_reset
  | Upstream_529_overloaded_no_reset
  | Out_of_credits
  | Org_permission_denied
  | Family_weekly_exhausted_429
  | Weekly_exhausted_429
  | Session_exhausted_429

fun reason_string :: "rate_limit_reason \<Rightarrow> string" where
  "reason_string Upstream_429_with_reset = ''upstream_429_with_reset''"
| "reason_string Upstream_429_no_reset_probe_cooldown = ''upstream_429_no_reset_probe_cooldown''"
| "reason_string Model_fallback_429 = ''model_fallback_429''"
| "reason_string All_models_exhausted_429 = ''all_models_exhausted_429''"
| "reason_string Upstream_529_overloaded_with_reset = ''upstream_529_overloaded_with_reset''"
| "reason_string Upstream_529_overloaded_no_reset = ''upstream_529_overloaded_no_reset''"
| "reason_string Out_of_credits = ''out_of_credits''"
| "reason_string Org_permission_denied = ''org_permission_denied''"
| "reason_string Family_weekly_exhausted_429 = ''family_weekly_exhausted_429''"
| "reason_string Weekly_exhausted_429 = ''weekly_exhausted_429''"
| "reason_string Session_exhausted_429 = ''session_exhausted_429''"

definition RATE_LIMIT_REASONS :: "rate_limit_reason list" where
  "RATE_LIMIT_REASONS = [Upstream_429_with_reset, Upstream_429_no_reset_probe_cooldown,
     Model_fallback_429, All_models_exhausted_429, Upstream_529_overloaded_with_reset,
     Upstream_529_overloaded_no_reset, Out_of_credits, Org_permission_denied,
     Family_weekly_exhausted_429, Weekly_exhausted_429, Session_exhausted_429]"

definition isRateLimitReason :: "string \<Rightarrow> bool" where
  "isRateLimitReason value \<longleftrightarrow> value \<in> set (map reason_string RATE_LIMIT_REASONS)"

definition QUOTA_DERIVED_RATE_LIMIT_REASONS :: "rate_limit_reason list" where
  "QUOTA_DERIVED_RATE_LIMIT_REASONS = [Weekly_exhausted_429, Session_exhausted_429]"

definition isQuotaDerivedRateLimitReason :: "rate_limit_reason option \<Rightarrow> bool" where
  "isQuotaDerivedRateLimitReason value = (case value of
     None \<Rightarrow> False | Some r \<Rightarrow> r \<in> set QUOTA_DERIVED_RATE_LIMIT_REASONS)"

subsection \<open>The account\<close>

record account =
  acc_id :: string
  acc_name :: string
  provider :: string
  refresh_token :: string
  rate_limited_until :: "int option"
  rate_limited_reason :: "rate_limit_reason option"
  rate_limited_at :: "int option"
  consecutive_rate_limits :: int
  session_start :: "int option"
  session_request_count :: int
  disabled :: bool
  paused :: bool
  rate_limit_reset :: "int option"
  priority :: int
  auto_fallback_enabled :: bool
  custom_endpoint :: "string option"
  pause_reason :: "string option"
  identity_subscription_ends_at :: "int option"
  identity_subscription_will_renew :: "int option"

subsection \<open>Providers\<close>

definition ANTHROPIC :: string where "ANTHROPIC = ''anthropic''"
definition CLAUDE_CONSOLE_API :: string where "CLAUDE_CONSOLE_API = ''claude-console-api''"
definition ZAI :: string where "ZAI = ''zai''"
definition CODEX :: string where "CODEX = ''codex''"

definition PROVIDER_NAMES :: "string list" where
  "PROVIDER_NAMES = [ANTHROPIC, CLAUDE_CONSOLE_API, ZAI, ''minimax'', ''anthropic-compatible'',
     ''openai-compatible'', ''kilo'', ''openrouter'', ''alibaba-coding-plan'', CODEX, ''devin'',
     ''qwen'', ''ollama'', ''ollama-cloud'', ''grok'', ''mimo'', ''grok-subscription'']"

lemmas provider_name_defs = ANTHROPIC_def CLAUDE_CONSOLE_API_def ZAI_def CODEX_def

definition isKnownProvider :: "string \<Rightarrow> bool" where
  "isKnownProvider p \<longleftrightarrow> p \<in> set PROVIDER_NAMES"

definition isOfficialAnthropicProvider :: "string \<Rightarrow> bool" where
  "isOfficialAnthropicProvider p \<longleftrightarrow> p = ANTHROPIC \<or> p = ''claude-oauth'' \<or> p = CLAUDE_CONSOLE_API"

record provider_config =
  cfg_requiresSessionTracking :: bool
  cfg_supportsUsageTracking :: bool
  cfg_supportsUsagePolling :: bool
  cfg_supportsOAuth :: bool
  cfg_honoursCustomEndpoint :: bool
  cfg_defaultEndpoint :: string

definition pcfg :: "bool \<Rightarrow> bool \<Rightarrow> bool \<Rightarrow> bool \<Rightarrow> bool \<Rightarrow> string \<Rightarrow> provider_config" where
  "pcfg st ut up oa ce ep = \<lparr>cfg_requiresSessionTracking = st, cfg_supportsUsageTracking = ut,
     cfg_supportsUsagePolling = up, cfg_supportsOAuth = oa, cfg_honoursCustomEndpoint = ce,
     cfg_defaultEndpoint = ep\<rparr>"

definition PROVIDER_CONFIG :: "(string, provider_config) jsmap" where
  "PROVIDER_CONFIG = [
    (''devin'', pcfg False True True False True ''https://server.codeium.com''),
    (ANTHROPIC, pcfg True True True True True ''https://api.anthropic.com''),
    (CLAUDE_CONSOLE_API, pcfg False False False False True ''https://api.anthropic.com''),
    (ZAI, pcfg True True True False False ''https://api.z.ai/api/anthropic''),
    (''minimax'', pcfg False True False False False ''https://api.minimax.io/anthropic''),
    (''anthropic-compatible'', pcfg False False False False True ''https://api.anthropic.com''),
    (''openai-compatible'', pcfg False False False False True ''https://api.anthropic.com''),
    (''kilo'', pcfg False True True False True ''https://api.kilo.ai/api/gateway''),
    (''openrouter'', pcfg False False False False True ''https://openrouter.ai/api/v1''),
    (''alibaba-coding-plan'', pcfg False False False False True
       ''https://coding-intl.dashscope.aliyuncs.com/apps/anthropic''),
    (CODEX, pcfg True False False True True ''https://chatgpt.com/backend-api/codex/responses''),
    (''qwen'', pcfg False True False True True ''https://dashscope.aliyuncs.com/compatible-mode/v1''),
    (''ollama'', pcfg False False False False True ''http://localhost:11434''),
    (''ollama-cloud'', pcfg False False False False False ''https://ollama.com''),
    (''grok'', pcfg False False False False False ''https://api.x.ai''),
    (''mimo'', pcfg False False False False True ''https://token-plan-sgp.xiaomimimo.com/anthropic''),
    (''grok-subscription'', pcfg False True True True False ''https://cli-chat-proxy.grok.com'')]"

text \<open>
  The capability tests look the provider up after \<^verbatim>\<open>isKnownProvider\<close>; a name that is not
  known, or has no entry, is denied.
\<close>

definition capability :: "(provider_config \<Rightarrow> bool) \<Rightarrow> string \<Rightarrow> bool" where
  "capability flag p = (if \<not> isKnownProvider p then False
     else case jm_get PROVIDER_CONFIG p of None \<Rightarrow> False | Some c \<Rightarrow> flag c)"

definition requiresSessionDurationTracking :: "string \<Rightarrow> bool" where
  "requiresSessionDurationTracking p = capability cfg_requiresSessionTracking p"

definition supportsUsageTracking :: "string \<Rightarrow> bool" where
  "supportsUsageTracking p = capability cfg_supportsUsageTracking p"

definition supportsUsagePolling :: "string \<Rightarrow> bool" where
  "supportsUsagePolling p = capability cfg_supportsUsagePolling p"

definition supportsCustomEndpoint :: "string \<Rightarrow> bool" where
  "supportsCustomEndpoint p = capability cfg_honoursCustomEndpoint p"

definition supportsOAuth :: "string \<Rightarrow> bool" where
  "supportsOAuth p = capability cfg_supportsOAuth p"

definition getDefaultEndpoint :: "string \<Rightarrow> string" where
  "getDefaultEndpoint p = (if \<not> isKnownProvider p then ''https://api.anthropic.com''
     else case jm_get PROVIDER_CONFIG p of
       None \<Rightarrow> ''https://api.anthropic.com''
     | Some c \<Rightarrow> if cfg_defaultEndpoint c = [] then ''https://api.anthropic.com'' else cfg_defaultEndpoint c)"

definition usesApiKey :: "string \<Rightarrow> bool" where
  "usesApiKey p = (if \<not> isKnownProvider p then False else p \<noteq> ANTHROPIC)"

datatype account_mode = Mode_claude_oauth | Mode_console | Mode_zai | Mode_minimax
  | Mode_anthropic_compatible | Mode_openai_compatible | Mode_ollama

fun getProviderFromMode :: "account_mode \<Rightarrow> string" where
  "getProviderFromMode Mode_claude_oauth = ANTHROPIC"
| "getProviderFromMode Mode_console = CLAUDE_CONSOLE_API"
| "getProviderFromMode Mode_zai = ZAI"
| "getProviderFromMode Mode_minimax = ''minimax''"
| "getProviderFromMode Mode_anthropic_compatible = ''anthropic-compatible''"
| "getProviderFromMode Mode_openai_compatible = ''openai-compatible''"
| "getProviderFromMode Mode_ollama = ''ollama''"

text \<open>An account on the official Anthropic OAuth provider that carries a refresh token.\<close>

definition isOAuthAnthropicAccount :: "account \<Rightarrow> bool" where
  "isOAuthAnthropicAccount a \<longleftrightarrow> provider a = ANTHROPIC \<and> supportsUsageTracking (provider a)
     \<and> length (refresh_token a) > 0"

subsection \<open>Model families\<close>

datatype model_family = Opus | Haiku | Sonnet | Fable

fun family_string :: "model_family \<Rightarrow> string" where
  "family_string Opus = ''opus''"
| "family_string Haiku = ''haiku''"
| "family_string Sonnet = ''sonnet''"
| "family_string Fable = ''fable''"

definition KNOWN_PATTERNS :: "model_family list" where
  "KNOWN_PATTERNS = [Opus, Haiku, Sonnet, Fable]"

definition getModelFamily :: "string \<Rightarrow> model_family option" where
  "getModelFamily modelId = (let normalized = to_lower modelId in
     if str_includes normalized ''mythos'' then Some Fable
     else List.find (\<lambda>f. str_includes normalized (family_string f)) KNOWN_PATTERNS)"

definition FAMILY_PRIORITY :: "model_family list" where
  "FAMILY_PRIORITY = [Fable, Opus, Sonnet, Haiku]"

definition isProtectedFamily :: "model_family option \<Rightarrow> bool" where
  "isProtectedFamily f \<longleftrightarrow> f = Some (hd FAMILY_PRIORITY)"

definition isValidClaudeModel :: "string \<Rightarrow> bool" where
  "isValidClaudeModel m \<longleftrightarrow> getModelFamily m \<noteq> None"

subsection \<open>Time constants and the backoff ramp\<close>

definition ANTHROPIC_SESSION_DURATION_DEFAULT :: int where
  "ANTHROPIC_SESSION_DURATION_DEFAULT = 5 * 60 * 60 * 1000"
definition STREAM_FORWARD_TOTAL_TIMEOUT_MS :: int where
  "STREAM_FORWARD_TOTAL_TIMEOUT_MS = 30 * 60 * 1000"
definition PROXY_REQUEST_TIMEOUT_MS :: int where
  "PROXY_REQUEST_TIMEOUT_MS = 30 * 60 * 1000"
definition RATE_LIMIT_BACKOFF_BASE_MS :: int where
  "RATE_LIMIT_BACKOFF_BASE_MS = 30 * 1000"
definition RATE_LIMIT_BACKOFF_MAX_MS :: int where
  "RATE_LIMIT_BACKOFF_MAX_MS = 5 * 60 * 1000"
definition RATE_LIMIT_RESET_STABILITY_MS :: int where
  "RATE_LIMIT_RESET_STABILITY_MS = 5 * 60 * 1000"

definition computeRateLimitBackoffMs :: "int \<Rightarrow> int" where
  "computeRateLimitBackoffMs consecutiveCount =
     (let base = RATE_LIMIT_BACKOFF_BASE_MS;
          mx = RATE_LIMIT_BACKOFF_MAX_MS;
          n = max 1 consecutiveCount;
          exp = min (n - 1) 30
      in min (base * 2 ^ nat exp) mx)"

subsection \<open>Availability\<close>

definition isAccountAvailable :: "account \<Rightarrow> int \<Rightarrow> bool" where
  "isAccountAvailable a now \<longleftrightarrow> \<not> disabled a \<and> \<not> paused a
     \<and> (\<not> truthy (rate_limited_until a) \<or> the (rate_limited_until a) < now)"

definition nonRenewingSubscriptionEnd :: "account \<Rightarrow> int \<Rightarrow> int option" where
  "nonRenewingSubscriptionEnd a now =
     (if provider a \<noteq> CODEX then None
      else if identity_subscription_will_renew a \<noteq> Some 0 then None
      else case identity_subscription_ends_at a of
        None \<Rightarrow> None
      | Some e \<Rightarrow> if e \<le> now then None else Some e)"

text \<open>
  A row object is identified by its id: writing a field of the object named \<^verbatim>\<open>i\<close> is seen
  through every list that holds it.
\<close>

definition upd_account :: "string \<Rightarrow> (account \<Rightarrow> account) \<Rightarrow> account list \<Rightarrow> account list" where
  "upd_account i f as = map (\<lambda>a. if acc_id a = i then f a else a) as"

definition find_account :: "account list \<Rightarrow> string \<Rightarrow> account option" where
  "find_account as i = List.find (\<lambda>a. acc_id a = i) as"

subsection \<open>Lemmas\<close>

lemma reason_string_inj: "reason_string r = reason_string r' \<longleftrightarrow> r = r'"
  by (cases r; cases r'; simp)

lemma all_reasons: "r \<in> set RATE_LIMIT_REASONS"
  by (cases r) (simp_all add: RATE_LIMIT_REASONS_def)

lemma known_has_config: "isKnownProvider p \<longleftrightarrow> jm_get PROVIDER_CONFIG p \<noteq> None"
  by (auto simp: isKnownProvider_def PROVIDER_NAMES_def PROVIDER_CONFIG_def jm_get_def
      provider_name_defs)

lemma provider_config_wf: "jm_wf PROVIDER_CONFIG"
  by (simp add: PROVIDER_CONFIG_def provider_name_defs)

lemma capability_iff: "capability flag p \<longleftrightarrow> p \<in> set (jm_keys (filter (\<lambda>(_, c). flag c) PROVIDER_CONFIG))"
proof (cases "jm_get PROVIDER_CONFIG p")
  case None
  then have "p \<notin> set (jm_keys PROVIDER_CONFIG)" by (simp add: jm_get_None)
  moreover from None known_has_config have "\<not> isKnownProvider p" by simp
  ultimately show ?thesis by (auto simp: capability_def rev_image_eqI)
next
  case (Some c)
  then have "(p, c') \<in> set PROVIDER_CONFIG \<longleftrightarrow> c' = c" for c'
    using jm_get_iff [OF provider_config_wf, of p c'] by auto
  with Some known_has_config [of p] show ?thesis
    by (simp add: capability_def image_iff)
qed

lemma session_tracking_iff:
  "requiresSessionDurationTracking p \<longleftrightarrow> p \<in> {ANTHROPIC, ZAI, CODEX}"
proof -
  have "jm_keys (filter (\<lambda>(_, c). cfg_requiresSessionTracking c) PROVIDER_CONFIG) = [ANTHROPIC, ZAI, CODEX]"
    by (simp add: PROVIDER_CONFIG_def pcfg_def)
  then show ?thesis
    by (simp only: requiresSessionDurationTracking_def capability_iff list.set)
qed

lemma usage_tracking_iff:
  "supportsUsageTracking p \<longleftrightarrow> p \<in> {''devin'', ANTHROPIC, ZAI, ''minimax'', ''kilo'', ''qwen'', ''grok-subscription''}"
proof -
  have "jm_keys (filter (\<lambda>(_, c). cfg_supportsUsageTracking c) PROVIDER_CONFIG) =
      [''devin'', ANTHROPIC, ZAI, ''minimax'', ''kilo'', ''qwen'', ''grok-subscription'']"
    by (simp add: PROVIDER_CONFIG_def pcfg_def)
  then show ?thesis
    by (simp only: supportsUsageTracking_def capability_iff list.set)
qed

lemma usage_polling_iff:
  "supportsUsagePolling p \<longleftrightarrow> p \<in> {''devin'', ANTHROPIC, ZAI, ''kilo'', ''grok-subscription''}"
proof -
  have "jm_keys (filter (\<lambda>(_, c). cfg_supportsUsagePolling c) PROVIDER_CONFIG) =
      [''devin'', ANTHROPIC, ZAI, ''kilo'', ''grok-subscription'']"
    by (simp add: PROVIDER_CONFIG_def pcfg_def)
  then show ?thesis
    by (simp only: supportsUsagePolling_def capability_iff list.set)
qed

lemma isOAuthAnthropicAccount_iff:
  "isOAuthAnthropicAccount a \<longleftrightarrow> provider a = ANTHROPIC \<and> refresh_token a \<noteq> []"
  by (auto simp: isOAuthAnthropicAccount_def usage_tracking_iff)

lemma family_string_inj: "family_string f = family_string g \<longleftrightarrow> f = g"
  by (cases f; cases g; simp)

lemma family_string_not_empty [simp]: "family_string f \<noteq> []"
  by (cases f) auto

lemma backoff_bounds:
  "RATE_LIMIT_BACKOFF_BASE_MS \<le> computeRateLimitBackoffMs n"
  "computeRateLimitBackoffMs n \<le> RATE_LIMIT_BACKOFF_MAX_MS"
proof -
  have "(1 :: int) \<le> 2 ^ k" for k :: nat by simp
  then show "RATE_LIMIT_BACKOFF_BASE_MS \<le> computeRateLimitBackoffMs n"
    by (simp add: computeRateLimitBackoffMs_def Let_def RATE_LIMIT_BACKOFF_BASE_MS_def
        RATE_LIMIT_BACKOFF_MAX_MS_def)
qed (simp add: computeRateLimitBackoffMs_def Let_def)

lemma backoff_mono:
  assumes "m \<le> n"
  shows "computeRateLimitBackoffMs m \<le> computeRateLimitBackoffMs n"
proof -
  have "nat (min (max 1 m - 1) 30) \<le> nat (min (max 1 n - 1) 30)"
    using assms by (intro nat_mono) auto
  then have "(2 :: int) ^ nat (min (max 1 m - 1) 30) \<le> 2 ^ nat (min (max 1 n - 1) 30)"
    by (rule power_increasing) simp
  then have "RATE_LIMIT_BACKOFF_BASE_MS * 2 ^ nat (min (max 1 m - 1) 30) \<le>
      RATE_LIMIT_BACKOFF_BASE_MS * 2 ^ nat (min (max 1 n - 1) 30)"
    by (rule mult_left_mono) (simp add: RATE_LIMIT_BACKOFF_BASE_MS_def)
  then show ?thesis
    unfolding computeRateLimitBackoffMs_def Let_def by (rule min.mono) (rule order_refl)
qed

lemma available_paused: "isAccountAvailable a now \<Longrightarrow> \<not> paused a"
  by (simp add: isAccountAvailable_def)

lemma upd_account_ids [simp]:
  assumes "\<And>a. acc_id (f a) = acc_id a"
  shows "map acc_id (upd_account i f as) = map acc_id as"
  by (simp add: upd_account_def assms)

lemma find_account_Some:
  "find_account as i = Some a \<Longrightarrow> a \<in> set as \<and> acc_id a = i"
  by (auto simp: find_account_def find_Some_iff)

lemma find_account_eq:
  assumes "distinct (map acc_id as)" and "a \<in> set as"
  shows "find_account as (acc_id a) = Some a"
  using assms by (induction as) (auto simp: find_account_def rev_image_eqI)

lemma find_account_upd:
  assumes "find_account as i = Some a" and "acc_id b = i"
  shows "find_account (upd_account i (\<lambda>_. b) as) i = Some b" and "b \<in> set (upd_account i (\<lambda>_. b) as)"
  using assms by (induction as) (auto simp: find_account_def upd_account_def split: if_splits)

lemma upd_account_ids_const:
  "acc_id b = i \<Longrightarrow> map acc_id (upd_account i (\<lambda>_. b) as) = map acc_id as"
  by (simp add: upd_account_def)

text \<open>A healthy account of the official endpoint, for concrete instances.\<close>

definition sample_account :: "string \<Rightarrow> int \<Rightarrow> account" where
  "sample_account i p = \<lparr>acc_id = i, acc_name = i, provider = ANTHROPIC, refresh_token = ''t'',
     rate_limited_until = None, rate_limited_reason = None, rate_limited_at = None,
     consecutive_rate_limits = 0, session_start = None, session_request_count = 0, disabled = False,
     paused = False, rate_limit_reset = None, priority = p, auto_fallback_enabled = False,
     custom_endpoint = None, pause_reason = None, identity_subscription_ends_at = None,
     identity_subscription_will_renew = None\<rparr>"

end
