(* ===== verification/Availability.thy ===== *)
theory Availability
  imports Accounts
begin

section \<open>Pause reasons and the auto-unpause gate\<close>

text \<open>
  \<^verbatim>\<open>load-balancer/src/strategies/pause-reasons.ts\<close> and \<^verbatim>\<open>peek-availability.ts\<close>: which
  pauses the balancer may clear on its own, when a paused account's usage window has rolled,
  and the side-effect-free availability test that anticipates the unpause.
  Shown: the anticipated availability is exactly the availability after the unpause, and a
  pause an operator set is never cleared.
\<close>

definition isSelfHealingPauseReason :: "string option \<Rightarrow> bool" where
  "isSelfHealingPauseReason reason \<longleftrightarrow> reason = None \<or> reason = Some [] \<or>
     reason = Some ''overage'' \<or> reason = Some ''rate_limit_window''"

definition RATE_LIMIT_RESET_BUFFER_MS :: int where
  "RATE_LIMIT_RESET_BUFFER_MS = 1000"

definition supportsWindowResetUnpause :: "string \<Rightarrow> bool" where
  "supportsWindowResetUnpause p \<longleftrightarrow> p = ANTHROPIC \<or> p = CODEX \<or> p = ZAI"

definition isAutoUnpauseCandidate :: "account \<Rightarrow> int \<Rightarrow> bool" where
  "isAutoUnpauseCandidate a now =
     (if disabled a \<or> \<not> paused a then False
      else if \<not> auto_fallback_enabled a then False
      else if \<not> supportsWindowResetUnpause (provider a) then False
      else if \<not> (case rate_limit_reset a of None \<Rightarrow> False
                 | Some r \<Rightarrow> r < now - RATE_LIMIT_RESET_BUFFER_MS) then False
      else if truthy (rate_limited_until a) \<and> the (rate_limited_until a) \<ge> now then False
      else True)"

definition wouldAutoUnpause :: "account \<Rightarrow> int \<Rightarrow> bool" where
  "wouldAutoUnpause a now \<longleftrightarrow> isAutoUnpauseCandidate a now \<and> isSelfHealingPauseReason (pause_reason a)"

definition isPeekAvailable :: "account \<Rightarrow> int \<Rightarrow> bool" where
  "isPeekAvailable a now =
     (if isAccountAvailable a now then True
      else if \<not> wouldAutoUnpause a now then False
      else \<not> truthy (rate_limited_until a) \<or> the (rate_limited_until a) < now)"

text \<open>The write the strategies perform on the row object when they resume an account.\<close>

definition auto_unpause :: "int \<Rightarrow> account \<Rightarrow> account" where
  "auto_unpause now a = (if wouldAutoUnpause a now then a\<lparr>paused := False\<rparr> else a)"

subsection \<open>Lemmas\<close>

lemma auto_unpause_fields [simp]:
  "acc_id (auto_unpause now a) = acc_id a" "priority (auto_unpause now a) = priority a"
  "provider (auto_unpause now a) = provider a" "acc_name (auto_unpause now a) = acc_name a"
  "session_start (auto_unpause now a) = session_start a"
  "rate_limited_until (auto_unpause now a) = rate_limited_until a"
  "rate_limited_reason (auto_unpause now a) = rate_limited_reason a"
  "disabled (auto_unpause now a) = disabled a"
  "identity_subscription_ends_at (auto_unpause now a) = identity_subscription_ends_at a"
  "identity_subscription_will_renew (auto_unpause now a) = identity_subscription_will_renew a"
  by (simp_all add: auto_unpause_def)

lemma isAutoUnpauseCandidateD:
  assumes "isAutoUnpauseCandidate a now"
  shows "paused a" "\<not> disabled a" "auto_fallback_enabled a"
    "\<not> truthy (rate_limited_until a) \<or> the (rate_limited_until a) < now"
  using assms by (auto simp: isAutoUnpauseCandidate_def split: if_splits)

lemma candidate_unpause:
  "wouldAutoUnpause a now \<Longrightarrow> isAccountAvailable (a\<lparr>paused := False\<rparr>) now"
  using isAutoUnpauseCandidateD [of a now]
  by (auto simp: wouldAutoUnpause_def isAccountAvailable_def)

lemma peek_available_iff: "isPeekAvailable a now \<longleftrightarrow> isAccountAvailable (auto_unpause now a) now"
  using isAutoUnpauseCandidateD [of a now] candidate_unpause [of a now]
  by (auto simp: isPeekAvailable_def auto_unpause_def wouldAutoUnpause_def)

lemma durable_pause_kept:
  "\<not> isSelfHealingPauseReason (pause_reason a) \<Longrightarrow> auto_unpause now a = a"
  by (simp add: auto_unpause_def wouldAutoUnpause_def)

end
