(* ===== verification/Affinity.thy ===== *)
theory Affinity
  imports Availability
begin

section \<open>Cache-affinity pins of the session strategy\<close>

text \<open>
  The affinity map of \<^verbatim>\<open>SessionStrategy\<close> (\<^verbatim>\<open>load-balancer/src/strategies/index.ts\<close>): which
  account a conversation, and each model of it, is pinned to. The state is the four fields
  the map operations write, as an extensible record the strategy's own state extends. The
  SHA-256 of \<^verbatim>\<open>node:crypto\<close> is the parameter \<open>hash\<close>.
  Shown: the map stays keyed, in least-recently-used order and bounded under every sequence
  of operations; the early-stopping sweep removes exactly the stale pins; an export read back
  into an empty map is the same map; an import never replaces a newer pin.
\<close>

subsection \<open>Requests and keys\<close>

datatype affinity_scope = Claude_session | Codex_thread | Client_session | Project_scope

fun scope_string :: "affinity_scope \<Rightarrow> string" where
  "scope_string Claude_session = ''claude_session''"
| "scope_string Codex_thread = ''codex_thread''"
| "scope_string Client_session = ''client_session''"
| "scope_string Project_scope = ''project''"

record routing_meta =
  rt_strategy :: string
  rt_decision :: string
  rt_affinityScope :: "affinity_scope option"
  rt_affinityKey :: "string option"
  rt_selectedAccountId :: "string option"
  rt_previousAccountId :: "string option"
  rt_candidatesCount :: nat
  rt_failoverReason :: "string option"
  rt_heldAccountId :: "string option"

record request_meta =
  affinityKey :: "string option"
  affinityScope :: "affinity_scope option"
  affinityPartition :: "string option"
  affinityModel :: "string option"
  project :: "string option"
  bypassHeader :: "string option"
  internal :: bool
  routing :: "routing_meta option"

definition hashRoutingAffinityKey :: "(string \<Rightarrow> string) \<Rightarrow> string option \<Rightarrow> string option" where
  "hashRoutingAffinityKey hash v = (case v of None \<Rightarrow> None | Some s \<Rightarrow> if s = [] then None else Some (hash s))"

definition getAffinityKey :: "request_meta \<Rightarrow> string option" where
  "getAffinityKey meta =
     (let prefix = (case trimmed (affinityPartition meta) of
            None \<Rightarrow> [] | Some p \<Rightarrow> ''partition:'' @ p @ '':'')
      in case (trimmed (affinityKey meta), affinityScope meta) of
        (Some k, Some sc) \<Rightarrow> Some (prefix @ scope_string sc @ '':'' @ k)
      | _ \<Rightarrow> (case trimmed (project meta) of
          None \<Rightarrow> None
        | Some pr \<Rightarrow> Some (prefix @ ''project:'' @ pr)))"

definition getAffinityModel :: "request_meta \<Rightarrow> string option" where
  "getAffinityModel meta = trimmed (affinityModel meta)"

definition MODEL_PIN_SEPARATOR :: string where
  "MODEL_PIN_SEPARATOR = [CHR 0x00]"

record map_keys =
  pin_key :: string
  anchor_key :: "string option"

definition getAffinityMapKeys :: "(string \<Rightarrow> string) \<Rightarrow> request_meta \<Rightarrow> map_keys option" where
  "getAffinityMapKeys hash meta =
     (case getAffinityKey meta of
        None \<Rightarrow> None
      | Some conversation \<Rightarrow>
          (case hashRoutingAffinityKey hash (Some conversation) of
             None \<Rightarrow> None
           | Some conversationKey \<Rightarrow>
               if conversationKey = [] then None
               else case getAffinityModel meta of
                 None \<Rightarrow> Some \<lparr>pin_key = conversationKey, anchor_key = None\<rparr>
               | Some model \<Rightarrow> Some \<lparr>pin_key = hash (conversation @ MODEL_PIN_SEPARATOR @ model),
                                   anchor_key = Some conversationKey\<rparr>))"

definition getAffinityScope :: "request_meta \<Rightarrow> affinity_scope option" where
  "getAffinityScope meta =
     (case (trimmed (affinityKey meta), affinityScope meta) of
        (Some _, Some sc) \<Rightarrow> Some sc
      | _ \<Rightarrow> (case trimmed (project meta) of None \<Rightarrow> None | Some _ \<Rightarrow> Some Project_scope))"

subsection \<open>The pin map\<close>

record affinity_entry =
  entry_accountId :: string
  entry_lastUsedAt :: int

record affinity_state =
  sessionDurationMs :: int
  affinityByKey :: "(string, affinity_entry) jsmap"
  affinityChanges :: int
  lastAffinityStamp :: int

definition AFFINITY_REASSIGN_MIN_COOLDOWN_MS :: int where
  "AFFINITY_REASSIGN_MIN_COOLDOWN_MS = 15 * 60 * 1000"

definition MAX_AFFINITY_ENTRIES :: nat where
  "MAX_AFFINITY_ENTRIES = 10000"

definition TRANSIENT_RATE_LIMIT_REASONS :: "rate_limit_reason list" where
  "TRANSIENT_RATE_LIMIT_REASONS = [Upstream_529_overloaded_with_reset,
     Upstream_529_overloaded_no_reset, Upstream_429_no_reset_probe_cooldown]"

definition pruneAffinity :: "int \<Rightarrow> 'a affinity_state_scheme \<Rightarrow> 'a affinity_state_scheme" where
  "pruneAffinity now s =
     (let staleBefore = now - sessionDurationMs s;
          swept = dropWhile (\<lambda>(_, e). \<not> entry_lastUsedAt e \<ge> staleBefore) (affinityByKey s);
          s1 = s\<lparr>affinityByKey := swept,
                 affinityChanges := (if length swept \<noteq> length (affinityByKey s)
                   then affinityChanges s + 1 else affinityChanges s)\<rparr>
      in if length swept \<le> MAX_AFFINITY_ENTRIES then s1
         else s1\<lparr>affinityByKey := drop (length swept - MAX_AFFINITY_ENTRIES) swept,
                 affinityChanges := affinityChanges s1 + 1\<rparr>)"

definition rememberAffinity ::
  "(string \<Rightarrow> string) \<Rightarrow> request_meta \<Rightarrow> string \<Rightarrow> int \<Rightarrow> 'a affinity_state_scheme \<Rightarrow> 'a affinity_state_scheme" where
  "rememberAffinity hash meta accountId now s =
     (case getAffinityMapKeys hash meta of
        None \<Rightarrow> s
      | Some ks \<Rightarrow>
          (let stamp = (if now > lastAffinityStamp s then now else lastAffinityStamp s);
               m1 = jm_touch (affinityByKey s) (pin_key ks)
                      \<lparr>entry_accountId = accountId, entry_lastUsedAt = stamp\<rparr>;
               m2 = (case anchor_key ks of
                   None \<Rightarrow> m1
                 | Some anchor \<Rightarrow>
                     (let anchorAccountId = (case jm_get m1 anchor of
                            None \<Rightarrow> accountId | Some e \<Rightarrow> entry_accountId e)
                      in jm_touch m1 anchor \<lparr>entry_accountId = anchorAccountId, entry_lastUsedAt = stamp\<rparr>))
           in pruneAffinity now (s\<lparr>lastAffinityStamp := stamp, affinityByKey := m2,
                 affinityChanges := affinityChanges s + 1\<rparr>)))"

definition clearAffinityForAccount ::
  "string \<Rightarrow> 'a affinity_state_scheme \<Rightarrow> 'a affinity_state_scheme \<times> nat" where
  "clearAffinityForAccount accountId s =
     (let kept = filter (\<lambda>(_, e). entry_accountId e \<noteq> accountId) (affinityByKey s);
          cleared = length (affinityByKey s) - length kept
      in (s\<lparr>affinityByKey := kept,
            affinityChanges := (if cleared > 0 then affinityChanges s + 1 else affinityChanges s)\<rparr>,
          cleared))"

record affinity_pin =
  pin_keyHash :: string
  pin_accountId :: string
  pin_lastUsedAt :: int

definition exportAffinity :: "'a affinity_state_scheme \<Rightarrow> affinity_pin list" where
  "exportAffinity s = map (\<lambda>(k, e). \<lparr>pin_keyHash = k, pin_accountId = entry_accountId e,
     pin_lastUsedAt = entry_lastUsedAt e\<rparr>) (affinityByKey s)"

text \<open>One turn of the merge loop of \<^verbatim>\<open>importAffinity\<close>: the merged map and the changed flag.\<close>

definition import_pin :: "int \<Rightarrow> int \<Rightarrow> (string, affinity_entry) jsmap \<times> bool \<Rightarrow> affinity_pin \<Rightarrow>
    (string, affinity_entry) jsmap \<times> bool" where
  "import_pin now staleBefore mc p =
     (let (merged, changed) = mc; stamp = min (pin_lastUsedAt p) now in
      if \<not> stamp \<ge> staleBefore then (merged, changed)
      else case jm_get merged (pin_keyHash p) of
        Some current \<Rightarrow>
          if entry_lastUsedAt current \<ge> stamp then (merged, changed)
          else (jm_touch merged (pin_keyHash p)
                  \<lparr>entry_accountId = pin_accountId p, entry_lastUsedAt = stamp\<rparr>, True)
      | None \<Rightarrow> (jm_touch merged (pin_keyHash p)
                  \<lparr>entry_accountId = pin_accountId p, entry_lastUsedAt = stamp\<rparr>, True))"

definition cmp_stamp :: "string \<times> affinity_entry \<Rightarrow> string \<times> affinity_entry \<Rightarrow> int" where
  "cmp_stamp a b = cmp_num (entry_lastUsedAt (snd a)) (entry_lastUsedAt (snd b))"

definition importAffinity ::
  "affinity_pin list \<Rightarrow> int \<Rightarrow> 'a affinity_state_scheme \<Rightarrow> 'a affinity_state_scheme" where
  "importAffinity pins now s =
     (let staleBefore = now - sessionDurationMs s;
          (merged, changed) = foldl (import_pin now staleBefore) (affinityByKey s, False) pins
      in if \<not> changed then s
         else let sorted_pins = js_sort cmp_stamp merged;
                  ordered = drop (length sorted_pins - MAX_AFFINITY_ENTRIES) sorted_pins;
                  rebuilt = foldl (\<lambda>m (k, e). jm_set m k e) [] ordered;
                  stamp = foldl (\<lambda>st (k, e). if entry_lastUsedAt e > st then entry_lastUsedAt e else st)
                            (lastAffinityStamp s) ordered
              in s\<lparr>affinityByKey := rebuilt, lastAffinityStamp := stamp,
                   affinityChanges := affinityChanges s + 1\<rparr>)"

subsection \<open>Resolution\<close>

datatype affinity_resolution =
    Hit account
  | Hold string
  | Miss
  | Reassign string

definition isAffinityBreakingUnavailability :: "account \<Rightarrow> int \<Rightarrow> bool" where
  "isAffinityBreakingUnavailability a now =
     (if paused a then True
      else if rate_limited_reason a = Some Org_permission_denied then True
      else if \<not> truthy (rate_limited_until a) \<or> the (rate_limited_until a) \<le> now then False
      else if (case rate_limited_reason a of None \<Rightarrow> False
               | Some r \<Rightarrow> r \<in> set TRANSIENT_RATE_LIMIT_REASONS) then False
      else the (rate_limited_until a) - now > AFFINITY_REASSIGN_MIN_COOLDOWN_MS)"

definition drop_pin :: "string \<Rightarrow> 'a affinity_state_scheme \<Rightarrow> 'a affinity_state_scheme" where
  "drop_pin key s = s\<lparr>affinityByKey := jm_delete (affinityByKey s) key,
     affinityChanges := affinityChanges s + 1\<rparr>"

definition resolveAffinity ::
  "account list \<Rightarrow> string option \<Rightarrow> int \<Rightarrow> (account \<Rightarrow> bool) \<Rightarrow> 'a affinity_state_scheme \<Rightarrow>
     'a affinity_state_scheme \<times> affinity_resolution" where
  "resolveAffinity accounts key now isAvailable s0 =
     (let s = pruneAffinity now s0 in
      case key of
        None \<Rightarrow> (s, Miss)
      | Some k \<Rightarrow>
          if k = [] then (s, Miss)
          else case jm_get (affinityByKey s) k of
            None \<Rightarrow> (s, Miss)
          | Some entry \<Rightarrow>
              (case find_account accounts (entry_accountId entry) of
                 None \<Rightarrow> (drop_pin k s, Reassign (entry_accountId entry))
               | Some a \<Rightarrow>
                   if isAvailable a then (s, Hit a)
                   else if isAffinityBreakingUnavailability a now
                     then (drop_pin k s, Reassign (entry_accountId entry))
                   else (s, Hold (entry_accountId entry))))"

definition resolveAnchor ::
  "account list \<Rightarrow> string \<Rightarrow> (account \<Rightarrow> bool) \<Rightarrow> 'a affinity_state_scheme \<Rightarrow> account option" where
  "resolveAnchor accounts anchorKey isAvailable s =
     (case jm_get (affinityByKey s) anchorKey of
        None \<Rightarrow> None
      | Some entry \<Rightarrow>
          (case find_account accounts (entry_accountId entry) of
             None \<Rightarrow> None
           | Some a \<Rightarrow> if isAvailable a then Some a else None))"

subsection \<open>The operations as one system, and its invariant\<close>

datatype affinity_event =
    Remember request_meta string int
  | Clear_account string
  | Import "affinity_pin list" int
  | Prune int
  | Resolve "account list" "string option" int

definition affinity_step ::
  "(string \<Rightarrow> string) \<Rightarrow> 'a affinity_state_scheme \<Rightarrow> affinity_event \<Rightarrow> 'a affinity_state_scheme" where
  "affinity_step hash s ev = (case ev of
     Remember meta accountId now \<Rightarrow> rememberAffinity hash meta accountId now s
   | Clear_account accountId \<Rightarrow> fst (clearAffinityForAccount accountId s)
   | Import pins now \<Rightarrow> importAffinity pins now s
   | Prune now \<Rightarrow> pruneAffinity now s
   | Resolve accounts key now \<Rightarrow> fst (resolveAffinity accounts key now (\<lambda>a. isAccountAvailable a now) s))"

abbreviation stamps :: "(string, affinity_entry) jsmap \<Rightarrow> int list" where
  "stamps m \<equiv> map (\<lambda>x. entry_lastUsedAt (snd x)) m"

definition affinity_inv :: "'a affinity_state_scheme \<Rightarrow> bool" where
  "affinity_inv s \<longleftrightarrow> jm_wf (affinityByKey s) \<and> sorted (stamps (affinityByKey s))
     \<and> (\<forall>x \<in> set (affinityByKey s). entry_lastUsedAt (snd x) \<le> lastAffinityStamp s)
     \<and> length (affinityByKey s) \<le> MAX_AFFINITY_ENTRIES"

text \<open>The account a key is pinned to.\<close>

definition pinned :: "'a affinity_state_scheme \<Rightarrow> string \<Rightarrow> string option" where
  "pinned s k = map_option entry_accountId (jm_get (affinityByKey s) k)"

subsection \<open>The map stays ordered and bounded\<close>

interpretation stamp_order: consistent_comparator cmp_stamp "\<lambda>_. True"
  by unfold_locales (auto simp: cmp_stamp_def)

lemma sorted_stamps: "sorted_wrt (\<lambda>a b. cmp_stamp a b \<le> 0) m \<longleftrightarrow> sorted (stamps m)"
  by (simp add: cmp_stamp_def sorted_wrt_map)

text \<open>The invariant without the bound on the size, which an operation may exceed until it prunes.\<close>

definition affinity_ordered :: "'a affinity_state_scheme \<Rightarrow> bool" where
  "affinity_ordered s \<longleftrightarrow> jm_wf (affinityByKey s) \<and> sorted (stamps (affinityByKey s))
     \<and> (\<forall>x \<in> set (affinityByKey s). entry_lastUsedAt (snd x) \<le> lastAffinityStamp s)"

lemma affinity_inv_iff:
  "affinity_inv s \<longleftrightarrow> affinity_ordered s \<and> length (affinityByKey s) \<le> MAX_AFFINITY_ENTRIES"
  by (auto simp: affinity_inv_def affinity_ordered_def)

lemma prune_frame [simp]:
  "sessionDurationMs (pruneAffinity now s) = sessionDurationMs s"
  "lastAffinityStamp (pruneAffinity now s) = lastAffinityStamp s"
  "affinity_state.more (pruneAffinity now s) = affinity_state.more s"
  by (simp_all add: pruneAffinity_def Let_def)

lemma prune_map:
  assumes "sorted (stamps (affinityByKey s))"
  shows "affinityByKey (pruneAffinity now s) =
    (let live = filter (\<lambda>x. now - sessionDurationMs s \<le> entry_lastUsedAt (snd x)) (affinityByKey s)
     in drop (length live - MAX_AFFINITY_ENTRIES) live)"
proof -
  have "dropWhile (\<lambda>(_, e). \<not> entry_lastUsedAt e \<ge> now - sessionDurationMs s) (affinityByKey s) =
      filter (\<lambda>x. now - sessionDurationMs s \<le> entry_lastUsedAt (snd x)) (affinityByKey s)"
    using dropWhile_sorted_filter [OF assms, of "now - sessionDurationMs s"]
    by (simp add: case_prod_unfold not_le)
  then show ?thesis by (simp add: pruneAffinity_def Let_def)
qed

lemma affinity_ordered_sub:
  assumes "affinity_ordered s" and "jm_wf m" and "sorted (stamps m)" and "set m \<subseteq> set (affinityByKey s)"
    and "lastAffinityStamp s \<le> lastAffinityStamp t" and "affinityByKey t = m"
  shows "affinity_ordered t"
  using assms unfolding affinity_ordered_def by (meson order_trans subsetD)

lemma sorted_stamps_drop: "sorted (stamps m) \<Longrightarrow> sorted (stamps (drop n m))"
  by (metis drop_map sorted_wrt_drop)

lemma sorted_stamps_filter: "sorted (stamps m) \<Longrightarrow> sorted (stamps (filter P m))"
  by (rule sorted_filter)

lemma sorted_stamps_delete: "sorted (stamps m) \<Longrightarrow> sorted (stamps (jm_delete m k))"
  by (simp add: jm_delete_filter sorted_stamps_filter)

lemma prune_inv: "affinity_ordered s \<Longrightarrow> affinity_inv (pruneAffinity now s)"
  unfolding affinity_inv_iff
proof
  assume ord: "affinity_ordered s"
  then have m: "affinityByKey (pruneAffinity now s) =
      (let live = filter (\<lambda>x. now - sessionDurationMs s \<le> entry_lastUsedAt (snd x)) (affinityByKey s)
       in drop (length live - MAX_AFFINITY_ENTRIES) live)"
    by (intro prune_map) (simp add: affinity_ordered_def)
  show "affinity_ordered (pruneAffinity now s)"
    by (rule affinity_ordered_sub [OF ord _ _ _ _ m])
      (use ord in \<open>auto simp: affinity_ordered_def Let_def jm_wf_intros sorted_stamps_drop
        sorted_stamps_filter dest: in_set_dropD\<close>)
  show "length (affinityByKey (pruneAffinity now s)) \<le> MAX_AFFINITY_ENTRIES"
    by (simp add: m Let_def)
qed

text \<open>Within the capacity, a prune keeps exactly the live pins.\<close>

lemma prune_filter:
  assumes "affinity_inv s"
  shows "affinityByKey (pruneAffinity now s) =
    filter (\<lambda>x. now - sessionDurationMs s \<le> entry_lastUsedAt (snd x)) (affinityByKey s)"
proof -
  from assms have "sorted (stamps (affinityByKey s))" and "length (affinityByKey s) \<le> MAX_AFFINITY_ENTRIES"
    by (simp_all add: affinity_inv_def)
  moreover have "length (filter (\<lambda>x. now - sessionDurationMs s \<le> entry_lastUsedAt (snd x)) (affinityByKey s))
      \<le> MAX_AFFINITY_ENTRIES"
    using length_filter_le calculation(2) by (rule order_trans)
  ultimately show ?thesis
    by (simp add: prune_map Let_def)
qed

lemma prune_get:
  assumes "affinity_inv s"
  shows "jm_get (affinityByKey (pruneAffinity now s)) k = (case jm_get (affinityByKey s) k of
    None \<Rightarrow> None | Some e \<Rightarrow> if now - sessionDurationMs s \<le> entry_lastUsedAt e then Some e else None)"
  using assms by (simp add: prune_filter jm_get_filter affinity_inv_def cong: option.case_cong)

lemma touch_ordered:
  assumes "affinity_ordered s" and "entry_lastUsedAt e = st" and "lastAffinityStamp s \<le> st"
  shows "affinity_ordered (s\<lparr>lastAffinityStamp := st, affinityByKey := jm_touch (affinityByKey s) k e,
    affinityChanges := n\<rparr>)"
  using assms
  by (auto simp: affinity_ordered_def jm_wf_touch [unfolded jm_touch_snoc] jm_touch_snoc sorted_append
      jm_delete_in_set sorted_stamps_delete jm_wf_delete jm_keys_delete intro: order_trans)

lemma remember_eq:
  assumes "getAffinityMapKeys hash meta = Some ks"
  obtains m n st where
    "rememberAffinity hash meta i now s =
       pruneAffinity now (s\<lparr>lastAffinityStamp := st, affinityByKey := m, affinityChanges := n\<rparr>)"
    "st = max now (lastAffinityStamp s)"
    "jm_get m = (\<lambda>k. if anchor_key ks = Some k
       then Some \<lparr>entry_accountId = (if pin_key ks = k then i else case jm_get (affinityByKey s) k of
                None \<Rightarrow> i | Some e \<Rightarrow> entry_accountId e), entry_lastUsedAt = st\<rparr>
       else if k = pin_key ks then Some \<lparr>entry_accountId = i, entry_lastUsedAt = st\<rparr>
       else jm_get (affinityByKey s) k)"
    "affinity_ordered s \<Longrightarrow>
       affinity_ordered (s\<lparr>lastAffinityStamp := st, affinityByKey := m, affinityChanges := n\<rparr>)"
    "\<exists>pre post. m = pre @ (pin_key ks, \<lparr>entry_accountId = i, entry_lastUsedAt = st\<rparr>) # post \<and> length post \<le> 1"
proof -
  define st where "st = max now (lastAffinityStamp s)"
  define m1 where "m1 = jm_touch (affinityByKey s) (pin_key ks) \<lparr>entry_accountId = i, entry_lastUsedAt = st\<rparr>"
  define n where "n = affinityChanges s + 1"
  have ord1: "affinity_ordered s \<Longrightarrow> affinity_ordered (s\<lparr>lastAffinityStamp := st, affinityByKey := m1, affinityChanges := n\<rparr>)"
    unfolding m1_def by (rule touch_ordered) (simp_all add: st_def)
  have m1_snoc: "m1 = jm_delete (affinityByKey s) (pin_key ks) @ [(pin_key ks, \<lparr>entry_accountId = i, entry_lastUsedAt = st\<rparr>)]"
    by (simp add: m1_def jm_touch_snoc)
  then have end1: "\<exists>pre post. m1 = pre @ (pin_key ks, \<lparr>entry_accountId = i, entry_lastUsedAt = st\<rparr>) # post \<and> length post \<le> 1"
    by fastforce
  have st_eq: "(if lastAffinityStamp s < now then now else lastAffinityStamp s) = st"
    by (simp add: st_def max_def)
  show ?thesis
  proof (cases "anchor_key ks")
    case None
    show ?thesis
      by (rule that [where st = st and m = m1 and n = n])
        (use None ord1 assms end1 in \<open>simp_all add: rememberAffinity_def Let_def st_eq m1_def n_def st_def fun_eq_iff\<close>)
  next
    case (Some a)
    define e where "e = \<lparr>entry_accountId = (case jm_get m1 a of None \<Rightarrow> i | Some e \<Rightarrow> entry_accountId e),
      entry_lastUsedAt = st\<rparr>"
    have ord2: "affinity_ordered s \<Longrightarrow>
        affinity_ordered (s\<lparr>lastAffinityStamp := st, affinityByKey := jm_touch m1 a e, affinityChanges := n\<rparr>)"
      using touch_ordered [OF ord1, where e = e and st = st and k = a and n = n] by (simp add: e_def)
    have "jm_touch m1 a e = (if a = pin_key ks
        then jm_delete m1 a @ (pin_key ks, \<lparr>entry_accountId = i, entry_lastUsedAt = st\<rparr>) # []
        else jm_delete (jm_delete (affinityByKey s) (pin_key ks)) a
          @ (pin_key ks, \<lparr>entry_accountId = i, entry_lastUsedAt = st\<rparr>) # [(a, e)])"
      unfolding jm_touch_snoc by (simp add: e_def m1_def) (simp add: jm_touch_snoc jm_delete_filter)
    then have end2: "\<exists>pre post. jm_touch m1 a e =
        pre @ (pin_key ks, \<lparr>entry_accountId = i, entry_lastUsedAt = st\<rparr>) # post \<and> length post \<le> 1"
      by (metis One_nat_def le_numeral_extra(4) le_zero_eq length_Cons list.size(3) nat_le_linear)
    show ?thesis
      by (rule that [where st = st and m = "jm_touch m1 a e" and n = n])
        (use Some ord2 assms end2 in \<open>auto simp: rememberAffinity_def Let_def st_eq m1_def n_def st_def fun_eq_iff e_def\<close>)
  qed
qed

lemma remember_inv: "affinity_inv s \<Longrightarrow> affinity_inv (rememberAffinity hash meta i now s)"
proof (cases "getAffinityMapKeys hash meta")
  case None
  then show "affinity_inv s \<Longrightarrow> ?thesis" by (simp add: rememberAffinity_def)
next
  case (Some ks)
  assume "affinity_inv s"
  with remember_eq [OF Some, of i now s] show ?thesis
    by (metis affinity_inv_iff prune_inv)
qed

text \<open>An entry near the back, within the session duration, survives a prune.\<close>

lemma prune_keeps_tail:
  assumes "affinity_ordered s" and "affinityByKey s = pre @ (k, e) # post"
    and "length post < MAX_AFFINITY_ENTRIES" and "now - sessionDurationMs s \<le> entry_lastUsedAt e"
  shows "jm_get (affinityByKey (pruneAffinity now s)) k = Some e"
proof -
  define P where "P = (\<lambda>x :: string \<times> affinity_entry. now - sessionDurationMs s \<le> entry_lastUsedAt (snd x))"
  define n where "n = length (filter P (affinityByKey s)) - MAX_AFFINITY_ENTRIES"
  have "length (filter P post) < MAX_AFFINITY_ENTRIES"
    using length_filter_le assms(3) by (rule le_less_trans)
  moreover have live: "filter P (affinityByKey s) = filter P pre @ (k, e) # filter P post"
    using assms(4) by (simp add: assms(2)) (simp add: P_def)
  ultimately have n: "n \<le> length (filter P pre)"
    unfolding n_def by simp
  have "affinityByKey (pruneAffinity now s) = drop n (filter P (affinityByKey s))"
    using assms(1) by (simp add: prune_map affinity_ordered_def Let_def n_def P_def)
  then have "(k, e) \<in> set (affinityByKey (pruneAffinity now s))"
    using n by (simp add: live)
  moreover have "jm_wf (affinityByKey (pruneAffinity now s))"
    using prune_inv [OF assms(1), of now] by (simp add: affinity_inv_def)
  ultimately show ?thesis by (simp add: jm_get_iff)
qed

lemma remember_pinned:
  assumes "affinity_inv s" and "getAffinityMapKeys hash meta = Some ks" and "0 \<le> sessionDurationMs s"
  shows "pinned (rememberAffinity hash meta i now s) (pin_key ks) = Some i"
proof -
  obtain m n st pre post where r: "rememberAffinity hash meta i now s =
       pruneAffinity now (s\<lparr>lastAffinityStamp := st, affinityByKey := m, affinityChanges := n\<rparr>)"
    and m: "m = pre @ (pin_key ks, \<lparr>entry_accountId = i, entry_lastUsedAt = st\<rparr>) # post"
    and st: "length post \<le> 1" "st = max now (lastAffinityStamp s)"
    and ord: "affinity_ordered s \<Longrightarrow>
       affinity_ordered (s\<lparr>lastAffinityStamp := st, affinityByKey := m, affinityChanges := n\<rparr>)"
    by (rule remember_eq [OF assms(2), of i now s]) blast
  from assms(1) ord have "affinity_ordered (s\<lparr>lastAffinityStamp := st, affinityByKey := m, affinityChanges := n\<rparr>)"
    by (simp add: affinity_inv_iff)
  moreover have "length post < MAX_AFFINITY_ENTRIES"
    using st(1) by (rule le_less_trans) (simp add: MAX_AFFINITY_ENTRIES_def)
  ultimately have "jm_get (affinityByKey (rememberAffinity hash meta i now s)) (pin_key ks) =
      Some \<lparr>entry_accountId = i, entry_lastUsedAt = st\<rparr>"
    unfolding r by (intro prune_keeps_tail) (use m st assms(3) in simp_all)
  then show ?thesis by (simp add: pinned_def)
qed

lemma clear_inv: "affinity_inv s \<Longrightarrow> affinity_inv (fst (clearAffinityForAccount i s))"
  unfolding affinity_inv_iff clearAffinityForAccount_def Let_def
  by (auto simp: affinity_ordered_def jm_wf_filter sorted_stamps_filter intro: order_trans [OF length_filter_le])

lemma drop_pin_inv: "affinity_inv s \<Longrightarrow> affinity_inv (drop_pin k s)"
  unfolding affinity_inv_iff drop_pin_def
  by (auto simp: affinity_ordered_def jm_wf_delete sorted_stamps_delete jm_delete_in_set
      intro: order_trans [OF jm_length_delete_le])

lemma resolve_inv: "affinity_inv s \<Longrightarrow> affinity_inv (fst (resolveAffinity accounts key now avail s))"
proof -
  assume "affinity_inv s"
  then have "affinity_inv (pruneAffinity now s)" by (intro prune_inv) (simp add: affinity_inv_iff)
  then show ?thesis
    by (auto simp: resolveAffinity_def Let_def intro: drop_pin_inv split: option.splits)
qed

subsection \<open>Export and import\<close>

lemma rebuild_id:
  "jm_wf (acc @ xs) \<Longrightarrow> foldl (\<lambda>m (k, e). jm_set m k e) acc xs = acc @ xs"
proof (induction xs arbitrary: acc)
  case (Cons x xs)
  then show ?case
    using Cons.IH [of "acc @ [x]"] by (cases x) (auto simp: jm_set_new)
qed simp

lemma stamp_fold_ge:
  fixes st :: int
  defines "F \<equiv> foldl (\<lambda>st (k, e). if entry_lastUsedAt e > st then entry_lastUsedAt e else st)"
  shows "st \<le> F st xs \<and> (\<forall>x \<in> set xs. entry_lastUsedAt (snd x) \<le> F st xs)"
  unfolding F_def
proof (induction xs arbitrary: st)
  case (Cons x xs)
  show ?case
    using Cons.IH [of "if entry_lastUsedAt (snd x) > st then entry_lastUsedAt (snd x) else st"]
    by (auto simp: case_prod_unfold split: if_splits)
qed simp

text \<open>What the merge loop keeps: distinct keys, and where each merged entry came from.\<close>

definition import_origin ::
  "(string, affinity_entry) jsmap \<Rightarrow> int \<Rightarrow> int \<Rightarrow> affinity_pin list \<Rightarrow> string \<Rightarrow> affinity_entry \<Rightarrow> bool" where
  "import_origin old now staleBefore pins k e \<longleftrightarrow> jm_get old k = Some e \<or>
     (\<exists>p \<in> set pins. pin_keyHash p = k \<and> entry_accountId e = pin_accountId p
        \<and> entry_lastUsedAt e = min (pin_lastUsedAt p) now \<and> staleBefore \<le> entry_lastUsedAt e
        \<and> (\<forall>e0. jm_get old k = Some e0 \<longrightarrow> entry_lastUsedAt e0 < entry_lastUsedAt e))"

definition merge_ok ::
  "(string, affinity_entry) jsmap \<Rightarrow> int \<Rightarrow> int \<Rightarrow> affinity_pin list \<Rightarrow> (string, affinity_entry) jsmap \<Rightarrow> bool" where
  "merge_ok old now staleBefore pins m \<longleftrightarrow> jm_wf m
     \<and> (\<forall>k e. jm_get m k = Some e \<longrightarrow> import_origin old now staleBefore pins k e)
     \<and> (\<forall>k e0. jm_get old k = Some e0 \<longrightarrow> (\<exists>e. jm_get m k = Some e \<and> entry_lastUsedAt e0 \<le> entry_lastUsedAt e))"

lemma import_origin_mono: "import_origin old now sb pins k e \<Longrightarrow> import_origin old now sb (pins @ [p]) k e"
  by (auto simp: import_origin_def)

lemma import_pin_ok:
  assumes "merge_ok old now sb pins (fst mc)"
  shows "merge_ok old now sb (pins @ [p]) (fst (import_pin now sb mc p))"
proof -
  obtain m c where mc: "mc = (m, c)" by (cases mc)
  define e where "e = \<lparr>entry_accountId = pin_accountId p, entry_lastUsedAt = min (pin_lastUsedAt p) now\<rparr>"
  from assms have ok: "merge_ok old now sb pins m" by (simp add: mc)
  then have same: "merge_ok old now sb (pins @ [p]) m"
    by (auto simp: merge_ok_def intro: import_origin_mono)
  show ?thesis
  proof (cases "sb \<le> min (pin_lastUsedAt p) now \<and>
      (\<forall>e0. jm_get m (pin_keyHash p) = Some e0 \<longrightarrow> entry_lastUsedAt e0 < min (pin_lastUsedAt p) now)")
    case True
    then have res: "fst (import_pin now sb mc p) = jm_touch m (pin_keyHash p) e"
      by (auto simp: import_pin_def mc Let_def e_def split: option.splits)
    have newer: "entry_lastUsedAt e0 < entry_lastUsedAt e" if "jm_get old (pin_keyHash p) = Some e0" for e0
      using ok True that by (fastforce simp: merge_ok_def e_def)
    then have "import_origin old now sb (pins @ [p]) (pin_keyHash p) e"
      using True by (auto simp: import_origin_def e_def)
    with same newer ok True show ?thesis
      unfolding res by (auto simp: merge_ok_def jm_wf_touch less_imp_le)
  next
    case False
    then have "fst (import_pin now sb mc p) = m"
      by (auto simp: import_pin_def mc Let_def split: option.splits)
    with same show ?thesis by simp
  qed
qed

lemma import_fold_ok:
  assumes "jm_wf old"
  shows "merge_ok old now sb pins (fst (foldl (import_pin now sb) (old, c) pins))"
proof (induction pins rule: rev_induct)
  case Nil
  from assms show ?case by (auto simp: merge_ok_def import_origin_def)
next
  case (snoc p ps)
  then show ?case by (simp add: import_pin_ok)
qed

lemma import_frame [simp]:
  "sessionDurationMs (importAffinity pins now s) = sessionDurationMs s"
  "affinity_state.more (importAffinity pins now s) = affinity_state.more s"
  by (simp_all add: importAffinity_def Let_def case_prod_unfold)

lemma import_map:
  fixes pins :: "affinity_pin list" and now :: int
  assumes "jm_wf (affinityByKey s)"
  defines "mc \<equiv> foldl (import_pin now (now - sessionDurationMs s)) (affinityByKey s, False) pins"
  shows "affinityByKey (importAffinity pins now s) =
    (if snd mc then drop (length (fst mc) - MAX_AFFINITY_ENTRIES) (js_sort cmp_stamp (fst mc))
     else affinityByKey s)"
proof -
  have "merge_ok (affinityByKey s) now (now - sessionDurationMs s) pins (fst mc)"
    unfolding mc_def by (rule import_fold_ok [OF assms(1)])
  then have "jm_wf (fst mc)" by (simp add: merge_ok_def)
  then have "jm_wf (drop n (js_sort cmp_stamp (fst mc)))" for n
    by (simp add: jm_wf_drop)
  then have "foldl (\<lambda>m (k, e). jm_set m k e) [] (drop n (js_sort cmp_stamp (fst mc))) =
      drop n (js_sort cmp_stamp (fst mc))" for n
    using rebuild_id [of "[]" "drop n (js_sort cmp_stamp (fst mc))"] by simp
  then show ?thesis
    by (simp add: importAffinity_def Let_def case_prod_unfold mc_def [symmetric])
qed

lemma import_inv:
  assumes "affinity_inv s"
  shows "affinity_inv (importAffinity pins now s)"
proof -
  define mc where "mc = foldl (import_pin now (now - sessionDurationMs s)) (affinityByKey s, False) pins"
  define ord where "ord = drop (length (fst mc) - MAX_AFFINITY_ENTRIES) (js_sort cmp_stamp (fst mc))"
  from assms have wf: "jm_wf (affinityByKey s)" by (simp add: affinity_inv_def)
  have map: "affinityByKey (importAffinity pins now s) = (if snd mc then ord else affinityByKey s)"
    using import_map [OF wf, of pins now] by (simp add: mc_def ord_def)
  show ?thesis
  proof (cases "snd mc")
    case False
    then have "importAffinity pins now s = s"
      by (simp add: importAffinity_def Let_def case_prod_unfold mc_def)
    with assms show ?thesis by simp
  next
    case True
    have "jm_wf (fst mc)"
      using import_fold_ok [OF wf] unfolding mc_def merge_ok_def by blast
    then have "jm_wf ord" by (simp add: ord_def jm_wf_drop)
    moreover have "sorted (stamps ord)"
      unfolding ord_def
      by (rule sorted_stamps_drop) (use stamp_order.sort_sorted [of "fst mc"] in \<open>simp add: sorted_stamps\<close>)
    moreover have "lastAffinityStamp (importAffinity pins now s) =
        foldl (\<lambda>st (k, e). if entry_lastUsedAt e > st then entry_lastUsedAt e else st) (lastAffinityStamp s) ord"
      using True by (simp add: importAffinity_def Let_def case_prod_unfold mc_def [symmetric] ord_def)
    moreover have "length ord \<le> MAX_AFFINITY_ENTRIES" by (simp add: ord_def)
    ultimately show ?thesis
      using True map stamp_fold_ge [where xs = ord and st = "lastAffinityStamp s"] by (simp add: affinity_inv_def)
  qed
qed

lemma affinity_step_inv: "affinity_inv s \<Longrightarrow> affinity_inv (affinity_step hash s ev)"
  by (cases ev)
    (auto simp: affinity_step_def intro: remember_inv clear_inv import_inv resolve_inv
      intro!: prune_inv simp: affinity_inv_iff [of s])

interpretation pins: invariant_system "affinity_step hash" affinity_inv for hash
  by unfold_locales (rule affinity_step_inv)

text \<open>Reading an exported list back, pin by pin, appends each.\<close>

lemma import_export_fold:
  assumes "jm_wf (acc @ m)"
    and "\<forall>x \<in> set m. sb \<le> entry_lastUsedAt (snd x) \<and> entry_lastUsedAt (snd x) \<le> now"
  shows "foldl (import_pin now sb) (acc, c) (map (\<lambda>(k, e). \<lparr>pin_keyHash = k,
      pin_accountId = entry_accountId e, pin_lastUsedAt = entry_lastUsedAt e\<rparr>) m) =
    (acc @ m, c \<or> m \<noteq> [])"
  using assms
proof (induction m arbitrary: acc c)
  case (Cons x m)
  obtain k e where x: "x = (k, e)" by (cases x)
  have e: "\<lparr>entry_accountId = entry_accountId e, entry_lastUsedAt = entry_lastUsedAt e\<rparr> = e"
    by (cases e) simp
  have "k \<notin> set (jm_keys acc)" using Cons.prems(1) x by auto
  then have "jm_get acc k = None" "jm_touch acc k e = acc @ [(k, e)]"
    by (simp_all add: jm_get_None jm_touch_snoc jm_delete_new)
  with Cons.prems x have "import_pin now sb (acc, c) \<lparr>pin_keyHash = k,
      pin_accountId = entry_accountId e, pin_lastUsedAt = entry_lastUsedAt e\<rparr> = (acc @ [x], True)"
    by (simp add: import_pin_def e)
  with Cons.IH [of "acc @ [x]" True] Cons.prems x show ?case by simp
qed simp

subsection \<open>Properties\<close>

text \<open>
  Under every sequence of affinity operations (remember, clear, import, prune, resolve)
  the pin map keeps distinct keys, stays in ascending order of its stamps, never holds a stamp
  above the highest one ever written, and never exceeds its capacity.
\<close>

lemma affinity_run_inv:
  assumes "affinity_inv s"
  shows "affinity_inv (foldl (affinity_step hash) s evs)"
  by (rule pins.run_inv [OF assms])

text \<open>
  The sweep that stops at the first live entry removes exactly the stale pins: what
  remains after a prune is every pin used within the session duration, in its order.
\<close>

lemma prune_removes_exactly_stale:
  assumes "affinity_inv s"
  shows "affinityByKey (pruneAffinity now s) =
    filter (\<lambda>(k, e). now - entry_lastUsedAt e \<le> sessionDurationMs s) (affinityByKey s)"
  unfolding prune_filter [OF assms] by (rule filter_cong) auto

text \<open>
  A round trip: the pins one process exported, read into another that holds none, are the
  same pins in the same order, when each was used within the session duration and none carries
  a stamp from the future.
\<close>

lemma export_import_roundtrip:
  assumes "affinity_inv s" and "affinityByKey t = []" and "sessionDurationMs t = sessionDurationMs s"
    and "\<forall>x \<in> set (affinityByKey s). now - sessionDurationMs s \<le> entry_lastUsedAt (snd x)
      \<and> entry_lastUsedAt (snd x) \<le> now"
  shows "affinityByKey (importAffinity (exportAffinity s) now t) = affinityByKey s"
proof -
  let ?m = "affinityByKey s"
  from assms(1) have wf: "jm_wf ?m" and srt: "sorted (stamps ?m)" and len: "length ?m \<le> MAX_AFFINITY_ENTRIES"
    by (simp_all add: affinity_inv_def)
  have fold: "foldl (import_pin now (now - sessionDurationMs t)) (affinityByKey t, False) (exportAffinity s) =
      (?m, ?m \<noteq> [])"
    using import_export_fold [of "[]" ?m "now - sessionDurationMs s" now False] wf assms(2,3,4)
    by (simp add: exportAffinity_def)
  have "js_sort cmp_stamp ?m = ?m"
    by (rule stamp_order.sort_id) (simp add: sorted_stamps srt)
  with import_map [of t "exportAffinity s" now] fold len assms(2) show ?thesis by simp
qed

text \<open>
  An import keeps the newer pin: each pin the map holds afterwards is either the one it
  held before, or an imported one, stamped no later than now and within the session duration,
  that is strictly newer than the one it replaced.
\<close>

lemma import_never_replaces_newer:
  assumes "affinity_inv s"
    and "jm_get (affinityByKey (importAffinity pins now s)) k = Some e"
  shows "jm_get (affinityByKey s) k = Some e \<or>
    (\<exists>p \<in> set pins. pin_keyHash p = k \<and> entry_accountId e = pin_accountId p
       \<and> entry_lastUsedAt e = min (pin_lastUsedAt p) now
       \<and> now - sessionDurationMs s \<le> entry_lastUsedAt e
       \<and> (\<forall>e0. jm_get (affinityByKey s) k = Some e0 \<longrightarrow> entry_lastUsedAt e0 < entry_lastUsedAt e))"
proof -
  define mc where "mc = foldl (import_pin now (now - sessionDurationMs s)) (affinityByKey s, False) pins"
  from assms(1) have wf: "jm_wf (affinityByKey s)" by (simp add: affinity_inv_def)
  have ok: "merge_ok (affinityByKey s) now (now - sessionDurationMs s) pins (fst mc)"
    unfolding mc_def by (rule import_fold_ok [OF wf])
  have "jm_get (affinityByKey s) k = Some e \<or> (k, e) \<in> set (fst mc)"
    using assms(2) import_map [OF wf, of pins now]
    by (auto simp: mc_def [symmetric] split: if_splits dest!: jm_get_in_set in_set_dropD)
  then have "jm_get (affinityByKey s) k = Some e
      \<or> import_origin (affinityByKey s) now (now - sessionDurationMs s) pins k e"
    using ok jm_get_iff [of "fst mc" k e] unfolding merge_ok_def by blast
  then show ?thesis unfolding import_origin_def by blast
qed

end
