(* ===== verification/SessionRanking.thy ===== *)
theory SessionRanking
  imports Affinity "HOL-Library.Product_Lexorder"
begin

section \<open>The ranking of available accounts\<close>

text \<open>
  \<^verbatim>\<open>capacityMetricFor\<close> and \<^verbatim>\<open>sortAvailableAccounts\<close> of
  \<^verbatim>\<open>load-balancer/src/strategies/index.ts\<close>, with the capacity signal and the store of
  \<^verbatim>\<open>types/src/strategy.ts\<close>. The optional read methods of the store are options; its write
  methods are recorded by the strategy as a log of writes.
  Shown: the comparator is a consistent one, equal to the lexicographic order on an explicit
  key, so the ranking is the stable sort of the available accounts by that key.
\<close>

record capacity_signal =
  sig_minHeadroom :: rat
  sig_sessionHeadroom :: rat
  sig_soonestResetMs :: "deadline option"
  sig_bindingUtilization :: rat
  sig_weeklyResetMs :: "deadline option"
  sig_bindingWeeklyResetMs :: "deadline option"
  sig_weeklyHeadroom :: rat
  sig_sessionResetMs :: "deadline option"
  sig_extraUsageUtilization :: "rat option"

record strategy_store =
  getAccountCapacity :: "(string \<Rightarrow> string \<Rightarrow> int \<Rightarrow> capacity_signal option) option"
  getAccountUtilization :: "(string \<Rightarrow> string \<Rightarrow> int \<Rightarrow> rat option) option"
  has_resumeAccount :: bool

datatype capacity_bucket = HARVEST | UNKNOWN | NEAR_LIMIT

fun bucket_num :: "capacity_bucket \<Rightarrow> int" where
  "bucket_num HARVEST = 0"
| "bucket_num UNKNOWN = 1"
| "bucket_num NEAR_LIMIT = 2"

definition HEADROOM_EPS :: rat where
  "HEADROOM_EPS = 5"

datatype deadline_source = Weekly_reset | Subscription_end

record capacity_metric =
  bucket :: capacity_bucket
  harvestDeadline :: deadline
  harvestDeadlineSource :: deadline_source
  weeklyHeadroom :: rat
  sessionReset :: deadline
  minHeadroom :: rat
  binding :: rat
  util :: rat
  recoveryDeadline :: deadline

text \<open>\<^verbatim>\<open>x ?? Number.POSITIVE_INFINITY\<close>\<close>

definition or_never :: "deadline option \<Rightarrow> deadline" where
  "or_never x = (case x of None \<Rightarrow> Never | Some d \<Rightarrow> d)"

definition near_limit :: "capacity_signal \<Rightarrow> bool" where
  "near_limit s \<longleftrightarrow> sig_minHeadroom s \<le> HEADROOM_EPS \<or> sig_bindingUtilization s > 100 - HEADROOM_EPS"

text \<open>The recovery deadline of an account that is near a limit.\<close>

definition recovery_of :: "capacity_signal \<Rightarrow> deadline" where
  "recovery_of s =
     (let extraBound = (case sig_extraUsageUtilization s of None \<Rightarrow> False | Some u \<Rightarrow> u > 100 - HEADROOM_EPS);
          sessionBound = sig_sessionHeadroom s \<le> HEADROOM_EPS;
          weeklyBound = sig_weeklyHeadroom s \<le> HEADROOM_EPS
      in if extraBound \<or> (\<not> sessionBound \<and> \<not> weeklyBound) then Never
         else let bounds = (if sessionBound then [sig_sessionResetMs s] else [])
                         @ (if weeklyBound then [sig_bindingWeeklyResetMs s] else [])
              in if \<exists>b \<in> set bounds. b = None \<or> b = Some Never then Never
                 else foldr max (map or_never (tl bounds)) (or_never (hd bounds)))"

definition capacityMetricFor :: "strategy_store option \<Rightarrow> account \<Rightarrow> int \<Rightarrow> capacity_metric" where
  "capacityMetricFor st a now =
     (let s = Option.bind (Option.bind st getAccountCapacity) (\<lambda>f. f (acc_id a) (provider a) now);
          u = (case Option.bind (Option.bind st getAccountUtilization) (\<lambda>f. f (acc_id a) (provider a) now) of
                 None \<Rightarrow> 0 | Some v \<Rightarrow> v);
          m = (case s of
                 None \<Rightarrow> \<lparr>bucket = UNKNOWN, harvestDeadline = Never, harvestDeadlineSource = Weekly_reset,
                   weeklyHeadroom = 100, sessionReset = Never, minHeadroom = 0, binding = 0, util = u,
                   recoveryDeadline = Never\<rparr>
               | Some g \<Rightarrow> \<lparr>bucket = (if near_limit g then NEAR_LIMIT
                            else if sig_weeklyResetMs g = None then UNKNOWN else HARVEST),
                   harvestDeadline = or_never (sig_weeklyResetMs g), harvestDeadlineSource = Weekly_reset,
                   weeklyHeadroom = sig_weeklyHeadroom g, sessionReset = or_never (sig_sessionResetMs g),
                   minHeadroom = sig_minHeadroom g, binding = sig_bindingUtilization g, util = u,
                   recoveryDeadline = (if near_limit g then recovery_of g else Never)\<rparr>)
      in if bucket m = HARVEST
         then (case nonRenewingSubscriptionEnd a now of
                 None \<Rightarrow> m
               | Some e \<Rightarrow> if At e < harvestDeadline m
                           then m\<lparr>harvestDeadline := At e, harvestDeadlineSource := Subscription_end\<rparr> else m)
         else m)"

type_synonym ranked_metric = "capacity_metric \<times> int"

definition default_metric :: ranked_metric where
  "default_metric = (\<lparr>bucket = UNKNOWN, harvestDeadline = Never, harvestDeadlineSource = Weekly_reset,
     weeklyHeadroom = 100, sessionReset = Never, minHeadroom = 0, binding = 0, util = 0,
     recoveryDeadline = Never\<rparr>, 0)"

definition metricsFor :: "(string, ranked_metric) jsmap \<Rightarrow> string \<Rightarrow> ranked_metric" where
  "metricsFor info i = (case jm_get info i of None \<Rightarrow> default_metric | Some m \<Rightarrow> m)"

text \<open>The comparator of \<^verbatim>\<open>sortAvailableAccounts\<close>, on two accounts and the metric snapshot.\<close>

definition compare_accounts :: "(string, ranked_metric) jsmap \<Rightarrow> account \<Rightarrow> account \<Rightarrow> int" where
  "compare_accounts info a b =
     (if priority a \<noteq> priority b then cmp_num (priority a) (priority b)
      else let (x, xseq) = metricsFor info (acc_id a); (y, yseq) = metricsFor info (acc_id b) in
        if bucket x \<noteq> bucket y then cmp_num (bucket_num (bucket x)) (bucket_num (bucket y))
        else if bucket x = HARVEST then
          (if harvestDeadline x \<noteq> harvestDeadline y then cmp_num (harvestDeadline x) (harvestDeadline y)
           else if weeklyHeadroom x \<noteq> weeklyHeadroom y then cmp_num (weeklyHeadroom y) (weeklyHeadroom x)
           else cmp_num xseq yseq)
        else if bucket x = UNKNOWN then
          (if util x \<noteq> util y then cmp_num (util x) (util y) else cmp_num xseq yseq)
        else
          (if recoveryDeadline x \<noteq> recoveryDeadline y
             then cmp_num (recoveryDeadline x) (recoveryDeadline y)
           else if binding x \<noteq> binding y then cmp_num (binding x) (binding y)
           else cmp_num xseq yseq))"

definition metric_snapshot ::
  "strategy_store option \<Rightarrow> (string, int) jsmap \<Rightarrow> int \<Rightarrow> account list \<Rightarrow> (string, ranked_metric) jsmap" where
  "metric_snapshot st lastPicked now avail =
     foldl (\<lambda>info a. jm_set info (acc_id a)
       (capacityMetricFor st a now, case jm_get lastPicked (acc_id a) of None \<Rightarrow> 0 | Some n \<Rightarrow> n)) [] avail"

definition sortAvailableAccounts ::
  "strategy_store option \<Rightarrow> (string, int) jsmap \<Rightarrow> account list \<Rightarrow> (account \<Rightarrow> bool) \<Rightarrow> int \<Rightarrow> account list" where
  "sortAvailableAccounts st lastPicked accounts isAvailable now =
     (let avail = filter isAvailable accounts
      in js_sort (compare_accounts (metric_snapshot st lastPicked now avail)) avail)"

subsection \<open>The comparator is a lexicographic order\<close>

text \<open>
  The specification of the ranking: an explicit key. Priority first, then the bucket; within
  \<^const>\<open>HARVEST\<close> the earliest deadline and then the most weekly headroom, within
  \<^const>\<open>UNKNOWN\<close> the least utilisation, within \<^const>\<open>NEAR_LIMIT\<close> the earliest recovery and
  then the least binding utilisation; the least recently picked last.
\<close>

type_synonym rank = "int \<times> int \<times> deadline \<times> rat \<times> int"

definition metric_rank :: "int \<Rightarrow> ranked_metric \<Rightarrow> rank" where
  "metric_rank p ms = (case ms of (m, n) \<Rightarrow> (p, bucket_num (bucket m),
     (case bucket m of HARVEST \<Rightarrow> harvestDeadline m | UNKNOWN \<Rightarrow> Never | NEAR_LIMIT \<Rightarrow> recoveryDeadline m),
     (case bucket m of HARVEST \<Rightarrow> - weeklyHeadroom m | UNKNOWN \<Rightarrow> util m | NEAR_LIMIT \<Rightarrow> binding m), n))"

definition account_rank :: "strategy_store option \<Rightarrow> (string, int) jsmap \<Rightarrow> int \<Rightarrow> account \<Rightarrow> rank" where
  "account_rank st lastPicked now a = metric_rank (priority a)
     (capacityMetricFor st a now, case jm_get lastPicked (acc_id a) of None \<Rightarrow> 0 | Some n \<Rightarrow> n)"

lemma bucket_num_inj [simp]: "bucket_num b = bucket_num c \<longleftrightarrow> b = c"
  by (cases b; cases c) auto

lemma cmp_lex: "(if x \<noteq> y then cmp_num x y else c) \<le> 0 \<longleftrightarrow> x < y \<or> x = y \<and> c \<le> 0"
  by auto

lemma cmp_lex_desc: "(if x \<noteq> y then cmp_num y x else c) \<le> 0 \<longleftrightarrow> y < x \<or> x = y \<and> c \<le> 0"
  by auto

lemma pair_le: "(a, r) \<le> (b, r') \<longleftrightarrow> a < b \<or> a = b \<and> r \<le> (r' :: 'r :: order)" for a b :: "'a :: linorder"
  by auto

lemma compare_accounts_rank:
  "compare_accounts info a b \<le> 0 \<longleftrightarrow>
    metric_rank (priority a) (metricsFor info (acc_id a)) \<le> metric_rank (priority b) (metricsFor info (acc_id b))"
proof -
  obtain x xs where x: "metricsFor info (acc_id a) = (x, xs)" by fastforce
  obtain y ys where y: "metricsFor info (acc_id b) = (y, ys)" by fastforce
  show ?thesis
    by (cases "bucket x"; cases "bucket y")
      (simp_all only: compare_accounts_def metric_rank_def x y Let_def case_prod_conv
        capacity_bucket.case capacity_bucket.distinct bucket_num.simps if_True if_False simp_thms
        cmp_lex cmp_lex_desc pair_le cmp_num_le, simp_all)
qed

interpretation ranking: consistent_comparator "compare_accounts info" "\<lambda>_. True" for info
  by unfold_locales (auto simp: compare_accounts_rank)

lemma distinct_ids_filter [simp]: "distinct (map acc_id as) \<Longrightarrow> distinct (map acc_id (filter P as))"
  by (simp add: distinct_map_filter)

lemma snapshot_compare:
  assumes "distinct (map acc_id as)" and "a \<in> set as" and "b \<in> set as"
  shows "compare_accounts (metric_snapshot st lp now as) a b \<le> 0 \<longleftrightarrow>
    account_rank st lp now a \<le> account_rank st lp now b"
  using assms
  by (simp only: compare_accounts_rank account_rank_def metricsFor_def metric_snapshot_def jm.fill_get [where key = acc_id] option.case)

lemma sorted_compare:
  assumes "distinct (map acc_id as)" and "set bs \<subseteq> set as"
  shows "sorted_wrt (\<lambda>a b. compare_accounts (metric_snapshot st lp now as) a b \<le> 0) bs \<longleftrightarrow>
    sorted (map (account_rank st lp now) bs)"
  using assms(2)
proof (induction bs)
  case (Cons b bs)
  then show ?case using snapshot_compare [OF assms(1)] by (auto simp: subset_iff)
qed simp

lemma sortAvailable_set [simp]:
  "set (sortAvailableAccounts st lp as P now) = {a \<in> set as. P a}"
  by (auto simp: sortAvailableAccounts_def Let_def)

lemma sortAvailable_mset: "mset (sortAvailableAccounts st lp as P now) = filter_mset P (mset as)"
  by (simp add: sortAvailableAccounts_def Let_def)

lemma sortAvailable_distinct [simp]:
  "distinct (map acc_id as) \<Longrightarrow> distinct (map acc_id (sortAvailableAccounts st lp as P now))"
  by (simp add: sortAvailableAccounts_def Let_def)

lemma sortAvailable_sorted:
  assumes "distinct (map acc_id as)"
  shows "sorted (map (account_rank st lp now) (sortAvailableAccounts st lp as P now))"
  unfolding sortAvailableAccounts_def Let_def
  by (subst sorted_compare [symmetric, where as = "filter P as"]) (simp_all add: assms ranking.sort_sorted)

lemma sortAvailable_stable:
  assumes "distinct (map acc_id as)" and "v \<in> set as" and "P v"
  shows "filter (\<lambda>a. account_rank st lp now a = account_rank st lp now v) (sortAvailableAccounts st lp as P now) =
    filter (\<lambda>a. account_rank st lp now a = account_rank st lp now v) (filter P as)"
proof -
  let ?cmp = "compare_accounts (metric_snapshot st lp now (filter P as))"
  have d: "distinct (map acc_id (filter P as))" and v: "v \<in> set (filter P as)" using assms by auto
  have "account_rank st lp now a = account_rank st lp now v \<longleftrightarrow> ?cmp v a \<le> 0 \<and> ?cmp a v \<le> 0"
    if "a \<in> set (filter P as)" for a
    using snapshot_compare [OF d v that] snapshot_compare [OF d that v] by fastforce
  then have eq: "filter (\<lambda>a. account_rank st lp now a = account_rank st lp now v) xs =
      filter (\<lambda>a. ?cmp v a \<le> 0 \<and> ?cmp a v \<le> 0) xs" if "set xs \<subseteq> set (filter P as)" for xs
    using that by (intro filter_cong) auto
  have "filter (\<lambda>a. account_rank st lp now a = account_rank st lp now v) (js_sort ?cmp (filter P as)) =
      filter (\<lambda>a. ?cmp v a \<le> 0 \<and> ?cmp a v \<le> 0) (js_sort ?cmp (filter P as))"
    by (rule eq) simp
  also have "\<dots> = filter (\<lambda>a. ?cmp v a \<le> 0 \<and> ?cmp a v \<le> 0) (filter P as)"
    by (rule ranking.sort_stable) simp_all
  also have "\<dots> = filter (\<lambda>a. account_rank st lp now a = account_rank st lp now v) (filter P as)"
    by (rule eq [symmetric]) simp
  finally show ?thesis unfolding sortAvailableAccounts_def Let_def .
qed

text \<open>
  C40. The ranking of the available accounts is determined by an explicit key: it is the
  available accounts, each as often as it occurs, in ascending order of the key (priority, then
  bucket, then earliest deadline and most headroom, least utilisation, or earliest recovery, then
  least recently picked), and accounts with equal keys keep the order they came in.
\<close>

theorem ranking_is_stable_sort_by_key:
  assumes "distinct (map acc_id as)"
  shows "mset (sortAvailableAccounts st lp as P now) = filter_mset P (mset as)
    \<and> sorted (map (account_rank st lp now) (sortAvailableAccounts st lp as P now))
    \<and> (\<forall>v \<in> set (filter P as).
        filter (\<lambda>a. account_rank st lp now a = account_rank st lp now v) (sortAvailableAccounts st lp as P now) =
        filter (\<lambda>a. account_rank st lp now a = account_rank st lp now v) (filter P as))"
  using sortAvailable_mset sortAvailable_sorted [OF assms] sortAvailable_stable [OF assms] by simp

theorem ranking_is_stable_sort_by_key_witness:
  defines "mk \<equiv> \<lambda>i p. \<lparr>acc_id = i, acc_name = i, provider = ANTHROPIC, refresh_token = ''t'',
     rate_limited_until = None, rate_limited_reason = None, rate_limited_at = None,
     consecutive_rate_limits = 0, session_start = None, session_request_count = 0, disabled = False,
     paused = False, rate_limit_reset = None, priority = p, auto_fallback_enabled = False,
     custom_endpoint = None, pause_reason = None, identity_subscription_ends_at = None,
     identity_subscription_will_renew = None\<rparr> :: account"
  shows "sorted (map (account_rank None [] 10) (sortAvailableAccounts None [] [mk ''x'' 2, mk ''y'' 1] (\<lambda>_. True) 10))
    \<and> map acc_id (sortAvailableAccounts None [] [mk ''x'' 2, mk ''y'' 1] (\<lambda>_. True) 10) = [''y'', ''x'']"
proof -
  have "distinct (map acc_id [mk ''x'' 2, mk ''y'' 1])" by (simp add: mk_def)
  from ranking_is_stable_sort_by_key [OF this, of None "[]" "\<lambda>_. True" 10] show ?thesis
    by (simp add: sortAvailableAccounts_def compare_accounts_def mk_def cmp_num_def)
qed

end
