(* ===== verification/SessionStrategy.thy ===== *)
theory SessionStrategy
  imports SessionRanking
begin

section \<open>The session strategy\<close>

text \<open>
  The class \<^verbatim>\<open>SessionStrategy\<close> of \<^verbatim>\<open>load-balancer/src/strategies/index.ts\<close>: \<^verbatim>\<open>select\<close> with its
  auto-unpause loop, affinity resolution, sticky session and fresh pick, the side-effect-free
  \<^verbatim>\<open>peekRanked\<close>/\<^verbatim>\<open>peek\<close>, and the rebinding operations \<^verbatim>\<open>reassignAffinity\<close> and
  \<^verbatim>\<open>followAffinity\<close>. The fields of the class are the affinity state extended by the store,
  the pick sequence and the log of the writes made through the store. \<open>now\<close> is the reading of
  \<^verbatim>\<open>Date.now()\<close> at the start of an operation and \<open>clock\<close> the later one
  \<^verbatim>\<open>resetSessionIfExpired\<close> takes. Account objects are shared by reference in the code: an
  operation returns the pool with its writes applied. The per-request availability cache
  holds \<^verbatim>\<open>isAccountAvailable\<close> of an object between two writes to it and is dropped on the
  unpause, so the model reads the test itself. Log lines are left out.
\<close>

datatype store_write = Reset_session string int | Resume_account string

record session_state = affinity_state +
  store :: "strategy_store option"
  pickSeq :: int
  lastPickedSeq :: "(string, int) jsmap"
  store_log :: "store_write list"

definition write_store :: "store_write \<Rightarrow> session_state \<Rightarrow> session_state" where
  "write_store w s = s\<lparr>store_log := store_log s @ [w]\<rparr>"

definition new_strategy :: "int \<Rightarrow> session_state" where
  "new_strategy duration = \<lparr>sessionDurationMs = duration, affinityByKey = [], affinityChanges = 0,
     lastAffinityStamp = 0, store = None, pickSeq = 0, lastPickedSeq = [], store_log = []\<rparr>"

definition initialize :: "strategy_store \<Rightarrow> session_state \<Rightarrow> session_state" where
  "initialize st s = s\<lparr>store := Some st\<rparr>"

subsection \<open>Sessions\<close>

definition fixedDurationExpired :: "int \<Rightarrow> int \<Rightarrow> account \<Rightarrow> bool" where
  "fixedDurationExpired duration now a \<longleftrightarrow> requiresSessionDurationTracking (provider a)
     \<and> (\<not> truthy (session_start a) \<or> now - the (session_start a) \<ge> duration)"

definition rateLimitWindowReset :: "int \<Rightarrow> account \<Rightarrow> bool" where
  "rateLimitWindowReset now a \<longleftrightarrow> (provider a = ANTHROPIC \<or> provider a = CODEX)
     \<and> truthy (rate_limit_reset a) \<and> the (rate_limit_reset a) < now - 1000
     \<and> (\<not> truthy (session_start a) \<or> the (session_start a) < the (rate_limit_reset a) + 1000)"

definition resetSessionIfExpired :: "int \<Rightarrow> account \<Rightarrow> session_state \<Rightarrow> session_state \<times> account" where
  "resetSessionIfExpired now a s =
     (if (fixedDurationExpired (sessionDurationMs s) now a \<or> rateLimitWindowReset now a) \<and> store s \<noteq> None
      then (write_store (Reset_session (acc_id a) now) s,
            a\<lparr>session_start := Some now, session_request_count := 0\<rparr>)
      else (s, a))"

definition hasActiveSession :: "int \<Rightarrow> account \<Rightarrow> int \<Rightarrow> bool" where
  "hasActiveSession duration a now =
     (if \<not> requiresSessionDurationTracking (provider a) then False
      else if truthy (rate_limited_until a) \<and> the (rate_limited_until a) > now then False
      else truthy (session_start a) \<and> now - the (session_start a) < duration)"

text \<open>The scan for the most recently started active session: the account and its start.\<close>

definition scan_active :: "int \<Rightarrow> int \<Rightarrow> account option \<times> int \<Rightarrow> account \<Rightarrow> account option \<times> int" where
  "scan_active duration now acc a =
     (if hasActiveSession duration a now \<and> truthy (session_start a) \<and> the (session_start a) > snd acc
      then (Some a, the (session_start a)) else acc)"

definition findActiveAccount :: "int \<Rightarrow> int \<Rightarrow> account list \<Rightarrow> account option" where
  "findActiveAccount duration now accounts = fst (foldl (scan_active duration now) (None, 0) accounts)"

definition recordComparatorPick :: "string \<Rightarrow> session_state \<Rightarrow> session_state" where
  "recordComparatorPick i s = s\<lparr>pickSeq := pickSeq s + 1,
     lastPickedSeq := jm_set (lastPickedSeq s) i (pickSeq s + 1)\<rparr>"

subsection \<open>Routing metadata\<close>

definition or_else :: "'a option \<Rightarrow> 'a option \<Rightarrow> 'a option" where
  "or_else x y = (case x of None \<Rightarrow> y | Some v \<Rightarrow> Some v)"

definition setRoutingMeta ::
  "string \<Rightarrow> string option \<Rightarrow> nat \<Rightarrow> string option \<Rightarrow> string option \<Rightarrow> string option \<Rightarrow> request_meta \<Rightarrow> request_meta" where
  "setRoutingMeta decision selected candidates optKey optPrevious optHeld meta =
     meta\<lparr>routing := Some \<lparr>rt_strategy = ''session'', rt_decision = decision,
       rt_affinityScope = getAffinityScope meta, rt_affinityKey = or_else optKey (getAffinityKey meta),
       rt_selectedAccountId = selected, rt_previousAccountId = optPrevious,
       rt_candidatesCount = candidates, rt_failoverReason = None, rt_heldAccountId = optHeld\<rparr>\<rparr>"

subsection \<open>Auto-unpause\<close>

definition cmp_priority :: "account \<Rightarrow> account \<Rightarrow> int" where
  "cmp_priority a b = cmp_num (priority a) (priority b)"

definition checkForAutoFallbackAccounts :: "account list \<Rightarrow> int \<Rightarrow> account list" where
  "checkForAutoFallbackAccounts accounts now =
     js_sort cmp_priority (filter (\<lambda>a. isAutoUnpauseCandidate a now) accounts)"

definition unpause_candidate :: "session_state \<times> account list \<Rightarrow> account \<Rightarrow> session_state \<times> account list" where
  "unpause_candidate sp c =
     (let (s, pool) = sp in
      if paused c \<and> (case store s of None \<Rightarrow> False | Some st \<Rightarrow> has_resumeAccount st)
           \<and> isSelfHealingPauseReason (pause_reason c)
      then (write_store (Resume_account (acc_id c)) s,
            upd_account (acc_id c) (\<lambda>a. a\<lparr>paused := False\<rparr>) pool)
      else sp)"

definition unpause_loop :: "int \<Rightarrow> account list \<Rightarrow> session_state \<Rightarrow> session_state \<times> account list" where
  "unpause_loop now accounts s =
     foldl unpause_candidate (s, accounts) (checkForAutoFallbackAccounts accounts now)"

subsection \<open>Selection\<close>

record selection =
  sel_state :: session_state
  sel_pool :: "account list"
  sel_meta :: request_meta
  sel_result :: "account list"

abbreviation rank_pool :: "session_state \<Rightarrow> account list \<Rightarrow> int \<Rightarrow> account list" where
  "rank_pool s accounts now \<equiv>
     sortAvailableAccounts (store s) (lastPickedSeq s) accounts (\<lambda>a. isAccountAvailable a now) now"

text \<open>
  Put \<open>a\<close> first: reset its session when that applies, write it back into the pool, and give
  the state, the pool and the object after the write.
\<close>

definition reset_in_pool ::
  "bool \<Rightarrow> int \<Rightarrow> account \<Rightarrow> account list \<Rightarrow> session_state \<Rightarrow> session_state \<times> account list \<times> account" where
  "reset_in_pool skip clock a accounts s =
     (if skip then (s, accounts, a)
      else let (s', a') = resetSessionIfExpired clock a s
           in (s', upd_account (acc_id a) (\<lambda>_. a') accounts, a'))"

definition select_hit ::
  "(string \<Rightarrow> string) \<Rightarrow> int \<Rightarrow> int \<Rightarrow> account list \<Rightarrow> request_meta \<Rightarrow> string option \<Rightarrow> string option \<Rightarrow> account \<Rightarrow>
     session_state \<Rightarrow> selection" where
  "select_hit hash now clock accounts meta key previous affined s =
     (let (s1, pool, a) = reset_in_pool False clock affined accounts s;
          s2 = rememberAffinity hash meta (acc_id a) now s1;
          others = rank_pool s2 (filter (\<lambda>b. acc_id b \<noteq> acc_id a) pool) now
      in \<lparr>sel_state = s2, sel_pool = pool,
          sel_meta = setRoutingMeta ''affinity_hit'' (Some (acc_id a)) (length others + 1)
            key previous (Some (acc_id a)) meta,
          sel_result = a # others\<rparr>)"

definition select_hold ::
  "int \<Rightarrow> int \<Rightarrow> account list \<Rightarrow> request_meta \<Rightarrow> string option \<Rightarrow> string option \<Rightarrow> string \<Rightarrow>
     session_state \<Rightarrow> selection" where
  "select_hold now clock accounts meta key previous held s =
     (case rank_pool s accounts now of
        [] \<Rightarrow> \<lparr>sel_state = s, sel_pool = accounts,
               sel_meta = setRoutingMeta ''affinity_hold'' None 0 key previous (Some held) meta,
               sel_result = []\<rparr>
      | chosen # rest \<Rightarrow>
          (let (s1, pool, a) = reset_in_pool False clock chosen accounts s
           in \<lparr>sel_state = recordComparatorPick (acc_id a) s1, sel_pool = pool,
               sel_meta = setRoutingMeta ''affinity_hold'' (Some (acc_id a)) (length rest + 1)
                 key previous (Some held) meta,
               sel_result = a # filter (\<lambda>b. acc_id b \<noteq> acc_id a) rest\<rparr>))"

definition select_fresh ::
  "(string \<Rightarrow> string) \<Rightarrow> bool \<Rightarrow> string \<Rightarrow> int \<Rightarrow> int \<Rightarrow> account list \<Rightarrow> request_meta \<Rightarrow> string option \<Rightarrow> string option \<Rightarrow>
     session_state \<Rightarrow> selection" where
  "select_fresh hash bypass decision now clock accounts meta key previous s =
     (case rank_pool s accounts now of
        [] \<Rightarrow> \<lparr>sel_state = s, sel_pool = accounts, sel_meta = meta, sel_result = []\<rparr>
      | chosen # rest \<Rightarrow>
          (let (s1, pool, a) = reset_in_pool bypass clock chosen accounts s;
               s2 = (if bypass then s1 else rememberAffinity hash meta (acc_id a) now s1)
           in \<lparr>sel_state = recordComparatorPick (acc_id a) s2, sel_pool = pool,
               sel_meta = setRoutingMeta decision (Some (acc_id a)) (length rest + 1) key previous None meta,
               sel_result = a # filter (\<lambda>b. acc_id b \<noteq> acc_id a) rest\<rparr>))"

text \<open>The tail of \<^verbatim>\<open>select\<close>: the most recent active session, or a fresh pick.\<close>

definition select_global ::
  "(string \<Rightarrow> string) \<Rightarrow> bool \<Rightarrow> int \<Rightarrow> int \<Rightarrow> account list \<Rightarrow> request_meta \<Rightarrow> session_state \<Rightarrow> selection" where
  "select_global hash bypass now clock accounts meta s =
     (case findActiveAccount (sessionDurationMs s) now accounts of
        Some active \<Rightarrow>
          if isAccountAvailable active now then
            (let (s1, pool, a) = reset_in_pool bypass clock active accounts s;
                 s2 = (if bypass then s1 else rememberAffinity hash meta (acc_id a) now s1);
                 others = rank_pool s2 (filter (\<lambda>b. acc_id b \<noteq> acc_id a) pool) now
             in \<lparr>sel_state = s2, sel_pool = pool,
                 sel_meta = setRoutingMeta ''global_session'' (Some (acc_id a)) (length others + 1)
                   None None None meta,
                 sel_result = a # others\<rparr>)
          else select_fresh hash bypass ''priority_utilization'' now clock accounts meta None None s
      | None \<Rightarrow> select_fresh hash bypass ''priority_utilization'' now clock accounts meta None None s)"

text \<open>Affinity resolution with the seeding of a model pin from its conversation's anchor.\<close>

definition resolve_seeded ::
  "map_keys option \<Rightarrow> account list \<Rightarrow> int \<Rightarrow> session_state \<Rightarrow> session_state \<times> affinity_resolution \<times> string option" where
  "resolve_seeded keys accounts now s =
     (let available = (\<lambda>a. isAccountAvailable a now);
          previous = Option.bind keys (\<lambda>ks. map_option entry_accountId (jm_get (affinityByKey s) (pin_key ks)));
          (s1, resolution) = resolveAffinity accounts (map_option pin_key keys) now available s
      in case (resolution, Option.bind keys anchor_key) of
           (Miss, Some anchor) \<Rightarrow>
             if anchor = [] then (s1, resolution, previous)
             else (case resolveAnchor accounts anchor available s1 of
                     None \<Rightarrow> (s1, resolution, previous)
                   | Some a \<Rightarrow> (s1, Hit a, Some (acc_id a)))
         | _ \<Rightarrow> (s1, resolution, previous))"

definition bypassSession :: "request_meta \<Rightarrow> bool" where
  "bypassSession meta \<longleftrightarrow> internal meta \<and> bypassHeader meta = Some ''true''"

definition select ::
  "(string \<Rightarrow> string) \<Rightarrow> int \<Rightarrow> int \<Rightarrow> account list \<Rightarrow> request_meta \<Rightarrow> session_state \<Rightarrow> selection" where
  "select hash now clock accounts0 meta s0 =
     (let (s1, accounts) = unpause_loop now accounts0 s0 in
      if bypassSession meta then select_global hash True now clock accounts meta s1
      else let key = getAffinityKey meta;
               (s2, resolution, previous) = resolve_seeded (getAffinityMapKeys hash meta) accounts now s1
           in case resolution of
                Hit a \<Rightarrow> select_hit hash now clock accounts meta key previous a s2
              | Hold held \<Rightarrow> select_hold now clock accounts meta key previous held s2
              | Miss \<Rightarrow> if key \<noteq> None
                  then select_fresh hash False ''affinity_miss'' now clock accounts meta key previous s2
                  else select_global hash False now clock accounts meta s2
              | Reassign _ \<Rightarrow> if key \<noteq> None
                  then select_fresh hash False ''affinity_reassigned'' now clock accounts meta key previous s2
                  else select_global hash False now clock accounts meta s2)"

subsection \<open>Previews and rebinding\<close>

definition peekRanked :: "account list \<Rightarrow> int \<Rightarrow> session_state \<Rightarrow> account list" where
  "peekRanked accounts now s =
     sortAvailableAccounts (store s) (lastPickedSeq s) accounts (\<lambda>a. isPeekAvailable a now) now"

text \<open>\<^verbatim>\<open>ranked[0]?.id ?? null\<close>\<close>

definition first_id :: "account list \<Rightarrow> string option" where
  "first_id as = (case as of [] \<Rightarrow> None | a # _ \<Rightarrow> Some (acc_id a))"

definition peek :: "account list \<Rightarrow> int \<Rightarrow> session_state \<Rightarrow> string option" where
  "peek accounts now s = first_id (peekRanked accounts now s)"

definition reassignAffinity ::
  "(string \<Rightarrow> string) \<Rightarrow> int \<Rightarrow> int \<Rightarrow> request_meta \<Rightarrow> account \<Rightarrow> session_state \<Rightarrow> session_state \<times> request_meta \<times> account" where
  "reassignAffinity hash clock now meta a s =
     (case routing meta of
        None \<Rightarrow> (s, meta, a)
      | Some r \<Rightarrow>
          if rt_strategy r \<noteq> ''session'' \<or> getAffinityKey meta = None then (s, meta, a)
          else let previous = or_else (rt_heldAccountId r) (rt_selectedAccountId r);
                   (s1, a1) = resetSessionIfExpired clock a s;
                   s2 = rememberAffinity hash meta (acc_id a1) now s1
               in (s2, meta\<lparr>routing := Some (r\<lparr>rt_decision := ''affinity_reassigned'',
                     rt_previousAccountId := previous, rt_selectedAccountId := Some (acc_id a1),
                     rt_heldAccountId := Some (acc_id a1)\<rparr>)\<rparr>, a1))"

definition followAffinity ::
  "(string \<Rightarrow> string) \<Rightarrow> int \<Rightarrow> request_meta \<Rightarrow> string \<Rightarrow> account \<Rightarrow> session_state \<Rightarrow> session_state" where
  "followAffinity hash now meta fromAccountId a s =
     (case routing meta of
        None \<Rightarrow> s
      | Some r \<Rightarrow>
          if rt_strategy r \<noteq> ''session'' then s
          else case getAffinityMapKeys hash meta of
            None \<Rightarrow> s
          | Some ks \<Rightarrow> if map_option entry_accountId (jm_get (affinityByKey s) (pin_key ks)) \<noteq> Some fromAccountId
                       then s else rememberAffinity hash meta (acc_id a) now s)"

subsection \<open>Frames: what each step leaves alone\<close>

lemma prune_strategy [simp]:
  "store (pruneAffinity now s) = store s" "pickSeq (pruneAffinity now s) = pickSeq s"
  "lastPickedSeq (pruneAffinity now s) = lastPickedSeq s" "store_log (pruneAffinity now s) = store_log s"
  by (simp_all add: pruneAffinity_def Let_def)

lemma remember_strategy [simp]:
  "store (rememberAffinity hash meta i now s) = store s"
  "pickSeq (rememberAffinity hash meta i now s) = pickSeq s"
  "lastPickedSeq (rememberAffinity hash meta i now s) = lastPickedSeq s"
  "store_log (rememberAffinity hash meta i now s) = store_log s"
  "sessionDurationMs (rememberAffinity hash meta i now s) = sessionDurationMs s"
  by (simp_all add: rememberAffinity_def Let_def split: option.split)

lemma drop_pin_strategy [simp]:
  "store (drop_pin k s) = store s" "pickSeq (drop_pin k s) = pickSeq s"
  "lastPickedSeq (drop_pin k s) = lastPickedSeq s" "store_log (drop_pin k s) = store_log s"
  "sessionDurationMs (drop_pin k s) = sessionDurationMs s"
  by (simp_all add: drop_pin_def)

lemma resolve_strategy [simp]:
  "store (fst (resolveAffinity as key now P s)) = store s"
  "lastPickedSeq (fst (resolveAffinity as key now P s)) = lastPickedSeq s"
  "sessionDurationMs (fst (resolveAffinity as key now P s)) = sessionDurationMs s"
  by (simp_all add: resolveAffinity_def Let_def split: option.split)

lemma reset_fields [simp]:
  "acc_id (snd (resetSessionIfExpired clock a s)) = acc_id a"
  "isAccountAvailable (snd (resetSessionIfExpired clock a s)) now = isAccountAvailable a now"
  "store (fst (resetSessionIfExpired clock a s)) = store s"
  "lastPickedSeq (fst (resetSessionIfExpired clock a s)) = lastPickedSeq s"
  "sessionDurationMs (fst (resetSessionIfExpired clock a s)) = sessionDurationMs s"
  "affinityByKey (fst (resetSessionIfExpired clock a s)) = affinityByKey s"
  "affinity_inv (fst (resetSessionIfExpired clock a s)) = affinity_inv s"
  by (simp_all add: resetSessionIfExpired_def write_store_def isAccountAvailable_def affinity_inv_def)

lemma pick_fields [simp]:
  "store (recordComparatorPick i s) = store s" "affinityByKey (recordComparatorPick i s) = affinityByKey s"
  "affinity_inv (recordComparatorPick i s) = affinity_inv s"
  by (simp_all add: recordComparatorPick_def affinity_inv_def)

subsection \<open>The auto-unpause loop\<close>

definition canResume :: "session_state \<Rightarrow> bool" where
  "canResume s \<longleftrightarrow> (case store s of None \<Rightarrow> False | Some st \<Rightarrow> has_resumeAccount st)"

text \<open>What the loop makes of one account.\<close>

definition after_unpause :: "int \<Rightarrow> session_state \<Rightarrow> account \<Rightarrow> account" where
  "after_unpause now s a = (if canResume s then auto_unpause now a else a)"

lemma after_unpause_id [simp]: "acc_id (after_unpause now s a) = acc_id a"
  by (simp add: after_unpause_def)

lemma unpause_fold:
  "\<exists>log. foldl unpause_candidate (s, pool) cs =
    (s\<lparr>store_log := log\<rparr>, map (\<lambda>a. if canResume s \<and> (\<exists>c \<in> set cs. acc_id c = acc_id a \<and> paused c
        \<and> isSelfHealingPauseReason (pause_reason c)) then a\<lparr>paused := False\<rparr> else a) pool)"
proof (induction cs arbitrary: s pool)
  case Nil
  show ?case by (intro exI [of _ "store_log s"]) simp
next
  case (Cons c cs)
  show ?case
  proof (cases "canResume s \<and> paused c \<and> isSelfHealingPauseReason (pause_reason c)")
    case True
    then have "unpause_candidate (s, pool) c = (write_store (Resume_account (acc_id c)) s,
        upd_account (acc_id c) (\<lambda>a. a\<lparr>paused := False\<rparr>) pool)"
      by (simp add: unpause_candidate_def canResume_def)
    moreover have "canResume (write_store w s) = canResume s" for w
      by (simp add: canResume_def write_store_def)
    ultimately show ?thesis
      using Cons.IH [of "write_store (Resume_account (acc_id c)) s"
          "upd_account (acc_id c) (\<lambda>a. a\<lparr>paused := False\<rparr>) pool"] True
      by (auto simp: upd_account_def write_store_def)
  next
    case False
    then have "unpause_candidate (s, pool) c = (s, pool)"
      by (auto simp: unpause_candidate_def canResume_def)
    with Cons.IH [of s pool] False show ?thesis by auto
  qed
qed

lemma unpause_pool:
  assumes "distinct (map acc_id accounts)"
  shows "\<exists>log. unpause_loop now accounts s = (s\<lparr>store_log := log\<rparr>, map (after_unpause now s) accounts)"
proof -
  have cand: "(\<exists>c \<in> set (checkForAutoFallbackAccounts accounts now). acc_id c = acc_id a \<and> paused c
      \<and> isSelfHealingPauseReason (pause_reason c)) \<longleftrightarrow> wouldAutoUnpause a now" if "a \<in> set accounts" for a
  proof -
    have "c = a" if "c \<in> set accounts" "acc_id c = acc_id a" for c
      using assms that \<open>a \<in> set accounts\<close> by (metis find_account_eq option.inject)
    then show ?thesis
      using that isAutoUnpauseCandidateD(1) [of a now]
      by (auto simp: checkForAutoFallbackAccounts_def wouldAutoUnpause_def)
  qed
  obtain log where eq: "unpause_loop now accounts s = (s\<lparr>store_log := log\<rparr>,
      map (\<lambda>a. if canResume s \<and> (\<exists>c \<in> set (checkForAutoFallbackAccounts accounts now). acc_id c = acc_id a
        \<and> paused c \<and> isSelfHealingPauseReason (pause_reason c)) then a\<lparr>paused := False\<rparr> else a) accounts)"
    using unpause_fold [of s accounts "checkForAutoFallbackAccounts accounts now"] unfolding unpause_loop_def by blast
  have "map (\<lambda>a. if canResume s \<and> (\<exists>c \<in> set (checkForAutoFallbackAccounts accounts now). acc_id c = acc_id a
        \<and> paused c \<and> isSelfHealingPauseReason (pause_reason c)) then a\<lparr>paused := False\<rparr> else a) accounts
      = map (after_unpause now s) accounts"
    using cand by (intro map_cong) (auto simp: after_unpause_def auto_unpause_def)
  with eq show ?thesis by auto
qed

subsection \<open>Every branch returns exactly the available accounts\<close>

definition exact_selection :: "int \<Rightarrow> account list \<Rightarrow> selection \<Rightarrow> bool" where
  "exact_selection now accounts r \<longleftrightarrow> distinct (map acc_id (sel_result r))
     \<and> acc_id ` set (sel_result r) = acc_id ` {a \<in> set accounts. isAccountAvailable a now}
     \<and> set (sel_result r) \<subseteq> {a \<in> set (sel_pool r). isAccountAvailable a now}
     \<and> map acc_id (sel_pool r) = map acc_id accounts"

lemma reset_in_pool_facts:
  assumes "reset_in_pool skip clock a accounts s = (s1, pool, a1)" and "a \<in> set accounts"
  shows "acc_id a1 = acc_id a" "isAccountAvailable a1 now = isAccountAvailable a now"
    "a1 \<in> set pool" "map acc_id pool = map acc_id accounts"
    "b \<in> set accounts \<Longrightarrow> acc_id b \<noteq> acc_id a \<Longrightarrow> b \<in> set pool"
    "b \<in> set pool \<Longrightarrow> acc_id b \<noteq> acc_id a \<Longrightarrow> b \<in> set accounts"
    "store s1 = store s" "lastPickedSeq s1 = lastPickedSeq s" "sessionDurationMs s1 = sessionDurationMs s"
    "affinityByKey s1 = affinityByKey s" "affinity_inv s1 = affinity_inv s"
proof -
  define a' where "a' = (if skip then a else snd (resetSessionIfExpired clock a s))"
  have eqs: "a1 = a'" "s1 = (if skip then s else fst (resetSessionIfExpired clock a s))"
    "pool = (if skip then accounts else upd_account (acc_id a) (\<lambda>_. a') accounts)"
    using assms(1) by (auto simp: reset_in_pool_def Let_def a'_def split: if_splits prod.splits)
  have id: "acc_id a' = acc_id a" by (simp add: a'_def)
  from eqs show "acc_id a1 = acc_id a" "isAccountAvailable a1 now = isAccountAvailable a now"
    "store s1 = store s" "lastPickedSeq s1 = lastPickedSeq s" "sessionDurationMs s1 = sessionDurationMs s"
    "affinityByKey s1 = affinityByKey s" "affinity_inv s1 = affinity_inv s"
    by (simp_all add: a'_def)
  show "map acc_id pool = map acc_id accounts"
    using id by (auto simp: eqs(3) upd_account_def)
  show "a1 \<in> set pool" using assms(2) by (auto simp: eqs upd_account_def a'_def image_iff)
  show "b \<in> set accounts \<Longrightarrow> acc_id b \<noteq> acc_id a \<Longrightarrow> b \<in> set pool"
    by (auto simp: eqs upd_account_def image_iff)
  show "b \<in> set pool \<Longrightarrow> acc_id b \<noteq> acc_id a \<Longrightarrow> b \<in> set accounts"
    using id by (auto simp: eqs upd_account_def split: if_splits)
qed

text \<open>The shape all branches share: one available account, then others of the pool ranked.\<close>

lemma exact_selectionI:
  assumes "distinct (map acc_id accounts)" and "a \<in> set accounts" and "isAccountAvailable a now"
    and "reset_in_pool skip clock a accounts s = (s1, pool, a1)"
    and "set others = {b \<in> set pool. acc_id b \<noteq> acc_id a \<and> isAccountAvailable b now}"
    and "distinct (map acc_id others)"
    and "sel_result r = a1 # others" and "sel_pool r = pool"
  shows "exact_selection now accounts r"
proof -
  note f = reset_in_pool_facts [OF assms(4,2)]
  have "acc_id ` set (a1 # others) = acc_id ` {a \<in> set accounts. isAccountAvailable a now}"
  proof (intro equalityI subsetI)
    fix i assume "i \<in> acc_id ` set (a1 # others)"
    then show "i \<in> acc_id ` {a \<in> set accounts. isAccountAvailable a now}"
      using assms(2,3,5) f(1,6) by auto
  next
    fix i assume "i \<in> acc_id ` {a \<in> set accounts. isAccountAvailable a now}"
    then obtain b where "b \<in> set accounts" "isAccountAvailable b now" "i = acc_id b" by auto
    then show "i \<in> acc_id ` set (a1 # others)"
      using assms(5) f(1) f(5) [of b] by (cases "acc_id b = acc_id a") auto
  qed
  moreover have "set (a1 # others) \<subseteq> {a \<in> set pool. isAccountAvailable a now}"
    using assms(3,5) f(2,3) by auto
  moreover have "acc_id a1 \<notin> acc_id ` set others" unfolding assms(5) f(1) by auto
  ultimately show ?thesis
    unfolding exact_selection_def assms(7,8) f(4) using assms(6) by simp
qed

lemma rank_head:
  assumes "distinct (map acc_id accounts)" and "rank_pool s accounts now = chosen # rest"
  shows "chosen \<in> set accounts" "isAccountAvailable chosen now"
    "filter (\<lambda>b. acc_id b \<noteq> acc_id chosen) rest = rest" "distinct (map acc_id rest)"
    "set rest = {b \<in> set accounts. acc_id b \<noteq> acc_id chosen \<and> isAccountAvailable b now}"
proof -
  have set: "set (chosen # rest) = {a \<in> set accounts. isAccountAvailable a now}"
    by (metis assms(2) sortAvailable_set)
  have dist: "distinct (map acc_id (chosen # rest))"
    by (metis assms sortAvailable_distinct)
  from set show "chosen \<in> set accounts" "isAccountAvailable chosen now" by auto
  from dist show "distinct (map acc_id rest)" by simp
  from dist have ne: "acc_id b \<noteq> acc_id chosen" if "b \<in> set rest" for b using that by (auto simp: image_iff)
  then show "filter (\<lambda>b. acc_id b \<noteq> acc_id chosen) rest = rest" by simp
  have "x = chosen \<or> x \<in> set rest \<longleftrightarrow> x \<in> set accounts \<and> isAccountAvailable x now" for x
    using set by (simp add: set_eq_iff)
  with ne show "set rest = {b \<in> set accounts. acc_id b \<noteq> acc_id chosen \<and> isAccountAvailable b now}"
    by (intro set_eqI) (metis (lifting) mem_Collect_eq)
qed

lemma rank_empty: "rank_pool s accounts now = [] \<longleftrightarrow> (\<forall>a \<in> set accounts. \<not> isAccountAvailable a now)"
  by (simp add: sortAvailableAccounts_def Let_def filter_empty_conv)

lemma exact_empty:
  "rank_pool s accounts now = [] \<Longrightarrow> sel_result r = [] \<Longrightarrow> sel_pool r = accounts \<Longrightarrow> exact_selection now accounts r"
  by (auto simp: exact_selection_def rank_empty)

lemma exact_sticky:
  assumes "distinct (map acc_id accounts)" and "a \<in> set accounts" and "isAccountAvailable a now"
    and "reset_in_pool skip clock a accounts s = (s1, pool, a1)"
    and "sel_result r = a1 # rank_pool t (filter (\<lambda>b. acc_id b \<noteq> acc_id a1) pool) now" and "sel_pool r = pool"
  shows "exact_selection now accounts r"
proof -
  note f = reset_in_pool_facts [OF assms(4,2)]
  have "distinct (map acc_id pool)" using assms(1) f(4) by simp
  then show ?thesis
    by (intro exact_selectionI [OF assms(1-4) _ _ assms(5,6)]) (auto simp: f(1))
qed

lemma exact_ranked:
  assumes "distinct (map acc_id accounts)" and "rank_pool s accounts now = chosen # rest"
    and "reset_in_pool skip clock chosen accounts s' = (s1, pool, a1)"
    and "sel_result r = a1 # filter (\<lambda>b. acc_id b \<noteq> acc_id a1) rest" and "sel_pool r = pool"
  shows "exact_selection now accounts r"
proof -
  note h = rank_head [OF assms(1,2)] and f = reset_in_pool_facts [OF assms(3) rank_head(1) [OF assms(1,2)]]
  have "set rest = {b \<in> set pool. acc_id b \<noteq> acc_id chosen \<and> isAccountAvailable b now}"
    using h(5) f(5,6) by auto
  then show ?thesis
    by (intro exact_selectionI [OF assms(1) h(1,2) assms(3) _ h(4) _ assms(5)])
      (use assms(4) f(1) h(3) in simp_all)
qed

lemma select_hit_exact:
  assumes "distinct (map acc_id accounts)" and "a \<in> set accounts" and "isAccountAvailable a now"
  shows "exact_selection now accounts (select_hit hash now clock accounts meta key prev a s)"
proof -
  obtain s1 pool a1 where r: "reset_in_pool False clock a accounts s = (s1, pool, a1)" by (metis prod_cases3)
  show ?thesis by (rule exact_sticky [OF assms r]) (simp_all add: select_hit_def r Let_def)
qed

lemma select_hold_exact:
  assumes "distinct (map acc_id accounts)"
  shows "exact_selection now accounts (select_hold now clock accounts meta key prev held s)"
proof (cases "rank_pool s accounts now")
  case Nil
  then show ?thesis by (rule exact_empty) (simp_all add: select_hold_def Nil)
next
  case (Cons c rest)
  obtain s1 pool a1 where r: "reset_in_pool False clock c accounts s = (s1, pool, a1)" by (metis prod_cases3)
  show ?thesis by (rule exact_ranked [OF assms Cons r]) (simp_all add: select_hold_def Cons r)
qed

lemma select_fresh_exact:
  assumes "distinct (map acc_id accounts)"
  shows "exact_selection now accounts (select_fresh hash bypass decision now clock accounts meta key prev s)"
proof (cases "rank_pool s accounts now")
  case Nil
  then show ?thesis by (rule exact_empty) (simp_all add: select_fresh_def Nil)
next
  case (Cons c rest)
  obtain s1 pool a1 where r: "reset_in_pool bypass clock c accounts s = (s1, pool, a1)" by (metis prod_cases3)
  show ?thesis by (rule exact_ranked [OF assms Cons r]) (simp_all add: select_fresh_def Cons r Let_def)
qed

lemma scan_active_in:
  "fst (foldl (scan_active d now) (x, t) accounts) = Some a \<Longrightarrow>
    x = Some a \<or> (a \<in> set accounts \<and> hasActiveSession d a now)"
  by (induction accounts arbitrary: x t) (fastforce simp: scan_active_def split: if_splits)+

lemma findActive_in: "findActiveAccount d now accounts = Some a \<Longrightarrow> a \<in> set accounts \<and> hasActiveSession d a now"
  using scan_active_in [of d now None 0 accounts a] by (simp add: findActiveAccount_def)

lemma select_global_exact:
  assumes "distinct (map acc_id accounts)"
  shows "exact_selection now accounts (select_global hash bypass now clock accounts meta s)"
proof (cases "\<exists>a. findActiveAccount (sessionDurationMs s) now accounts = Some a \<and> isAccountAvailable a now")
  case True
  then obtain a where a: "findActiveAccount (sessionDurationMs s) now accounts = Some a" "isAccountAvailable a now"
    by blast
  obtain s1 pool a1 where r: "reset_in_pool bypass clock a accounts s = (s1, pool, a1)" by (metis prod_cases3)
  show ?thesis
    by (rule exact_sticky [OF assms _ a(2) r]) (simp_all add: findActive_in [OF a(1)] select_global_def a r Let_def)
next
  case False
  then have "select_global hash bypass now clock accounts meta s =
      select_fresh hash bypass ''priority_utilization'' now clock accounts meta None None s"
    by (auto simp: select_global_def split: option.split)
  then show ?thesis by (simp add: select_fresh_exact [OF assms])
qed

lemma resolve_hit:
  assumes "resolve_seeded keys accounts now s = (s1, Hit a, prev)"
  shows "a \<in> set accounts \<and> isAccountAvailable a now"
  using assms
  by (auto simp: resolve_seeded_def resolveAffinity_def resolveAnchor_def Let_def
      split: option.splits if_splits dest: find_account_Some)

lemma select_exact_pool:
  assumes "unpause_loop now accounts0 s0 = (s1, accounts)" and "distinct (map acc_id accounts)"
  shows "exact_selection now accounts (select hash now clock accounts0 meta s0)"
proof -
  obtain s2 res prev where r: "resolve_seeded (getAffinityMapKeys hash meta) accounts now s1 = (s2, res, prev)"
    by (metis prod_cases3)
  show ?thesis
    using resolve_hit [OF r [THEN trans]] r
    by (cases res) (auto simp: select_def assms Let_def
        intro: select_hit_exact select_hold_exact select_fresh_exact select_global_exact)
qed

subsection \<open>What a pin decides\<close>

lemma resolve_pinned:
  assumes "affinity_inv s" and "pin_key ks \<noteq> []" and "jm_get (affinityByKey s) (pin_key ks) = Some e"
    and "now - sessionDurationMs s \<le> entry_lastUsedAt e"
  shows "resolve_seeded (Some ks) accounts now s =
    (case find_account accounts (entry_accountId e) of
       None \<Rightarrow> (drop_pin (pin_key ks) (pruneAffinity now s), Reassign (entry_accountId e), Some (entry_accountId e))
     | Some a \<Rightarrow>
         if isAccountAvailable a now then (pruneAffinity now s, Hit a, Some (entry_accountId e))
         else if isAffinityBreakingUnavailability a now
           then (drop_pin (pin_key ks) (pruneAffinity now s), Reassign (entry_accountId e), Some (entry_accountId e))
         else (pruneAffinity now s, Hold (entry_accountId e), Some (entry_accountId e)))"
  using assms by (simp add: resolve_seeded_def resolveAffinity_def prune_get Let_def split: option.split)

lemma resolve_no_pin:
  assumes "affinity_inv s"
    and "\<And>k e. k = pin_key ks \<or> anchor_key ks = Some k \<Longrightarrow> jm_get (affinityByKey s) k = Some e \<Longrightarrow>
      entry_lastUsedAt e < now - sessionDurationMs s"
  shows "\<exists>prev. resolve_seeded (Some ks) accounts now s = (pruneAffinity now s, Miss, prev)"
proof -
  have none: "jm_get (affinityByKey (pruneAffinity now s)) k = None" if "k = pin_key ks \<or> anchor_key ks = Some k" for k
    using assms(2) [OF that] by (auto simp: prune_get [OF assms(1)] split: option.split)
  show ?thesis
    by (auto simp: resolve_seeded_def resolveAffinity_def resolveAnchor_def Let_def none
        split: option.split)
qed

text \<open>The request carries a key whose pin is live, in a well-formed state.\<close>

definition live_pin ::
  "(string \<Rightarrow> string) \<Rightarrow> int \<Rightarrow> request_meta \<Rightarrow> session_state \<Rightarrow> map_keys \<Rightarrow> affinity_entry \<Rightarrow> bool" where
  "live_pin hash now meta s ks e \<longleftrightarrow> affinity_inv s \<and> 0 \<le> sessionDurationMs s \<and> \<not> bypassSession meta
     \<and> getAffinityMapKeys hash meta = Some ks \<and> pin_key ks \<noteq> []
     \<and> jm_get (affinityByKey s) (pin_key ks) = Some e \<and> now - sessionDurationMs s \<le> entry_lastUsedAt e"

lemma affinity_inv_log [simp]: "affinity_inv (s\<lparr>store_log := l\<rparr>) = affinity_inv (s :: session_state)"
  by (simp add: affinity_inv_def)

lemma getAffinityMapKeys_key: "getAffinityMapKeys hash meta = Some ks \<Longrightarrow> getAffinityKey meta \<noteq> None"
  by (auto simp: getAffinityMapKeys_def split: option.splits)

lemma find_after_unpause:
  "find_account (map (after_unpause now s) accounts) i = map_option (after_unpause now s) (find_account accounts i)"
  by (induction accounts) (simp_all add: find_account_def)

text \<open>A non-bypassed selection after its unpause loop and its resolution.\<close>

lemma select_cases:
  assumes "distinct (map acc_id accounts)" and "\<not> bypassSession meta"
    and "getAffinityMapKeys hash meta = Some ks"
  obtains log where "\<And>s2 res prev. resolve_seeded (Some ks) (map (after_unpause now s) accounts) now
      (s\<lparr>store_log := log\<rparr>) = (s2, res, prev) \<Longrightarrow>
    select hash now clock accounts meta s =
      (let pool = map (after_unpause now s) accounts; key = getAffinityKey meta in case res of
         Hit a \<Rightarrow> select_hit hash now clock pool meta key prev a s2
       | Hold held \<Rightarrow> select_hold now clock pool meta key prev held s2
       | Miss \<Rightarrow> select_fresh hash False ''affinity_miss'' now clock pool meta key prev s2
       | Reassign _ \<Rightarrow> select_fresh hash False ''affinity_reassigned'' now clock pool meta key prev s2)"
proof -
  obtain log where "unpause_loop now accounts s = (s\<lparr>store_log := log\<rparr>, map (after_unpause now s) accounts)"
    using unpause_pool [OF assms(1)] by blast
  then have "resolve_seeded (Some ks) (map (after_unpause now s) accounts) now (s\<lparr>store_log := log\<rparr>) = (s2, res, prev) \<Longrightarrow>
    select hash now clock accounts meta s =
      (let pool = map (after_unpause now s) accounts; key = getAffinityKey meta in case res of
         Hit a \<Rightarrow> select_hit hash now clock pool meta key prev a s2
       | Hold held \<Rightarrow> select_hold now clock pool meta key prev held s2
       | Miss \<Rightarrow> select_fresh hash False ''affinity_miss'' now clock pool meta key prev s2
       | Reassign _ \<Rightarrow> select_fresh hash False ''affinity_reassigned'' now clock pool meta key prev s2)" for s2 res prev
    using assms(2,3) getAffinityMapKeys_key [OF assms(3)]
    by (simp add: select_def Let_def split: affinity_resolution.split)
  then show ?thesis using that by blast
qed

lemma select_exact_ids:
  assumes "distinct (map acc_id accounts)"
  shows "acc_id ` set (sel_result (select hash now clock accounts meta s)) =
      acc_id ` {a \<in> set accounts. isAccountAvailable (after_unpause now s a) now}"
    "distinct (map acc_id (sel_result (select hash now clock accounts meta s)))"
    "a \<in> set (sel_result (select hash now clock accounts meta s)) \<Longrightarrow> isAccountAvailable a now"
proof -
  obtain log where u: "unpause_loop now accounts s = (s\<lparr>store_log := log\<rparr>, map (after_unpause now s) accounts)"
    using unpause_pool [OF assms] by blast
  have "distinct (map acc_id (map (after_unpause now s) accounts))" using assms by (simp add: o_def)
  note ex = select_exact_pool [OF u this, of hash clock meta, unfolded exact_selection_def]
  have "{a \<in> set (map (after_unpause now s) accounts). isAccountAvailable a now} =
      after_unpause now s ` {a \<in> set accounts. isAccountAvailable (after_unpause now s a) now}" by auto
  then have "acc_id ` {a \<in> set (map (after_unpause now s) accounts). isAccountAvailable a now} =
      acc_id ` {a \<in> set accounts. isAccountAvailable (after_unpause now s a) now}"
    by (simp only: image_image after_unpause_id)
  with ex show "acc_id ` set (sel_result (select hash now clock accounts meta s)) =
      acc_id ` {a \<in> set accounts. isAccountAvailable (after_unpause now s a) now}" by argo
  from ex show "distinct (map acc_id (sel_result (select hash now clock accounts meta s)))" by blast
  from ex show "a \<in> set (sel_result (select hash now clock accounts meta s)) \<Longrightarrow> isAccountAvailable a now"
    by blast
qed

lemma prune_affinity_inv: "affinity_inv s \<Longrightarrow> affinity_inv (pruneAffinity now s)"
  by (rule prune_inv) (simp add: affinity_inv_iff)

lemma select_pinned:
  assumes "distinct (map acc_id accounts)" and "live_pin hash now meta s ks e"
  obtains t where "affinity_inv t" "sessionDurationMs t = sessionDurationMs s"
    "jm_get (affinityByKey t) (pin_key ks) = Some e"
    "select hash now clock accounts meta s =
      (let pool = map (after_unpause now s) accounts; key = getAffinityKey meta; prev = Some (entry_accountId e) in
       case map_option (after_unpause now s) (find_account accounts (entry_accountId e)) of
         None \<Rightarrow> select_fresh hash False ''affinity_reassigned'' now clock pool meta key prev (drop_pin (pin_key ks) t)
       | Some a \<Rightarrow>
           if isAccountAvailable a now then select_hit hash now clock pool meta key prev a t
           else if isAffinityBreakingUnavailability a now
             then select_fresh hash False ''affinity_reassigned'' now clock pool meta key prev (drop_pin (pin_key ks) t)
           else select_hold now clock pool meta key prev (entry_accountId e) t)"
proof -
  note l = assms(2) [unfolded live_pin_def]
  then have b: "\<not> bypassSession meta" and k: "getAffinityMapKeys hash meta = Some ks" by simp_all
  show ?thesis
  proof (rule select_cases [OF assms(1) b k, where now = now and s = s and clock = clock], goal_cases)
    case (1 log)
    have inv: "affinity_inv (s\<lparr>store_log := log\<rparr>)" using l by simp
    have get: "jm_get (affinityByKey (pruneAffinity now (s\<lparr>store_log := log\<rparr>))) (pin_key ks) = Some e"
      using l by (simp add: prune_get [OF inv])
    obtain s2 res prev where r: "resolve_seeded (Some ks) (map (after_unpause now s) accounts) now
        (s\<lparr>store_log := log\<rparr>) = (s2, res, prev)" by (metis prod_cases3)
    note sel = 1 [OF r]
    show ?case
    proof (rule that [of "pruneAffinity now (s\<lparr>store_log := log\<rparr>)", OF prune_affinity_inv [OF inv] _ get], goal_cases)
      case 2
      show ?case
        using r l unfolding sel
        by (auto simp: resolve_pinned [OF inv] find_after_unpause Let_def split: option.splits if_splits)
    qed simp
  qed
qed

lemma select_hit_facts:
  assumes r_def: "r = select_hit hash now clock accounts meta key prev a s"
    and "affinity_inv s" and "0 \<le> sessionDurationMs s" and "getAffinityMapKeys hash meta = Some ks"
    and a: "a \<in> set accounts"
  shows "\<exists>a1 rest. sel_result r = a1 # rest \<and> acc_id a1 = acc_id a"
    "pinned (sel_state r) (pin_key ks) = Some (acc_id a)"
    "map_option rt_decision (routing (sel_meta r)) = Some ''affinity_hit''"
proof -
  obtain s1 pool a1 where e: "reset_in_pool False clock a accounts s = (s1, pool, a1)" by (metis prod_cases3)
  note f = reset_in_pool_facts [OF e a]
  have "pinned (rememberAffinity hash meta (acc_id a) now s1) (pin_key ks) = Some (acc_id a)"
    by (rule remember_pinned) (use assms f in simp_all)
  then show "\<exists>a1 rest. sel_result r = a1 # rest \<and> acc_id a1 = acc_id a"
    "pinned (sel_state r) (pin_key ks) = Some (acc_id a)"
    "map_option rt_decision (routing (sel_meta r)) = Some ''affinity_hit''"
    by (simp_all add: r_def select_hit_def e f(1) Let_def setRoutingMeta_def)
qed

lemma select_hold_facts:
  assumes r_def: "r = select_hold now clock accounts meta key prev held s"
    and "distinct (map acc_id accounts)"
  shows "affinityByKey (sel_state r) = affinityByKey s"
    "map_option rt_decision (routing (sel_meta r)) = Some ''affinity_hold''"
    "Option.bind (routing (sel_meta r)) rt_heldAccountId = Some held"
proof -
  have "affinityByKey (sel_state r) = affinityByKey s
      \<and> map_option rt_decision (routing (sel_meta r)) = Some ''affinity_hold''
      \<and> Option.bind (routing (sel_meta r)) rt_heldAccountId = Some held"
  proof (cases "rank_pool s accounts now")
    case Nil
    then show ?thesis by (simp add: r_def select_hold_def setRoutingMeta_def)
  next
    case (Cons c rest)
    obtain s1 pool a1 where e: "reset_in_pool False clock c accounts s = (s1, pool, a1)" by (metis prod_cases3)
    show ?thesis
      using reset_in_pool_facts [OF e rank_head(1) [OF assms(2) Cons]]
      by (simp add: r_def select_hold_def Cons e setRoutingMeta_def)
  qed
  then show "affinityByKey (sel_state r) = affinityByKey s"
    "map_option rt_decision (routing (sel_meta r)) = Some ''affinity_hold''"
    "Option.bind (routing (sel_meta r)) rt_heldAccountId = Some held" by simp_all
qed

lemma select_fresh_facts:
  assumes r_def: "r = select_fresh hash False decision now clock accounts meta key prev s"
    and "affinity_inv s" and "0 \<le> sessionDurationMs s" and "getAffinityMapKeys hash meta = Some ks"
    and "distinct (map acc_id accounts)"
  shows "map acc_id (sel_result r) = map acc_id (rank_pool s accounts now)"
    "sel_result r = a # rest \<Longrightarrow> pinned (sel_state r) (pin_key ks) = Some (acc_id a)"
    "sel_result r = a # rest \<Longrightarrow> map_option rt_decision (routing (sel_meta r)) = Some decision"
proof -
  have "map acc_id (sel_result r) = map acc_id (rank_pool s accounts now) \<and>
      (\<forall>a rest. sel_result r = a # rest \<longrightarrow> pinned (sel_state r) (pin_key ks) = Some (acc_id a)
        \<and> map_option rt_decision (routing (sel_meta r)) = Some decision)"
  proof (cases "rank_pool s accounts now")
    case Nil
    then show ?thesis by (simp add: r_def select_fresh_def)
  next
    case (Cons c rest)
    obtain s1 pool a1 where e: "reset_in_pool False clock c accounts s = (s1, pool, a1)" by (metis prod_cases3)
    note h = rank_head [OF assms(5) Cons]
    note f = reset_in_pool_facts [OF e h(1)]
    have "pinned (rememberAffinity hash meta (acc_id c) now s1) (pin_key ks) = Some (acc_id c)"
      by (rule remember_pinned) (use assms(2-4) f in simp_all)
    then show ?thesis
      by (simp add: r_def select_fresh_def Cons e f(1) h(3) setRoutingMeta_def pinned_def Let_def)
  qed
  then show "map acc_id (sel_result r) = map acc_id (rank_pool s accounts now)"
    "sel_result r = a # rest \<Longrightarrow> pinned (sel_state r) (pin_key ks) = Some (acc_id a)"
    "sel_result r = a # rest \<Longrightarrow> map_option rt_decision (routing (sel_meta r)) = Some decision"
    by auto
qed

subsection \<open>The preview\<close>

lemma subscription_unpause [simp]:
  "nonRenewingSubscriptionEnd (auto_unpause now a) t = nonRenewingSubscriptionEnd a t"
  by (simp add: nonRenewingSubscriptionEnd_def)

lemma metric_unpause [simp]: "capacityMetricFor st (auto_unpause now a) t = capacityMetricFor st a t"
  by (simp only: capacityMetricFor_def auto_unpause_fields subscription_unpause)

lemma snapshot_unpause: "metric_snapshot st lp t (map (auto_unpause now) as) = metric_snapshot st lp t as"
  by (simp add: metric_snapshot_def foldl_map)

lemma rank_unpause:
  "sortAvailableAccounts st lp (map (auto_unpause now) as) (\<lambda>a. isAccountAvailable a now) now =
    map (auto_unpause now) (sortAvailableAccounts st lp as (\<lambda>a. isPeekAvailable a now) now)"
proof -
  have "filter (\<lambda>a. isAccountAvailable a now) (map (auto_unpause now) as) =
      map (auto_unpause now) (filter (\<lambda>a. isPeekAvailable a now) as)"
    by (simp add: filter_map o_def peek_available_iff)
  then show ?thesis
    by (simp add: sortAvailableAccounts_def Let_def snapshot_unpause)
      (rule js_sort_map_on [symmetric], simp add: compare_accounts_def)
qed

subsection \<open>The three fates of a live pin\<close>

lemma pin_available_hit:
  fixes clock :: int
  assumes "distinct (map acc_id accounts)" and "live_pin hash now meta s ks e"
    and "find_account accounts (entry_accountId e) = Some a" and "isAccountAvailable (after_unpause now s a) now"
  defines "r \<equiv> select hash now clock accounts meta s"
  shows "first_id (sel_result r) = Some (acc_id a) \<and> pinned (sel_state r) (pin_key ks) = Some (acc_id a)
    \<and> map_option rt_decision (routing (sel_meta r)) = Some ''affinity_hit''"
proof (rule select_pinned [OF assms(1,2), where clock = clock], goal_cases)
  case (1 t)
  then have "r = select_hit hash now clock (map (after_unpause now s) accounts) meta (getAffinityKey meta)
      (Some (entry_accountId e)) (after_unpause now s a) t"
    using assms(3,4) by (simp add: r_def)
  from select_hit_facts [OF this 1(1)] 1(2) assms(2) find_account_Some [OF assms(3)] show ?case
    by (fastforce simp: live_pin_def first_id_def)
qed

lemma pin_unavailable_hold:
  fixes clock :: int
  assumes "distinct (map acc_id accounts)" and "live_pin hash now meta s ks e"
    and "find_account accounts (entry_accountId e) = Some a"
    and "\<not> isAccountAvailable (after_unpause now s a) now"
    and "\<not> isAffinityBreakingUnavailability (after_unpause now s a) now"
  defines "r \<equiv> select hash now clock accounts meta s"
  shows "pinned (sel_state r) (pin_key ks) = Some (acc_id a)
    \<and> map_option rt_decision (routing (sel_meta r)) = Some ''affinity_hold''
    \<and> Option.bind (routing (sel_meta r)) rt_heldAccountId = Some (acc_id a)
    \<and> acc_id a \<notin> acc_id ` set (sel_result r)"
proof (rule select_pinned [OF assms(1,2), where clock = clock], goal_cases)
  case (1 t)
  let ?pool = "map (after_unpause now s) accounts"
  have eq: "r = select_hold now clock ?pool meta (getAffinityKey meta)
      (Some (entry_accountId e)) (entry_accountId e) t"
    using assms(3-5) 1 by (simp add: r_def)
  have d: "distinct (map acc_id ?pool)" using assms(1) by (simp add: o_def)
  have a: "acc_id a = entry_accountId e" "a \<in> set accounts" using find_account_Some [OF assms(3)] by auto
  have "b = a" if "b \<in> set accounts" "acc_id b = acc_id a" for b
    using assms(1) a(2) that by (metis find_account_eq option.inject)
  then have "acc_id a \<notin> acc_id ` set (sel_result r)"
    using select_hold_exact [OF d] assms(4) unfolding eq exact_selection_def by auto
  then show ?case
    using select_hold_facts [OF eq d] 1(3) a by (simp add: pinned_def)
qed

lemma pin_lost_reassign:
  fixes clock :: int
  assumes "distinct (map acc_id accounts)" and "live_pin hash now meta s ks e"
    and "case find_account accounts (entry_accountId e) of None \<Rightarrow> True | Some a \<Rightarrow>
      \<not> isAccountAvailable (after_unpause now s a) now \<and> isAffinityBreakingUnavailability (after_unpause now s a) now"
    and "sel_result (select hash now clock accounts meta s) = b # rest"
  defines "r \<equiv> select hash now clock accounts meta s"
  shows "pinned (sel_state r) (pin_key ks) = Some (acc_id b) \<and> acc_id b \<noteq> entry_accountId e
    \<and> map_option rt_decision (routing (sel_meta r)) = Some ''affinity_reassigned''"
proof (rule select_pinned [OF assms(1,2), where clock = clock], goal_cases)
  case (1 t)
  let ?pool = "map (after_unpause now s) accounts" and ?t = "drop_pin (pin_key ks) t"
  have eq: "r = select_fresh hash False ''affinity_reassigned'' now clock ?pool meta (getAffinityKey meta)
      (Some (entry_accountId e)) ?t"
    using assms(3) 1 by (auto simp: r_def Let_def split: option.splits)
  have d: "distinct (map acc_id ?pool)" using assms(1) by (simp add: o_def)
  have "exact_selection now ?pool r" unfolding eq by (rule select_fresh_exact [OF d])
  then have "acc_id b \<in> acc_id ` {a \<in> set ?pool. isAccountAvailable a now}"
    using assms(4) by (simp add: exact_selection_def r_def [symmetric]) (metis insertI1)
  then obtain a where a: "a \<in> set accounts" "acc_id b = acc_id a" "isAccountAvailable (after_unpause now s a) now"
    by auto
  have "acc_id b \<noteq> entry_accountId e"
    using find_account_eq [OF assms(1) a(1)] a(2,3) assms(3) by auto
  then show ?case
    using select_fresh_facts [OF eq drop_pin_inv [OF 1(1)] _ _ d] assms(2,4) 1(2)
    by (auto simp: live_pin_def r_def)
qed

subsection \<open>Properties\<close>

text \<open>
  C14. On every path of \<^verbatim>\<open>select\<close> (affinity hit, hold, reassign, miss, global session, fresh
  pick, bypass) the result lists, each once, exactly the accounts that are available after the
  auto-unpause: nothing unavailable is offered and no available account is lost.
\<close>

theorem select_returns_exactly_available:
  assumes "distinct (map acc_id accounts)"
  shows "distinct (map acc_id (sel_result (select hash now clock accounts meta s)))
    \<and> acc_id ` set (sel_result (select hash now clock accounts meta s)) =
        acc_id ` {a \<in> set accounts. isAccountAvailable (after_unpause now s a) now}
    \<and> (\<forall>a \<in> set (sel_result (select hash now clock accounts meta s)). isAccountAvailable a now)"
  using select_exact_ids [OF assms] by blast

text \<open>
  C15. Affinity first: while the account a live pin names is available (after the auto-unpause),
  a request with that key is served by it first, whatever the priorities and capacities of the
  others, and stays pinned to it.
\<close>

theorem select_keeps_available_pin:
  fixes clock :: int
  assumes "distinct (map acc_id accounts)" and "live_pin hash now meta s ks e"
    and "find_account accounts (entry_accountId e) = Some a" and "isAccountAvailable (after_unpause now s a) now"
  defines "r \<equiv> select hash now clock accounts meta s"
  shows "first_id (sel_result r) = Some (acc_id a) \<and> pinned (sel_state r) (pin_key ks) = Some (acc_id a)
    \<and> map_option rt_decision (routing (sel_meta r)) = Some ''affinity_hit''"
  unfolding r_def by (rule pin_available_hit [OF assms(1-4)])

lemma short_or_transient_holds:
  assumes "\<not> paused a" and "rate_limited_reason a \<noteq> Some Org_permission_denied"
    and "(\<forall>u. rate_limited_until a = Some u \<longrightarrow> u \<le> now + 900000)
      \<or> rate_limited_reason a \<in> {Some Upstream_529_overloaded_with_reset, Some Upstream_529_overloaded_no_reset,
          Some Upstream_429_no_reset_probe_cooldown}"
  shows "\<not> isAffinityBreakingUnavailability a now"
  using assms by (cases "rate_limited_until a") (auto simp: isAffinityBreakingUnavailability_def
      AFFINITY_REASSIGN_MIN_COOLDOWN_MS_def TRANSIENT_RATE_LIMIT_REASONS_def)

lemma long_or_final_breaks:
  assumes "paused a \<or> rate_limited_reason a = Some Org_permission_denied
    \<or> (\<exists>u > now + 900000. rate_limited_until a = Some u \<and> u \<noteq> 0)
      \<and> rate_limited_reason a \<notin> {Some Upstream_529_overloaded_with_reset, Some Upstream_529_overloaded_no_reset,
          Some Upstream_429_no_reset_probe_cooldown}"
  shows "isAffinityBreakingUnavailability a now"
  using assms by (auto simp: isAffinityBreakingUnavailability_def AFFINITY_REASSIGN_MIN_COOLDOWN_MS_def
      TRANSIENT_RATE_LIMIT_REASONS_def split: option.split)

text \<open>
  C16. A pinned account that is unavailable for a short or server-wide condition (a cooldown of at most 15
  minutes, or an overload or probe cooldown of any length) keeps its claim: the request is served
  from the others, the pin does not move, and the pinned account is reported as the held one.
\<close>

theorem select_holds_pin:
  fixes clock :: int
  assumes "distinct (map acc_id accounts)" and "live_pin hash now meta s ks e"
    and "find_account accounts (entry_accountId e) = Some a" and "b = after_unpause now s a"
    and "\<not> isAccountAvailable b now" and "\<not> paused b" and "rate_limited_reason b \<noteq> Some Org_permission_denied"
    and "(\<forall>u. rate_limited_until b = Some u \<longrightarrow> u \<le> now + 900000)
      \<or> rate_limited_reason b \<in> {Some Upstream_529_overloaded_with_reset, Some Upstream_529_overloaded_no_reset,
          Some Upstream_429_no_reset_probe_cooldown}"
    and "r = select hash now clock accounts meta s"
  shows "pinned (sel_state r) (pin_key ks) = Some (acc_id a)
    \<and> map_option rt_decision (routing (sel_meta r)) = Some ''affinity_hold''
    \<and> Option.bind (routing (sel_meta r)) rt_heldAccountId = Some (acc_id a)
    \<and> acc_id a \<notin> acc_id ` set (sel_result r)"
  using pin_unavailable_hold [OF assms(1-3)] short_or_transient_holds [OF assms(6-8)] assms(4,5,9) by blast

text \<open>
  C17. A pinned account that is gone, paused, barred by its organisation, or limited for more than 15 minutes
  by its own quota loses the pin: when any account is available, the request is served from one,
  the pin moves to it, and the decision is reported as a reassignment.
\<close>

theorem select_reassigns_pin:
  fixes clock :: int
  assumes "distinct (map acc_id accounts)" and "live_pin hash now meta s ks e"
    and "\<And>a. find_account accounts (entry_accountId e) = Some a \<Longrightarrow>
      \<not> isAccountAvailable (after_unpause now s a) now
      \<and> (paused (after_unpause now s a) \<or> rate_limited_reason (after_unpause now s a) = Some Org_permission_denied
         \<or> (\<exists>u > now + 900000. rate_limited_until (after_unpause now s a) = Some u \<and> u \<noteq> 0)
           \<and> rate_limited_reason (after_unpause now s a) \<notin> {Some Upstream_529_overloaded_with_reset,
               Some Upstream_529_overloaded_no_reset, Some Upstream_429_no_reset_probe_cooldown})"
    and "r = select hash now clock accounts meta s" and "sel_result r = b # rest"
  shows "pinned (sel_state r) (pin_key ks) = Some (acc_id b) \<and> acc_id b \<noteq> entry_accountId e
    \<and> map_option rt_decision (routing (sel_meta r)) = Some ''affinity_reassigned''"
proof -
  have "case find_account accounts (entry_accountId e) of None \<Rightarrow> True | Some a \<Rightarrow>
      \<not> isAccountAvailable (after_unpause now s a) now \<and> isAffinityBreakingUnavailability (after_unpause now s a) now"
    using assms(3) long_or_final_breaks by (auto split: option.split)
  from pin_lost_reassign [OF assms(1,2) this] assms(4,5) show ?thesis by blast
qed

text \<open>
  The preview is the ranking traffic follows: for a request with a key that has no live pin
  and no live anchor, \<^verbatim>\<open>select\<close> returns the accounts in the order \<^verbatim>\<open>peekRanked\<close> shows, so
  \<^verbatim>\<open>peek\<close> is the account it serves from, although \<^verbatim>\<open>peek\<close> writes nothing.
\<close>

lemma peek_agrees_with_select:
  assumes "distinct (map acc_id accounts)" and "affinity_inv s" and "0 \<le> sessionDurationMs s"
    and "\<not> bypassSession meta" and "getAffinityMapKeys hash meta = Some ks" and "canResume s"
    and "\<And>k e. k = pin_key ks \<or> anchor_key ks = Some k \<Longrightarrow> jm_get (affinityByKey s) k = Some e \<Longrightarrow>
      entry_lastUsedAt e < now - sessionDurationMs s"
  shows "map acc_id (sel_result (select hash now clock accounts meta s)) = map acc_id (peekRanked accounts now s)
    \<and> first_id (sel_result (select hash now clock accounts meta s)) = peek accounts now s"
proof (rule select_cases [OF assms(1,4,5), where now = now and s = s and clock = clock], goal_cases)
  case (1 log)
  let ?pool = "map (after_unpause now s) accounts" and ?s = "s\<lparr>store_log := log\<rparr>"
  have inv: "affinity_inv ?s" using assms(2) by simp
  obtain prev where "resolve_seeded (Some ks) ?pool now ?s = (pruneAffinity now ?s, Miss, prev)"
    using resolve_no_pin [OF inv, of ks now ?pool] assms(7) by auto
  from 1 [OF this] have eq: "select hash now clock accounts meta s =
      select_fresh hash False ''affinity_miss'' now clock ?pool meta (getAffinityKey meta) prev (pruneAffinity now ?s)"
    by (simp add: Let_def)
  have pool: "?pool = map (auto_unpause now) accounts"
    using assms(6) by (simp add: after_unpause_def)
  have d: "distinct (map acc_id ?pool)" using assms(1) by (simp add: o_def)
  have "map acc_id (sel_result (select hash now clock accounts meta s)) =
      map acc_id (rank_pool (pruneAffinity now ?s) ?pool now)"
    by (rule select_fresh_facts(1) [OF eq prune_affinity_inv [OF inv] _ assms(5) d]) (use assms(3) in simp)
  then have ids: "map acc_id (sel_result (select hash now clock accounts meta s)) = map acc_id (peekRanked accounts now s)"
    by (simp add: pool rank_unpause peekRanked_def o_def)
  then have "first_id (sel_result (select hash now clock accounts meta s)) = first_id (peekRanked accounts now s)"
    by (auto simp: first_id_def split: list.splits)
  with ids show ?case by (simp add: peek_def)
qed

text \<open>
  A usage-window boundary ends a session once: after a reset at a time past the recorded
  boundary, no later selection within the session duration resets the session again, so the
  request count it zeroed keeps counting.
\<close>

lemma session_reset_is_one_shot:
  assumes "resetSessionIfExpired now a s = (s1, a1)" and "store_log s1 \<noteq> store_log s"
    and "0 < now" and "now \<le> later" and "later < now + sessionDurationMs s"
    and "\<And>r. rate_limit_reset a = Some r \<Longrightarrow> r < now - 1000"
  shows "resetSessionIfExpired later a1 s1 = (s1, a1) \<and> session_start a1 = Some now"
proof -
  from assms(1,2) have eqs: "s1 = write_store (Reset_session (acc_id a) now) s"
    "a1 = a\<lparr>session_start := Some now, session_request_count := 0\<rparr>"
    by (auto simp: resetSessionIfExpired_def split: if_splits)
  have "\<not> fixedDurationExpired (sessionDurationMs s) later a1"
    using assms(3,5) by (simp add: fixedDurationExpired_def eqs)
  moreover have "\<not> rateLimitWindowReset later a1"
    using assms(3,6) by (cases "rate_limit_reset a") (auto simp: rateLimitWindowReset_def eqs)
  ultimately show ?thesis by (simp add: resetSessionIfExpired_def eqs write_store_def)
qed

subsection \<open>Concrete instances\<close>

definition sample_meta :: request_meta where
  "sample_meta = \<lparr>affinityKey = Some ''k'', affinityScope = Some Codex_thread, affinityPartition = None,
     affinityModel = None, project = None, bypassHeader = None, internal = False, routing = None\<rparr>"

definition sample_keys :: map_keys where
  "sample_keys = \<lparr>pin_key = ''codex_thread:k'', anchor_key = None\<rparr>"

definition sample_entry :: affinity_entry where
  "sample_entry = \<lparr>entry_accountId = ''b'', entry_lastUsedAt = 900\<rparr>"

definition sample_state :: session_state where
  "sample_state = (new_strategy 5000)\<lparr>affinityByKey := [(''codex_thread:k'', sample_entry)],
     lastAffinityStamp := 900, store := Some \<lparr>getAccountCapacity = None, getAccountUtilization = None,
       has_resumeAccount = True\<rparr>\<rparr>"

lemmas sample_defs = sample_account_def sample_meta_def sample_keys_def sample_entry_def sample_state_def
  new_strategy_def

lemma sample_map_keys: "getAffinityMapKeys id sample_meta = Some sample_keys"
  by (simp add: getAffinityMapKeys_def getAffinityKey_def getAffinityModel_def hashRoutingAffinityKey_def
      trimmed_def js_trim_def is_space_def sample_defs)

lemma sample_live: "live_pin id 1000 sample_meta sample_state sample_keys sample_entry"
  unfolding live_pin_def sample_map_keys
  by (simp add: affinity_inv_def bypassSession_def sample_defs jm_get_def MAX_AFFINITY_ENTRIES_def)

lemma sample_unpause: "\<not> paused a \<Longrightarrow> after_unpause now s a = a"
  by (simp add: after_unpause_def auto_unpause_def wouldAutoUnpause_def isAutoUnpauseCandidate_def)

theorem select_returns_exactly_available_witness:
  "acc_id ` set (sel_result (select id 1000 1000
      [sample_account ''a'' 0, (sample_account ''b'' 1)\<lparr>rate_limited_until := Some 2000\<rparr>,
       sample_account ''c'' 2] sample_meta sample_state)) = {''a'', ''c''}"
proof -
  let ?as = "[sample_account ''a'' 0, (sample_account ''b'' 1)\<lparr>rate_limited_until := Some 2000\<rparr>,
       sample_account ''c'' 2]"
  have "{a \<in> set ?as. isAccountAvailable (after_unpause 1000 sample_state a) 1000} =
      {sample_account ''a'' 0, sample_account ''c'' 2}"
    by (auto simp: sample_unpause isAccountAvailable_def sample_account_def)
  moreover have "distinct (map acc_id ?as)" by (simp add: sample_account_def)
  ultimately show ?thesis
    using select_returns_exactly_available [of ?as id 1000 1000 sample_meta sample_state]
    by (simp add: sample_account_def)
qed

theorem select_keeps_available_pin_witness:
  "first_id (sel_result (select id 1000 1000 [sample_account ''a'' 0, sample_account ''b'' 1]
     sample_meta sample_state)) = Some ''b''"
proof -
  let ?as = "[sample_account ''a'' 0, sample_account ''b'' 1]"
  have "distinct (map acc_id ?as)"
    "find_account ?as (entry_accountId sample_entry) = Some (sample_account ''b'' 1)"
    "isAccountAvailable (after_unpause 1000 sample_state (sample_account ''b'' 1)) 1000"
    by (simp_all add: sample_unpause isAccountAvailable_def find_account_def sample_defs)
  from select_keeps_available_pin [OF this(1) sample_live this(2,3), of 1000] show ?thesis
    by (simp add: sample_account_def)
qed

theorem select_holds_pin_witness:
  "pinned (sel_state (select id 1000 1000
     [sample_account ''a'' 0, (sample_account ''b'' 1)\<lparr>rate_limited_until := Some 2000\<rparr>]
     sample_meta sample_state)) ''codex_thread:k'' = Some ''b''"
proof -
  let ?b = "(sample_account ''b'' 1)\<lparr>rate_limited_until := Some 2000\<rparr>"
  let ?as = "[sample_account ''a'' 0, ?b]"
  have un: "after_unpause 1000 sample_state ?b = ?b" by (simp add: sample_unpause sample_account_def)
  have "distinct (map acc_id ?as)" "find_account ?as (entry_accountId sample_entry) = Some ?b"
    "\<not> isAccountAvailable ?b 1000" "\<not> paused ?b" "rate_limited_reason ?b \<noteq> Some Org_permission_denied"
    by (simp_all add: isAccountAvailable_def find_account_def sample_defs)
  from select_holds_pin [OF this(1) sample_live this(2) un [symmetric] this(3-5) _ refl] show ?thesis
    by (simp add: sample_account_def sample_keys_def)
qed

theorem select_reassigns_pin_witness:
  "\<exists>b rest. sel_result (select id 1000 1000 [sample_account ''a'' 0] sample_meta sample_state) = b # rest
    \<and> pinned (sel_state (select id 1000 1000 [sample_account ''a'' 0] sample_meta sample_state))
         ''codex_thread:k'' = Some (acc_id b) \<and> acc_id b \<noteq> ''b''"
proof -
  let ?as = "[sample_account ''a'' 0]"
  have d: "distinct (map acc_id ?as)"
    and f: "find_account ?as (entry_accountId sample_entry) = None"
    by (simp_all add: find_account_def sample_defs)
  have "isAccountAvailable (after_unpause 1000 sample_state (sample_account ''a'' 0)) 1000"
    by (simp add: sample_unpause isAccountAvailable_def sample_account_def)
  then have "acc_id ` {a \<in> set ?as. isAccountAvailable (after_unpause 1000 sample_state a) 1000} \<noteq> {}"
    by auto
  then have "sel_result (select id 1000 1000 ?as sample_meta sample_state) \<noteq> []"
    using select_exact_ids(1) [OF d, of id 1000 1000 sample_meta sample_state] by (metis image_is_empty set_empty)
  then obtain b rest where b: "sel_result (select id 1000 1000 ?as sample_meta sample_state) = b # rest"
    by (meson neq_Nil_conv)
  have "pinned (sel_state (select id 1000 1000 ?as sample_meta sample_state)) (pin_key sample_keys) = Some (acc_id b)
      \<and> acc_id b \<noteq> entry_accountId sample_entry"
    using select_reassigns_pin [OF d sample_live _ refl b] f by simp
  with b show ?thesis by (auto simp: sample_keys_def sample_entry_def)
qed

end
