(* ===== verification/LeastUsed.thy ===== *)
theory LeastUsed
  imports SessionStrategy
begin

section \<open>The least-used strategy and the contract of a strategy\<close>

text \<open>
  \<^verbatim>\<open>load-balancer/src/strategies/least-used.ts\<close>: rank by priority and then by utilisation plus
  a penalty for an account picked in the last half second. The locale \<^verbatim>\<open>balancing_strategy\<close>
  states what \<^verbatim>\<open>LoadBalancingStrategy\<close> (\<^verbatim>\<open>types/src/strategy.ts\<close>) promises to the proxy; both
  strategies are shown to provide it, and what the proxy relies on follows once for both.
\<close>

definition RECENT_PICK_WINDOW_MS :: int where
  "RECENT_PICK_WINDOW_MS = 500"

definition RECENT_PICK_PENALTY :: rat where
  "RECENT_PICK_PENALTY = 100"

record least_used_state =
  lu_store :: "strategy_store option"
  lu_lastPickedAt :: "(string, int) jsmap"
  lu_store_log :: "store_write list"

definition lu_util :: "least_used_state \<Rightarrow> int \<Rightarrow> account \<Rightarrow> rat" where
  "lu_util s now a = (case Option.bind (Option.bind (lu_store s) getAccountUtilization)
     (\<lambda>f. f (acc_id a) (provider a) now) of None \<Rightarrow> 0 | Some v \<Rightarrow> v)"

definition lu_lastPick :: "least_used_state \<Rightarrow> string \<Rightarrow> int" where
  "lu_lastPick s i = (case jm_get (lu_lastPickedAt s) i of None \<Rightarrow> 0 | Some t \<Rightarrow> t)"

definition lu_score :: "least_used_state \<Rightarrow> int \<Rightarrow> account \<Rightarrow> rat" where
  "lu_score s now a = lu_util s now a +
     (if now - lu_lastPick s (acc_id a) < RECENT_PICK_WINDOW_MS then RECENT_PICK_PENALTY else 0)"

definition cmp_scored :: "account \<times> rat \<Rightarrow> account \<times> rat \<Rightarrow> int" where
  "cmp_scored a b = (if priority (fst a) \<noteq> priority (fst b)
     then cmp_num (priority (fst a)) (priority (fst b)) else cmp_num (snd a) (snd b))"

definition rank_scored :: "least_used_state \<Rightarrow> int \<Rightarrow> account list \<Rightarrow> account list" where
  "rank_scored s now available = map fst (js_sort cmp_scored (map (\<lambda>a. (a, lu_score s now a)) available))"

definition lu_peekRanked :: "account list \<Rightarrow> int \<Rightarrow> least_used_state \<Rightarrow> account list" where
  "lu_peekRanked accounts now s = rank_scored s now (filter (\<lambda>a. isPeekAvailable a now) accounts)"

definition lu_peek :: "account list \<Rightarrow> int \<Rightarrow> least_used_state \<Rightarrow> string option" where
  "lu_peek accounts now s = first_id (lu_peekRanked accounts now s)"

definition lu_canResume :: "least_used_state \<Rightarrow> bool" where
  "lu_canResume s \<longleftrightarrow> (case lu_store s of None \<Rightarrow> False | Some st \<Rightarrow> has_resumeAccount st)"

definition lu_unpause :: "int \<Rightarrow> least_used_state \<Rightarrow> account \<Rightarrow> account" where
  "lu_unpause now s a = (if lu_canResume s then auto_unpause now a else a)"

definition autoUnpauseElapsedAccounts ::
  "account list \<Rightarrow> int \<Rightarrow> least_used_state \<Rightarrow> least_used_state \<times> account list" where
  "autoUnpauseElapsedAccounts accounts now s =
     (if \<not> lu_canResume s then (s, accounts)
      else (s\<lparr>lu_store_log := lu_store_log s @
              map (\<lambda>a. Resume_account (acc_id a)) (filter (\<lambda>a. wouldAutoUnpause a now) accounts)\<rparr>,
            map (auto_unpause now) accounts))"

definition lu_select ::
  "account list \<Rightarrow> int \<Rightarrow> request_meta \<Rightarrow> least_used_state \<Rightarrow> least_used_state \<times> request_meta \<times> account list" where
  "lu_select accounts0 now meta s0 =
     (let (s, accounts) = autoUnpauseElapsedAccounts accounts0 now s0;
          sorted_accounts = rank_scored s now (filter (\<lambda>a. isAccountAvailable a now) accounts)
      in case sorted_accounts of
           [] \<Rightarrow> (s, meta, [])
         | primary # _ \<Rightarrow>
             (s\<lparr>lu_lastPickedAt := filter (\<lambda>(_, ts). \<not> ts < now - RECENT_PICK_WINDOW_MS * 10)
                  (jm_set (lu_lastPickedAt s) (acc_id primary) now)\<rparr>,
              meta\<lparr>routing := Some \<lparr>rt_strategy = ''least-used'', rt_decision = ''least_used'',
                rt_affinityScope = None, rt_affinityKey = None, rt_selectedAccountId = Some (acc_id primary),
                rt_previousAccountId = None, rt_candidatesCount = length sorted_accounts,
                rt_failoverReason = None, rt_heldAccountId = None\<rparr>\<rparr>,
              sorted_accounts))"

subsection \<open>The contract of a strategy\<close>

locale balancing_strategy =
  fixes offered :: "'s \<Rightarrow> int \<Rightarrow> account list \<Rightarrow> account list"
    and preview :: "'s \<Rightarrow> int \<Rightarrow> account list \<Rightarrow> account list"
    and resumes :: "'s \<Rightarrow> bool"
  assumes offered_ids: "distinct (map acc_id as) \<Longrightarrow> acc_id ` set (offered s now as) =
      acc_id ` {a \<in> set as. isAccountAvailable (if resumes s then auto_unpause now a else a) now}"
    and offered_distinct: "distinct (map acc_id as) \<Longrightarrow> distinct (map acc_id (offered s now as))"
    and preview_ids: "distinct (map acc_id as) \<Longrightarrow> acc_id ` set (preview s now as) =
      acc_id ` {a \<in> set as. isPeekAvailable a now}"
begin

lemma offered_empty_iff:
  assumes "distinct (map acc_id as)"
  shows "offered s now as = [] \<longleftrightarrow>
    (\<forall>a \<in> set as. \<not> isAccountAvailable (if resumes s then auto_unpause now a else a) now)"
proof -
  have "offered s now as = [] \<longleftrightarrow> acc_id ` set (offered s now as) = {}" by simp
  also have "\<dots> \<longleftrightarrow> (\<forall>a \<in> set as. \<not> isAccountAvailable (if resumes s then auto_unpause now a else a) now)"
    unfolding offered_ids [OF assms] by auto
  finally show ?thesis .
qed

lemma preview_offers_same:
  assumes "distinct (map acc_id as)" and "resumes s"
  shows "acc_id ` set (preview s now as) = acc_id ` set (offered s now as)"
  unfolding offered_ids [OF assms(1)] preview_ids [OF assms(1)] using assms(2)
  by (simp add: peek_available_iff)

lemma limited_not_offered:
  assumes "distinct (map acc_id as)" and "a \<in> set as" and "rate_limited_until a = Some u" and "u \<noteq> 0" and "now \<le> u"
  shows "acc_id a \<notin> acc_id ` set (offered s now as)"
proof
  assume "acc_id a \<in> acc_id ` set (offered s now as)"
  then obtain b where b: "b \<in> set as" "acc_id b = acc_id a"
    "isAccountAvailable (if resumes s then auto_unpause now b else b) now"
    unfolding offered_ids [OF assms(1)] by auto
  with assms(1,2) have "b = a" by (metis find_account_eq option.inject)
  with b(3) assms(3-5) show False by (simp add: isAccountAvailable_def auto_unpause_def split: if_splits)
qed

lemma durable_pause_not_offered:
  assumes "distinct (map acc_id as)" and "a \<in> set as" and "paused a"
    and "\<not> isSelfHealingPauseReason (pause_reason a)"
  shows "acc_id a \<notin> acc_id ` set (offered s now as)"
proof
  assume "acc_id a \<in> acc_id ` set (offered s now as)"
  then obtain b where b: "b \<in> set as" "acc_id b = acc_id a"
    "isAccountAvailable (if resumes s then auto_unpause now b else b) now"
    unfolding offered_ids [OF assms(1)] by auto
  with assms(1,2) have "b = a" by (metis find_account_eq option.inject)
  with b(3) assms(3,4) show False by (simp add: durable_pause_kept isAccountAvailable_def split: if_splits)
qed

end

interpretation session: balancing_strategy
  "\<lambda>(s, hash, clock, meta) now as. sel_result (select hash now clock as meta s)"
  "\<lambda>(s, hash, clock, meta) now as. peekRanked as now s"
  "\<lambda>(s, hash, clock, meta). canResume s"
proof unfold_locales
  fix as :: "account list" and x :: "session_state \<times> (string \<Rightarrow> string) \<times> int \<times> request_meta" and now
  assume d: "distinct (map acc_id as)"
  obtain s hash clock meta where x: "x = (s, hash, clock, meta)" by (metis prod_cases4)
  note f = select_exact_ids [OF d, where hash = hash and now = now and clock = clock and meta = meta and s = s]
  from f(2) show "distinct (map acc_id ((\<lambda>(s, hash, clock, meta) now as. sel_result (select hash now clock as meta s)) x now as))"
    by (simp add: x)
  from f(1) show "acc_id ` set ((\<lambda>(s, hash, clock, meta) now as. sel_result (select hash now clock as meta s)) x now as) =
      acc_id ` {a \<in> set as. isAccountAvailable
        (if (\<lambda>(s, hash, clock, meta). canResume s) x then auto_unpause now a else a) now}"
    by (simp add: x after_unpause_def)
  show "acc_id ` set ((\<lambda>(s, hash, clock, meta) now as. peekRanked as now s) x now as) =
      acc_id ` {a \<in> set as. isPeekAvailable a now}"
    by (simp add: x peekRanked_def)
qed

subsection \<open>The least-used strategy provides it\<close>

interpretation scored: consistent_comparator cmp_scored "\<lambda>_. True"
  by unfold_locales (auto simp: cmp_scored_def split: if_splits)

lemma rank_scored_set [simp]: "set (rank_scored s now as) = set as"
  by (force simp: rank_scored_def)

lemma rank_scored_mset: "mset (rank_scored s now as) = mset as"
  by (simp add: rank_scored_def multiset.map_comp o_def)

lemma rank_scored_distinct: "distinct (map acc_id (rank_scored s now as)) = distinct (map acc_id as)"
  by (metis mset_map mset_eq_imp_distinct_iff rank_scored_mset)

lemma rank_scored_head:
  assumes "rank_scored s now as = p # rest" and "q \<in> set as"
  shows "priority p < priority q \<or> priority p = priority q \<and> lu_score s now p \<le> lu_score s now q"
proof -
  let ?xs = "map (\<lambda>a. (a, lu_score s now a)) as"
  obtain h t where ht: "js_sort cmp_scored ?xs = h # t" "fst h = p"
    using assms(1) by (cases "js_sort cmp_scored ?xs") (auto simp: rank_scored_def)
  then have "h \<in> set ?xs" by (metis list.set_intros(1) set_js_sort)
  with ht(2) have "h = (p, lu_score s now p)" by auto
  with scored.sort_head_min [OF _ ht(1), of "(q, lu_score s now q)"] assms(2) show ?thesis
    by (auto simp: cmp_scored_def split: if_splits)
qed

lemma unpause_elapsed:
  "\<exists>l. autoUnpauseElapsedAccounts accounts now s = (s\<lparr>lu_store_log := l\<rparr>, map (lu_unpause now s) accounts)"
proof (cases "lu_canResume s")
  case True
  then show ?thesis by (auto simp: autoUnpauseElapsedAccounts_def lu_unpause_def)
next
  case False
  then have "lu_unpause now s = (\<lambda>a. a)" by (simp add: lu_unpause_def fun_eq_iff)
  with False show ?thesis
    by (intro exI [of _ "lu_store_log s"]) (simp add: autoUnpauseElapsedAccounts_def)
qed

lemma rank_scored_log: "rank_scored (s\<lparr>lu_store_log := l\<rparr>) now as = rank_scored s now as"
  by (simp add: rank_scored_def lu_score_def lu_util_def lu_lastPick_def)

lemma lu_select_eq:
  "\<exists>l. lu_select accounts now meta s =
    (case rank_scored s now (filter (\<lambda>a. isAccountAvailable a now) (map (lu_unpause now s) accounts)) of
       [] \<Rightarrow> (s\<lparr>lu_store_log := l\<rparr>, meta, [])
     | p # rest \<Rightarrow> (s\<lparr>lu_store_log := l, lu_lastPickedAt :=
           filter (\<lambda>(_, ts). \<not> ts < now - RECENT_PICK_WINDOW_MS * 10) (jm_set (lu_lastPickedAt s) (acc_id p) now)\<rparr>,
         meta\<lparr>routing := Some \<lparr>rt_strategy = ''least-used'', rt_decision = ''least_used'',
           rt_affinityScope = None, rt_affinityKey = None, rt_selectedAccountId = Some (acc_id p),
           rt_previousAccountId = None, rt_candidatesCount = length (p # rest),
           rt_failoverReason = None, rt_heldAccountId = None\<rparr>\<rparr>, p # rest))"
proof -
  obtain l where "autoUnpauseElapsedAccounts accounts now s = (s\<lparr>lu_store_log := l\<rparr>, map (lu_unpause now s) accounts)"
    using unpause_elapsed by blast
  then show ?thesis
    by (intro exI [of _ l]) (simp add: lu_select_def rank_scored_log Let_def split: list.split)
qed

lemma lu_select_result:
  "snd (snd (lu_select accounts now meta s)) =
    rank_scored s now (filter (\<lambda>a. isAccountAvailable a now) (map (lu_unpause now s) accounts))"
  using lu_select_eq [of accounts now meta s]
  by (cases "rank_scored s now (filter (\<lambda>a. isAccountAvailable a now) (map (lu_unpause now s) accounts))") auto

interpretation least_used: balancing_strategy
  "\<lambda>(s, meta) now as. snd (snd (lu_select as now meta s))"
  "\<lambda>(s, meta) now as. lu_peekRanked as now s"
  "\<lambda>(s, meta). lu_canResume s"
proof unfold_locales
  fix as :: "account list" and x :: "least_used_state \<times> request_meta" and now
  assume d: "distinct (map acc_id as)"
  obtain s meta where x: "x = (s, meta)" by (cases x)
  have ids: "acc_id (lu_unpause now s a) = acc_id a" for a by (simp add: lu_unpause_def)
  show "distinct (map acc_id ((\<lambda>(s, meta) now as. snd (snd (lu_select as now meta s))) x now as))"
    using d by (simp add: x lu_select_result rank_scored_distinct o_def ids)
  have "{a \<in> lu_unpause now s ` set as. isAccountAvailable a now} =
      lu_unpause now s ` {a \<in> set as. isAccountAvailable (lu_unpause now s a) now}" by auto
  then show "acc_id ` set ((\<lambda>(s, meta) now as. snd (snd (lu_select as now meta s))) x now as) =
      acc_id ` {a \<in> set as. isAccountAvailable
        (if (\<lambda>(s, meta). lu_canResume s) x then auto_unpause now a else a) now}"
    by (simp add: x lu_select_result image_image ids) (simp add: lu_unpause_def)
  show "acc_id ` set ((\<lambda>(s, meta) now as. lu_peekRanked as now s) x now as) =
      acc_id ` {a \<in> set as. isPeekAvailable a now}"
    by (simp add: x lu_peekRanked_def)
qed

lemma lu_unpause_fields [simp]:
  "acc_id (lu_unpause now s a) = acc_id a" "priority (lu_unpause now s a) = priority a"
  "provider (lu_unpause now s a) = provider a"
  by (simp_all add: lu_unpause_def)

lemma lu_util_unpause [simp]: "lu_util s t (lu_unpause now s' a) = lu_util s t a"
  by (simp add: lu_util_def)

lemma lu_select_picked:
  assumes "lu_select as now meta s = (s1, meta1, p # rest)" and "jm_wf (lu_lastPickedAt s)"
  shows "lu_lastPick s1 (acc_id p) = now" "lu_store s1 = lu_store s"
    "i \<noteq> acc_id p \<Longrightarrow> lu_lastPick s1 i = 0 \<or> lu_lastPick s1 i = lu_lastPick s i"
proof -
  obtain l where "s1 = s\<lparr>lu_store_log := l, lu_lastPickedAt :=
      filter (\<lambda>(_, ts). \<not> ts < now - RECENT_PICK_WINDOW_MS * 10) (jm_set (lu_lastPickedAt s) (acc_id p) now)\<rparr>"
    using lu_select_eq [of as now meta s] assms(1)
    by (cases "rank_scored s now (filter (\<lambda>a. isAccountAvailable a now) (map (lu_unpause now s) as))") auto
  note s1 = this
  have wf: "jm_wf (jm_set (lu_lastPickedAt s) (acc_id p) now)" using assms(2) by (rule jm_wf_set)
  show "lu_store s1 = lu_store s" by (simp add: s1)
  show "lu_lastPick s1 (acc_id p) = now"
    by (simp add: s1 lu_lastPick_def jm_get_filter [OF wf] RECENT_PICK_WINDOW_MS_def)
  show "i \<noteq> acc_id p \<Longrightarrow> lu_lastPick s1 i = 0 \<or> lu_lastPick s1 i = lu_lastPick s i"
    by (simp add: s1 lu_lastPick_def jm_get_filter [OF wf] split: option.split)
qed

subsection \<open>Properties\<close>

text \<open>
  Whichever strategy is configured, an account paused for a reason only an operator clears
  is not offered by the least-used strategy, and the list is empty only when no account is
  available after the auto-unpause.
\<close>

lemma least_used_contract:
  assumes "distinct (map acc_id as)"
  shows "(\<forall>a \<in> set as. paused a \<and> \<not> isSelfHealingPauseReason (pause_reason a) \<longrightarrow>
      acc_id a \<notin> acc_id ` set (snd (snd (lu_select as now meta s))))
    \<and> (snd (snd (lu_select as now meta s)) = [] \<longleftrightarrow>
        (\<forall>a \<in> set as. \<not> isAccountAvailable (lu_unpause now s a) now))"
  using least_used.durable_pause_not_offered [OF assms, of _ "(s, meta)" now]
    least_used.offered_empty_iff [OF assms, of "(s, meta)" now]
  by (simp add: lu_unpause_def)

text \<open>
  A burst spreads: within the recency window after an account was picked, the strategy does
  not pick it again while some account of the same or better priority is available that was not
  picked recently and whose utilisation is less than a full window above it.
\<close>

lemma least_used_burst_rotates:
  assumes "lu_select as now meta s = (s1, meta1, p # rest)"
    and "distinct (map acc_id as)" and "jm_wf (lu_lastPickedAt s)"
    and "RECENT_PICK_WINDOW_MS \<le> later" and "later < now + RECENT_PICK_WINDOW_MS"
    and "q \<in> set as" and "acc_id q \<noteq> acc_id p" and "priority q \<le> priority p"
    and "isAccountAvailable (lu_unpause later s1 q) later"
    and "RECENT_PICK_WINDOW_MS \<le> later - lu_lastPick s (acc_id q)"
    and "lu_util s later q < lu_util s later p + RECENT_PICK_PENALTY"
    and "lu_select as later meta2 s1 = (s2, meta3, p2 # rest2)"
  shows "acc_id p2 \<noteq> acc_id p"
proof
  assume same: "acc_id p2 = acc_id p"
  note pk = lu_select_picked [OF assms(1,3)]
  have util: "lu_util s1 = lu_util s" by (simp add: lu_util_def fun_eq_iff pk(2))
  have member: "\<exists>a \<in> set as. x = lu_unpause t s' a" if "snd (snd (lu_select as t m s')) = x # xs" for t m s' x xs
    using that unfolding lu_select_result by (metis (no_types, lifting) filter_is_subset image_iff
        list.set_intros(1) list.set_map rank_scored_set subsetD)
  from member [of now meta s p rest] assms(1) obtain a where a: "a \<in> set as" "p = lu_unpause now s a" by auto
  from member [of later meta2 s1 p2 rest2] assms(12) obtain b where b: "b \<in> set as" "p2 = lu_unpause later s1 b" by auto
  have "b = a" using assms(2) a b same by (metis find_account_eq lu_unpause_fields(1) option.inject)
  then have p2: "priority p2 = priority p" "lu_util s later p2 = lu_util s later p" using a b by simp_all
  have "rank_scored s1 later (filter (\<lambda>a. isAccountAvailable a later) (map (lu_unpause later s1) as)) = p2 # rest2"
    using assms(12) lu_select_result [of as later meta2 s1] by simp
  from rank_scored_head [OF this, of "lu_unpause later s1 q"] assms(6,9)
  have head: "priority p2 < priority q \<or> priority p2 = priority q \<and>
      lu_score s1 later p2 \<le> lu_score s1 later (lu_unpause later s1 q)" by auto
  have "lu_score s1 later p2 = lu_util s later p + RECENT_PICK_PENALTY"
    using assms(5) by (simp add: lu_score_def util p2 same pk(1))
  moreover have "lu_score s1 later (lu_unpause later s1 q) = lu_util s later q"
    using pk(3) [OF assms(7)] assms(4,10) by (auto simp: lu_score_def util)
  ultimately show False using head assms(8,11) p2(1) by auto
qed


end
