(* ===== verification/HoldSlots.thy ===== *)
theory HoldSlots
  imports Accounts
begin

section \<open>Hold slots and the burst marker\<close>

text \<open>
  The keyed counting semaphore (\<^verbatim>\<open>proxy/src/keyed-semaphore.ts\<close>), its two users
  (\<^verbatim>\<open>proxy/src/overload-hold.ts\<close>, one slot pool per overload bucket, and
  \<^verbatim>\<open>proxy/src/handlers/burst-cooldown.ts\<close>, one pool), the burst marker of the latter and the
  burst-retry policy (\<^verbatim>\<open>proxy/src/burst-retry-policy.ts\<close>). The locale
  \<^verbatim>\<open>counting_semaphore\<close> is what the holders rely on: under the acquire/release discipline
  the count is the number of holders and never exceeds the cap.
\<close>

subsection \<open>Keyed semaphore\<close>

type_synonym semaphore = "(string, nat) jsmap"

definition sem_count :: "semaphore \<Rightarrow> string \<Rightarrow> nat" where
  "sem_count counts key = (case jm_get counts key of None \<Rightarrow> 0 | Some n \<Rightarrow> n)"

definition tryAcquire :: "nat \<Rightarrow> string \<Rightarrow> semaphore \<Rightarrow> semaphore \<times> bool" where
  "tryAcquire cap key counts =
     (let current = sem_count counts key in
      if current \<ge> cap then (counts, False) else (jm_set counts key (current + 1), True))"

definition sem_release :: "string \<Rightarrow> semaphore \<Rightarrow> semaphore" where
  "sem_release key counts =
     (let current = sem_count counts key in
      if current \<le> 1 then jm_delete counts key else jm_set counts key (current - 1))"

definition occupiedKeys :: "semaphore \<Rightarrow> string list" where
  "occupiedKeys counts = jm_keys counts"

definition sem_total :: "semaphore \<Rightarrow> nat" where
  "sem_total counts = sum_list (map snd counts)"

definition sem_reset :: "semaphore \<Rightarrow> semaphore" where
  "sem_reset counts = []"

text \<open>Distinct keys, and no key kept at zero.\<close>

definition sem_wf :: "semaphore \<Rightarrow> bool" where
  "sem_wf counts \<longleftrightarrow> jm_wf counts \<and> (\<forall>x \<in> set counts. 0 < snd x)"

subsection \<open>The two users\<close>

definition BURST_RETRY_MAX_CONCURRENT_HOLDS :: nat where
  "BURST_RETRY_MAX_CONCURRENT_HOLDS = 8"

definition OVERLOAD_HOLD_MAX_CONCURRENT_PER_BUCKET :: nat where
  "OVERLOAD_HOLD_MAX_CONCURRENT_PER_BUCKET = 16"

definition HOLD_SLOT_KEY :: string where
  "HOLD_SLOT_KEY = ''burst-retry''"

definition tryAcquireHoldSlot :: "semaphore \<Rightarrow> semaphore \<times> bool" where
  "tryAcquireHoldSlot s = tryAcquire BURST_RETRY_MAX_CONCURRENT_HOLDS HOLD_SLOT_KEY s"

definition releaseHoldSlot :: "semaphore \<Rightarrow> semaphore" where
  "releaseHoldSlot s = sem_release HOLD_SLOT_KEY s"

definition getActiveHoldCount :: "semaphore \<Rightarrow> nat" where
  "getActiveHoldCount s = sem_count s HOLD_SLOT_KEY"

definition tryAcquireOverloadHoldSlot :: "string \<Rightarrow> semaphore \<Rightarrow> semaphore \<times> bool" where
  "tryAcquireOverloadHoldSlot bucketKey s =
     (case tryAcquire OVERLOAD_HOLD_MAX_CONCURRENT_PER_BUCKET bucketKey s of
        (s', False) \<Rightarrow> (s', False)
      | (s', True) \<Rightarrow> (s', True))"

definition releaseOverloadHoldSlot :: "string \<Rightarrow> semaphore \<Rightarrow> semaphore" where
  "releaseOverloadHoldSlot bucketKey s = sem_release bucketKey s"

definition getActiveOverloadHoldCount :: "string \<Rightarrow> semaphore \<Rightarrow> nat" where
  "getActiveOverloadHoldCount bucketKey s = sem_count s bucketKey"

definition OVERLOAD_HOLD_MAX_MS :: int where
  "OVERLOAD_HOLD_MAX_MS = 330000"

definition OVERLOAD_HOLD_MAX_MS_NO_REARM :: int where
  "OVERLOAD_HOLD_MAX_MS_NO_REARM = 120000"

definition getOverloadHoldBudgetMs :: "int option \<Rightarrow> bool \<Rightarrow> int" where
  "getOverloadHoldBudgetMs budgetOverride canRearmIdleTimeout =
     (case budgetOverride of
        Some ms \<Rightarrow> ms
      | None \<Rightarrow> if canRearmIdleTimeout then OVERLOAD_HOLD_MAX_MS else OVERLOAD_HOLD_MAX_MS_NO_REARM)"

subsection \<open>The burst marker\<close>

definition BURST_RETRY_MARKER_MS :: int where
  "BURST_RETRY_MARKER_MS = 120000"

definition BURST_RETRY_SUMMARY_MS :: int where
  "BURST_RETRY_SUMMARY_MS = 30000"

record burst_marker =
  throttleUntil :: "int option"
  burstObservations :: nat
  observationsSinceSummary :: nat
  lastSummaryAt :: int

definition clearAnthropicBurstThrottle :: burst_marker where
  "clearAnthropicBurstThrottle =
     \<lparr>throttleUntil = None, burstObservations = 0, observationsSinceSummary = 0, lastSummaryAt = 0\<rparr>"

definition markAnthropicBurstThrottle :: "int \<Rightarrow> int \<Rightarrow> burst_marker \<Rightarrow> burst_marker" where
  "markAnthropicBurstThrottle now markerMs m0 =
     (let until = now + markerMs;
          expired = (case throttleUntil m0 of None \<Rightarrow> False | Some p \<Rightarrow> p \<le> now);
          m = (if expired then clearAnthropicBurstThrottle else m0);
          previous = throttleUntil m;
          m1 = m\<lparr>throttleUntil := Some (case previous of None \<Rightarrow> until | Some p \<Rightarrow> max p until),
                 burstObservations := burstObservations m + 1,
                 observationsSinceSummary := observationsSinceSummary m + 1\<rparr>
      in if previous = None then m1\<lparr>lastSummaryAt := now, observationsSinceSummary := 0\<rparr>
         else if now - lastSummaryAt m1 \<ge> BURST_RETRY_SUMMARY_MS
           then m1\<lparr>lastSummaryAt := now, observationsSinceSummary := 0\<rparr>
         else m1)"

definition getAnthropicBurstThrottleUntil :: "int \<Rightarrow> burst_marker \<Rightarrow> burst_marker \<times> int option" where
  "getAnthropicBurstThrottleUntil now m =
     (if \<not> truthy (throttleUntil m) then (m, None)
      else if the (throttleUntil m) \<le> now then (clearAnthropicBurstThrottle, None)
      else (m, throttleUntil m))"

definition isAnthropicBurstThrottleActive :: "int \<Rightarrow> burst_marker \<Rightarrow> burst_marker \<times> bool" where
  "isAnthropicBurstThrottleActive now m =
     (let (m', until) = getAnthropicBurstThrottleUntil now m in (m', until \<noteq> None))"

subsection \<open>The burst-retry policy\<close>

definition isBurstHoldEligible :: "string option \<Rightarrow> bool \<Rightarrow> bool" where
  "isBurstHoldEligible decision heldInGatedAccounts \<longleftrightarrow>
     heldInGatedAccounts \<or> decision = Some ''affinity_hold''"

text \<open>\<^verbatim>\<open>Math.ceil(ms / 1000)\<close>\<close>

definition ceil_seconds :: "int \<Rightarrow> int" where
  "ceil_seconds ms = - ((- ms) div 1000)"

definition giveUpRetryAfterSeconds :: "account \<Rightarrow> int \<Rightarrow> int" where
  "giveUpRetryAfterSeconds held now =
     (let until = (case rate_limited_until held of None \<Rightarrow> now + 30000 | Some u \<Rightarrow> u)
      in max 1 (ceil_seconds (until - now)))"

subsection \<open>The contract of a hold-slot pool\<close>

datatype 'k slot_event = Acquire 'k | Release 'k

text \<open>
  A run of requests: the holders so far, in order. An acquisition that is refused adds no
  holder; only a holder releases, and a release by a key with no holder is dropped here (the
  code's callers release in a \<^verbatim>\<open>finally\<close> guarded by their own acquisition).
\<close>

definition slot_step ::
  "('k \<Rightarrow> 's \<Rightarrow> 's \<times> bool) \<Rightarrow> ('k \<Rightarrow> 's \<Rightarrow> 's) \<Rightarrow> 's \<times> 'k list \<Rightarrow> 'k slot_event \<Rightarrow> 's \<times> 'k list" where
  "slot_step acquire release sh ev = (case ev of
     Acquire k \<Rightarrow> (let (s', ok) = acquire k (fst sh) in (s', if ok then k # snd sh else snd sh))
   | Release k \<Rightarrow> if k \<in> set (snd sh) then (release k (fst sh), remove1 k (snd sh)) else sh)"

locale counting_semaphore =
  fixes acquire :: "'k \<Rightarrow> 's \<Rightarrow> 's \<times> bool" and release :: "'k \<Rightarrow> 's \<Rightarrow> 's"
    and count :: "'s \<Rightarrow> 'k \<Rightarrow> nat" and inv :: "'s \<Rightarrow> bool" and cap :: nat
  assumes acquire_iff: "snd (acquire k s) \<longleftrightarrow> count s k < cap"
    and acquire_count: "count (fst (acquire k s)) k' = count s k' + (if k' = k \<and> count s k < cap then 1 else 0)"
    and release_count: "count (release k s) k' = count s k' - (if k' = k then 1 else 0)"
    and acquire_inv: "inv s \<Longrightarrow> inv (fst (acquire k s))"
    and release_inv: "inv s \<Longrightarrow> inv (release k s)"
begin

definition slots_ok :: "'s \<times> 'k list \<Rightarrow> bool" where
  "slots_ok sh \<longleftrightarrow> inv (fst sh) \<and> (\<forall>k. count (fst sh) k = count_list (snd sh) k)
     \<and> (\<forall>k. count_list (snd sh) k \<le> cap)"

lemma remove1_count: "count_list (remove1 k hs) k' = count_list hs k' - (if k' = k then 1 else 0)"
  by (induction hs) auto

lemma step_slots_ok:
  assumes "slots_ok sh"
  shows "slots_ok (slot_step acquire release sh ev)"
proof -
  have le: "count_list (snd sh) k - n \<le> cap" for k n
    using assms by (auto simp: slots_ok_def intro: order_trans [OF diff_le_self])
  from le [of _ 0] le [of _ 1] assms show ?thesis
    by (cases ev) (auto simp: slots_ok_def slot_step_def case_prod_unfold Let_def acquire_iff acquire_count
        release_count remove1_count acquire_inv release_inv)
qed

lemma run_slots_ok: "slots_ok sh \<Longrightarrow> slots_ok (foldl (slot_step acquire release) sh evs)"
  by (induction evs arbitrary: sh) (simp_all add: step_slots_ok)

end

subsection \<open>The semaphore provides it\<close>

lemma sem_count_set [simp]: "sem_count (jm_set s k n) k' = (if k' = k then n else sem_count s k')"
  by (simp add: sem_count_def)

lemma sem_count_delete [simp]: "sem_count (jm_delete s k) k' = (if k' = k then 0 else sem_count s k')"
  by (simp add: sem_count_def)

lemma tryAcquire_facts:
  "snd (tryAcquire cap k s) \<longleftrightarrow> sem_count s k < cap"
  "sem_count (fst (tryAcquire cap k s)) k' = sem_count s k' + (if k' = k \<and> sem_count s k < cap then 1 else 0)"
  by (auto simp: tryAcquire_def Let_def)

lemma release_facts: "sem_count (sem_release k s) k' = sem_count s k' - (if k' = k then 1 else 0)"
  by (auto simp: sem_release_def Let_def)

lemma sem_wf_steps:
  assumes "sem_wf s"
  shows "sem_wf (fst (tryAcquire cap k s))" "sem_wf (sem_release k s)"
  using assms
  by (auto simp: sem_wf_def tryAcquire_def sem_release_def Let_def jm_wf_intros jm_delete_in_set
      dest: jm_set_in_set)

interpretation sem: counting_semaphore "tryAcquire cap" sem_release sem_count sem_wf cap for cap
  by unfold_locales (simp_all add: tryAcquire_facts release_facts sem_wf_steps)

interpretation overload_slots: counting_semaphore tryAcquireOverloadHoldSlot releaseOverloadHoldSlot
  "\<lambda>s k. getActiveOverloadHoldCount k s" sem_wf OVERLOAD_HOLD_MAX_CONCURRENT_PER_BUCKET
proof -
  have "tryAcquireOverloadHoldSlot k s = tryAcquire OVERLOAD_HOLD_MAX_CONCURRENT_PER_BUCKET k s" for k s
    by (auto simp: tryAcquireOverloadHoldSlot_def split: prod.split bool.split)
  then show "counting_semaphore tryAcquireOverloadHoldSlot releaseOverloadHoldSlot
      (\<lambda>s k. getActiveOverloadHoldCount k s) sem_wf OVERLOAD_HOLD_MAX_CONCURRENT_PER_BUCKET"
    by unfold_locales (simp_all add: releaseOverloadHoldSlot_def getActiveOverloadHoldCount_def
        tryAcquire_facts release_facts sem_wf_steps)
qed

interpretation burst_slots: counting_semaphore "\<lambda>_ :: unit. tryAcquireHoldSlot" "\<lambda>_. releaseHoldSlot"
  "\<lambda>s _. getActiveHoldCount s" sem_wf BURST_RETRY_MAX_CONCURRENT_HOLDS
  by unfold_locales (simp_all add: tryAcquireHoldSlot_def releaseHoldSlot_def getActiveHoldCount_def
      tryAcquire_facts release_facts sem_wf_steps)

lemma mark_until:
  "throttleUntil (markAnthropicBurstThrottle now markerMs m) =
    Some (case throttleUntil m of None \<Rightarrow> now + markerMs
      | Some p \<Rightarrow> if p \<le> now then now + markerMs else max p (now + markerMs))"
  by (auto simp: markAnthropicBurstThrottle_def clearAnthropicBurstThrottle_def Let_def split: option.split)

subsection \<open>Properties\<close>

text \<open>
  Under every sequence of hold requests and releases, the overload hold pool of a bucket
  counts exactly its holders and never has more than its cap, the holders of one bucket never use
  up the slots of another, and no key is kept once its last holder is gone.
\<close>

lemma overload_hold_slots_bounded:
  assumes "foldl (slot_step tryAcquireOverloadHoldSlot releaseOverloadHoldSlot) ([], []) evs = (s, holders)"
  shows "getActiveOverloadHoldCount k s = count_list holders k
    \<and> getActiveOverloadHoldCount k s \<le> OVERLOAD_HOLD_MAX_CONCURRENT_PER_BUCKET
    \<and> (k \<in> set (occupiedKeys s) \<longleftrightarrow> k \<in> set holders)
    \<and> (snd (tryAcquireOverloadHoldSlot k s) \<longleftrightarrow> count_list holders k < OVERLOAD_HOLD_MAX_CONCURRENT_PER_BUCKET)"
proof -
  have "overload_slots.slots_ok ([], [])"
    unfolding overload_slots.slots_ok_def by (simp add: sem_wf_def getActiveOverloadHoldCount_def sem_count_def)
  from overload_slots.run_slots_ok [OF this, of evs] assms
  have ok: "sem_wf s" "getActiveOverloadHoldCount j s = count_list holders j"
    "count_list holders j \<le> OVERLOAD_HOLD_MAX_CONCURRENT_PER_BUCKET" for j
    unfolding overload_slots.slots_ok_def by simp_all
  have "k \<in> set (occupiedKeys s) \<longleftrightarrow> getActiveOverloadHoldCount k s \<noteq> 0"
  proof (cases "jm_get s k")
    case None
    then have "k \<notin> set (occupiedKeys s)" by (simp add: occupiedKeys_def jm_get_None)
    with None show ?thesis by (simp add: getActiveOverloadHoldCount_def sem_count_def)
  next
    case (Some n)
    then have "(k, n) \<in> set s" by (rule jm_get_in_set)
    with ok(1) Some show ?thesis
      by (auto simp: getActiveOverloadHoldCount_def sem_count_def occupiedKeys_def sem_wf_def rev_image_eqI)
  qed
  with ok show ?thesis by (simp add: overload_slots.acquire_iff count_list_0_iff)
qed

text \<open>
  Burst evidence extends and never shortens the marker, and without fresh evidence it ends:
  after an observation the marker is active until at least the full marker time later, never
  earlier than it was active before, and a read at or past its end finds it inactive and clears it.
\<close>

lemma burst_marker_extends_then_expires:
  assumes "0 < now" and "0 \<le> markerMs"
  shows "\<exists>u. throttleUntil (markAnthropicBurstThrottle now markerMs m) = Some u \<and> now + markerMs \<le> u
    \<and> (\<forall>p. throttleUntil m = Some p \<and> now < p \<longrightarrow> p \<le> u)
    \<and> (\<forall>t. now \<le> t \<longrightarrow> snd (isAnthropicBurstThrottleActive t (markAnthropicBurstThrottle now markerMs m)) = (t < u))
    \<and> (\<forall>t \<ge> u. fst (getAnthropicBurstThrottleUntil t (markAnthropicBurstThrottle now markerMs m)) = clearAnthropicBurstThrottle)"
proof -
  obtain u where u: "throttleUntil (markAnthropicBurstThrottle now markerMs m) = Some u" by (simp add: mark_until)
  then have b: "now + markerMs \<le> u" "throttleUntil m = Some p \<Longrightarrow> now < p \<Longrightarrow> p \<le> u" for p
    by (auto simp: mark_until split: option.splits if_splits)
  from b(1) assms have "u \<noteq> 0" by simp
  with u b show ?thesis
    by (auto simp: isAnthropicBurstThrottleActive_def getAnthropicBurstThrottleUntil_def)
qed


end
