(* ===== verification/Registries.thy ===== *)
theory Registries
  imports JsBase
begin

section \<open>Expiring registries\<close>

text \<open>
  Small stateful modules that remember something for a while:
  the routing hints for failing Codex accounts (\<^verbatim>\<open>proxy/src/codex-transient-health.ts\<close> and the
  hold budget of \<^verbatim>\<open>proxy/src/codex-transient-hold.ts\<close>), the correlation of a refusal with the
  retry that redeems its credit (\<^verbatim>\<open>proxy/src/refusal-fallback-registry.ts\<close>) and the one-value
  cache (\<^verbatim>\<open>core/src/ttl-cache.ts\<close>). Shown: bounds on what they keep, when a lookup answers,
  and that an older event never undoes a newer one.
\<close>

subsection \<open>Codex transient failures\<close>

record transient_failure =
  tf_until :: int
  tf_observedAt :: int

type_synonym failures = "(string, transient_failure) jsmap"

definition DEMOTION_MS :: int where "DEMOTION_MS = 60000"
definition MAX_ENTRIES :: nat where "MAX_ENTRIES = 1000"

definition isCodexTransientError :: "string option \<Rightarrow> bool" where
  "isCodexTransientError reason \<longleftrightarrow> reason = Some ''server_error'' \<or>
     reason = Some ''service_unavailable_error'' \<or> reason = Some ''server_is_overloaded''"

text \<open>At capacity, the oldest observation is forgotten.\<close>

definition evict_oldest :: "failures \<Rightarrow> failures" where
  "evict_oldest fs = (if length fs \<ge> MAX_ENTRIES
     then (case fs of [] \<Rightarrow> fs | (oldest, _) # _ \<Rightarrow> jm_delete fs oldest) else fs)"

definition recordCodexTransientFailure :: "string \<Rightarrow> int \<Rightarrow> failures \<Rightarrow> failures" where
  "recordCodexTransientFailure accountId now fs0 =
     (let live = filter (\<lambda>(_, e). \<not> tf_until e \<le> now) fs0;
          others = jm_delete live accountId
      in jm_set (evict_oldest others) accountId \<lparr>tf_until = now + DEMOTION_MS, tf_observedAt = now\<rparr>)"

definition getCodexTransientFailureUntil :: "string \<Rightarrow> int \<Rightarrow> failures \<Rightarrow> failures \<times> int option" where
  "getCodexTransientFailureUntil accountId now fs =
     (case jm_get fs accountId of
        None \<Rightarrow> (fs, None)
      | Some e \<Rightarrow> if tf_until e \<le> now then (jm_delete fs accountId, None) else (fs, Some (tf_until e)))"

definition clearCodexTransientFailure :: "string \<Rightarrow> int \<Rightarrow> failures \<Rightarrow> failures" where
  "clearCodexTransientFailure accountId requestStartedAt fs =
     (case jm_get fs accountId of
        None \<Rightarrow> fs
      | Some e \<Rightarrow> if tf_observedAt e < requestStartedAt then jm_delete fs accountId else fs)"

definition CODEX_TRANSIENT_HOLD_MS :: int where "CODEX_TRANSIENT_HOLD_MS = 30000"
definition CODEX_TRANSIENT_HOLD_TOTAL_BUDGET_MS :: int where
  "CODEX_TRANSIENT_HOLD_TOTAL_BUDGET_MS = 60000"
definition CODEX_TRANSIENT_MAX_RETRY :: nat where "CODEX_TRANSIENT_MAX_RETRY = 1"

definition codexTransientHoldMs :: "int option \<Rightarrow> int" where
  "codexTransientHoldMs holdOverride = (case holdOverride of None \<Rightarrow> CODEX_TRANSIENT_HOLD_MS | Some ms \<Rightarrow> ms)"

definition codexTransientHoldTotalBudgetMs :: "int option \<Rightarrow> int" where
  "codexTransientHoldTotalBudgetMs budgetOverride =
     (case budgetOverride of None \<Rightarrow> CODEX_TRANSIENT_HOLD_TOTAL_BUDGET_MS | Some ms \<Rightarrow> ms)"

datatype health_event =
    Record_failure string int
  | Read_failure string int
  | Clear_failure string int

definition health_step :: "failures \<Rightarrow> health_event \<Rightarrow> failures" where
  "health_step fs ev = (case ev of
     Record_failure i now \<Rightarrow> recordCodexTransientFailure i now fs
   | Read_failure i now \<Rightarrow> fst (getCodexTransientFailureUntil i now fs)
   | Clear_failure i started \<Rightarrow> clearCodexTransientFailure i started fs)"

definition health_inv :: "failures \<Rightarrow> bool" where
  "health_inv fs \<longleftrightarrow> jm_wf fs \<and> length fs \<le> MAX_ENTRIES
     \<and> (\<forall>x \<in> set fs. tf_until (snd x) = tf_observedAt (snd x) + DEMOTION_MS)"

subsection \<open>Refusal credits\<close>

definition FALLBACK_CREDIT_TTL_MS :: int where "FALLBACK_CREDIT_TTL_MS = 5 * 60000"

record refusal_origin =
  origin_model :: "string option"
  origin_category :: "string option"
  origin_at :: int

type_synonym refusals = "(string, refusal_origin) jsmap"

definition evict_refusals :: "int \<Rightarrow> int \<Rightarrow> refusals \<Rightarrow> refusals" where
  "evict_refusals ttlMs now entries = filter (\<lambda>(_, origin). \<not> now - origin_at origin > ttlMs) entries"

definition noteRefusal :: "int \<Rightarrow> string \<Rightarrow> refusal_origin \<Rightarrow> refusals \<Rightarrow> refusals" where
  "noteRefusal ttlMs h origin entries = jm_set (evict_refusals ttlMs (origin_at origin) entries) h origin"

definition takeOrigin :: "int \<Rightarrow> string \<Rightarrow> int \<Rightarrow> refusals \<Rightarrow> refusals \<times> refusal_origin option" where
  "takeOrigin ttlMs h now entries0 =
     (let entries = evict_refusals ttlMs now entries0 in
      case jm_get entries h of
        None \<Rightarrow> (entries, None)
      | Some origin \<Rightarrow> (jm_delete entries h, if now - origin_at origin \<le> ttlMs then Some origin else None))"

subsection \<open>A value with a lifetime\<close>

record 'a ttl_cache =
  ttlMs :: int
  ttl_value :: "'a option"
  ttl_timestamp :: int

definition ttl_set :: "'a \<Rightarrow> int \<Rightarrow> 'a ttl_cache \<Rightarrow> 'a ttl_cache" where
  "ttl_set v now c = c\<lparr>ttl_value := Some v, ttl_timestamp := now\<rparr>"

definition ttl_clear :: "'a ttl_cache \<Rightarrow> 'a ttl_cache" where
  "ttl_clear c = c\<lparr>ttl_value := None, ttl_timestamp := 0\<rparr>"

definition ttl_get :: "int \<Rightarrow> 'a ttl_cache \<Rightarrow> 'a ttl_cache \<times> 'a option" where
  "ttl_get now c =
     (if ttl_value c = None then (c, None)
      else if now - ttl_timestamp c > ttlMs c then (ttl_clear c, None)
      else (c, ttl_value c))"

definition ttl_isStale :: "int \<Rightarrow> 'a ttl_cache \<Rightarrow> bool" where
  "ttl_isStale now c = (if ttl_value c = None then True else now - ttl_timestamp c > ttlMs c)"

definition ttl_size :: "int \<Rightarrow> 'a ttl_cache \<Rightarrow> nat" where
  "ttl_size now c = (if ttl_value c \<noteq> None \<and> now - ttl_timestamp c \<le> ttlMs c then 1 else 0)"

subsection \<open>Lemmas\<close>

lemma evict_oldest_facts:
  assumes "jm_wf fs" and "length fs \<le> MAX_ENTRIES"
  shows "jm_wf (evict_oldest fs)" "set (evict_oldest fs) \<subseteq> set fs" "length (evict_oldest fs) < MAX_ENTRIES"
proof -
  show "jm_wf (evict_oldest fs)" "set (evict_oldest fs) \<subseteq> set fs"
    using assms(1) by (auto simp: evict_oldest_def jm_wf_delete jm_delete_in_set split: list.split)
  show "length (evict_oldest fs) < MAX_ENTRIES"
  proof (cases "length fs \<ge> MAX_ENTRIES")
    case True
    then obtain x xs where "fs = x # xs" by (cases fs) (auto simp: MAX_ENTRIES_def)
    with assms(1) have "Suc (length (evict_oldest fs)) = length fs"
      using True jm_length_delete_present [OF assms(1), of "fst x"] by (cases x) (simp add: evict_oldest_def)
    with assms(2) show ?thesis by simp
  qed (simp add: evict_oldest_def)
qed

lemma record_inv:
  assumes "health_inv fs"
  shows "health_inv (recordCodexTransientFailure i now fs)"
proof -
  define others where "others = jm_delete (filter (\<lambda>(_, e). \<not> tf_until e \<le> now) fs) i"
  have eq: "recordCodexTransientFailure i now fs =
      jm_set (evict_oldest others) i \<lparr>tf_until = now + DEMOTION_MS, tf_observedAt = now\<rparr>"
    by (simp add: recordCodexTransientFailure_def Let_def others_def)
  have "length others \<le> length fs"
    unfolding others_def using jm_length_delete_le length_filter_le by (rule order_trans)
  with assms have "jm_wf others" "length others \<le> MAX_ENTRIES" "set others \<subseteq> set fs"
    by (auto simp: health_inv_def others_def jm_wf_intros jm_delete_in_set)
  note ev = evict_oldest_facts [OF this(1,2)] and sub = this(3)
  have "jm_wf (recordCodexTransientFailure i now fs)" unfolding eq using ev(1) by (rule jm_wf_set)
  moreover have "length (recordCodexTransientFailure i now fs) \<le> MAX_ENTRIES"
    unfolding eq using jm_length_set_le ev(3) [THEN Suc_leI] by (rule order_trans)
  moreover have "tf_until (snd x) = tf_observedAt (snd x) + DEMOTION_MS"
    if "x \<in> set (recordCodexTransientFailure i now fs)" for x
    using jm_set_in_set [OF that [unfolded eq]] ev(2) sub assms by (auto simp: health_inv_def)
  ultimately show ?thesis by (simp add: health_inv_def)
qed

lemma health_delete_inv: "health_inv fs \<Longrightarrow> health_inv (jm_delete fs i)"
  by (auto simp: health_inv_def jm_wf_delete jm_delete_in_set intro: order_trans [OF jm_length_delete_le])

lemma health_step_inv: "health_inv fs \<Longrightarrow> health_inv (health_step fs ev)"
  by (cases ev) (auto simp: health_step_def record_inv getCodexTransientFailureUntil_def
      clearCodexTransientFailure_def health_delete_inv split: option.split)

interpretation health: invariant_system health_step health_inv
  by unfold_locales (rule health_step_inv)

lemma record_get:
  assumes "jm_wf fs"
  shows "jm_get (recordCodexTransientFailure i now fs) i = Some \<lparr>tf_until = now + DEMOTION_MS, tf_observedAt = now\<rparr>"
  by (simp add: recordCodexTransientFailure_def Let_def)

lemma evict_get:
  "jm_wf r \<Longrightarrow> jm_get (evict_refusals ttl now r) h =
    (case jm_get r h of None \<Rightarrow> None | Some origin \<Rightarrow> if now - origin_at origin \<le> ttl then Some origin else None)"
  by (simp add: evict_refusals_def jm_get_filter not_less cong: option.case_cong)

lemma take_absent: "jm_wf r \<Longrightarrow> jm_get r h = None \<Longrightarrow> snd (takeOrigin ttl h now r) = None"
  by (simp add: takeOrigin_def Let_def evict_get)

subsection \<open>Properties\<close>

text \<open>
  Under every sequence of recorded failures, reads and clears the transient-failure table
  keeps one entry per account, at most its capacity, each expiring exactly the demotion time after
  it was observed.
\<close>

lemma transient_health_bounded:
  assumes "health_inv fs"
  shows "health_inv (foldl health_step fs evs)"
  by (rule health.run_inv [OF assms])


text \<open>
  A success only erases a failure it is newer than: after a failure recorded at some time, a
  success of a request that started no later leaves the account demoted until the end of the
  demotion, and one that started later clears it.
\<close>

lemma older_success_keeps_failure:
  assumes "jm_wf fs" and "t < now + DEMOTION_MS"
  shows "snd (getCodexTransientFailureUntil i t
      (clearCodexTransientFailure i started (recordCodexTransientFailure i now fs))) =
    (if started \<le> now then Some (now + DEMOTION_MS) else None)"
  using assms by (simp add: clearCodexTransientFailure_def record_get getCodexTransientFailureUntil_def)


text \<open>
  A refusal credit is redeemed once and only while it lives: the first redemption within the
  lifetime returns the recorded origin, a later one returns nothing, and after any redemption the
  credit is gone while the credits of other refusals that are still live remain.
\<close>

lemma refusal_credit_redeemed_once:
  assumes "jm_wf r" and "0 \<le> ttl" and "origin_at origin \<le> now"
  shows "snd (takeOrigin ttl h now (noteRefusal ttl h origin r)) =
      (if now - origin_at origin \<le> ttl then Some origin else None)
    \<and> snd (takeOrigin ttl h later (fst (takeOrigin ttl h now (noteRefusal ttl h origin r)))) = None
    \<and> (\<forall>h' o'. h' \<noteq> h \<and> jm_get r h' = Some o' \<and> now - origin_at o' \<le> ttl \<longrightarrow>
        jm_get (fst (takeOrigin ttl h now (noteRefusal ttl h origin r))) h' = Some o')"
proof -
  let ?n = "noteRefusal ttl h origin r"
  have wfe: "jm_wf (evict_refusals ttl t r')" if "jm_wf r'" for t r'
    using that by (simp add: evict_refusals_def jm_wf_filter)
  have wf: "jm_wf ?n" using assms(1) by (simp add: noteRefusal_def jm_wf_set wfe)
  have get: "jm_get ?n h = Some origin" by (simp add: noteRefusal_def)
  have other: "jm_get ?n h' = Some o'"
    if "h' \<noteq> h" "jm_get r h' = Some o'" "now - origin_at o' \<le> ttl" for h' o'
    using that assms by (simp add: noteRefusal_def evict_get)
  let ?t = "fst (takeOrigin ttl h now ?n)"
  have gone: "jm_get ?t h = None"
    using get by (auto simp: takeOrigin_def Let_def evict_get [OF wf] split: option.split)
  have wft: "jm_wf ?t" using wf by (auto simp: takeOrigin_def Let_def wfe jm_wf_delete split: option.split)
  have "snd (takeOrigin ttl h later ?t) = None"
    using wft gone by (rule take_absent)
  moreover have "jm_get ?t h' = Some o'"
    if "h' \<noteq> h" "jm_get r h' = Some o'" "now - origin_at o' \<le> ttl" for h' o'
    using other [OF that] that by (auto simp: takeOrigin_def Let_def evict_get [OF wf] split: option.split)
  moreover have "snd (takeOrigin ttl h now ?n) = (if now - origin_at origin \<le> ttl then Some origin else None)"
    using get by (simp add: takeOrigin_def Let_def evict_get [OF wf])
  ultimately show ?thesis by blast
qed


text \<open>
  A cached value is returned exactly while it is not older than its lifetime; a read past it
  returns nothing and empties the cache, and \<^verbatim>\<open>isStale\<close> and \<^verbatim>\<open>size\<close> agree with the read.
\<close>

lemma ttl_cache_lifetime:
  "snd (ttl_get now (ttl_set v t c)) = (if now - t \<le> ttlMs c then Some v else None)
    \<and> (now - t > ttlMs c \<longrightarrow> fst (ttl_get now (ttl_set v t c)) = ttl_clear (ttl_set v t c))
    \<and> (ttl_isStale now (ttl_set v t c) \<longleftrightarrow> snd (ttl_get now (ttl_set v t c)) = None)
    \<and> (ttl_size now (ttl_set v t c) = 1 \<longleftrightarrow> snd (ttl_get now (ttl_set v t c)) = Some v)"
  by (simp add: ttl_get_def ttl_set_def ttl_isStale_def ttl_size_def)


end
