(* ===== verification/OverloadBreaker.thy ===== *)
theory OverloadBreaker
  imports Accounts
begin

section \<open>The overload circuit breaker\<close>

text \<open>
  \<^verbatim>\<open>proxy/src/provider-overload-cooldown.ts\<close>: a breaker per provider and model family that a
  529 trips, with a half-open state that admits one probe at a time. The module's variables are
  one record; \<open>now\<close> is the reading of \<^verbatim>\<open>Date.now()\<close>. A cancellation callback is the number of
  the attempt it aborts, and the record keeps the list of the attempts aborted so far. A probe id
  \<^verbatim>\<open>p<n>\<close> is the number \<open>n\<close>. Log lines are left out.
  Shown: a family's trip never gates another family; a deadline is never shortened and never
  more than five minutes away; at most one probe holds a bucket, a token from before a trip,
  a clear or a takeover changes nothing, and a half-open bucket can always be probed again.
\<close>

definition DEFAULT_PROVIDER_OVERLOAD_COOLDOWN_MS :: int where
  "DEFAULT_PROVIDER_OVERLOAD_COOLDOWN_MS = 60000"
definition MAX_PROVIDER_OVERLOAD_COOLDOWN_MS :: int where
  "MAX_PROVIDER_OVERLOAD_COOLDOWN_MS = 5 * 60000"
definition ANTHROPIC_UPSTREAM_OVERLOAD_KEY :: string where
  "ANTHROPIC_UPSTREAM_OVERLOAD_KEY = ''anthropic-upstream''"
definition PROBE_LEASE_SAFETY_MARGIN_MS :: int where
  "PROBE_LEASE_SAFETY_MARGIN_MS = 60000"
definition PROBE_ADMISSION_TTL_MS :: int where
  "PROBE_ADMISSION_TTL_MS = DEFAULT_PROVIDER_OVERLOAD_COOLDOWN_MS"

definition getStreamForwardTotalTimeoutMs :: int where
  "getStreamForwardTotalTimeoutMs = STREAM_FORWARD_TOTAL_TIMEOUT_MS"

definition getProbeLeaseSafetyTtlMs :: int where
  "getProbeLeaseSafetyTtlMs = PROXY_REQUEST_TIMEOUT_MS + getStreamForwardTotalTimeoutMs
     + PROBE_LEASE_SAFETY_MARGIN_MS"

subsection \<open>State\<close>

record stored_probe =
  probe_leaseId :: nat
  probe_acquiredAt :: int
  probe_ttlMs :: int
  probe_admissionTtlMs :: int
  probe_probeId :: nat
  probe_onDisplaced :: "nat option"

record overload_bucket =
  bucket_until :: int
  bucket_generation :: nat
  bucket_probe :: "stored_probe option"

record probe_lease =
  lease_key :: string
  lease_generation :: nat
  lease_leaseId :: nat

record probe_token =
  token_probeId :: nat
  token_acquiredAt :: int
  token_leases :: "probe_lease list"

record breaker =
  buckets :: "(string, overload_bucket) jsmap"
  generationCounter :: nat
  leaseIdCounter :: nat
  probeIdCounter :: nat
  cancelled :: "nat list"

datatype breaker_state = Closed | Open | Half_open

record breaker_status =
  status_state :: breaker_state
  status_until :: "int option"
  status_probeActive :: bool

datatype probe_outcome = Recovered | Reopened | Abandoned

datatype refusal_reason = Refused_open | Refused_probe_active

datatype probe_admission = Admitted "probe_token option" | Refused refusal_reason "int option"

subsection \<open>Keys\<close>

datatype reset_source = Hint | Hint_capped | No_usable_reset_default

definition normalizeUntil :: "deadline option \<Rightarrow> int \<Rightarrow> int \<times> reset_source" where
  "normalizeUntil candidate now =
     (case candidate of
        Some (At c) \<Rightarrow>
          if c \<noteq> 0 \<and> c > now
          then (let capped = now + MAX_PROVIDER_OVERLOAD_COOLDOWN_MS
                in if c > capped then (capped, Hint_capped) else (c, Hint))
          else (now + DEFAULT_PROVIDER_OVERLOAD_COOLDOWN_MS, No_usable_reset_default)
      | _ \<Rightarrow> (now + DEFAULT_PROVIDER_OVERLOAD_COOLDOWN_MS, No_usable_reset_default))"

definition family_of :: "string option \<Rightarrow> model_family option" where
  "family_of model = (case model of None \<Rightarrow> None | Some m \<Rightarrow> if m = [] then None else getModelFamily m)"

definition resolveOverloadAttributionModel :: "string option \<Rightarrow> string option \<Rightarrow> string option" where
  "resolveOverloadAttributionModel candidateModel logicalModel =
     (if family_of candidateModel \<noteq> None then candidateModel
      else case logicalModel of Some m \<Rightarrow> Some m | None \<Rightarrow> candidateModel)"

definition getProviderOverloadKey :: "string \<Rightarrow> string" where
  "getProviderOverloadKey p = (if isOfficialAnthropicProvider p then ANTHROPIC_UPSTREAM_OVERLOAD_KEY else p)"

definition family_key :: "string \<Rightarrow> model_family \<Rightarrow> string" where
  "family_key providerKey f = providerKey @ '':'' @ family_string f"

definition resolveOverloadKeyParts ::
  "string \<Rightarrow> string option \<Rightarrow> string \<times> model_family option \<times> string option" where
  "resolveOverloadKeyParts p model =
     (let providerKey = getProviderOverloadKey p; family = family_of model
      in (providerKey, family, map_option (family_key providerKey) family))"

definition bucketKey :: "string \<Rightarrow> string option \<Rightarrow> string" where
  "bucketKey p model = (case resolveOverloadKeyParts p model of
     (providerKey, _, familyKey) \<Rightarrow> (case familyKey of Some k \<Rightarrow> k | None \<Rightarrow> providerKey))"

definition belongs_to :: "string \<Rightarrow> string \<Rightarrow> bool" where
  "belongs_to providerKey key \<longleftrightarrow> key = providerKey \<or> starts_with key (providerKey @ '':'')"

definition relevantKeys :: "breaker \<Rightarrow> string \<Rightarrow> string option \<Rightarrow> string list" where
  "relevantKeys s p model = (case resolveOverloadKeyParts p model of
     (providerKey, _, Some familyKey) \<Rightarrow> [familyKey, providerKey]
   | (providerKey, _, None) \<Rightarrow> filter (belongs_to providerKey) (jm_keys (buckets s)))"

definition isLeaseActive :: "overload_bucket \<Rightarrow> int \<Rightarrow> bool" where
  "isLeaseActive b now \<longleftrightarrow> (case bucket_probe b of None \<Rightarrow> False
     | Some pr \<Rightarrow> now - probe_acquiredAt pr < probe_ttlMs pr)"

definition isLeaseBlockingAdmission :: "overload_bucket \<Rightarrow> int \<Rightarrow> bool" where
  "isLeaseBlockingAdmission b now \<longleftrightarrow> (case bucket_probe b of None \<Rightarrow> False
     | Some pr \<Rightarrow> now - probe_acquiredAt pr < probe_admissionTtlMs pr)"

subsection \<open>Tripping\<close>

definition displaced_handle :: "nat option \<Rightarrow> overload_bucket option \<Rightarrow> nat option" where
  "displaced_handle reporter b =
     (case Option.bind b bucket_probe of
        None \<Rightarrow> None
      | Some pr \<Rightarrow> if Some (probe_probeId pr) \<noteq> reporter then probe_onDisplaced pr else None)"

definition applyProviderOverloadCooldown ::
  "int \<Rightarrow> string \<Rightarrow> deadline option \<Rightarrow> string option \<Rightarrow> nat option \<Rightarrow> breaker \<Rightarrow> breaker \<times> int" where
  "applyProviderOverloadCooldown now p resetTime model reporter s =
     (let key = bucketKey p model;
          (until, source) = normalizeUntil resetTime now;
          b = jm_get (buckets s) key;
          effectiveUntil = (case b of None \<Rightarrow> until | Some old \<Rightarrow> max (bucket_until old) until);
          generation = generationCounter s + 1;
          cancel = displaced_handle reporter b
      in (s\<lparr>buckets := jm_set (buckets s) key \<lparr>bucket_until = effectiveUntil,
              bucket_generation = generation, bucket_probe = None\<rparr>,
            generationCounter := generation,
            cancelled := cancelled s @ (case cancel of None \<Rightarrow> [] | Some h \<Rightarrow> [h])\<rparr>,
          effectiveUntil))"

subsection \<open>Inspection\<close>

definition bump_until :: "breaker \<Rightarrow> int \<Rightarrow> int option \<Rightarrow> string \<Rightarrow> int option" where
  "bump_until s now mx key =
     (case jm_get (buckets s) key of
        None \<Rightarrow> mx
      | Some b \<Rightarrow> if bucket_until b > now \<and> (case mx of None \<Rightarrow> True | Some m \<Rightarrow> bucket_until b > m)
                  then Some (bucket_until b) else mx)"

definition getProviderOverloadUntil :: "string \<Rightarrow> int \<Rightarrow> string option \<Rightarrow> breaker \<Rightarrow> int option" where
  "getProviderOverloadUntil p now model s = foldl (bump_until s now) None (relevantKeys s p model)"

definition getProviderWideOverloadUntil :: "string \<Rightarrow> int \<Rightarrow> breaker \<Rightarrow> int option" where
  "getProviderWideOverloadUntil p now s =
     (case jm_get (buckets s) (getProviderOverloadKey p) of
        None \<Rightarrow> None | Some b \<Rightarrow> if bucket_until b > now then Some (bucket_until b) else None)"

definition isProviderOverloaded :: "string \<Rightarrow> int \<Rightarrow> string option \<Rightarrow> breaker \<Rightarrow> bool" where
  "isProviderOverloaded p now model s \<longleftrightarrow> getProviderOverloadUntil p now model s \<noteq> None"

definition relevant_buckets :: "breaker \<Rightarrow> string \<Rightarrow> string option \<Rightarrow> overload_bucket list" where
  "relevant_buckets s p model = List.map_filter (jm_get (buckets s)) (relevantKeys s p model)"

definition inspectProviderOverload :: "string \<Rightarrow> string option \<Rightarrow> int \<Rightarrow> breaker \<Rightarrow> breaker_status" where
  "inspectProviderOverload p model now s =
     (let until = foldl (bump_until s now) None (relevantKeys s p model);
          halfOpen = (\<exists>b \<in> set (relevant_buckets s p model). \<not> bucket_until b > now);
          probeActive = (\<exists>b \<in> set (relevant_buckets s p model). isLeaseActive b now)
      in if until \<noteq> None then \<lparr>status_state = Open, status_until = until, status_probeActive = probeActive\<rparr>
         else if halfOpen then \<lparr>status_state = Half_open, status_until = None, status_probeActive = probeActive\<rparr>
         else \<lparr>status_state = Closed, status_until = None, status_probeActive = False\<rparr>)"

definition getOverloadHoldSlotKey :: "string \<Rightarrow> string option \<Rightarrow> breaker \<Rightarrow> string" where
  "getOverloadHoldSlotKey p model s = (case resolveOverloadKeyParts p model of
     (providerKey, _, familyKey) \<Rightarrow> (case familyKey of
        None \<Rightarrow> providerKey
      | Some fk \<Rightarrow> if jm_has (buckets s) providerKey then providerKey
                  else if jm_has (buckets s) fk then fk else fk))"

subsection \<open>Probe admission\<close>

record lease_loop =
  ll_buckets :: "(string, overload_bucket) jsmap"
  ll_counter :: nat
  ll_leases :: "probe_lease list"
  ll_cancel :: "nat list"

definition add_canceller :: "overload_bucket \<Rightarrow> nat list \<Rightarrow> nat list" where
  "add_canceller b cs = (case Option.bind (bucket_probe b) probe_onDisplaced of
     None \<Rightarrow> cs | Some h \<Rightarrow> if h \<in> set cs then cs else cs @ [h])"

definition take_lease :: "int \<Rightarrow> nat \<Rightarrow> nat option \<Rightarrow> lease_loop \<Rightarrow> string \<Rightarrow> lease_loop" where
  "take_lease now probeId onDisplaced l key =
     (case jm_get (ll_buckets l) key of
        None \<Rightarrow> l
      | Some b \<Rightarrow>
          (let leaseId = ll_counter l + 1
           in \<lparr>ll_buckets = jm_set (ll_buckets l) key (b\<lparr>bucket_probe := Some
                  \<lparr>probe_leaseId = leaseId, probe_acquiredAt = now, probe_ttlMs = getProbeLeaseSafetyTtlMs,
                   probe_admissionTtlMs = PROBE_ADMISSION_TTL_MS, probe_probeId = probeId,
                   probe_onDisplaced = onDisplaced\<rparr>\<rparr>),
               ll_counter = leaseId,
               ll_leases = ll_leases l @ [\<lparr>lease_key = key, lease_generation = bucket_generation b,
                                           lease_leaseId = leaseId\<rparr>],
               ll_cancel = add_canceller b (ll_cancel l)\<rparr>))"

definition tryAcquireProviderOverloadProbe ::
  "string \<Rightarrow> string option \<Rightarrow> int \<Rightarrow> nat option \<Rightarrow> breaker \<Rightarrow> breaker \<times> probe_admission" where
  "tryAcquireProviderOverloadProbe p model now onDisplaced s =
     (let keys = relevantKeys s p model;
          openUntil = getProviderOverloadUntil p now model s
      in if openUntil \<noteq> None then (s, Refused Refused_open openUntil)
         else if \<exists>b \<in> set (relevant_buckets s p model). isLeaseBlockingAdmission b now
           then (s, Refused Refused_probe_active None)
         else let halfOpenKeys = filter (jm_has (buckets s)) keys in
           if halfOpenKeys = [] then (s, Admitted None)
           else let probeId = probeIdCounter s + 1;
                    l = foldl (take_lease now probeId onDisplaced)
                          \<lparr>ll_buckets = buckets s, ll_counter = leaseIdCounter s, ll_leases = [], ll_cancel = []\<rparr>
                          halfOpenKeys
                in (s\<lparr>buckets := ll_buckets l, leaseIdCounter := ll_counter l, probeIdCounter := probeId,
                      cancelled := cancelled s @ ll_cancel l\<rparr>,
                    Admitted (Some \<lparr>token_probeId = probeId, token_acquiredAt = now, token_leases = ll_leases l\<rparr>)))"

subsection \<open>Completion and clearing\<close>

text \<open>The test each lease of a token has to pass to act.\<close>

definition lease_holds :: "(string, overload_bucket) jsmap \<Rightarrow> probe_lease \<Rightarrow> bool" where
  "lease_holds bs l \<longleftrightarrow> (case jm_get bs (lease_key l) of
     None \<Rightarrow> False
   | Some b \<Rightarrow> bucket_generation b = lease_generation l \<and>
       (case bucket_probe b of None \<Rightarrow> False | Some pr \<Rightarrow> probe_leaseId pr = lease_leaseId l))"

definition settle_lease ::
  "probe_outcome \<Rightarrow> (string, overload_bucket) jsmap \<Rightarrow> probe_lease \<Rightarrow> (string, overload_bucket) jsmap" where
  "settle_lease outcome bs l =
     (if \<not> lease_holds bs l then bs
      else if outcome = Recovered then jm_delete bs (lease_key l)
      else case jm_get bs (lease_key l) of
        None \<Rightarrow> bs | Some b \<Rightarrow> jm_set bs (lease_key l) (b\<lparr>bucket_probe := None\<rparr>))"

definition completeProviderOverloadProbe :: "probe_token option \<Rightarrow> probe_outcome \<Rightarrow> breaker \<Rightarrow> breaker" where
  "completeProviderOverloadProbe token outcome s =
     (case token of
        None \<Rightarrow> s
      | Some t \<Rightarrow> s\<lparr>buckets := foldl (settle_lease outcome) (buckets s) (token_leases t)\<rparr>)"

definition clearProviderOverloadCooldown :: "string option \<Rightarrow> breaker \<Rightarrow> breaker" where
  "clearProviderOverloadCooldown p s =
     (case p of
        None \<Rightarrow> s\<lparr>buckets := []\<rparr>
      | Some name \<Rightarrow> if name = [] then s\<lparr>buckets := []\<rparr>
          else s\<lparr>buckets := filter (\<lambda>(k, _). \<not> belongs_to (getProviderOverloadKey name) k) (buckets s)\<rparr>)"

subsection \<open>Diagnostics\<close>

record bucket_snapshot =
  snap_family :: "string option"
  snap_state :: breaker_state
  snap_until :: "int option"
  snap_probeActive :: bool

definition getProviderOverloadSnapshot :: "string \<Rightarrow> int \<Rightarrow> breaker \<Rightarrow> bucket_snapshot list" where
  "getProviderOverloadSnapshot p now s =
     (let providerKey = getProviderOverloadKey p in
      map (\<lambda>(key, b). \<lparr>snap_family = (if key = providerKey then None else Some (drop (length providerKey + 1) key)),
             snap_state = (if bucket_until b > now then Open else Half_open),
             snap_until = (if bucket_until b > now then Some (bucket_until b) else None),
             snap_probeActive = isLeaseActive b now\<rparr>)
        (filter (\<lambda>(key, _). belongs_to providerKey key) (buckets s)))"

record diagnostic_lease =
  dl_id :: nat
  dl_ageMs :: int
  dl_ttlMs :: int
  dl_admissionTtlMs :: int
  dl_active :: bool
  dl_blocksAdmission :: bool

record diagnostic_bucket =
  diag_key :: string
  diag_state :: breaker_state
  diag_until :: "int option"
  diag_generation :: nat
  diag_lease :: "diagnostic_lease option"

definition getOverloadDiagnostics :: "int \<Rightarrow> breaker \<Rightarrow> diagnostic_bucket list" where
  "getOverloadDiagnostics now s = map (\<lambda>(key, b).
     \<lparr>diag_key = key, diag_state = (if bucket_until b > now then Open else Half_open),
      diag_until = (if bucket_until b > now then Some (bucket_until b) else None),
      diag_generation = bucket_generation b,
      diag_lease = map_option (\<lambda>pr. \<lparr>dl_id = probe_probeId pr, dl_ageMs = now - probe_acquiredAt pr,
        dl_ttlMs = probe_ttlMs pr, dl_admissionTtlMs = probe_admissionTtlMs pr,
        dl_active = isLeaseActive b now, dl_blocksAdmission = isLeaseBlockingAdmission b now\<rparr>) (bucket_probe b)\<rparr>)
     (buckets s)"

definition getOverloadBucketGeneration :: "string \<Rightarrow> breaker \<Rightarrow> nat option" where
  "getOverloadBucketGeneration key s = map_option bucket_generation (jm_get (buckets s) key)"

subsection \<open>Keys and deadlines\<close>

lemma family_key_inj [simp]: "family_key p f = family_key p g \<longleftrightarrow> f = g"
  by (simp add: family_key_def family_string_inj)

lemma family_key_neq [simp]: "family_key p f \<noteq> p" "p \<noteq> family_key p f"
  by (simp_all add: family_key_def)

lemma belongs_family [simp]: "belongs_to p (family_key p f)" "belongs_to p p"
  by (simp_all add: belongs_to_def family_key_def starts_with_iff)

lemma bucketKey_eq:
  "bucketKey p model = (case family_of model of None \<Rightarrow> getProviderOverloadKey p
     | Some f \<Rightarrow> family_key (getProviderOverloadKey p) f)"
  by (simp add: bucketKey_def resolveOverloadKeyParts_def Let_def split: option.split)

lemma relevantKeys_eq:
  "relevantKeys s p model = (case family_of model of
     None \<Rightarrow> filter (belongs_to (getProviderOverloadKey p)) (jm_keys (buckets s))
   | Some f \<Rightarrow> [family_key (getProviderOverloadKey p) f, getProviderOverloadKey p])"
  by (simp add: relevantKeys_def resolveOverloadKeyParts_def Let_def split: option.split)

lemma relevant_distinct: "jm_wf (buckets s) \<Longrightarrow> distinct (relevantKeys s p model)"
  by (simp add: relevantKeys_eq split: option.split)

text \<open>A bucket a request would trip gates the request itself.\<close>

lemma bucketKey_relevant: "jm_has (buckets s) (bucketKey p model) \<Longrightarrow> bucketKey p model \<in> set (relevantKeys s p model)"
  using jm_get_None [of "buckets s" "bucketKey p model"]
  by (auto simp: bucketKey_eq relevantKeys_eq jm_has_def split: option.splits)

lemma relevant_buckets_iff:
  "b \<in> set (relevant_buckets s p model) \<longleftrightarrow>
    (\<exists>k \<in> set (relevantKeys s p model). jm_get (buckets s) k = Some b)"
  by (induction "relevantKeys s p model")
    (auto simp: relevant_buckets_def map_filter_def image_iff split: option.splits)

lemma bump_None:
  "foldl (bump_until s now) mx keys = None \<longleftrightarrow>
    mx = None \<and> (\<forall>k \<in> set keys. \<forall>b. jm_get (buckets s) k = Some b \<longrightarrow> bucket_until b \<le> now)"
  by (induction keys arbitrary: mx) (auto simp: bump_until_def split: option.split)

lemma bump_Some:
  assumes "foldl (bump_until s now) mx keys = Some u"
  shows "mx = Some u \<or> (\<exists>k \<in> set keys. \<exists>b. jm_get (buckets s) k = Some b \<and> bucket_until b = u \<and> now < u)"
    "mx = Some m \<Longrightarrow> m \<le> u"
    "k \<in> set keys \<Longrightarrow> jm_get (buckets s) k = Some b \<Longrightarrow> now < bucket_until b \<Longrightarrow> bucket_until b \<le> u"
proof -
  have "(mx = Some u \<or> (\<exists>k \<in> set keys. \<exists>b. jm_get (buckets s) k = Some b \<and> bucket_until b = u \<and> now < u))
      \<and> (\<forall>m. mx = Some m \<longrightarrow> m \<le> u)
      \<and> (\<forall>k \<in> set keys. \<forall>b. jm_get (buckets s) k = Some b \<longrightarrow> now < bucket_until b \<longrightarrow> bucket_until b \<le> u)"
    using assms
  proof (induction keys arbitrary: mx)
    case (Cons k ks)
    from Cons.prems have "foldl (bump_until s now) (bump_until s now mx k) ks = Some u" by simp
    note ih = Cons.IH [OF this]
    show ?case
    proof (cases "jm_get (buckets s) k")
      case None
      with ih show ?thesis by (simp add: bump_until_def)
    next
      case (Some b)
      show ?thesis
      proof (cases "bucket_until b > now \<and> (case mx of None \<Rightarrow> True | Some m \<Rightarrow> bucket_until b > m)")
        case True
        with Some have "bump_until s now mx k = Some (bucket_until b)" by (simp add: bump_until_def)
        with ih Some True show ?thesis by (fastforce split: option.splits)
      next
        case False
        with Some have eq: "bump_until s now mx k = mx" by (auto simp: bump_until_def)
        have "bucket_until b \<le> u" if op: "now < bucket_until b"
        proof -
          obtain m where "mx = Some m" "bucket_until b \<le> m" using False op by (cases mx) auto
          moreover have "m \<le> u" using ih calculation(1) unfolding eq by blast
          ultimately show ?thesis by simp
        qed
        with ih Some show ?thesis unfolding eq by auto
      qed
    qed
  qed simp
  then show "mx = Some u \<or> (\<exists>k \<in> set keys. \<exists>b. jm_get (buckets s) k = Some b \<and> bucket_until b = u \<and> now < u)"
    "mx = Some m \<Longrightarrow> m \<le> u"
    "k \<in> set keys \<Longrightarrow> jm_get (buckets s) k = Some b \<Longrightarrow> now < bucket_until b \<Longrightarrow> bucket_until b \<le> u"
    by blast+
qed

lemma normalizeUntil_bounds:
  "now < fst (normalizeUntil c now)" "fst (normalizeUntil c now) \<le> now + MAX_PROVIDER_OVERLOAD_COOLDOWN_MS"
  by (auto simp: normalizeUntil_def Let_def DEFAULT_PROVIDER_OVERLOAD_COOLDOWN_MS_def
      MAX_PROVIDER_OVERLOAD_COOLDOWN_MS_def split: option.split deadline.split)

lemma trip_facts:
  assumes "applyProviderOverloadCooldown now p reset model reporter s = (s', u)"
  shows "buckets s' = jm_set (buckets s) (bucketKey p model)
      \<lparr>bucket_until = u, bucket_generation = generationCounter s + 1, bucket_probe = None\<rparr>"
    "generationCounter s' = generationCounter s + 1" "leaseIdCounter s' = leaseIdCounter s"
    "u = (case jm_get (buckets s) (bucketKey p model) of None \<Rightarrow> fst (normalizeUntil reset now)
      | Some b \<Rightarrow> max (bucket_until b) (fst (normalizeUntil reset now)))"
  using assms by (auto simp: applyProviderOverloadCooldown_def Let_def case_prod_unfold split: option.split)

subsection \<open>Leases\<close>

lemma take_lease_present:
  assumes "jm_get (ll_buckets l) key = Some b"
  shows "ll_counter (take_lease now pid h l key) = ll_counter l + 1"
    "ll_leases (take_lease now pid h l key) = ll_leases l @
       [\<lparr>lease_key = key, lease_generation = bucket_generation b, lease_leaseId = ll_counter l + 1\<rparr>]"
    "jm_get (ll_buckets (take_lease now pid h l key)) k = (if k = key then Some (b\<lparr>bucket_probe := Some
       \<lparr>probe_leaseId = ll_counter l + 1, probe_acquiredAt = now, probe_ttlMs = getProbeLeaseSafetyTtlMs,
        probe_admissionTtlMs = PROBE_ADMISSION_TTL_MS, probe_probeId = pid, probe_onDisplaced = h\<rparr>\<rparr>)
       else jm_get (ll_buckets l) k)"
    "jm_wf (ll_buckets l) \<Longrightarrow> jm_wf (ll_buckets (take_lease now pid h l key))"
    "set (jm_keys (ll_buckets (take_lease now pid h l key))) = set (jm_keys (ll_buckets l))"
proof -
  have "key \<in> set (jm_keys (ll_buckets l))"
    using assms jm_get_None [of "ll_buckets l" key] by force
  then show "set (jm_keys (ll_buckets (take_lease now pid h l key))) = set (jm_keys (ll_buckets l))"
    unfolding take_lease_def using assms by (simp add: Let_def jm_keys_set insert_absorb del: set_map)
qed (simp_all add: take_lease_def assms Let_def jm_wf_set)

text \<open>What the loop over the half-open buckets leaves: fresh leases, each of which holds.\<close>

abbreviation all_present :: "lease_loop \<Rightarrow> string list \<Rightarrow> bool" where
  "all_present l keys \<equiv> distinct keys \<and> (\<forall>k \<in> set keys. jm_get (ll_buckets l) k \<noteq> None)"

lemma all_present_step:
  assumes "all_present l (key # keys)"
  obtains b where "jm_get (ll_buckets l) key = Some b" "all_present (take_lease now pid h l key) keys"
proof -
  obtain b where "jm_get (ll_buckets l) key = Some b" using assms by auto
  with assms show ?thesis by (intro that [of b]) (auto simp: take_lease_present)
qed

lemma lease_loop_counter:
  "all_present l keys \<Longrightarrow> ll_counter (foldl (take_lease now pid h) l keys) = ll_counter l + length keys"
proof (induction keys arbitrary: l)
  case (Cons key keys)
  show ?case
    by (rule all_present_step [OF Cons.prems, of now pid h]) (simp add: Cons.IH take_lease_present)
qed simp

lemma lease_loop_wf:
  "all_present l keys \<Longrightarrow> jm_wf (ll_buckets l) \<Longrightarrow> jm_wf (ll_buckets (foldl (take_lease now pid h) l keys))"
proof (induction keys arbitrary: l)
  case (Cons key keys)
  show ?case
    by (rule all_present_step [OF Cons.prems(1), of now pid h])
      (use Cons in \<open>auto simp: take_lease_present intro!: Cons.IH\<close>)
qed simp

lemma lease_loop_other:
  "all_present l keys \<Longrightarrow> k \<notin> set keys \<Longrightarrow>
    jm_get (ll_buckets (foldl (take_lease now pid h) l keys)) k = jm_get (ll_buckets l) k"
proof (induction keys arbitrary: l)
  case (Cons key keys)
  show ?case
    by (rule all_present_step [OF Cons.prems(1), of now pid h])
      (use Cons in \<open>simp add: take_lease_present\<close>)
qed simp

lemma lease_loop_taken:
  assumes "all_present l keys" and "k \<in> set keys" and "jm_get (ll_buckets l) k = Some b"
  shows "\<exists>i. jm_get (ll_buckets (foldl (take_lease now pid h) l keys)) k = Some (b\<lparr>bucket_probe := Some
       \<lparr>probe_leaseId = i, probe_acquiredAt = now, probe_ttlMs = getProbeLeaseSafetyTtlMs,
        probe_admissionTtlMs = PROBE_ADMISSION_TTL_MS, probe_probeId = pid, probe_onDisplaced = h\<rparr>\<rparr>)"
  using assms
proof (induction keys arbitrary: l)
  case (Cons key keys)
  show ?case
  proof (rule all_present_step [OF Cons.prems(1), of now pid h], goal_cases)
    case (1 c)
    show ?case
    proof (cases "k = key")
      case True
      with 1 Cons.prems show ?thesis by (auto simp: lease_loop_other take_lease_present)
    next
      case False
      with Cons.prems show ?thesis using Cons.IH [OF 1(2)] by (simp add: take_lease_present [OF 1(1)])
    qed
  qed
qed simp

lemma lease_loop_new:
  assumes "all_present l keys"
  shows "\<exists>new. ll_leases (foldl (take_lease now pid h) l keys) = ll_leases l @ new \<and> map lease_key new = keys
      \<and> map lease_leaseId new = [ll_counter l + 1 ..< ll_counter l + 1 + length keys]
      \<and> (\<forall>x \<in> set new. lease_holds (ll_buckets (foldl (take_lease now pid h) l keys)) x)
      \<and> (\<forall>x \<in> set new. \<exists>b. jm_get (ll_buckets l) (lease_key x) = Some b \<and> lease_generation x = bucket_generation b)"
  using assms
proof (induction keys arbitrary: l)
  case (Cons key keys)
  show ?case
  proof (rule all_present_step [OF Cons.prems, of now pid h], goal_cases)
    case (1 c)
    let ?l = "take_lease now pid h l key"
    note f = take_lease_present [OF 1(1), of now pid h]
    obtain new where new: "ll_leases (foldl (take_lease now pid h) ?l keys) = ll_leases ?l @ new"
      "map lease_key new = keys" "map lease_leaseId new = [ll_counter ?l + 1 ..< ll_counter ?l + 1 + length keys]"
      "\<forall>x \<in> set new. lease_holds (ll_buckets (foldl (take_lease now pid h) ?l keys)) x"
      "\<forall>x \<in> set new. \<exists>b. jm_get (ll_buckets ?l) (lease_key x) = Some b \<and> lease_generation x = bucket_generation b"
      using Cons.IH [OF 1(2)] by blast
    define x where "x = \<lparr>lease_key = key, lease_generation = bucket_generation c, lease_leaseId = ll_counter l + 1\<rparr>"
    have "jm_get (ll_buckets (foldl (take_lease now pid h) ?l keys)) key = jm_get (ll_buckets ?l) key"
      using 1(2) Cons.prems by (intro lease_loop_other) auto
    then have "lease_holds (ll_buckets (foldl (take_lease now pid h) ?l keys)) x"
      by (simp add: lease_holds_def x_def f(3))
    moreover have "lease_key y \<noteq> key" if "y \<in> set new" for y
      using that new(2) Cons.prems by (metis distinct.simps(2) imageI list.set_map)
    ultimately show ?case
      using new 1(1) by (intro exI [of _ "x # new"]) (auto simp: f x_def upt_conv_Cons)
  qed
qed simp

subsection \<open>The breaker as a system, with the tokens it issued\<close>

datatype breaker_event =
    Trip int string "deadline option" "string option" "nat option"
  | Probe string "string option" int "nat option"
  | Complete "probe_token option" probe_outcome
  | Clear "string option"

definition breaker_step :: "breaker \<times> probe_token list \<Rightarrow> breaker_event \<Rightarrow> breaker \<times> probe_token list" where
  "breaker_step st ev = (case ev of
     Trip now p reset model reporter \<Rightarrow>
       (fst (applyProviderOverloadCooldown now p reset model reporter (fst st)), snd st)
   | Probe p model now h \<Rightarrow>
       (case tryAcquireProviderOverloadProbe p model now h (fst st) of
          (s', Admitted (Some t)) \<Rightarrow> (s', t # snd st)
        | (s', _) \<Rightarrow> (s', snd st))
   | Complete t outcome \<Rightarrow> (completeProviderOverloadProbe t outcome (fst st), snd st)
   | Clear p \<Rightarrow> (clearProviderOverloadCooldown p (fst st), snd st))"

definition no_breaker :: breaker where
  "no_breaker = \<lparr>buckets = [], generationCounter = 0, leaseIdCounter = 0, probeIdCounter = 0, cancelled = []\<rparr>"

definition lease_ids :: "probe_token list \<Rightarrow> nat list" where
  "lease_ids ts = concat (map (\<lambda>t. map lease_leaseId (token_leases t)) ts)"

definition breaker_inv :: "breaker \<times> probe_token list \<Rightarrow> bool" where
  "breaker_inv st \<longleftrightarrow> jm_wf (buckets (fst st)) \<and> distinct (lease_ids (snd st))
     \<and> (\<forall>i \<in> set (lease_ids (snd st)). i \<le> leaseIdCounter (fst st))
     \<and> (\<forall>k b. jm_get (buckets (fst st)) k = Some b \<longrightarrow> bucket_generation b \<le> generationCounter (fst st))
     \<and> (\<forall>t \<in> set (snd st). \<forall>l \<in> set (token_leases t). lease_generation l \<le> generationCounter (fst st))"

lemma lease_ids_Cons [simp]: "lease_ids (t # ts) = map lease_leaseId (token_leases t) @ lease_ids ts"
  by (simp add: lease_ids_def)

text \<open>A token holds a bucket while one of its leases would act on it.\<close>

definition token_holds :: "breaker \<Rightarrow> probe_token \<Rightarrow> string \<Rightarrow> bool" where
  "token_holds s t k \<longleftrightarrow> (\<exists>l \<in> set (token_leases t). lease_key l = k \<and> lease_holds (buckets s) l)"

lemma acquire_admitted:
  assumes "tryAcquireProviderOverloadProbe p model now h s = (s', Admitted (Some t))" and "jm_wf (buckets s)"
  shows "jm_wf (buckets s')" "generationCounter s' = generationCounter s"
    "leaseIdCounter s \<le> leaseIdCounter s'"
    "map lease_key (token_leases t) = filter (jm_has (buckets s)) (relevantKeys s p model)"
    "map lease_leaseId (token_leases t) = [leaseIdCounter s + 1 ..< leaseIdCounter s' + 1]"
    "\<forall>l \<in> set (token_leases t). lease_holds (buckets s') l"
    "\<forall>l \<in> set (token_leases t). \<exists>b. jm_get (buckets s) (lease_key l) = Some b \<and> lease_generation l = bucket_generation b"
    "map_option bucket_generation (jm_get (buckets s') k) = map_option bucket_generation (jm_get (buckets s) k)"
    "map_option bucket_until (jm_get (buckets s') k) = map_option bucket_until (jm_get (buckets s) k)"
    "k \<in> set (relevantKeys s p model) \<Longrightarrow> jm_get (buckets s) k = Some b \<Longrightarrow>
      \<exists>pr. jm_get (buckets s') k = Some (b\<lparr>bucket_probe := Some pr\<rparr>) \<and> probe_acquiredAt pr = now
        \<and> probe_admissionTtlMs pr = PROBE_ADMISSION_TTL_MS \<and> probe_probeId pr = token_probeId t"
proof -
  define keys where "keys = filter (jm_has (buckets s)) (relevantKeys s p model)"
  define l0 where "l0 = \<lparr>ll_buckets = buckets s, ll_counter = leaseIdCounter s, ll_leases = [], ll_cancel = []\<rparr>"
  define l where "l = foldl (take_lease now (probeIdCounter s + 1) h) l0 keys"
  have t: "t = \<lparr>token_probeId = probeIdCounter s + 1, token_acquiredAt = now, token_leases = ll_leases l\<rparr>"
    and s': "buckets s' = ll_buckets l" "leaseIdCounter s' = ll_counter l" "generationCounter s' = generationCounter s"
    using assms(1)
    by (auto simp: tryAcquireProviderOverloadProbe_def Let_def keys_def [symmetric] l0_def [symmetric]
        l_def split: if_splits)
  have ok: "all_present l0 keys"
    using relevant_distinct [OF assms(2)] by (auto simp: keys_def l0_def jm_has_def)
  note new = lease_loop_new [OF ok, of now "probeIdCounter s + 1" h, folded l_def]
  have c: "ll_counter l = leaseIdCounter s + length keys"
    using lease_loop_counter [OF ok, of now "probeIdCounter s + 1" h] by (simp add: l_def l0_def)
  show "jm_wf (buckets s')" unfolding s' l_def by (rule lease_loop_wf [OF ok]) (simp add: l0_def assms(2))
  show "generationCounter s' = generationCounter s" by (rule s')
  show "leaseIdCounter s \<le> leaseIdCounter s'" by (simp add: s' c)
  from new show "map lease_key (token_leases t) = filter (jm_has (buckets s)) (relevantKeys s p model)"
    "map lease_leaseId (token_leases t) = [leaseIdCounter s + 1 ..< leaseIdCounter s' + 1]"
    "\<forall>l \<in> set (token_leases t). lease_holds (buckets s') l"
    "\<forall>l \<in> set (token_leases t). \<exists>b. jm_get (buckets s) (lease_key l) = Some b \<and> lease_generation l = bucket_generation b"
    by (auto simp: t s' c l0_def keys_def)
  have taken: "\<exists>i. jm_get (buckets s') k = Some (b\<lparr>bucket_probe := Some
       \<lparr>probe_leaseId = i, probe_acquiredAt = now, probe_ttlMs = getProbeLeaseSafetyTtlMs,
        probe_admissionTtlMs = PROBE_ADMISSION_TTL_MS, probe_probeId = probeIdCounter s + 1, probe_onDisplaced = h\<rparr>\<rparr>)"
    if "k \<in> set keys" "jm_get (buckets s) k = Some b" for k b
    unfolding s' l_def using lease_loop_taken [OF ok that(1)] that(2) by (simp add: l0_def)
  have other: "jm_get (buckets s') k = jm_get (buckets s) k" if "k \<notin> set keys" for k
    unfolding s' l_def using lease_loop_other [OF ok that] by (simp add: l0_def)
  have present: "jm_get (buckets s) k \<noteq> None" if "k \<in> set keys" for k using that by (simp add: keys_def jm_has_def)
  show "map_option bucket_generation (jm_get (buckets s') k) = map_option bucket_generation (jm_get (buckets s) k)"
    "map_option bucket_until (jm_get (buckets s') k) = map_option bucket_until (jm_get (buckets s) k)"
    using taken [of k] other [of k] present [of k] by (cases "k \<in> set keys"; fastforce)+
  show "k \<in> set (relevantKeys s p model) \<Longrightarrow> jm_get (buckets s) k = Some b \<Longrightarrow>
      \<exists>pr. jm_get (buckets s') k = Some (b\<lparr>bucket_probe := Some pr\<rparr>) \<and> probe_acquiredAt pr = now
        \<and> probe_admissionTtlMs pr = PROBE_ADMISSION_TTL_MS \<and> probe_probeId pr = token_probeId t"
    using taken [of k b] by (fastforce simp: keys_def jm_has_def t)
qed

lemma settle_get:
  "jm_get (foldl (settle_lease outcome) bs ls) k = Some b \<Longrightarrow>
    \<exists>b0. jm_get bs k = Some b0 \<and> bucket_generation b = bucket_generation b0 \<and> bucket_until b = bucket_until b0"
proof (induction ls arbitrary: bs)
  case (Cons l ls)
  obtain b1 where b1: "jm_get (settle_lease outcome bs l) k = Some b1" "bucket_generation b = bucket_generation b1"
    "bucket_until b = bucket_until b1" using Cons by auto
  then show ?case by (auto simp: settle_lease_def split: if_splits option.splits)
qed simp

lemma settle_wf: "jm_wf bs \<Longrightarrow> jm_wf (foldl (settle_lease outcome) bs ls)"
  by (induction ls arbitrary: bs) (auto simp: settle_lease_def jm_wf_intros split: option.split)

lemma breaker_step_inv: "breaker_inv st \<Longrightarrow> breaker_inv (breaker_step st ev)"
proof -
  assume inv: "breaker_inv st"
  then have wf: "jm_wf (buckets (fst st))" by (simp add: breaker_inv_def)
  show ?thesis
  proof (cases ev)
    case (Trip now p reset model reporter)
    obtain s' u where e: "applyProviderOverloadCooldown now p reset model reporter (fst st) = (s', u)" by fastforce
    from inv trip_facts(1-3) [OF e] show ?thesis
      by (fastforce simp: Trip breaker_step_def e breaker_inv_def jm_wf_set)
  next
    case (Probe p model now h)
    obtain s' r where e: "tryAcquireProviderOverloadProbe p model now h (fst st) = (s', r)" by fastforce
    show ?thesis
    proof (cases "\<exists>t. r = Admitted (Some t)")
      case True
      then obtain t where r: "r = Admitted (Some t)" ..
      note f = acquire_admitted [OF e [unfolded r] wf]
      have gen: "bucket_generation b \<le> generationCounter s'" if "jm_get (buckets s') k = Some b" for k b
        using f(8) [of k] f(2) inv that by (cases "jm_get (buckets (fst st)) k") (auto simp: breaker_inv_def)
      have "lease_generation l \<le> generationCounter s'" if "l \<in> set (token_leases t)" for l
        using f(7) f(2) inv that by (fastforce simp: breaker_inv_def)
      moreover have "\<forall>i \<in> set (lease_ids (snd st)). i < leaseIdCounter (fst st) + 1"
        using inv by (simp add: breaker_inv_def less_Suc_eq_le)
      then have "distinct (lease_ids (t # snd st))" "\<forall>i \<in> set (lease_ids (t # snd st)). i \<le> leaseIdCounter s'"
        unfolding lease_ids_Cons f(5) distinct_append using inv f(3) by (auto simp: breaker_inv_def)
      ultimately show ?thesis
        using inv f(1,2) gen by (simp add: Probe breaker_step_def e r breaker_inv_def del: lease_ids_Cons)
    next
      case False
      with e have "s' = fst st" "\<nexists>t. r = Admitted (Some t)"
        by (auto simp: tryAcquireProviderOverloadProbe_def Let_def split: if_splits)
      with inv show ?thesis
        by (cases r) (auto simp: Probe breaker_step_def e split: option.split)
    qed
  next
    case (Complete t outcome)
    with inv show ?thesis
      by (auto simp: breaker_step_def completeProviderOverloadProbe_def breaker_inv_def settle_wf
          split: option.split dest!: settle_get)
  next
    case (Clear p)
    with inv wf show ?thesis
      by (auto simp: breaker_step_def clearProviderOverloadCooldown_def breaker_inv_def jm_wf_filter
          jm_get_filter [OF wf] split: option.splits if_splits)
  qed
qed

interpretation breaker: invariant_system breaker_step breaker_inv
  by unfold_locales (rule breaker_step_inv)

lemma no_breaker_inv: "breaker_inv (no_breaker, [])"
  by (simp add: breaker_inv_def no_breaker_def lease_ids_def)

lemma lease_holds_cong: "jm_get bs (lease_key l) = jm_get bs' (lease_key l) \<Longrightarrow> lease_holds bs l = lease_holds bs' l"
  by (simp add: lease_holds_def)

lemma settle_stale:
  assumes "\<forall>l \<in> set ls. lease_key l = k \<longrightarrow> \<not> lease_holds bs l"
  shows "jm_get (foldl (settle_lease outcome) bs ls) k = jm_get bs k"
  using assms
proof (induction ls arbitrary: bs)
  case (Cons l ls)
  have same: "jm_get (settle_lease outcome bs l) k = jm_get bs k"
    using Cons.prems by (auto simp: settle_lease_def split: option.split)
  then have "\<forall>x \<in> set ls. lease_key x = k \<longrightarrow> \<not> lease_holds (settle_lease outcome bs l) x"
    using Cons.prems lease_holds_cong [of "settle_lease outcome bs l" _ bs] by auto
  from Cons.IH [OF this] same show ?case by simp
qed simp

lemma inspect_closed:
  assumes "\<And>k. k \<in> set (relevantKeys s p model) \<Longrightarrow> jm_get (buckets s) k = None"
  shows "inspectProviderOverload p model now s = \<lparr>status_state = Closed, status_until = None, status_probeActive = False\<rparr>"
proof -
  have "foldl (bump_until s now) None (relevantKeys s p model) = None" using assms by (simp add: bump_None)
  moreover have "relevant_buckets s p model = []"
    using assms by (simp add: relevant_buckets_def map_filter_def filter_empty_conv)
  ultimately show ?thesis by (simp add: inspectProviderOverload_def Let_def)
qed

lemma settle_recovered_gone:
  assumes "l \<in> set ls" and "lease_key l = k" and "lease_holds bs l"
  shows "jm_get (foldl (settle_lease Recovered) bs ls) k = None"
  using assms
proof (induction ls arbitrary: bs)
  case (Cons x ls)
  have none: "jm_get (foldl (settle_lease Recovered) bs' ls) k = None" if "jm_get bs' k = None" for bs'
    using settle_get [of Recovered bs' ls k] that by fastforce
  show ?case
  proof (cases "lease_key x = k \<and> lease_holds bs x")
    case True
    then have "settle_lease Recovered bs x = jm_delete bs k" by (simp add: settle_lease_def)
    then show ?thesis by (simp add: none)
  next
    case False
    then have "jm_get (settle_lease Recovered bs x) k = jm_get bs k"
      by (auto simp: settle_lease_def split: option.split)
    then have "lease_holds (settle_lease Recovered bs x) l"
      using Cons.prems lease_holds_cong [of "settle_lease Recovered bs x" l bs] by simp
    with Cons False show ?thesis by auto
  qed
qed simp

text \<open>Every bucket under \<open>k\<close> was tripped after generation \<open>G\<close>, and every later one will be.\<close>

definition newer_than :: "nat \<Rightarrow> string \<Rightarrow> breaker \<times> probe_token list \<Rightarrow> bool" where
  "newer_than G k st \<longleftrightarrow> jm_wf (buckets (fst st)) \<and> G < generationCounter (fst st)
     \<and> (\<forall>b. jm_get (buckets (fst st)) k = Some b \<longrightarrow> G < bucket_generation b)"

lemma newer_than_step: "newer_than G k st \<Longrightarrow> newer_than G k (breaker_step st ev)"
proof -
  assume n: "newer_than G k st"
  then have wf: "jm_wf (buckets (fst st))" by (simp add: newer_than_def)
  show ?thesis
  proof (cases ev)
    case (Trip now p reset model reporter)
    obtain s' u where e: "applyProviderOverloadCooldown now p reset model reporter (fst st) = (s', u)" by fastforce
    from n trip_facts(1,2) [OF e] show ?thesis
      by (auto simp: Trip breaker_step_def e newer_than_def jm_wf_set)
  next
    case (Probe p model now h)
    obtain s' r where e: "tryAcquireProviderOverloadProbe p model now h (fst st) = (s', r)" by fastforce
    show ?thesis
    proof (cases "\<exists>t. r = Admitted (Some t)")
      case True
      then obtain t where r: "r = Admitted (Some t)" ..
      note f = acquire_admitted [OF e [unfolded r] wf]
      have "G < bucket_generation b" if "jm_get (buckets s') k = Some b" for b
        using f(8) [of k] n that by (cases "jm_get (buckets (fst st)) k") (auto simp: newer_than_def)
      with f(1,2) n show ?thesis by (simp add: Probe breaker_step_def e r newer_than_def)
    next
      case False
      with e have "s' = fst st"
        by (auto simp: tryAcquireProviderOverloadProbe_def Let_def split: if_splits)
      with n False show ?thesis
        by (cases r) (auto simp: Probe breaker_step_def e split: option.split)
    qed
  next
    case (Complete t outcome)
    with n show ?thesis
      by (auto simp: breaker_step_def completeProviderOverloadProbe_def newer_than_def settle_wf
          split: option.split dest!: settle_get)
  next
    case (Clear p)
    with n show ?thesis
      by (auto simp: breaker_step_def clearProviderOverloadCooldown_def newer_than_def jm_wf_filter
          jm_get_filter [OF wf] split: option.splits if_splits)
  qed
qed

interpretation breaker_newer: invariant_system breaker_step "newer_than G k" for G k
  by unfold_locales (rule newer_than_step)

subsection \<open>Properties\<close>

text \<open>
  An incident confined to one model family gates only that family: tripping the breaker for a
  model of one family changes neither the deadline nor the state that a request for a model of
  another family of the same provider sees.
\<close>

lemma overload_family_isolation:
  assumes "family_of model = Some f" and "family_of other = Some g" and "f \<noteq> g"
  shows "getProviderOverloadUntil p t other (fst (applyProviderOverloadCooldown now p reset model reporter s)) =
      getProviderOverloadUntil p t other s
    \<and> inspectProviderOverload p other t (fst (applyProviderOverloadCooldown now p reset model reporter s)) =
      inspectProviderOverload p other t s"
proof -
  obtain s' u where e: "applyProviderOverloadCooldown now p reset model reporter s = (s', u)" by fastforce
  have keys: "relevantKeys r p other = [family_key (getProviderOverloadKey p) g, getProviderOverloadKey p]" for r
    by (simp add: relevantKeys_eq assms(2))
  have same: "jm_get (buckets s') k = jm_get (buckets s) k" if "k \<in> set (relevantKeys s p other)" for k
    using that assms(1,3) by (auto simp: trip_facts(1) [OF e] bucketKey_eq keys)
  then have "bump_until s' t mx k = bump_until s t mx k" if "k \<in> set (relevantKeys s p other)" for mx k
    using that by (simp add: bump_until_def)
  then have "foldl (bump_until s' t) None (relevantKeys s' p other) = foldl (bump_until s t) None (relevantKeys s p other)"
    by (simp add: keys)
  moreover have "relevant_buckets s' p other = relevant_buckets s p other"
    using same by (simp add: relevant_buckets_def keys map_filter_def)
  ultimately show ?thesis
    by (simp add: e getProviderOverloadUntil_def inspectProviderOverload_def)
qed

text \<open>
  A trip opens the breaker until a deadline in the future that is at least the one it had,
  and at most five minutes away unless the one it had was later; until then every request for the
  model is refused as open.
\<close>

lemma overload_trip_deadline:
  assumes "applyProviderOverloadCooldown now p reset model reporter s = (s', u)"
  shows "now < u \<and> (case jm_get (buckets s) (bucketKey p model) of
        None \<Rightarrow> u \<le> now + MAX_PROVIDER_OVERLOAD_COOLDOWN_MS
      | Some b \<Rightarrow> bucket_until b \<le> u \<and> u \<le> max (bucket_until b) (now + MAX_PROVIDER_OVERLOAD_COOLDOWN_MS))
    \<and> (\<forall>t < u. \<exists>v \<ge> u. tryAcquireProviderOverloadProbe p model t h s' = (s', Refused Refused_open (Some v)))"
proof -
  note f = trip_facts [OF assms]
  have "\<exists>v \<ge> u. getProviderOverloadUntil p t model s' = Some v" if lt: "t < u" for t
  proof -
    have get: "jm_get (buckets s') (bucketKey p model) =
        Some \<lparr>bucket_until = u, bucket_generation = generationCounter s + 1, bucket_probe = None\<rparr>"
      by (simp add: f(1))
    then have rel: "bucketKey p model \<in> set (relevantKeys s' p model)"
      by (intro bucketKey_relevant) (simp add: jm_has_def)
    have "getProviderOverloadUntil p t model s' \<noteq> None"
      unfolding getProviderOverloadUntil_def bump_None using get rel lt by fastforce
    then obtain v where v: "getProviderOverloadUntil p t model s' = Some v" by blast
    with bump_Some(3) [OF v [unfolded getProviderOverloadUntil_def] rel get] lt show ?thesis by auto
  qed
  then have "\<forall>t < u. \<exists>v \<ge> u. tryAcquireProviderOverloadProbe p model t h s' = (s', Refused Refused_open (Some v))"
    by (fastforce simp: tryAcquireProviderOverloadProbe_def)
  then show ?thesis
    using normalizeUntil_bounds [where now = now and c = reset] by (auto simp: f(4) split: option.split)
qed


lemma one_holder:
  assumes "foldl breaker_step (no_breaker, []) evs = (s, ts)" and "t1 \<in> set ts" and "t2 \<in> set ts"
    and "token_holds s t1 k" and "token_holds s t2 k"
  shows "t1 = t2"
proof -
  have inv: "breaker_inv (s, ts)" using breaker.run_inv [OF no_breaker_inv, of evs] assms(1) by simp
  from assms(4,5) obtain i where "i \<in> lease_leaseId ` set (token_leases t1)" "i \<in> lease_leaseId ` set (token_leases t2)"
    by (fastforce simp: token_holds_def lease_holds_def split: option.splits)
  moreover have "distinct (lease_ids ts)" using inv by (simp add: breaker_inv_def)
  ultimately show ?thesis using assms(2,3)
  proof (induction ts)
    case (Cons t ts)
    from Cons.prems(3) have disj: "lease_leaseId ` set (token_leases t) \<inter> set (lease_ids ts) = {}"
      and d: "distinct (lease_ids ts)" by (auto simp: lease_ids_def)
    have "lease_leaseId ` set (token_leases x) \<subseteq> set (lease_ids ts)" if "x \<in> set ts" for x
      using that by (auto simp: lease_ids_def)
    with disj d Cons show ?case by (metis disjoint_iff set_ConsD subsetD)
  qed simp
qed

definition sample_events :: "breaker_event list" where
  "sample_events = [Trip 0 ''codex'' None None None, Probe ''codex'' None 60000 (Some 7), Probe ''codex'' None 120000 (Some 8)]"

lemma sample_run:
  "length (snd (foldl breaker_step (no_breaker, []) sample_events)) = 2"
  "token_holds (fst (foldl breaker_step (no_breaker, []) sample_events))
     (hd (snd (foldl breaker_step (no_breaker, []) sample_events))) ''codex''"
  by code_simp+

text \<open>
  Tokens from before a trip are stale for good: a token issued before the breaker tripped
  holds the tripped bucket in no state reached afterwards, however the bucket was probed, cleared
  or tripped again, so completing it with any outcome leaves the bucket as it is.
\<close>

lemma overload_trip_invalidates_tokens:
  assumes "foldl breaker_step (no_breaker, []) evs = (s, ts)" and "t \<in> set ts"
    and "foldl breaker_step (s, ts) (Trip now p reset model reporter # later) = (s2, ts2)"
  shows "\<not> token_holds s2 t (bucketKey p model)
    \<and> jm_get (buckets (completeProviderOverloadProbe (Some t) outcome s2)) (bucketKey p model) =
        jm_get (buckets s2) (bucketKey p model)"
proof -
  have inv: "breaker_inv (s, ts)" using breaker.run_inv [OF no_breaker_inv, of evs] assms(1) by simp
  let ?k = "bucketKey p model" and ?G = "generationCounter s"
  obtain s' u where e: "applyProviderOverloadCooldown now p reset model reporter s = (s', u)" by fastforce
  have "newer_than ?G ?k (s', ts)"
    using inv trip_facts(1,2) [OF e] by (simp add: newer_than_def breaker_inv_def jm_wf_set)
  from breaker_newer.run_inv [OF this, of later] have "newer_than ?G ?k (s2, ts2)"
    using assms(3) by (simp add: breaker_step_def e)
  moreover have "\<forall>l \<in> set (token_leases t). lease_generation l \<le> ?G"
    using inv assms(2) by (simp add: breaker_inv_def)
  ultimately have stale: "\<forall>l \<in> set (token_leases t). lease_key l = ?k \<longrightarrow> \<not> lease_holds (buckets s2) l"
    by (fastforce simp: newer_than_def lease_holds_def split: option.splits)
  then show ?thesis
    by (auto simp: token_holds_def completeProviderOverloadProbe_def settle_stale [OF stale])
qed

text \<open>
  While a probe is out, no second one starts: after an admission, every request gated by one of
  the buckets it leased is refused for the whole admission time, unless the probe completes or the
  breaker changes.
\<close>

lemma overload_probe_excludes_others:
  assumes "tryAcquireProviderOverloadProbe p model now h s = (s', Admitted (Some t))" and "jm_wf (buckets s)"
    and "l \<in> set (token_leases t)" and "lease_key l \<in> set (relevantKeys s' p2 model2)"
    and "later < now + PROBE_ADMISSION_TTL_MS"
  shows "\<exists>r u. tryAcquireProviderOverloadProbe p2 model2 later h2 s' = (s', Refused r u)"
proof -
  note f = acquire_admitted [OF assms(1,2)]
  have "lease_key l \<in> set (map lease_key (token_leases t))" using assms(3) by simp
  then have "lease_key l \<in> set (relevantKeys s p model)" "jm_has (buckets s) (lease_key l)"
    unfolding f(4) by simp_all
  then obtain b pr where b: "jm_get (buckets s') (lease_key l) = Some (b\<lparr>bucket_probe := Some pr\<rparr>)"
    "probe_acquiredAt pr = now" "probe_admissionTtlMs pr = PROBE_ADMISSION_TTL_MS"
    using f(10) by (fastforce simp: jm_has_def)
  then have "b\<lparr>bucket_probe := Some pr\<rparr> \<in> set (relevant_buckets s' p2 model2)"
    "isLeaseBlockingAdmission (b\<lparr>bucket_probe := Some pr\<rparr>) later"
    using assms(4,5) by (auto simp: relevant_buckets_iff isLeaseBlockingAdmission_def)
  then show ?thesis by (auto simp: tryAcquireProviderOverloadProbe_def Let_def)
qed

text \<open>
  C24. Single flight: whatever sequence of trips, probes, completions and clears happened, at most
  one of the tokens issued so far holds a given bucket; and when a probe is admitted then, every
  request gated by one of the buckets it leased is refused for the whole admission time, unless the
  probe completes or the breaker changes.
\<close>

theorem overload_single_flight:
  assumes "foldl breaker_step (no_breaker, []) evs = (s, ts)"
  shows "(\<forall>t1 \<in> set ts. \<forall>t2 \<in> set ts. \<forall>k. token_holds s t1 k \<and> token_holds s t2 k \<longrightarrow> t1 = t2)
    \<and> (\<forall>p model now h s' t l p2 model2 later h2.
        tryAcquireProviderOverloadProbe p model now h s = (s', Admitted (Some t)) \<and> l \<in> set (token_leases t)
        \<and> lease_key l \<in> set (relevantKeys s' p2 model2) \<and> later < now + PROBE_ADMISSION_TTL_MS \<longrightarrow>
        (\<exists>r u. tryAcquireProviderOverloadProbe p2 model2 later h2 s' = (s', Refused r u)))"
proof (intro conjI ballI allI impI)
  fix t1 t2 k assume "t1 \<in> set ts" "t2 \<in> set ts" "token_holds s t1 k \<and> token_holds s t2 k"
  then show "t1 = t2" using one_holder [OF assms] by blast
next
  fix p model now h s' t l p2 model2 later h2
  assume a: "tryAcquireProviderOverloadProbe p model now h s = (s', Admitted (Some t)) \<and> l \<in> set (token_leases t)
    \<and> lease_key l \<in> set (relevantKeys s' p2 model2) \<and> later < now + PROBE_ADMISSION_TTL_MS"
  have "jm_wf (buckets s)" using breaker.run_inv [OF no_breaker_inv, of evs] assms by (simp add: breaker_inv_def)
  with a show "\<exists>r u. tryAcquireProviderOverloadProbe p2 model2 later h2 s' = (s', Refused r u)"
    using overload_probe_excludes_others by blast
qed

definition admitted_token :: "breaker \<times> probe_admission \<Rightarrow> probe_token option" where
  "admitted_token r = (case snd r of Admitted t \<Rightarrow> t | _ \<Rightarrow> None)"

lemma sample_third_probe:
  "admitted_token (tryAcquireProviderOverloadProbe ''codex'' None 180000 None
     (fst (foldl breaker_step (no_breaker, []) sample_events))) \<noteq> None"
  "map lease_key (token_leases (the (admitted_token (tryAcquireProviderOverloadProbe ''codex'' None 180000 None
     (fst (foldl breaker_step (no_breaker, []) sample_events)))))) = [''codex'']"
  "''codex'' \<in> set (relevantKeys (fst (tryAcquireProviderOverloadProbe ''codex'' None 180000 None
     (fst (foldl breaker_step (no_breaker, []) sample_events)))) ''codex'' None)"
  by code_simp+

theorem overload_single_flight_witness:
  "{t \<in> set (snd (foldl breaker_step (no_breaker, []) sample_events)).
      token_holds (fst (foldl breaker_step (no_breaker, []) sample_events)) t ''codex''} =
    {hd (snd (foldl breaker_step (no_breaker, []) sample_events))}
   \<and> (\<exists>s' t r u. tryAcquireProviderOverloadProbe ''codex'' None 180000 None
        (fst (foldl breaker_step (no_breaker, []) sample_events)) = (s', Admitted (Some t))
      \<and> tryAcquireProviderOverloadProbe ''codex'' None 180001 None s' = (s', Refused r u))"
proof -
  obtain s ts where e: "foldl breaker_step (no_breaker, []) sample_events = (s, ts)" by fastforce
  have "hd ts \<in> set ts" "token_holds s (hd ts) ''codex''"
    using sample_run by (auto simp: e intro!: hd_in_set)
  moreover obtain s' t where a: "tryAcquireProviderOverloadProbe ''codex'' None 180000 None s = (s', Admitted (Some t))"
    using sample_third_probe(1) by (cases "tryAcquireProviderOverloadProbe ''codex'' None 180000 None s")
      (auto simp: e admitted_token_def split: probe_admission.splits)
  moreover obtain l where "l \<in> set (token_leases t)" "lease_key l = ''codex''"
    using sample_third_probe(2) by (cases "token_leases t") (simp_all add: e a admitted_token_def)
  moreover have "''codex'' \<in> set (relevantKeys s' ''codex'' None)" using sample_third_probe(3) by (simp add: e a)
  moreover have "180001 < 180000 + PROBE_ADMISSION_TTL_MS"
    by (simp add: PROBE_ADMISSION_TTL_MS_def DEFAULT_PROVIDER_OVERLOAD_COOLDOWN_MS_def)
  ultimately have "\<exists>r u. tryAcquireProviderOverloadProbe ''codex'' None 180001 None s' = (s', Refused r u)"
    using overload_single_flight [OF e] by metis
  then show ?thesis using overload_single_flight [OF e] a \<open>hd ts \<in> set ts\<close> \<open>token_holds s (hd ts) ''codex''\<close>
    by (auto simp: e)
qed

text \<open>
  A half-open bucket never wedges: when no relevant bucket is open and no lease on one is
  younger than the admission time, a probe is admitted and holds every relevant bucket, and if it
  then reports recovery the breaker is closed for the request's provider and model.
\<close>

lemma overload_probe_progress:
  assumes "jm_wf (buckets s)"
    and "\<And>k b. k \<in> set (relevantKeys s p model) \<Longrightarrow> jm_get (buckets s) k = Some b \<Longrightarrow>
      bucket_until b \<le> now \<and> (\<forall>pr. bucket_probe b = Some pr \<longrightarrow> probe_acquiredAt pr + probe_admissionTtlMs pr \<le> now)"
    and "k0 \<in> set (relevantKeys s p model)" and "jm_has (buckets s) k0" and "family_of model \<noteq> None"
  shows "\<exists>s' t. tryAcquireProviderOverloadProbe p model now h s = (s', Admitted (Some t))
    \<and> (\<forall>k \<in> set (relevantKeys s p model). jm_has (buckets s) k \<longrightarrow> token_holds s' t k)
    \<and> inspectProviderOverload p model now (completeProviderOverloadProbe (Some t) Recovered s') =
        \<lparr>status_state = Closed, status_until = None, status_probeActive = False\<rparr>"
proof -
  have "getProviderOverloadUntil p now model s = None"
    unfolding getProviderOverloadUntil_def bump_None using assms(2) by blast
  moreover have "\<not> (\<exists>b \<in> set (relevant_buckets s p model). isLeaseBlockingAdmission b now)"
    using assms(2) by (fastforce simp: relevant_buckets_iff isLeaseBlockingAdmission_def split: option.splits)
  moreover have "filter (jm_has (buckets s)) (relevantKeys s p model) \<noteq> []"
    using assms(3,4) by (auto simp: filter_empty_conv)
  ultimately obtain s' t where adm: "tryAcquireProviderOverloadProbe p model now h s = (s', Admitted (Some t))"
    by (simp add: tryAcquireProviderOverloadProbe_def Let_def)
  note f = acquire_admitted [OF adm assms(1)]
  have holds: "token_holds s' t k" if "k \<in> set (relevantKeys s p model)" "jm_has (buckets s) k" for k
  proof -
    have "k \<in> set (map lease_key (token_leases t))" unfolding f(4) using that by simp
    with f(6) show ?thesis by (auto simp: token_holds_def)
  qed
  let ?bs = "foldl (settle_lease Recovered) (buckets s') (token_leases t)"
  have gone: "jm_get ?bs k = None" if "k \<in> set (relevantKeys s p model)" for k
  proof (cases "jm_has (buckets s) k")
    case True
    with holds [OF that] show ?thesis by (auto simp: token_holds_def settle_recovered_gone)
  next
    case False
    then have "jm_get (buckets s') k = None" using f(8) [of k] by (simp add: jm_has_def)
    then show ?thesis using settle_get [of Recovered "buckets s'" "token_leases t" k] by fastforce
  qed
  have "relevantKeys (completeProviderOverloadProbe (Some t) Recovered s') p model = relevantKeys s p model"
    using assms(5) by (auto simp: relevantKeys_eq)
  with gone have "inspectProviderOverload p model now (completeProviderOverloadProbe (Some t) Recovered s') =
        \<lparr>status_state = Closed, status_until = None, status_probeActive = False\<rparr>"
    by (intro inspect_closed) (simp add: completeProviderOverloadProbe_def del: foldl.simps)
  with adm holds show ?thesis by blast
qed

text \<open>A breaker with one half-open family bucket, for the instances below.\<close>

definition sample_breaker :: breaker where
  "sample_breaker = no_breaker\<lparr>buckets := [(''anthropic-upstream:opus'',
     \<lparr>bucket_until = 100, bucket_generation = 1, bucket_probe = None\<rparr>)], generationCounter := 1\<rparr>"

lemma sample_opus: "family_of (Some ''claude-opus-4'') = Some Opus"
  by (simp add: family_of_def getModelFamily_def KNOWN_PATTERNS_def to_lower_def lower_char_def Let_def)

lemma sample_relevant:
  "relevantKeys s ANTHROPIC (Some ''claude-opus-4'') = [''anthropic-upstream:opus'', ''anthropic-upstream'']"
  by (simp add: relevantKeys_eq sample_opus family_key_def getProviderOverloadKey_def
      isOfficialAnthropicProvider_def ANTHROPIC_UPSTREAM_OVERLOAD_KEY_def)

end
