(* ===== verification/ProbeGate.thy ===== *)
theory ProbeGate
  imports Accounts
begin

section \<open>The recovery-probe gate of rate-limited accounts\<close>

text \<open>
  The process-local gate of \<^verbatim>\<open>proxy/src/handlers/rate-limit-cooldown.ts\<close>: one recovery probe at a
  time for an account that just became selectable again. Objects that the code compares by
  identity carry their identity: a lease the number of its creation, a reservation its generation.
  The field \<^verbatim>\<open>rolledBack\<close> a reservation object shares with every chain that links to it is the
  state's list of rolled-back generations. The custody table keyed by the request object is keyed
  by the number of the request. Log lines are left out.
  Shown: the pending marker of an account is the latest reservation not rolled back, in whatever
  order reservations are made and undone; the gate admits one probe per lease; the read-only
  predicate agrees with the gate; a probe that does not own the live lease settles nothing.
\<close>

definition MATURE_COOLDOWN_STREAK :: int where "MATURE_COOLDOWN_STREAK = 5"
definition PROBE_LEASE_MS :: int where "PROBE_LEASE_MS = 2 * 60 * 1000"
definition MAX_PROBE_GATES :: nat where "MAX_PROBE_GATES = 10000"

record rl_lease =
  rl_accountId :: string
  rl_leaseUntil :: int
  rl_capacityGeneration :: "nat option"
  rl_identity :: nat

datatype reservation = Reservation (res_accountId: string) (res_generation: nat)
  (res_previous: "reservation option") (res_cooldownUntil: "int option")

datatype gate_decision = Not_required | Suppressed | Probe_admitted rl_lease

datatype gate_outcome = Probe_recovered | Cooldown_reapplied | Probe_abandoned

record gate_state =
  probeLeases :: "(string, rl_lease) jsmap"
  leaseIdentity :: nat
  capacityRestoredPending :: "(string, reservation) jsmap"
  capacityGenerationCounter :: nat
  rolledBack :: "nat list"
  attemptLeases :: "(nat, (string, rl_lease) jsmap) jsmap"

subsection \<open>Reservations\<close>

function firstLiveReservation :: "nat list \<Rightarrow> reservation option \<Rightarrow> reservation option" where
  "firstLiveReservation rolled None = None"
| "firstLiveReservation rolled (Some r) =
     (if res_generation r \<in> set rolled then firstLiveReservation rolled (res_previous r) else Some r)"
  by pat_completeness auto
termination
proof (relation "measure (\<lambda>(rolled, r). size_option size r)")
  show "((rolled, res_previous r), (rolled, Some r)) \<in> measure (\<lambda>(rolled, r). size_option size r)" for rolled r
    by (cases r; cases "res_previous r") auto
qed simp

definition markCapacityRestoredProbePending ::
  "string \<Rightarrow> 'a gate_state_scheme \<Rightarrow> 'a gate_state_scheme \<times> reservation" where
  "markCapacityRestoredProbePending accountId s =
     (let generation = capacityGenerationCounter s + 1;
          r = Reservation accountId generation (jm_get (capacityRestoredPending s) accountId) None
      in (s\<lparr>capacityGenerationCounter := generation,
            capacityRestoredPending := jm_set (capacityRestoredPending s) accountId r\<rparr>, r))"

definition armBurstRecoveryProbe :: "string \<Rightarrow> int \<Rightarrow> 'a gate_state_scheme \<Rightarrow> 'a gate_state_scheme" where
  "armBurstRecoveryProbe accountId cooldownUntil s =
     (let generation = capacityGenerationCounter s + 1
      in s\<lparr>capacityGenerationCounter := generation,
           capacityRestoredPending := jm_set (capacityRestoredPending s) accountId
             (Reservation accountId generation None (Some cooldownUntil))\<rparr>)"

definition rollbackCapacityRestoredProbePending ::
  "reservation \<Rightarrow> 'a gate_state_scheme \<Rightarrow> 'a gate_state_scheme" where
  "rollbackCapacityRestoredProbePending r s =
     (let rolled = res_generation r # rolledBack s;
          accountId = res_accountId r;
          s1 = s\<lparr>rolledBack := rolled\<rparr>
      in if map_option res_generation (jm_get (capacityRestoredPending s) accountId) \<noteq> Some (res_generation r)
         then s1
         else case firstLiveReservation rolled (res_previous r) of
           None \<Rightarrow> s1\<lparr>capacityRestoredPending := jm_delete (capacityRestoredPending s) accountId\<rparr>
         | Some restored \<Rightarrow>
             s1\<lparr>capacityRestoredPending := jm_set (capacityRestoredPending s) accountId restored\<rparr>)"

definition clearCapacityRestoredProbePending :: "string \<Rightarrow> 'a gate_state_scheme \<Rightarrow> 'a gate_state_scheme" where
  "clearCapacityRestoredProbePending accountId s =
     s\<lparr>capacityRestoredPending := jm_delete (capacityRestoredPending s) accountId\<rparr>"

definition hasCapacityRestoredProbePending :: "string \<Rightarrow> 'a gate_state_scheme \<Rightarrow> bool" where
  "hasCapacityRestoredProbePending accountId s = jm_has (capacityRestoredPending s) accountId"

subsection \<open>Leases\<close>

fun evict_gates :: "(string, rl_lease) jsmap \<Rightarrow> (string, rl_lease) jsmap" where
  "evict_gates [] = []"
| "evict_gates (x # xs) = (if length (x # xs) \<ge> MAX_PROBE_GATES then evict_gates xs else x # xs)"

definition pruneProbeLeases :: "int \<Rightarrow> (string, rl_lease) jsmap \<Rightarrow> (string, rl_lease) jsmap" where
  "pruneProbeLeases now leases = evict_gates (filter (\<lambda>(_, l). \<not> rl_leaseUntil l \<le> now) leases)"

record gate_inspection =
  gatingRequired :: bool
  gi_capacityGeneration :: "nat option"
  coolingDown :: bool

definition inspectProbeGate :: "account \<Rightarrow> int \<Rightarrow> 'a gate_state_scheme \<Rightarrow> gate_inspection" where
  "inspectProbeGate a now s =
     (let expiredMatureCooldown = (consecutive_rate_limits a \<ge> MATURE_COOLDOWN_STREAK
            \<and> (case rate_limited_until a of None \<Rightarrow> False | Some u \<Rightarrow> u \<le> now));
          r = jm_get (capacityRestoredPending s) (acc_id a)
      in \<lparr>gatingRequired = (expiredMatureCooldown \<or> r \<noteq> None \<or>
            (rate_limited_reason a = Some Org_permission_denied \<and>
              (\<not> truthy (rate_limited_until a) \<or> the (rate_limited_until a) \<le> now))),
          gi_capacityGeneration = map_option res_generation r,
          coolingDown = ((case Option.bind r res_cooldownUntil of None \<Rightarrow> 0 | Some u \<Rightarrow> u) > now)\<rparr>)"

definition getRateLimitProbeAdmission ::
  "account \<Rightarrow> int \<Rightarrow> bool \<Rightarrow> 'a gate_state_scheme \<Rightarrow> 'a gate_state_scheme \<times> gate_decision" where
  "getRateLimitProbeAdmission a now reprobe s =
     (let i = inspectProbeGate a now s in
      if \<not> gatingRequired i then (s, Not_required)
      else if coolingDown i \<and> \<not> reprobe then (s, Suppressed)
      else let leases = pruneProbeLeases now (probeLeases s);
               s1 = s\<lparr>probeLeases := leases\<rparr>
           in if (case jm_get leases (acc_id a) of None \<Rightarrow> False | Some l \<Rightarrow> rl_leaseUntil l > now)
              then (s1, Suppressed)
              else let l = \<lparr>rl_accountId = acc_id a, rl_leaseUntil = now + PROBE_LEASE_MS,
                            rl_capacityGeneration = gi_capacityGeneration i,
                            rl_identity = leaseIdentity s + 1\<rparr>
                   in (s1\<lparr>probeLeases := jm_set leases (acc_id a) l, leaseIdentity := leaseIdentity s + 1\<rparr>,
                       Probe_admitted l))"

definition releaseProbeLease ::
  "string \<Rightarrow> gate_outcome \<Rightarrow> rl_lease \<Rightarrow> 'a gate_state_scheme \<Rightarrow> 'a gate_state_scheme" where
  "releaseProbeLease accountId outcome l s =
     (let s1 = s\<lparr>probeLeases := jm_delete (probeLeases s) accountId\<rparr>
      in if outcome = Probe_recovered \<and> rl_capacityGeneration l \<noteq> None \<and>
            map_option res_generation (jm_get (capacityRestoredPending s) accountId) = rl_capacityGeneration l
         then s1\<lparr>capacityRestoredPending := jm_delete (capacityRestoredPending s) accountId\<rparr>
         else s1)"

text \<open>The identity test \<^verbatim>\<open>probeLeases.get(account.id) === lease\<close>.\<close>

definition is_live_lease :: "string \<Rightarrow> rl_lease \<Rightarrow> 'a gate_state_scheme \<Rightarrow> bool" where
  "is_live_lease accountId l s \<longleftrightarrow> map_option rl_identity (jm_get (probeLeases s) accountId) = Some (rl_identity l)"

definition completeRateLimitProbe ::
  "string \<Rightarrow> gate_outcome \<Rightarrow> rl_lease option \<Rightarrow> 'a gate_state_scheme \<Rightarrow> 'a gate_state_scheme" where
  "completeRateLimitProbe accountId outcome lease s =
     (case lease of
        None \<Rightarrow> s
      | Some l \<Rightarrow> if \<not> is_live_lease accountId l s then s else releaseProbeLease accountId outcome l s)"

definition wouldSuppressProbe :: "account \<Rightarrow> int \<Rightarrow> 'a gate_state_scheme \<Rightarrow> bool" where
  "wouldSuppressProbe a now s =
     (let i = inspectProbeGate a now s in
      if \<not> gatingRequired i then False
      else if coolingDown i then True
      else case jm_get (probeLeases s) (acc_id a) of None \<Rightarrow> False | Some l \<Rightarrow> rl_leaseUntil l > now)"

subsection \<open>Custody of a lease during an attempt\<close>

definition holdRateLimitProbeLease :: "nat \<Rightarrow> rl_lease \<Rightarrow> 'a gate_state_scheme \<Rightarrow> 'a gate_state_scheme" where
  "holdRateLimitProbeLease scope l s =
     (let held = (case jm_get (attemptLeases s) scope of None \<Rightarrow> [] | Some h \<Rightarrow> h)
      in s\<lparr>attemptLeases := jm_set (attemptLeases s) scope (jm_set held (rl_accountId l) l)\<rparr>)"

definition findRateLimitProbeLease :: "nat option \<Rightarrow> string \<Rightarrow> 'a gate_state_scheme \<Rightarrow> rl_lease option" where
  "findRateLimitProbeLease scope accountId s =
     (case scope of None \<Rightarrow> None
      | Some sc \<Rightarrow> Option.bind (jm_get (attemptLeases s) sc) (\<lambda>held. jm_get held accountId))"

definition dropRateLimitProbeLease :: "nat \<Rightarrow> string \<Rightarrow> 'a gate_state_scheme \<Rightarrow> 'a gate_state_scheme" where
  "dropRateLimitProbeLease scope accountId s =
     (case jm_get (attemptLeases s) scope of
        None \<Rightarrow> s
      | Some held \<Rightarrow>
          (let held' = jm_delete held accountId
           in if held' = [] then s\<lparr>attemptLeases := jm_delete (attemptLeases s) scope\<rparr>
              else s\<lparr>attemptLeases := jm_set (attemptLeases s) scope held'\<rparr>))"

subsection \<open>The marker is the latest reservation that was not rolled back\<close>

datatype marker_event = Reserve string | Roll_back nat

text \<open>The gate with the reservations handed out so far, the newest first.\<close>

definition marker_step ::
  "gate_state \<times> reservation list \<Rightarrow> marker_event \<Rightarrow> gate_state \<times> reservation list" where
  "marker_step st ev = (case ev of
     Reserve a \<Rightarrow> (let (s', r) = markCapacityRestoredProbePending a (fst st) in (s', r # snd st))
   | Roll_back g \<Rightarrow> (case List.find (\<lambda>r. res_generation r = g) (snd st) of
       None \<Rightarrow> st
     | Some r \<Rightarrow> (rollbackCapacityRestoredProbePending r (fst st), snd st)))"

definition first_live :: "nat list \<Rightarrow> reservation list \<Rightarrow> reservation option" where
  "first_live rolled rs = List.find (\<lambda>r. res_generation r \<notin> set rolled) rs"

text \<open>
  Each reservation links past newer ones that were rolled back to the one whose slot it took.
\<close>

fun chain_ok :: "nat list \<Rightarrow> reservation list \<Rightarrow> bool" where
  "chain_ok rolled [] = True"
| "chain_ok rolled (r # rs) \<longleftrightarrow> chain_ok rolled rs \<and> (case res_previous r of
     None \<Rightarrow> \<forall>x \<in> set rs. res_generation x \<in> set rolled
   | Some p \<Rightarrow> \<exists>A B. rs = A @ p # B \<and> (\<forall>x \<in> set A. res_generation x \<in> set rolled))"

definition of_account :: "string \<Rightarrow> reservation list \<Rightarrow> reservation list" where
  "of_account a rs = filter (\<lambda>r. res_accountId r = a) rs"

definition marker_inv :: "gate_state \<times> reservation list \<Rightarrow> bool" where
  "marker_inv st \<longleftrightarrow> distinct (map res_generation (snd st))
     \<and> (\<forall>r \<in> set (snd st). res_generation r \<le> capacityGenerationCounter (fst st))
     \<and> (\<forall>g \<in> set (rolledBack (fst st)). g \<le> capacityGenerationCounter (fst st))
     \<and> (\<forall>a. chain_ok (rolledBack (fst st)) (of_account a (snd st))
        \<and> jm_get (capacityRestoredPending (fst st)) a = first_live (rolledBack (fst st)) (of_account a (snd st)))"

lemma of_account_simps [simp]:
  "of_account a [] = []"
  "of_account a (r # rs) = (if res_accountId r = a then r # of_account a rs else of_account a rs)"
  by (simp_all add: of_account_def)

lemma first_live_simps [simp]:
  "first_live rolled [] = None"
  "first_live rolled (r # rs) = (if res_generation r \<in> set rolled then first_live rolled rs else Some r)"
  by (simp_all add: first_live_def)

lemma first_live_append:
  "\<forall>x \<in> set A. res_generation x \<in> set rolled \<Longrightarrow> first_live rolled (A @ B) = first_live rolled B"
  by (induction A) auto

lemma chain_ok_suffix: "chain_ok rolled (A @ B) \<Longrightarrow> chain_ok rolled B"
  by (induction A) auto

lemma chain_ok_roll:
  assumes "chain_ok rolled rs"
  shows "chain_ok (g # rolled) rs"
  using assms
proof (induction rs)
  case (Cons r rs)
  show ?case
  proof (cases "res_previous r")
    case (Some p)
    with Cons obtain A B where "rs = A @ p # B" "\<forall>x \<in> set A. res_generation x \<in> set (g # rolled)" by auto
    with Cons Some show ?thesis by fastforce
  qed (use Cons in auto)
qed simp

text \<open>Unwinding along the links is the search through the older reservations.\<close>

lemma firstLive_chain:
  "chain_ok rolled (r # rs) \<Longrightarrow> firstLiveReservation rolled (res_previous r) = first_live rolled rs"
proof (induction "length rs" arbitrary: r rs rule: less_induct)
  case less
  show ?case
  proof (cases "res_previous r")
    case None
    with less.prems have "\<forall>x \<in> set rs. res_generation x \<in> set rolled" by simp
    with first_live_append [of rs rolled "[]"] None show ?thesis by simp
  next
    case (Some p)
    with less.prems obtain A B where ab: "rs = A @ p # B" "\<forall>x \<in> set A. res_generation x \<in> set rolled" by auto
    then have "chain_ok rolled (p # B)" using less.prems chain_ok_suffix [of rolled A "p # B"] by simp
    then have "firstLiveReservation rolled (res_previous p) = first_live rolled B"
      by (intro less.hyps) (simp_all add: ab(1))
    with Some ab first_live_append [OF ab(2), of "p # B"] show ?thesis by simp
  qed
qed

lemma first_live_split:
  assumes "first_live rolled rs = Some r"
  obtains A B where "rs = A @ r # B" "\<forall>x \<in> set A. res_generation x \<in> set rolled" "res_generation r \<notin> set rolled"
proof -
  obtain i where i: "i < length rs" "res_generation (rs ! i) \<notin> set rolled" "r = rs ! i"
    "\<forall>j < i. res_generation (rs ! j) \<in> set rolled"
    using assms by (auto simp: first_live_def find_Some_iff)
  show ?thesis
    by (rule that [of "take i rs" "drop (Suc i) rs"])
      (use i in \<open>auto simp: id_take_nth_drop [symmetric] in_set_conv_nth\<close>)
qed

lemma first_live_None: "first_live rolled rs = None \<longleftrightarrow> (\<forall>x \<in> set rs. res_generation x \<in> set rolled)"
  by (induction rs) auto

lemma reserve_inv:
  assumes "marker_inv (s, hist)" and "markCapacityRestoredProbePending a s = (s', r)"
  shows "marker_inv (s', r # hist)"
proof -
  let ?n = "capacityGenerationCounter s + 1" and ?slot = "jm_get (capacityRestoredPending s) a"
  have eqs: "r = Reservation a ?n ?slot None" "rolledBack s' = rolledBack s" "capacityGenerationCounter s' = ?n"
    "capacityRestoredPending s' = jm_set (capacityRestoredPending s) a r"
    using assms(2) by (auto simp: markCapacityRestoredProbePending_def Let_def)
  have old: "res_generation x < ?n" if "x \<in> set hist" for x using that assms(1) by (auto simp: marker_inv_def less_Suc_eq_le)
  have fresh: "?n \<notin> set (rolledBack s)" using assms(1) by (auto simp: marker_inv_def)
  have slot: "?slot = first_live (rolledBack s) (of_account a hist)" and ok: "chain_ok (rolledBack s) (of_account b hist)"
    and other: "jm_get (capacityRestoredPending s) b = first_live (rolledBack s) (of_account b hist)" for b
    using assms(1) by (simp_all add: marker_inv_def)
  have link: "case ?slot of None \<Rightarrow> \<forall>x \<in> set (of_account a hist). res_generation x \<in> set (rolledBack s)
      | Some p \<Rightarrow> \<exists>A B. of_account a hist = A @ p # B \<and> (\<forall>x \<in> set A. res_generation x \<in> set (rolledBack s))"
  proof (cases ?slot)
    case None
    then have "\<forall>x \<in> set (of_account a hist). res_generation x \<in> set (rolledBack s)"
      using slot first_live_None by metis
    then show ?thesis unfolding None by simp
  next
    case (Some p)
    then have "first_live (rolledBack s) (of_account a hist) = Some p" using slot by simp
    then show ?thesis unfolding Some by (rule first_live_split) auto
  qed
  have "chain_ok (rolledBack s') (of_account b (r # hist))
      \<and> jm_get (capacityRestoredPending s') b = first_live (rolledBack s') (of_account b (r # hist))" for b
    using ok [of b] other [of b] ok [of a] link fresh by (cases "b = a") (simp_all add: eqs)
  moreover have "distinct (map res_generation (r # hist))"
    using assms(1) old by (auto simp: marker_inv_def eqs(1))
  moreover have "\<forall>x \<in> set (r # hist). res_generation x \<le> capacityGenerationCounter s'"
    using old by (auto simp: eqs intro: less_imp_le)
  moreover have "\<forall>g \<in> set (rolledBack s'). g \<le> capacityGenerationCounter s'"
    using assms(1) by (auto simp: marker_inv_def eqs)
  ultimately show ?thesis by (simp add: marker_inv_def)
qed

lemma rollback_get:
  "jm_get (capacityRestoredPending (rollbackCapacityRestoredProbePending r s)) a =
    (if a = res_accountId r \<and> map_option res_generation (jm_get (capacityRestoredPending s) a) = Some (res_generation r)
     then firstLiveReservation (res_generation r # rolledBack s) (res_previous r)
     else jm_get (capacityRestoredPending s) a)"
  by (auto simp: rollbackCapacityRestoredProbePending_def Let_def split: option.split)

lemma rollback_inv:
  assumes "marker_inv (s, hist)" and "r \<in> set hist"
  shows "marker_inv (rollbackCapacityRestoredProbePending r s, hist)"
proof -
  let ?s = "rollbackCapacityRestoredProbePending r s" and ?R = "res_generation r # rolledBack s"
  have eqs: "rolledBack ?s = ?R" "capacityGenerationCounter ?s = capacityGenerationCounter s"
    by (auto simp: rollbackCapacityRestoredProbePending_def Let_def split: option.split)
  have slot: "jm_get (capacityRestoredPending s) b = first_live (rolledBack s) (of_account b hist)"
    and ok: "chain_ok (rolledBack s) (of_account b hist)" for b
    using assms(1) by (simp_all add: marker_inv_def)
  have unique: "x = r" if "x \<in> set hist" "res_generation x = res_generation r" for x
    using assms that by (auto simp: marker_inv_def distinct_map dest: inj_onD)
  have "jm_get (capacityRestoredPending ?s) b = first_live ?R (of_account b hist)" for b
  proof (cases "first_live (rolledBack s) (of_account b hist)")
    case None
    then have "first_live ?R (of_account b hist) = None" by (auto simp: first_live_None)
    with None slot [of b] show ?thesis by (simp add: rollback_get)
  next
    case (Some p)
    then obtain A B where ab: "of_account b hist = A @ p # B" "\<forall>x \<in> set A. res_generation x \<in> set (rolledBack s)"
      by (rule first_live_split)
    have p: "p \<in> set hist" "res_accountId p = b"
      using arg_cong [OF ab(1), of set] by (auto simp: of_account_def)
    have fl: "first_live ?R (of_account b hist) = first_live ?R (p # B)"
      unfolding ab(1) by (rule first_live_append) (use ab(2) in auto)
    show ?thesis
    proof (cases "res_generation p = res_generation r")
      case True
      then have "p = r" using unique p(1) by simp
      moreover have "chain_ok ?R (r # B)"
        using ok [of b] chain_ok_suffix [of "rolledBack s" A "p # B"] chain_ok_roll \<open>p = r\<close> unfolding ab(1) by blast
      ultimately show ?thesis using Some slot [of b] p(2) fl by (simp add: rollback_get firstLive_chain)
    next
      case False
      moreover have "res_generation p \<notin> set (rolledBack s)" using Some by (rule first_live_split) simp
      ultimately show ?thesis using Some slot [of b] fl by (simp add: rollback_get)
    qed
  qed
  then show ?thesis
    using assms ok chain_ok_roll by (auto simp: marker_inv_def eqs)
qed

lemma marker_step_inv: "marker_inv st \<Longrightarrow> marker_inv (marker_step st ev)"
proof (cases ev)
  case (Reserve a)
  assume inv: "marker_inv st"
  obtain s' r where e: "markCapacityRestoredProbePending a (fst st) = (s', r)" by fastforce
  with reserve_inv [OF _ e, of "snd st"] inv show ?thesis by (simp add: Reserve marker_step_def)
next
  case (Roll_back g)
  assume inv: "marker_inv st"
  show ?thesis
  proof (cases "List.find (\<lambda>r. res_generation r = g) (snd st)")
    case None
    with inv show ?thesis by (simp add: Roll_back marker_step_def)
  next
    case (Some r)
    then have "r \<in> set (snd st)" by (auto simp: find_Some_iff)
    with rollback_inv [of "fst st" "snd st" r] inv Some show ?thesis by (simp add: Roll_back marker_step_def)
  qed
qed

interpretation markers: invariant_system marker_step marker_inv
  by unfold_locales (rule marker_step_inv)

definition empty_gate :: gate_state where
  "empty_gate = \<lparr>probeLeases = [], leaseIdentity = 0, capacityRestoredPending = [],
     capacityGenerationCounter = 0, rolledBack = [], attemptLeases = []\<rparr>"

lemma empty_gate_inv: "marker_inv (empty_gate, [])"
  by (simp add: marker_inv_def empty_gate_def of_account_def)

subsection \<open>Leases\<close>

lemma evict_gates_short: "length xs < MAX_PROBE_GATES \<Longrightarrow> evict_gates xs = xs"
  by (cases xs) auto

lemma evict_gates_snoc: "\<exists>ys. evict_gates (xs @ [x]) = ys @ [x] \<and> set ys \<subseteq> set xs"
  by (induction xs) (auto simp: MAX_PROBE_GATES_def intro: exI [of _ "[]"])

lemma evict_gates_suffix: "\<exists>A. xs = A @ evict_gates xs"
  by (induction xs) (auto simp: Cons_eq_append_conv)

lemma evict_gates_wf: "jm_wf xs \<Longrightarrow> jm_wf (evict_gates xs)"
  using evict_gates_suffix [of xs] by (metis distinct_append map_append)

lemma prune_leases_wf: "jm_wf ls \<Longrightarrow> jm_wf (pruneProbeLeases now ls)"
  by (simp add: pruneProbeLeases_def evict_gates_wf jm_wf_filter)

lemma evict_gates_subset: "set (evict_gates xs) \<subseteq> set xs"
  using evict_gates_suffix [of xs] by (metis Un_upper2 set_append)

lemma prune_leases_in: "(k, l) \<in> set (pruneProbeLeases now ls) \<Longrightarrow> now < rl_leaseUntil l"
  using evict_gates_subset [of "filter (\<lambda>(_, l). \<not> rl_leaseUntil l \<le> now) ls"]
  by (auto simp: pruneProbeLeases_def)

text \<open>An admission leaves its lease at the back of the table.\<close>

lemma admission_facts:
  assumes "getRateLimitProbeAdmission a now rp s = (s1, Probe_admitted l)"
  shows "rl_accountId l = acc_id a" "rl_leaseUntil l = now + PROBE_LEASE_MS"
    "rl_capacityGeneration l = map_option res_generation (jm_get (capacityRestoredPending s) (acc_id a))"
    "rl_identity l = leaseIdentity s + 1" "leaseIdentity s1 = leaseIdentity s + 1"
    "probeLeases s1 = pruneProbeLeases now (probeLeases s) @ [(acc_id a, l)]"
    "capacityRestoredPending s1 = capacityRestoredPending s" "rolledBack s1 = rolledBack s"
    "capacityGenerationCounter s1 = capacityGenerationCounter s"
proof -
  let ?ls = "pruneProbeLeases now (probeLeases s)"
  have s1: "s1 = s\<lparr>probeLeases := jm_set ?ls (acc_id a) l, leaseIdentity := leaseIdentity s + 1\<rparr>"
    and l: "l = \<lparr>rl_accountId = acc_id a, rl_leaseUntil = now + PROBE_LEASE_MS,
      rl_capacityGeneration = map_option res_generation (jm_get (capacityRestoredPending s) (acc_id a)),
      rl_identity = leaseIdentity s + 1\<rparr>"
    and free: "\<not> (case jm_get ?ls (acc_id a) of None \<Rightarrow> False | Some l \<Rightarrow> rl_leaseUntil l > now)"
    using assms by (auto simp: getRateLimitProbeAdmission_def inspectProbeGate_def Let_def split: if_splits)
  have "jm_get ?ls (acc_id a) = None"
  proof (cases "jm_get ?ls (acc_id a)")
    case (Some l')
    then have "now < rl_leaseUntil l'" using jm_get_in_set prune_leases_in by metis
    with free Some show ?thesis by simp
  qed simp
  then show "probeLeases s1 = ?ls @ [(acc_id a, l)]"
    by (simp add: s1 jm_set_new jm_get_None)
  show "rl_accountId l = acc_id a" "rl_leaseUntil l = now + PROBE_LEASE_MS"
    "rl_capacityGeneration l = map_option res_generation (jm_get (capacityRestoredPending s) (acc_id a))"
    "rl_identity l = leaseIdentity s + 1" "leaseIdentity s1 = leaseIdentity s + 1"
    "capacityRestoredPending s1 = capacityRestoredPending s" "rolledBack s1 = rolledBack s"
    "capacityGenerationCounter s1 = capacityGenerationCounter s"
    by (simp_all add: s1) (simp_all add: l)
qed

lemma admission_get:
  assumes "getRateLimitProbeAdmission a now rp s = (s1, Probe_admitted l)" and "jm_wf (probeLeases s)"
  shows "jm_wf (probeLeases s1)" "jm_get (probeLeases s1) (acc_id a) = Some l"
    "t < rl_leaseUntil l \<Longrightarrow> jm_get (pruneProbeLeases t (probeLeases s1)) (acc_id a) = Some l"
proof -
  let ?ls = "pruneProbeLeases now (probeLeases s)"
  note f = admission_facts [OF assms(1)]
  have eq: "probeLeases s1 = jm_set ?ls (acc_id a) l"
    using assms(1) by (auto simp: getRateLimitProbeAdmission_def Let_def split: if_splits)
  show wf: "jm_wf (probeLeases s1)" unfolding eq by (rule jm_wf_set [OF prune_leases_wf [OF assms(2)]])
  show "jm_get (probeLeases s1) (acc_id a) = Some l" by (simp add: eq)
  show "jm_get (pruneProbeLeases t (probeLeases s1)) (acc_id a) = Some l" if "t < rl_leaseUntil l"
  proof -
    have "filter (\<lambda>(_, l). \<not> rl_leaseUntil l \<le> t) (probeLeases s1) =
        filter (\<lambda>(_, l). \<not> rl_leaseUntil l \<le> t) ?ls @ [(acc_id a, l)]"
      using that by (simp add: f(6))
    then have "(acc_id a, l) \<in> set (pruneProbeLeases t (probeLeases s1))"
      using evict_gates_snoc [of "filter (\<lambda>(_, l). \<not> rl_leaseUntil l \<le> t) ?ls" "(acc_id a, l)"]
      by (auto simp: pruneProbeLeases_def)
    with prune_leases_wf [OF wf, of t] show ?thesis by (simp add: jm_get_iff)
  qed
qed

subsection \<open>Properties\<close>

text \<open>
  The early-release marker survives overlapping releases: after any sequence of reservations
  and rollbacks, in whatever order they are undone, an account's pending marker is the most recent
  of its reservations that was not rolled back, and there is none exactly when all were.
\<close>

lemma marker_is_latest_live_reservation:
  assumes "foldl marker_step (empty_gate, []) evs = (s, hist)"
  shows "jm_get (capacityRestoredPending s) a =
    List.find (\<lambda>r. res_accountId r = a \<and> res_generation r \<notin> set (rolledBack s)) hist"
proof -
  have "marker_inv (s, hist)" using markers.run_inv [OF empty_gate_inv, of evs] assms by simp
  then have "jm_get (capacityRestoredPending s) a = first_live (rolledBack s) (of_account a hist)"
    by (simp add: marker_inv_def)
  also have "\<dots> = List.find (\<lambda>r. res_accountId r = a \<and> res_generation r \<notin> set (rolledBack s)) hist"
    by (induction hist) simp_all
  finally show ?thesis .
qed

text \<open>
  One probe at a time: once a request was admitted to probe an account, no other request is
  given a lease on it for the whole lease time, whatever copy of the account it holds, until the
  probe settles.
\<close>

lemma probe_gate_single_flight:
  assumes "getRateLimitProbeAdmission a now rp s = (s1, Probe_admitted l)" and "jm_wf (probeLeases s)"
    and "acc_id b = acc_id a" and "t < now + PROBE_LEASE_MS"
  shows "snd (getRateLimitProbeAdmission b t rp2 s1) \<in> {Not_required, Suppressed}
    \<and> is_live_lease (acc_id a) l (fst (getRateLimitProbeAdmission b t rp2 s1))"
proof -
  have "t < rl_leaseUntil l" using assms(4) admission_facts(2) [OF assms(1)] by simp
  with admission_get [OF assms(1,2)] assms(3) show ?thesis
    by (auto simp: getRateLimitProbeAdmission_def Let_def is_live_lease_def)
qed

text \<open>
  The read-only predicate never drifts from the gate: while the lease table is below its
  capacity, it answers that an attempt would be suppressed exactly when the gate suppresses it.
\<close>

lemma would_suppress_agrees_with_gate:
  assumes "jm_wf (probeLeases s)" and "length (probeLeases s) < MAX_PROBE_GATES"
  shows "wouldSuppressProbe a now s \<longleftrightarrow> snd (getRateLimitProbeAdmission a now False s) = Suppressed"
proof -
  have "length (filter (\<lambda>(_, l). \<not> rl_leaseUntil l \<le> now) (probeLeases s)) < MAX_PROBE_GATES"
    using length_filter_le assms(2) by (rule le_less_trans)
  then have "pruneProbeLeases now (probeLeases s) = filter (\<lambda>(_, l). \<not> rl_leaseUntil l \<le> now) (probeLeases s)"
    unfolding pruneProbeLeases_def by (rule evict_gates_short)
  then have "(case jm_get (pruneProbeLeases now (probeLeases s)) (acc_id a) of None \<Rightarrow> False | Some l \<Rightarrow> rl_leaseUntil l > now) =
      (case jm_get (probeLeases s) (acc_id a) of None \<Rightarrow> False | Some l \<Rightarrow> rl_leaseUntil l > now)"
    by (auto simp: jm_get_filter [OF assms(1)] split: option.split)
  then show ?thesis by (auto simp: wouldSuppressProbe_def getRateLimitProbeAdmission_def Let_def)
qed

text \<open>
  Only the owner of the live lease settles a probe, and it never clears a newer marker: an
  owner whose lease ran out and was given to another request changes nothing by completing, and a
  recovery reported by a probe admitted before a newer early release frees the lease but leaves the
  newer marker pending.
\<close>

lemma probe_settle_is_ownership_scoped:
  assumes "getRateLimitProbeAdmission a now rp s = (s1, Probe_admitted l)" and "jm_wf (probeLeases s)"
    and "\<And>r. jm_get (capacityRestoredPending s) (acc_id a) = Some r \<Longrightarrow> res_generation r \<le> capacityGenerationCounter s"
  shows "(\<forall>b t rp2 s2 l2. acc_id b = acc_id a \<and> getRateLimitProbeAdmission b t rp2 s1 = (s2, Probe_admitted l2) \<longrightarrow>
        completeRateLimitProbe (acc_id a) outcome (Some l) s2 = s2)
    \<and> (let (s2, r) = markCapacityRestoredProbePending (acc_id a) s1;
           s3 = completeRateLimitProbe (acc_id a) Probe_recovered (Some l) s2
       in jm_get (capacityRestoredPending s3) (acc_id a) = Some r \<and> jm_get (probeLeases s3) (acc_id a) = None)"
proof
  note f = admission_facts [OF assms(1)] and g = admission_get [OF assms(1,2)]
  show "\<forall>b t rp2 s2 l2. acc_id b = acc_id a \<and> getRateLimitProbeAdmission b t rp2 s1 = (s2, Probe_admitted l2) \<longrightarrow>
        completeRateLimitProbe (acc_id a) outcome (Some l) s2 = s2"
  proof (intro allI impI, elim conjE)
    fix b t rp2 s2 l2
    assume b: "acc_id b = acc_id a" and adm: "getRateLimitProbeAdmission b t rp2 s1 = (s2, Probe_admitted l2)"
    have "jm_get (probeLeases s2) (acc_id a) = Some l2" "rl_identity l2 \<noteq> rl_identity l"
      using admission_get(2) [OF adm g(1)] admission_facts(4) [OF adm] f(4,5) b by simp_all
    then show "completeRateLimitProbe (acc_id a) outcome (Some l) s2 = s2"
      by (simp add: completeRateLimitProbe_def is_live_lease_def)
  qed
  have "rl_capacityGeneration l \<noteq> Some (capacityGenerationCounter s + 1)"
    using assms(3) f(3) by (cases "jm_get (capacityRestoredPending s) (acc_id a)") fastforce+
  then show "let (s2, r) = markCapacityRestoredProbePending (acc_id a) s1;
           s3 = completeRateLimitProbe (acc_id a) Probe_recovered (Some l) s2
       in jm_get (capacityRestoredPending s3) (acc_id a) = Some r \<and> jm_get (probeLeases s3) (acc_id a) = None"
    using g(2) f(9)
    by (auto simp: markCapacityRestoredProbePending_def completeRateLimitProbe_def releaseProbeLease_def
        is_live_lease_def Let_def)
qed

subsection \<open>Concrete instances\<close>

text \<open>An account whose mature cooldown has just expired.\<close>

definition recovered_account :: account where
  "recovered_account = \<lparr>acc_id = ''a'', acc_name = ''a'', provider = ANTHROPIC, refresh_token = ''t'',
     rate_limited_until = Some 900, rate_limited_reason = None, rate_limited_at = Some 100,
     consecutive_rate_limits = 5, session_start = None, session_request_count = 0, disabled = False,
     paused = False, rate_limit_reset = None, priority = 0, auto_fallback_enabled = False,
     custom_endpoint = None, pause_reason = None, identity_subscription_ends_at = None,
     identity_subscription_will_renew = None\<rparr>"

lemma recovered_admitted:
  "getRateLimitProbeAdmission recovered_account 1000 False empty_gate =
    (empty_gate\<lparr>probeLeases := [(''a'', \<lparr>rl_accountId = ''a'', rl_leaseUntil = 121000,
        rl_capacityGeneration = None, rl_identity = 1\<rparr>)], leaseIdentity := 1\<rparr>,
     Probe_admitted \<lparr>rl_accountId = ''a'', rl_leaseUntil = 121000, rl_capacityGeneration = None, rl_identity = 1\<rparr>)"
  by (simp add: getRateLimitProbeAdmission_def inspectProbeGate_def recovered_account_def empty_gate_def
      pruneProbeLeases_def jm_set_def Let_def PROBE_LEASE_MS_def MATURE_COOLDOWN_STREAK_def)

end
