(* ===== verification/RateLimitCooldown.thy ===== *)
theory RateLimitCooldown
  imports ProbeGate Availability
begin

section \<open>Cooldowns of rate-limited accounts\<close>

text \<open>
  \<^verbatim>\<open>applyRateLimitCooldown\<close> and \<^verbatim>\<open>applySuccessRateLimitClear\<close> of
  \<^verbatim>\<open>proxy/src/handlers/rate-limit-cooldown.ts\<close>, with the database writes they enqueue and what
  those do to an account's row (\<^verbatim>\<open>database/src/repositories/account.repository.ts\<close>). The state
  extends the probe gate's by the queue of the asynchronous writer and the notes left with the
  usage cache. A function returns the account object after its in-memory writes.
  Shown: what each kind of 429 does to the deadline and to the streak; that a success that
  started before a newer 429 undoes neither the object nor the row; that a cooldown keeps the
  account out of selection until its deadline.
\<close>

record rate_limit_info =
  info_resetTime :: "int option"
  info_reason :: "rate_limit_reason option"
  info_floorUntil :: "int option"

datatype db_job =
    Mark_rate_limited string int rate_limit_reason
  | Mark_deadline_only string int rate_limit_reason
  | Reset_consecutive string int
  | Clear_lock_and_reason string int

record cooldown_state = gate_state +
  writer_queue :: "db_job list"
  cooldown_notes :: "(string \<times> int) list"

definition enqueue :: "db_job \<Rightarrow> cooldown_state \<Rightarrow> cooldown_state" where
  "enqueue job s = s\<lparr>writer_queue := writer_queue s @ [job]\<rparr>"

subsection \<open>What the writes do to the rows\<close>

definition setRateLimited :: "string \<Rightarrow> int \<Rightarrow> rate_limit_reason \<Rightarrow> int \<Rightarrow> account list \<Rightarrow> account list \<times> int" where
  "setRateLimited i until reason now rows =
     (let rows' = upd_account i (\<lambda>a. a\<lparr>consecutive_rate_limits := consecutive_rate_limits a + 1,
            rate_limited_until := Some until, rate_limited_reason := Some reason,
            rate_limited_at := Some now\<rparr>) rows
      in (rows', case find_account rows' i of None \<Rightarrow> 0 | Some a \<Rightarrow> consecutive_rate_limits a))"

definition setRateLimitedDeadlineOnly :: "string \<Rightarrow> int \<Rightarrow> rate_limit_reason \<Rightarrow> int \<Rightarrow> account list \<Rightarrow> account list" where
  "setRateLimitedDeadlineOnly i until reason now rows =
     upd_account i (\<lambda>a. a\<lparr>rate_limited_until := Some until, rate_limited_reason := Some reason,
       rate_limited_at := Some now\<rparr>) rows"

text \<open>\<^verbatim>\<open>rate_limited_at IS NULL OR rate_limited_at < ?\<close>\<close>

definition limit_predates :: "int \<Rightarrow> account \<Rightarrow> bool" where
  "limit_predates bound a \<longleftrightarrow> (case rate_limited_at a of None \<Rightarrow> True | Some t \<Rightarrow> t < bound)"

definition resetConsecutiveRateLimits :: "string \<Rightarrow> int option \<Rightarrow> account list \<Rightarrow> account list" where
  "resetConsecutiveRateLimits i notAfterMs rows =
     upd_account i (\<lambda>a. if (case notAfterMs of None \<Rightarrow> True | Some bound \<Rightarrow> limit_predates bound a)
       then a\<lparr>consecutive_rate_limits := 0, rate_limited_at := None\<rparr> else a) rows"

definition clear_lock_and_reason :: "string \<Rightarrow> int \<Rightarrow> account list \<Rightarrow> account list" where
  "clear_lock_and_reason i bound rows =
     upd_account i (\<lambda>a. if (rate_limited_until a \<noteq> None \<or> rate_limited_reason a \<noteq> None) \<and> limit_predates bound a
       then a\<lparr>rate_limited_until := None, rate_limited_reason := None\<rparr> else a) rows"

definition clearExpiredRateLimits :: "int \<Rightarrow> account list \<Rightarrow> account list" where
  "clearExpiredRateLimits now rows = map (\<lambda>a. if (case rate_limited_until a of None \<Rightarrow> False | Some u \<Rightarrow> u \<le> now)
     then a\<lparr>rate_limited_until := None\<rparr> else a) rows"

definition run_job :: "int \<Rightarrow> account list \<Rightarrow> db_job \<Rightarrow> account list" where
  "run_job now rows job = (case job of
     Mark_rate_limited i until reason \<Rightarrow> fst (setRateLimited i until reason now rows)
   | Mark_deadline_only i until reason \<Rightarrow> setRateLimitedDeadlineOnly i until reason now rows
   | Reset_consecutive i bound \<Rightarrow> resetConsecutiveRateLimits i (Some bound) rows
   | Clear_lock_and_reason i bound \<Rightarrow> clear_lock_and_reason i bound rows)"

text \<open>
  The job of the escalating path also writes the persisted counter back into the account object:
  under concurrent 429s the estimate in memory may be one short.
\<close>

definition run_mark_job ::
  "int \<Rightarrow> int \<Rightarrow> rate_limit_reason \<Rightarrow> account \<Rightarrow> account list \<Rightarrow> account list \<times> account" where
  "run_mark_job now until reason a rows =
     (let (rows', persistedCount) = setRateLimited (acc_id a) until reason now rows
      in (rows', a\<lparr>consecutive_rate_limits := persistedCount\<rparr>))"

subsection \<open>Recovery on success\<close>

definition getRateLimitResetStabilityMs :: int where
  "getRateLimitResetStabilityMs = RATE_LIMIT_RESET_STABILITY_MS"

definition applySuccessRateLimitClear ::
  "int \<Rightarrow> int \<Rightarrow> account \<Rightarrow> cooldown_state \<Rightarrow> cooldown_state \<times> account" where
  "applySuccessRateLimitClear now clearBoundMs a s =
     (if (case rate_limited_at a of None \<Rightarrow> False | Some t \<Rightarrow> t \<ge> clearBoundMs) then (s, a)
      else let (s1, a1) =
             (if truthy (rate_limited_at a) \<and> now - the (rate_limited_at a) > getRateLimitResetStabilityMs
              then (enqueue (Reset_consecutive (acc_id a) clearBoundMs) s,
                    a\<lparr>consecutive_rate_limits := 0, rate_limited_at := None\<rparr>)
              else (s, a))
           in if \<not> truthy (rate_limited_until a1) \<and> rate_limited_reason a1 = None then (s1, a1)
              else (enqueue (Clear_lock_and_reason (acc_id a) clearBoundMs) s1,
                    a1\<lparr>rate_limited_until := None, rate_limited_reason := None\<rparr>))"

subsection \<open>Applying a cooldown\<close>

definition falsy :: "string option \<Rightarrow> bool" where
  "falsy x \<longleftrightarrow> x = None \<or> x = Some []"

definition note_account_wide :: "int \<Rightarrow> rate_limit_info \<Rightarrow> account \<Rightarrow> cooldown_state \<Rightarrow> cooldown_state" where
  "note_account_wide now info a s =
     (if provider a = ''anthropic'' \<and> falsy (custom_endpoint a) \<and> isQuotaDerivedRateLimitReason (info_reason info)
      then s\<lparr>cooldown_notes := cooldown_notes s @ [(acc_id a, now)]\<rparr> else s)"

definition arm_if_burst :: "rate_limit_reason \<Rightarrow> account \<Rightarrow> int \<Rightarrow> cooldown_state \<Rightarrow> cooldown_state" where
  "arm_if_burst reason a until s =
     (if reason = Model_fallback_429 \<and> isOAuthAnthropicAccount a
      then armBurstRecoveryProbe (acc_id a) until s else s)"

definition or_reason :: "rate_limit_reason option \<Rightarrow> rate_limit_reason \<Rightarrow> rate_limit_reason" where
  "or_reason x d = (case x of None \<Rightarrow> d | Some r \<Rightarrow> r)"

definition applyRateLimitCooldown ::
  "int \<Rightarrow> rate_limit_info \<Rightarrow> bool \<Rightarrow> rl_lease option \<Rightarrow> account \<Rightarrow> cooldown_state \<Rightarrow> cooldown_state \<times> account" where
  "applyRateLimitCooldown now info reprobe probeLease a s =
     (if reprobe then
        (s, if truthy (info_resetTime info) \<and> the (info_resetTime info) > now
            then a\<lparr>rate_limited_until := info_resetTime info\<rparr> else a)
      else let s1 = completeRateLimitProbe (acc_id a) Cooldown_reapplied probeLease (note_account_wide now info a s) in
        if truthy (info_resetTime info) \<and> the (info_resetTime info) > now \<and> \<not> truthy (info_floorUntil info) then
          (let reason = or_reason (info_reason info) Upstream_429_with_reset;
               until = the (info_resetTime info);
               a1 = a\<lparr>rate_limited_until := Some until, rate_limited_at := Some now, rate_limited_reason := Some reason\<rparr>
           in (enqueue (Mark_deadline_only (acc_id a) until reason) (arm_if_burst reason a1 until s1), a1))
        else
          (let nextCount = consecutive_rate_limits a + 1;
               candidateUntil = now + computeRateLimitBackoffMs nextCount;
               capped = (if truthy (info_resetTime info) then min (the (info_resetTime info)) candidateUntil
                         else candidateUntil);
               until = (if truthy (info_floorUntil info) \<and> the (info_floorUntil info) > capped
                        then the (info_floorUntil info) else capped);
               reason = or_reason (info_reason info)
                 (if truthy (info_resetTime info) then Upstream_429_with_reset
                  else Upstream_429_no_reset_probe_cooldown);
               a1 = a\<lparr>rate_limited_until := Some until, rate_limited_reason := Some reason,
                      rate_limited_at := Some now, consecutive_rate_limits := nextCount\<rparr>
           in (enqueue (Mark_rate_limited (acc_id a) until reason) (arm_if_burst reason a1 until s1), a1)))"

subsection \<open>Lemmas\<close>

lemma cooled_unavailable:
  assumes "rate_limited_until a = Some u" and "u \<noteq> 0" and "t \<le> u"
  shows "\<not> isAccountAvailable a t"
  using assms by (simp add: isAccountAvailable_def)

lemma enqueue_fields [simp]:
  "probeLeases (enqueue j s) = probeLeases s" "capacityRestoredPending (enqueue j s) = capacityRestoredPending s"
  "writer_queue (enqueue j s) = writer_queue s @ [j]"
  by (simp_all add: enqueue_def)

lemma note_fields [simp]:
  "probeLeases (note_account_wide now info a s) = probeLeases s"
  "writer_queue (note_account_wide now info a s) = writer_queue s"
  by (simp_all add: note_account_wide_def)

lemma complete_queue [simp]: "writer_queue (completeRateLimitProbe i oc l s) = writer_queue s"
  by (simp add: completeRateLimitProbe_def releaseProbeLease_def Let_def split: option.split)

lemma complete_leases:
  "jm_get (probeLeases (completeRateLimitProbe i oc l s)) i = None \<or>
    jm_get (probeLeases (completeRateLimitProbe i oc l s)) i = jm_get (probeLeases s) i"
  by (simp add: completeRateLimitProbe_def releaseProbeLease_def Let_def split: option.split)

lemma complete_wf: "jm_wf (probeLeases s) \<Longrightarrow> jm_wf (probeLeases (completeRateLimitProbe i oc l s))"
  by (simp add: completeRateLimitProbe_def releaseProbeLease_def Let_def jm_wf_delete split: option.split)

lemma arm_fields [simp]:
  "writer_queue (arm_if_burst r a u s) = writer_queue s" "probeLeases (arm_if_burst r a u s) = probeLeases s"
  by (simp_all add: arm_if_burst_def armBurstRecoveryProbe_def Let_def)

text \<open>A server-directed cooldown: the branch of \<^verbatim>\<open>applyRateLimitCooldown\<close> with a future reset.\<close>

lemma cooldown_with_reset:
  assumes "info_resetTime info = Some u" and "u \<noteq> 0" and "now < u" and "\<not> truthy (info_floorUntil info)"
  shows "applyRateLimitCooldown now info False lease a s =
    (let reason = or_reason (info_reason info) Upstream_429_with_reset;
         a1 = a\<lparr>rate_limited_until := Some u, rate_limited_at := Some now, rate_limited_reason := Some reason\<rparr>
     in (enqueue (Mark_deadline_only (acc_id a) u reason) (arm_if_burst reason a1 u
          (completeRateLimitProbe (acc_id a) Cooldown_reapplied lease (note_account_wide now info a s))), a1))"
  using assms by (simp add: applyRateLimitCooldown_def Let_def)

lemma cooldown_without_reset:
  assumes "\<not> truthy (info_resetTime info)"
  shows "applyRateLimitCooldown now info False lease a s =
    (let capped = now + computeRateLimitBackoffMs (consecutive_rate_limits a + 1);
         u = (if truthy (info_floorUntil info) \<and> the (info_floorUntil info) > capped
              then the (info_floorUntil info) else capped);
         reason = or_reason (info_reason info) Upstream_429_no_reset_probe_cooldown;
         a1 = a\<lparr>rate_limited_until := Some u, rate_limited_reason := Some reason,
                rate_limited_at := Some now, consecutive_rate_limits := consecutive_rate_limits a + 1\<rparr>
     in (enqueue (Mark_rate_limited (acc_id a) u reason) (arm_if_burst reason a1 u
          (completeRateLimitProbe (acc_id a) Cooldown_reapplied lease (note_account_wide now info a s))), a1))"
  using assms by (simp add: applyRateLimitCooldown_def Let_def)

lemma upd_account_id: "(\<And>a. a \<in> set rows \<Longrightarrow> acc_id a = i \<Longrightarrow> f a = a) \<Longrightarrow> upd_account i f rows = rows"
  unfolding upd_account_def by (rule map_idI) simp

lemma run_mark_job_reconciles:
  assumes "find_account rows (acc_id a) = Some row" and "run_mark_job now until reason a rows = (rows', a')"
  shows "consecutive_rate_limits a' = consecutive_rate_limits row + 1"
    and "rows' = run_job now rows (Mark_rate_limited (acc_id a) until reason)"
proof -
  have "find_account (upd_account i f rows) i = Some (f row)"
    if "find_account rows i = Some row" "\<And>x. acc_id (f x) = acc_id x" for i f
    using that by (induction rows) (auto simp: find_account_def upd_account_def split: if_splits)
  with assms show "consecutive_rate_limits a' = consecutive_rate_limits row + 1"
    "rows' = run_job now rows (Mark_rate_limited (acc_id a) until reason)"
    by (auto simp: run_mark_job_def setRateLimited_def run_job_def Let_def)
qed

subsection \<open>Properties\<close>

text \<open>
  A 429 without a reset escalates: the streak goes up by one and the account is out of
  selection until a deadline given by the backoff ramp, at least the base and at most the ceiling
  away, or until the floor when a longer one is asked for.
\<close>

lemma no_reset_cooldown_escalates:
  assumes "applyRateLimitCooldown now info False lease a s = (s', a')"
    and "\<not> truthy (info_resetTime info)" and "0 \<le> now"
  shows "\<exists>u. rate_limited_until a' = Some u \<and> now + RATE_LIMIT_BACKOFF_BASE_MS \<le> u
    \<and> (if truthy (info_floorUntil info) then the (info_floorUntil info) \<le> u
        else u = now + computeRateLimitBackoffMs (consecutive_rate_limits a + 1) \<and> u \<le> now + RATE_LIMIT_BACKOFF_MAX_MS)
    \<and> consecutive_rate_limits a' = consecutive_rate_limits a + 1 \<and> rate_limited_at a' = Some now
    \<and> (\<forall>t \<le> u. \<not> isAccountAvailable a' t)"
proof -
  let ?c = "now + computeRateLimitBackoffMs (consecutive_rate_limits a + 1)"
  define u where "u = (if truthy (info_floorUntil info) \<and> the (info_floorUntil info) > ?c
      then the (info_floorUntil info) else ?c)"
  have a': "rate_limited_until a' = Some u" "consecutive_rate_limits a' = consecutive_rate_limits a + 1"
    "rate_limited_at a' = Some now"
    using assms(1) unfolding cooldown_without_reset [OF assms(2)] Let_def u_def by auto
  note b = backoff_bounds [of "consecutive_rate_limits a + 1"]
  have low: "now + RATE_LIMIT_BACKOFF_BASE_MS \<le> u" using b(1) by (simp add: u_def)
  moreover have "u \<noteq> 0" using low assms(3) by (simp add: RATE_LIMIT_BACKOFF_BASE_MS_def)
  ultimately show ?thesis
    using a' b(2) cooled_unavailable [of a' u] by (auto simp: u_def)
qed

text \<open>
  A 429 that names its reset is obeyed and does not escalate: the deadline is the reset, the
  streak stays, in the object and in the row the enqueued write updates, and the account is out of
  selection until the reset.
\<close>

lemma server_directed_cooldown_keeps_streak:
  assumes "applyRateLimitCooldown now info False lease a s = (s', a')"
    and "info_resetTime info = Some u" and "0 < u" and "now < u" and "\<not> truthy (info_floorUntil info)"
    and "writer_queue s = []" and "find_account rows (acc_id a) = Some row"
  shows "rate_limited_until a' = Some u \<and> consecutive_rate_limits a' = consecutive_rate_limits a
    \<and> (\<forall>t \<le> u. \<not> isAccountAvailable a' t)
    \<and> (\<exists>row'. find_account (foldl (run_job later) rows (writer_queue s')) (acc_id a) = Some row'
        \<and> rate_limited_until row' = Some u \<and> rate_limited_reason row' = rate_limited_reason a'
        \<and> consecutive_rate_limits row' = consecutive_rate_limits row)"
proof -
  define reason where "reason = or_reason (info_reason info) Upstream_429_with_reset"
  have a': "rate_limited_until a' = Some u" "consecutive_rate_limits a' = consecutive_rate_limits a"
    "rate_limited_reason a' = Some reason" and q: "writer_queue s' = [Mark_deadline_only (acc_id a) u reason]"
    using assms(1,3,4,6) unfolding cooldown_with_reset [OF assms(2) _ assms(4,5)] reason_def
    by (auto simp: cooldown_with_reset [OF assms(2) _ assms(4,5)] Let_def)
  have "find_account (upd_account (acc_id a) f rows) (acc_id a) = Some (f row)" if "\<And>x. acc_id (f x) = acc_id x" for f
    using assms(7) that by (induction rows) (auto simp: find_account_def upd_account_def split: if_splits)
  then show ?thesis
    using a' assms(3) cooled_unavailable [of a' u]
    by (simp add: q run_job_def setRateLimitedDeadlineOnly_def)
qed

text \<open>
  A gentle re-probe inside a cooldown is invisible to the streak: it changes no state of the
  gate, enqueues no write, and of the account only the deadline, and that only to a reset in the
  future.
\<close>

lemma reprobe_never_escalates:
  "fst (applyRateLimitCooldown now info True lease a s) = s
    \<and> (snd (applyRateLimitCooldown now info True lease a s) = a
       \<or> (\<exists>u > now. info_resetTime info = Some u
           \<and> snd (applyRateLimitCooldown now info True lease a s) = a\<lparr>rate_limited_until := Some u\<rparr>))"
  by (cases "info_resetTime info") (auto simp: applyRateLimitCooldown_def)

text \<open>
  A delayed success never erases a newer 429: whatever the snapshot the success was applied
  to, the writes it enqueues leave a row whose limit was recorded at or after the start of the
  request exactly as it is, and a snapshot with such a limit is not touched either.
\<close>

lemma stale_success_keeps_newer_limit:
  assumes "applySuccessRateLimitClear now bound a s = (s', a')" and "writer_queue s = []"
    and "\<And>row. row \<in> set rows \<Longrightarrow> acc_id row = acc_id a \<Longrightarrow> \<exists>t. rate_limited_at row = Some t \<and> bound \<le> t"
  shows "foldl (run_job later) rows (writer_queue s') = rows
    \<and> (\<forall>t. rate_limited_at a = Some t \<and> bound \<le> t \<longrightarrow> a' = a \<and> s' = s)"
proof -
  have "\<not> limit_predates bound row" if "row \<in> set rows" "acc_id row = acc_id a" for row
    using assms(3) [OF that] by (auto simp: limit_predates_def)
  then have same: "run_job later rows (Reset_consecutive (acc_id a) bound) = rows"
    "run_job later rows (Clear_lock_and_reason (acc_id a) bound) = rows"
    by (auto simp: run_job_def resetConsecutiveRateLimits_def clear_lock_and_reason_def intro!: upd_account_id)
  have "set (writer_queue s') \<subseteq> {Reset_consecutive (acc_id a) bound, Clear_lock_and_reason (acc_id a) bound}"
    using assms(1,2) by (auto simp: applySuccessRateLimitClear_def Let_def split: if_splits)
  then have "foldl (run_job later) rows (writer_queue s') = rows"
    by (intro foldl_fixed) (use same in auto)
  then show ?thesis using assms(1) by (auto simp: applySuccessRateLimitClear_def)
qed

text \<open>
  A burst 429 releases its account one request at a time: after a cooldown for a burst on an
  OAuth Anthropic account, every attempt before the deadline is suppressed, and at the first
  attempt from the deadline on, with no other lease live, exactly that attempt is admitted while the
  next ones are suppressed for the lease time, whichever copies of the account the requests hold.
\<close>

lemma burst_cooldown_then_single_probe:
  assumes "applyRateLimitCooldown now info False lease a s = (s', a')"
    and "info_resetTime info = Some u" and "0 < u" and "now < u" and "\<not> truthy (info_floorUntil info)"
    and "info_reason info = Some Model_fallback_429" and "isOAuthAnthropicAccount a"
    and "jm_wf (probeLeases s)" and "acc_id b = acc_id a"
  shows "(t < u \<longrightarrow> snd (getRateLimitProbeAdmission b t False s') = Suppressed)
    \<and> (u \<le> t \<and> (\<forall>l. jm_get (probeLeases s) (acc_id a) = Some l \<longrightarrow> rl_leaseUntil l \<le> t) \<longrightarrow>
        (\<exists>s2 l. getRateLimitProbeAdmission b t False s' = (s2, Probe_admitted l)
          \<and> (\<forall>c t2. acc_id c = acc_id a \<and> t \<le> t2 \<and> t2 < t + PROBE_LEASE_MS \<longrightarrow>
              snd (getRateLimitProbeAdmission c t2 False s2) = Suppressed)))"
proof -
  define s1 where "s1 = completeRateLimitProbe (acc_id a) Cooldown_reapplied lease (note_account_wide now info a s)"
  have burst: "isOAuthAnthropicAccount (a\<lparr>rate_limited_until := x, rate_limited_at := y, rate_limited_reason := z\<rparr>)" for x y z
    using assms(7) by (simp add: isOAuthAnthropicAccount_iff)
  have s': "s' = enqueue (Mark_deadline_only (acc_id a) u Model_fallback_429) (armBurstRecoveryProbe (acc_id a) u s1)"
    using assms(1,3) by (simp add: cooldown_with_reset [OF assms(2) _ assms(4,5)] or_reason_def assms(6)
        arm_if_burst_def burst s1_def Let_def)
  obtain g where pend: "jm_get (capacityRestoredPending s') (acc_id a) = Some (Reservation (acc_id a) g None (Some u))"
    by (simp add: s' armBurstRecoveryProbe_def Let_def)
  have gate: "gatingRequired (inspectProbeGate x y s')" "coolingDown (inspectProbeGate x y s') = (y < u)"
    if "acc_id x = acc_id a" for x y
    using pend that by (simp_all add: inspectProbeGate_def Let_def)
  have leases: "probeLeases s' = probeLeases s1" by (simp add: s' armBurstRecoveryProbe_def Let_def)
  have wf: "jm_wf (probeLeases s')" unfolding leases s1_def using assms(8) by (intro complete_wf) simp
  have sub: "jm_get (probeLeases s') (acc_id a) = Some l \<Longrightarrow> jm_get (probeLeases s) (acc_id a) = Some l" for l
    unfolding leases s1_def
    using complete_leases [of "acc_id a" Cooldown_reapplied lease "note_account_wide now info a s"] by auto
  have "snd (getRateLimitProbeAdmission b t False s') = Suppressed" if "t < u"
    using gate [of b t] that assms(9) by (simp add: getRateLimitProbeAdmission_def Let_def)
  moreover have "\<exists>s2 l. getRateLimitProbeAdmission b t False s' = (s2, Probe_admitted l)
      \<and> (\<forall>c t2. acc_id c = acc_id a \<and> t \<le> t2 \<and> t2 < t + PROBE_LEASE_MS \<longrightarrow>
          snd (getRateLimitProbeAdmission c t2 False s2) = Suppressed)"
    if late: "u \<le> t" and free: "\<forall>l. jm_get (probeLeases s) (acc_id a) = Some l \<longrightarrow> rl_leaseUntil l \<le> t"
  proof -
    have "jm_get (pruneProbeLeases t (probeLeases s')) (acc_id a) = None"
    proof (rule ccontr)
      assume "jm_get (pruneProbeLeases t (probeLeases s')) (acc_id a) \<noteq> None"
      then obtain l where "(acc_id a, l) \<in> set (pruneProbeLeases t (probeLeases s'))" using jm_get_in_set by fast
      then have "(acc_id a, l) \<in> set (probeLeases s')" "t < rl_leaseUntil l"
        using evict_gates_subset prune_leases_in by (fastforce simp: pruneProbeLeases_def)+
      then show False using free sub wf by (auto simp: jm_get_iff)
    qed
    then obtain s2 l where adm: "getRateLimitProbeAdmission b t False s' = (s2, Probe_admitted l)"
      using gate [of b t] late assms(9) by (simp add: getRateLimitProbeAdmission_def Let_def)
    have "snd (getRateLimitProbeAdmission c t2 False s2) = Suppressed"
      if c: "acc_id c = acc_id a" "t \<le> t2" "t2 < t + PROBE_LEASE_MS" for c t2
    proof -
      have "jm_get (pruneProbeLeases t2 (probeLeases s2)) (acc_id c) = Some l" "rl_leaseUntil l = t + PROBE_LEASE_MS"
        using admission_get(3) [OF adm wf, of t2] admission_facts(2) [OF adm] c assms(9) by simp_all
      moreover have "gatingRequired (inspectProbeGate c t2 s2)"
        using admission_facts(7) [OF adm] pend c(1) by (simp add: inspectProbeGate_def Let_def)
      ultimately show ?thesis using c(3) by (simp add: getRateLimitProbeAdmission_def Let_def)
    qed
    with adm show ?thesis by blast
  qed
  ultimately show ?thesis by blast
qed

text \<open>
  A proven success after the last 429 recovers the account: deadline and reason go together,
  so it is selectable at once unless disabled or paused, and after a quiet period longer than the
  stability window the streak starts over.
\<close>

lemma success_clears_older_limit:
  assumes "applySuccessRateLimitClear now bound a s = (s', a')" and "limit_predates bound a"
  shows "\<not> truthy (rate_limited_until a') \<and> rate_limited_reason a' = None
    \<and> (isAccountAvailable a' t \<longleftrightarrow> \<not> disabled a \<and> \<not> paused a)
    \<and> (\<forall>x. rate_limited_at a = Some x \<and> x \<noteq> 0 \<and> now - x > RATE_LIMIT_RESET_STABILITY_MS \<longrightarrow>
        consecutive_rate_limits a' = 0 \<and> rate_limited_at a' = None)"
proof -
  have nb: "\<not> (case rate_limited_at a of None \<Rightarrow> False | Some t \<Rightarrow> t \<ge> bound)"
    using assms(2) by (auto simp: limit_predates_def split: option.splits)
  define a1 where "a1 = (if truthy (rate_limited_at a) \<and> now - the (rate_limited_at a) > getRateLimitResetStabilityMs
    then a\<lparr>consecutive_rate_limits := 0, rate_limited_at := None\<rparr> else a)"
  have a': "a' = (if \<not> truthy (rate_limited_until a1) \<and> rate_limited_reason a1 = None then a1
      else a1\<lparr>rate_limited_until := None, rate_limited_reason := None\<rparr>)"
    using assms(1) nb by (auto simp: applySuccessRateLimitClear_def a1_def Let_def split: if_splits)
  then have "\<not> truthy (rate_limited_until a')" "rate_limited_reason a' = None" by auto
  moreover have "disabled a' = disabled a" "paused a' = paused a" by (auto simp: a' a1_def)
  moreover have "consecutive_rate_limits a' = 0 \<and> rate_limited_at a' = None"
    if "rate_limited_at a = Some x" "x \<noteq> 0" "now - x > RATE_LIMIT_RESET_STABILITY_MS" for x
    using that by (auto simp: a' a1_def getRateLimitResetStabilityMs_def)
  ultimately show ?thesis by (auto simp: isAccountAvailable_def)
qed

subsection \<open>Concrete instances\<close>

definition empty_cooldown :: cooldown_state where
  "empty_cooldown = \<lparr>probeLeases = [], leaseIdentity = 0, capacityRestoredPending = [],
     capacityGenerationCounter = 0, rolledBack = [], attemptLeases = [], writer_queue = [], cooldown_notes = []\<rparr>"

definition plain_429 :: rate_limit_info where
  "plain_429 = \<lparr>info_resetTime = None, info_reason = None, info_floorUntil = None\<rparr>"

definition burst_429 :: rate_limit_info where
  "burst_429 = \<lparr>info_resetTime = Some 5000, info_reason = Some Model_fallback_429, info_floorUntil = None\<rparr>"

lemma sample_fields:
  "info_resetTime plain_429 = None" "info_floorUntil plain_429 = None"
  "info_resetTime burst_429 = Some 5000" "info_floorUntil burst_429 = None"
  "info_reason burst_429 = Some Model_fallback_429"
  "consecutive_rate_limits recovered_account = 5" "rate_limited_at recovered_account = Some 100"
  "disabled recovered_account = False" "paused recovered_account = False"
  "isOAuthAnthropicAccount recovered_account"
  "writer_queue empty_cooldown = []" "probeLeases empty_cooldown = []"
  by (simp_all add: plain_429_def burst_429_def recovered_account_def empty_cooldown_def isOAuthAnthropicAccount_iff)

lemma backoff_ceiling: "computeRateLimitBackoffMs 6 = 300000"
  by (simp add: computeRateLimitBackoffMs_def RATE_LIMIT_BACKOFF_BASE_MS_def RATE_LIMIT_BACKOFF_MAX_MS_def)

end
