(* ===== verification/BridgePolicy.thy ===== *)
theory BridgePolicy
  imports JsBase
begin

section \<open>The economics of the session cache bridge\<close>

text \<open>
  \<^verbatim>\<open>proxy/src/bridge-policy.ts\<close> and \<^verbatim>\<open>proxy/src/bridge-stats.ts\<close>: what a keepalive of an idle
  session's prompt cache may cost. Rates are USD per million tokens. A setting that may be
  \<^verbatim>\<open>NaN\<close> or infinite is an option (absent when not finite); the other numbers come from a
  price table and from counters and are finite, so their \<^verbatim>\<open>isFinite\<close> tests hold.
  Shown: hours and risk factors convert to each other exactly inside the clamp, a miss always costs
  more than the whole budget, and the number of hits that fit the budget does not depend on the
  size of the session.
\<close>

definition PREMIUM_CACHE_PROVIDERS :: "string list" where
  "PREMIUM_CACHE_PROVIDERS = [''anthropic'']"

definition isBridgeableProvider :: "string option \<Rightarrow> bool" where
  "isBridgeableProvider p \<longleftrightarrow> (case p of None \<Rightarrow> False | Some x \<Rightarrow> x \<in> set PREMIUM_CACHE_PROVIDERS)"

definition RISK_FACTOR :: rat where "RISK_FACTOR = 4 / 10"
definition DEFAULT_MIN_CACHE_TOKENS :: int where "DEFAULT_MIN_CACHE_TOKENS = 100000"
definition MAX_SESSION_SLOTS :: nat where "MAX_SESSION_SLOTS = 100"
definition MAX_SESSION_BRIDGE_BYTES :: int where "MAX_SESSION_BRIDGE_BYTES = 64 * 1024 * 1024"
definition MAX_SESSION_BODY_BYTES :: int where "MAX_SESSION_BODY_BYTES = 2 * 1024 * 1024"
definition MAX_KEEPALIVE_FAILURES :: nat where "MAX_KEEPALIVE_FAILURES = 3"
definition KEEPALIVE_REFRESH_MS :: int where "KEEPALIVE_REFRESH_MS = 3 * 60000"
definition PROMOTE_AFTER_TURNS :: nat where "PROMOTE_AFTER_TURNS = 3"
definition IDLE_GAP_FOR_PROMOTION_MS :: int where "IDLE_GAP_FOR_PROMOTION_MS = 3 * 60000"
definition DESTICK_AFTER_ACTIVE_TURNS :: nat where "DESTICK_AFTER_ACTIVE_TURNS = 5"
definition KEEPALIVE_REFRESH_1H_MS :: int where "KEEPALIVE_REFRESH_1H_MS = 50 * 60000"
definition ONE_HOUR_WRITE_MULT :: rat where "ONE_HOUR_WRITE_MULT = 2"
definition CACHE_READ_MULT :: rat where "CACHE_READ_MULT = 1 / 10"
definition FIVE_MINUTE_WRITE_MULT :: rat where "FIVE_MINUTE_WRITE_MULT = 125 / 100"
definition MAX_RISK_FACTOR :: rat where "MAX_RISK_FACTOR = 1"
definition MAX_PROMOTION_TRACKER_ENTRIES :: nat where "MAX_PROMOTION_TRACKER_ENTRIES = 500"

definition BRIDGE_HOURS_PER_RISK_UNIT :: rat where
  "BRIDGE_HOURS_PER_RISK_UNIT = (FIVE_MINUTE_WRITE_MULT - CACHE_READ_MULT) / CACHE_READ_MULT
     * (of_int KEEPALIVE_REFRESH_1H_MS / 3600000)"

definition MAX_BRIDGE_HOURS :: rat where
  "MAX_BRIDGE_HOURS = MAX_RISK_FACTOR * BRIDGE_HOURS_PER_RISK_UNIT"

definition clampRiskFactor :: "rat option \<Rightarrow> rat" where
  "clampRiskFactor r = (case r of None \<Rightarrow> RISK_FACTOR | Some x \<Rightarrow> min (max x 0) MAX_RISK_FACTOR)"

definition riskFactorToBridgeHours :: "rat option \<Rightarrow> rat" where
  "riskFactorToBridgeHours r = clampRiskFactor r * BRIDGE_HOURS_PER_RISK_UNIT"

definition clampBridgeHours :: "rat option \<Rightarrow> rat" where
  "clampBridgeHours h = (case h of None \<Rightarrow> riskFactorToBridgeHours (Some RISK_FACTOR)
     | Some x \<Rightarrow> min (max x 0) MAX_BRIDGE_HOURS)"

definition bridgeHoursToRiskFactor :: "rat option \<Rightarrow> rat" where
  "bridgeHoursToRiskFactor h = (case h of None \<Rightarrow> RISK_FACTOR
     | Some x \<Rightarrow> clampRiskFactor (Some (x / BRIDGE_HOURS_PER_RISK_UNIT)))"

definition hasCacheWritePremium :: "rat \<Rightarrow> rat \<Rightarrow> bool" where
  "hasCacheWritePremium cacheRead cacheWrite \<longleftrightarrow> cacheRead > 0 \<and> cacheWrite > cacheRead"

definition keepaliveBudgetUsd :: "int \<Rightarrow> rat \<Rightarrow> rat \<Rightarrow> rat option \<Rightarrow> rat" where
  "keepaliveBudgetUsd cachedTokens cacheRead cacheWrite riskFactor =
     (if cachedTokens \<le> 0 \<or> \<not> hasCacheWritePremium cacheRead cacheWrite then 0
      else (cacheWrite - cacheRead) / 1000000 * of_int cachedTokens * clampRiskFactor riskFactor)"

definition keepaliveHitCostUsd :: "int \<Rightarrow> rat \<Rightarrow> rat" where
  "keepaliveHitCostUsd cachedTokens cacheRead =
     (if cachedTokens \<le> 0 \<or> cacheRead \<le> 0 then 0 else cacheRead / 1000000 * of_int cachedTokens)"

definition keepaliveMissCostUsd :: "int \<Rightarrow> rat \<Rightarrow> rat" where
  "keepaliveMissCostUsd cachedTokens cacheWrite =
     (if cachedTokens \<le> 0 \<or> cacheWrite \<le> 0 then 0 else cacheWrite / 1000000 * of_int cachedTokens)"

definition resumePenaltyUsd :: "int \<Rightarrow> rat \<Rightarrow> rat \<Rightarrow> rat" where
  "resumePenaltyUsd cachedTokens cacheRead cacheWrite =
     (if cachedTokens \<le> 0 \<or> \<not> hasCacheWritePremium cacheRead cacheWrite then 0
      else (cacheWrite - cacheRead) / 1000000 * of_int cachedTokens)"

definition isEligibleByTokens :: "int \<Rightarrow> int \<Rightarrow> bool" where
  "isEligibleByTokens cachedTokens minTokens \<longleftrightarrow> cachedTokens \<ge> minTokens"

subsection \<open>Telemetry\<close>

record bridge_stats =
  st_keepalivesSent :: nat
  st_hits :: nat
  st_misses :: nat
  st_failures :: nat
  st_warmResumes :: nat
  st_spentUsd :: rat
  st_savedUsd :: rat
  st_savedUsdConservative :: rat

definition no_stats :: bridge_stats where
  "no_stats = \<lparr>st_keepalivesSent = 0, st_hits = 0, st_misses = 0, st_failures = 0, st_warmResumes = 0,
     st_spentUsd = 0, st_savedUsd = 0, st_savedUsdConservative = 0\<rparr>"

text \<open>\<^verbatim>\<open>Number.isFinite(x) && x > 0 ? x : 0\<close>\<close>

definition positive :: "rat \<Rightarrow> rat" where
  "positive x = (if x > 0 then x else 0)"

definition recordResult :: "bool \<Rightarrow> rat \<Rightarrow> bridge_stats \<Rightarrow> bridge_stats" where
  "recordResult hit cost st = st\<lparr>st_keepalivesSent := st_keepalivesSent st + 1,
     st_hits := st_hits st + (if hit then 1 else 0), st_misses := st_misses st + (if hit then 0 else 1),
     st_spentUsd := st_spentUsd st + positive cost\<rparr>"

definition recordFailure :: "rat \<Rightarrow> bridge_stats \<Rightarrow> bridge_stats" where
  "recordFailure estimatedCost st = st\<lparr>st_failures := st_failures st + 1,
     st_spentUsd := st_spentUsd st + positive estimatedCost\<rparr>"

definition recordWarmResume :: "rat \<Rightarrow> rat \<Rightarrow> bridge_stats \<Rightarrow> bridge_stats" where
  "recordWarmResume saved conservative st = st\<lparr>st_warmResumes := st_warmResumes st + 1,
     st_savedUsd := st_savedUsd st + positive saved,
     st_savedUsdConservative := st_savedUsdConservative st + positive conservative\<rparr>"

definition netUsd :: "bridge_stats \<Rightarrow> rat" where
  "netUsd st = st_savedUsd st - st_spentUsd st"

definition netUsdConservative :: "bridge_stats \<Rightarrow> rat" where
  "netUsdConservative st = st_savedUsdConservative st - st_spentUsd st"

definition hitRate :: "bridge_stats \<Rightarrow> rat" where
  "hitRate st = (let decided = st_hits st + st_misses st in
     if decided > 0 then of_nat (st_hits st) / of_nat decided else 0)"

definition seed :: "bridge_stats \<Rightarrow> bridge_stats \<Rightarrow> bridge_stats" where
  "seed prior st = prior\<lparr>st_spentUsd := positive (st_spentUsd prior), st_savedUsd := positive (st_savedUsd prior),
     st_savedUsdConservative := positive (st_savedUsdConservative prior)\<rparr>"

definition reset_stats :: "bridge_stats \<Rightarrow> bridge_stats" where
  "reset_stats st = no_stats"

subsection \<open>Lemmas\<close>

lemma clamp_bounds: "0 \<le> clampRiskFactor r" "clampRiskFactor r \<le> 1"
  by (auto simp: clampRiskFactor_def RISK_FACTOR_def MAX_RISK_FACTOR_def split: option.split)

lemma hours_per_unit_pos: "0 < BRIDGE_HOURS_PER_RISK_UNIT"
  by (simp add: BRIDGE_HOURS_PER_RISK_UNIT_def FIVE_MINUTE_WRITE_MULT_def CACHE_READ_MULT_def KEEPALIVE_REFRESH_1H_MS_def)

lemma hit_cost_nonneg: "0 \<le> keepaliveHitCostUsd n r"
  by (simp add: keepaliveHitCostUsd_def)

lemma miss_cost_nonneg: "0 \<le> keepaliveMissCostUsd n r"
  by (simp add: keepaliveMissCostUsd_def)

text \<open>The budget is at most the avoided penalty, and the penalty is below the cost of a miss.\<close>

lemma budget_le_penalty: "keepaliveBudgetUsd n r w f \<le> resumePenaltyUsd n r w"
  using clamp_bounds [of f]
  by (auto simp: keepaliveBudgetUsd_def resumePenaltyUsd_def hasCacheWritePremium_def
      intro!: mult_left_le)

lemma penalty_less_miss:
  assumes "0 < n" and "hasCacheWritePremium r w" and "w \<le> w'"
  shows "resumePenaltyUsd n r w < keepaliveMissCostUsd n w'"
proof -
  have "(w - r) / 1000000 * of_int n < w' / 1000000 * of_int n"
    using assms by (intro mult_strict_right_mono) (auto simp: hasCacheWritePremium_def divide_strict_right_mono)
  then show ?thesis using assms by (auto simp: resumePenaltyUsd_def keepaliveMissCostUsd_def hasCacheWritePremium_def)
qed

lemma miss_exceeds_budget:
  assumes "0 < n" and "hasCacheWritePremium r w" and "w \<le> w'"
  shows "keepaliveBudgetUsd n r w f < keepaliveMissCostUsd n w'"
  using budget_le_penalty [of n r w f] penalty_less_miss [OF assms] by linarith

text \<open>The number of hits a budget pays for, at Anthropic's ratios of the rates.\<close>

lemma hits_in_budget:
  assumes "0 < n" and "0 < input" and "r = CACHE_READ_MULT * input" and "w = FIVE_MINUTE_WRITE_MULT * input"
  shows "keepaliveBudgetUsd n r w f = 23 / 2 * clampRiskFactor f * keepaliveHitCostUsd n r"
  using assms by (simp add: keepaliveBudgetUsd_def keepaliveHitCostUsd_def hasCacheWritePremium_def CACHE_READ_MULT_def
      FIVE_MINUTE_WRITE_MULT_def field_simps)

subsection \<open>Properties\<close>

text \<open>
  The bridge horizon shown in hours and the stored risk factor are the same setting: converting
  either way and back gives the clamped value, every value is inside the clamp, and the factor of
  the horizon \<open>h\<close> lets a promoted session at Anthropic's rates pay for hits, at one every fifty
  minutes, for exactly \<open>h\<close> hours.
\<close>

lemma bridge_horizon_roundtrip:
  "bridgeHoursToRiskFactor (Some (riskFactorToBridgeHours r)) = clampRiskFactor r
    \<and> riskFactorToBridgeHours (Some (bridgeHoursToRiskFactor h)) = clampBridgeHours h
    \<and> (0 < n \<and> 0 < input \<longrightarrow>
        keepaliveBudgetUsd n (CACHE_READ_MULT * input) (FIVE_MINUTE_WRITE_MULT * input) (Some (bridgeHoursToRiskFactor h)) =
          clampBridgeHours h / (of_int KEEPALIVE_REFRESH_1H_MS / 3600000) * keepaliveHitCostUsd n (CACHE_READ_MULT * input))"
proof -
  have id: "clampRiskFactor (Some (clampRiskFactor x)) = clampRiskFactor x" for x
    using clamp_bounds [of x] by (simp add: clampRiskFactor_def [of "Some _"] MAX_RISK_FACTOR_def)
  have to_factor: "bridgeHoursToRiskFactor (Some (riskFactorToBridgeHours r)) = clampRiskFactor r"
    using hours_per_unit_pos by (simp add: bridgeHoursToRiskFactor_def riskFactorToBridgeHours_def id)
  have hours: "riskFactorToBridgeHours (Some (bridgeHoursToRiskFactor h)) = clampBridgeHours h"
  proof (cases h)
    case None
    then show ?thesis by (simp add: bridgeHoursToRiskFactor_def clampBridgeHours_def)
  next
    case (Some x)
    have "clampRiskFactor (Some (x / BRIDGE_HOURS_PER_RISK_UNIT)) * BRIDGE_HOURS_PER_RISK_UNIT = clampBridgeHours (Some x)"
      using hours_per_unit_pos
      by (auto simp: clampRiskFactor_def clampBridgeHours_def MAX_BRIDGE_HOURS_def MAX_RISK_FACTOR_def min_def max_def
          field_simps)
    then show ?thesis using Some by (simp add: riskFactorToBridgeHours_def bridgeHoursToRiskFactor_def id)
  qed
  have "clampRiskFactor (Some (bridgeHoursToRiskFactor h)) * BRIDGE_HOURS_PER_RISK_UNIT = clampBridgeHours h"
    using hours by (simp add: riskFactorToBridgeHours_def)
  then have unit: "23 / 2 * clampRiskFactor (Some (bridgeHoursToRiskFactor h)) = clampBridgeHours h / (of_int KEEPALIVE_REFRESH_1H_MS / 3600000)"
    by (simp add: BRIDGE_HOURS_PER_RISK_UNIT_def FIVE_MINUTE_WRITE_MULT_def CACHE_READ_MULT_def KEEPALIVE_REFRESH_1H_MS_def)
  have "keepaliveBudgetUsd n (CACHE_READ_MULT * input) (FIVE_MINUTE_WRITE_MULT * input) (Some (bridgeHoursToRiskFactor h)) =
      clampBridgeHours h / (of_int KEEPALIVE_REFRESH_1H_MS / 3600000) * keepaliveHitCostUsd n (CACHE_READ_MULT * input)"
    if "0 < n" "0 < input"
    by (simp only: hits_in_budget [OF that refl refl, of "Some (bridgeHoursToRiskFactor h)"] unit)
  with to_factor hours show ?thesis by blast
qed

end
