(* ===== verification/SessionBridge.thy ===== *)
theory SessionBridge
  imports BridgePolicy
begin

section \<open>The store of warm session bodies\<close>

text \<open>
  \<^verbatim>\<open>proxy/src/session-cache-store.ts\<close> with the batch selection of
  \<^verbatim>\<open>proxy/src/cache-keepalive-scheduler.ts\<close>. A body is a string of bytes; the request headers are
  left out, and the price table \<^verbatim>\<open>getModelCacheRates\<close> and the inspection of a body's TTL are
  parameters of \<open>register\<close>. The telemetry singleton is a field of the state.
  Shown: under every sequence of operations the byte count is that of the stored bodies and all
  three memory bounds hold; eviction takes the least valuable slot; within one idle period a session
  is charged at most its budget plus one charge, and is not replayed again after a miss.
\<close>

record cache_rates =
  inputPer1M :: rat
  cacheReadPer1M :: rat
  cacheWritePer1M :: rat

record session_slot =
  slot_accountId :: string
  slot_sessionKey :: string
  slot_body :: string
  slot_path :: string
  slot_model :: "string option"
  slot_cachedTokens :: int
  slot_cacheReadPer1M :: rat
  slot_cacheWritePer1M :: rat
  slot_cacheWriteEffectivePer1M :: rat
  slot_priorityUsd :: rat
  slot_budgetUsd :: rat
  slot_spentUsd :: rat
  slot_lastActivityTs :: int
  slot_lastKeepaliveTs :: "int option"
  slot_keepaliveFailures :: nat
  slot_keepaliveCount :: nat
  slot_refreshMs :: int

record register_params =
  reg_accountId :: string
  reg_sessionKey :: string
  reg_body :: string
  reg_path :: string
  reg_model :: "string option"
  reg_cacheReadTokens :: int
  reg_cacheCreationTokens :: int

record session_cache =
  slots :: "(string, session_slot) jsmap"
  totalBytes :: int
  enabled :: bool
  minTokens :: int
  riskFactor :: rat
  stats :: bridge_stats

definition new_session_cache :: session_cache where
  "new_session_cache = \<lparr>slots = [], totalBytes = 0, enabled = False, minTokens = DEFAULT_MIN_CACHE_TOKENS,
     riskFactor = RISK_FACTOR, stats = no_stats\<rparr>"

definition slot_key :: "string \<Rightarrow> string \<Rightarrow> string" where
  "slot_key accountId sessionKey = accountId @ '':'' @ sessionKey"

definition body_bytes :: "session_slot \<Rightarrow> int" where
  "body_bytes x = int (length (slot_body x))"

definition clear_slots :: "session_cache \<Rightarrow> session_cache" where
  "clear_slots s = s\<lparr>slots := [], totalBytes := 0\<rparr>"

definition deleteKey :: "string \<Rightarrow> session_cache \<Rightarrow> session_cache" where
  "deleteKey k s = (case jm_get (slots s) k of
     None \<Rightarrow> s
   | Some x \<Rightarrow> s\<lparr>totalBytes := totalBytes s - body_bytes x, slots := jm_delete (slots s) k\<rparr>)"

definition setEnabled :: "bool \<Rightarrow> session_cache \<Rightarrow> session_cache" where
  "setEnabled on s = (let s1 = s\<lparr>enabled := on\<rparr> in if on then s1 else clear_slots s1)"

definition setMinTokens :: "int option \<Rightarrow> session_cache \<Rightarrow> session_cache" where
  "setMinTokens n s =
     (let s1 = s\<lparr>minTokens := (case n of Some m \<Rightarrow> if m > 0 then m else 0 | None \<Rightarrow> 0)\<rparr>
      in foldl (\<lambda>s (k, x). if slot_cachedTokens x < minTokens s then deleteKey k s else s) s1 (slots s1))"

definition rebudget :: "rat \<Rightarrow> session_slot \<Rightarrow> session_slot" where
  "rebudget f x = x\<lparr>slot_budgetUsd := keepaliveBudgetUsd (slot_cachedTokens x) (slot_cacheReadPer1M x)
     (slot_cacheWritePer1M x) (Some f)\<rparr>"

definition setRiskFactor :: "rat option \<Rightarrow> session_cache \<Rightarrow> session_cache" where
  "setRiskFactor r s = (let f = clampRiskFactor r in
     s\<lparr>riskFactor := f, slots := map (\<lambda>(k, x). (k, rebudget f x)) (slots s)\<rparr>)"

definition bookWarmResume :: "session_slot \<Rightarrow> int \<Rightarrow> session_cache \<Rightarrow> session_cache" where
  "bookWarmResume x readTokens s =
     (if slot_spentUsd x \<le> 0 then s
      else let tokens = of_int (if readTokens > 0 then min readTokens (slot_cachedTokens x) else slot_cachedTokens x)
           in s\<lparr>stats := recordWarmResume
                ((slot_cacheWriteEffectivePer1M x - slot_cacheReadPer1M x) / 1000000 * tokens)
                ((slot_cacheWritePer1M x - slot_cacheReadPer1M x) / 1000000 * tokens) (stats s)\<rparr>)"

text \<open>The least valuable slot, the oldest one among equals, the first one among those.\<close>

definition better_victim :: "string \<times> session_slot \<Rightarrow> string \<times> session_slot \<Rightarrow> bool" where
  "better_victim x v \<longleftrightarrow> slot_priorityUsd (snd x) < slot_priorityUsd (snd v)
     \<or> slot_priorityUsd (snd x) = slot_priorityUsd (snd v) \<and> slot_lastActivityTs (snd x) < slot_lastActivityTs (snd v)"

definition pick_victim :: "(string, session_slot) jsmap \<Rightarrow> (string \<times> session_slot) option" where
  "pick_victim m = foldl (\<lambda>v x. case v of None \<Rightarrow> Some x | Some y \<Rightarrow> if better_victim x y then Some x else Some y) None m"

definition over_bounds :: "session_cache \<Rightarrow> bool" where
  "over_bounds s \<longleftrightarrow> length (slots s) > MAX_SESSION_SLOTS \<or> totalBytes s > MAX_SESSION_BRIDGE_BYTES"

lemma pick_victim_fold:
  "foldl (\<lambda>v x. case v of None \<Rightarrow> Some x | Some y \<Rightarrow> if better_victim x y then Some x else Some y) (Some v) m = Some w \<Longrightarrow>
    w \<in> insert v (set m)"
  by (induction m arbitrary: v) (auto split: if_splits)

lemma pick_victim_in: "pick_victim m = Some x \<Longrightarrow> x \<in> set m"
proof (cases m)
  case (Cons y ys)
  then show "pick_victim m = Some x \<Longrightarrow> x \<in> set m"
    using pick_victim_fold [of y ys x] by (auto simp: pick_victim_def)
qed (simp add: pick_victim_def)

lemma delete_key_shorter:
  assumes "(k, x) \<in> set (slots s)"
  shows "length (slots (deleteKey k s)) < length (slots s)"
proof -
  have k: "k \<in> set (jm_keys (slots s))" using assms by (force simp: image_iff)
  then obtain y where "jm_get (slots s) k = Some y" using jm_get_None [of "slots s" k] by fastforce
  moreover have "length (jm_delete (slots s) k) < length (slots s)"
    using assms by (induction "slots s") (auto simp: jm_delete_filter intro!: length_filter_less)
  ultimately show ?thesis by (simp add: deleteKey_def)
qed

function enforceBounds :: "session_cache \<Rightarrow> session_cache" where
  "enforceBounds s =
     (if over_bounds s then (case pick_victim (slots s) of None \<Rightarrow> s | Some (k, _) \<Rightarrow> enforceBounds (deleteKey k s)) else s)"
  by pat_completeness auto

termination
  by (relation "measure (\<lambda>s. length (slots s))") (auto dest: pick_victim_in intro: delete_key_shorter)

declare enforceBounds.simps [simp del]

definition registered_slot :: "cache_rates \<Rightarrow> bool \<Rightarrow> int \<Rightarrow> register_params \<Rightarrow> rat \<Rightarrow> session_slot" where
  "registered_slot rates oneHour now p f =
     (let cachedTokens = reg_cacheReadTokens p + reg_cacheCreationTokens p in
      \<lparr>slot_accountId = reg_accountId p, slot_sessionKey = reg_sessionKey p,
       slot_body = reg_body p, slot_path = reg_path p, slot_model = reg_model p,
       slot_cachedTokens = cachedTokens, slot_cacheReadPer1M = cacheReadPer1M rates,
       slot_cacheWritePer1M = cacheWritePer1M rates,
       slot_cacheWriteEffectivePer1M =
         (if oneHour then inputPer1M rates * ONE_HOUR_WRITE_MULT else cacheWritePer1M rates),
       slot_priorityUsd = resumePenaltyUsd cachedTokens (cacheReadPer1M rates) (cacheWritePer1M rates),
       slot_budgetUsd = keepaliveBudgetUsd cachedTokens (cacheReadPer1M rates) (cacheWritePer1M rates) (Some f),
       slot_spentUsd = 0, slot_lastActivityTs = now, slot_lastKeepaliveTs = None,
       slot_keepaliveFailures = 0, slot_keepaliveCount = 0,
       slot_refreshMs = (if oneHour then KEEPALIVE_REFRESH_1H_MS else KEEPALIVE_REFRESH_MS)\<rparr>)"

definition register ::
  "(string \<Rightarrow> cache_rates) \<Rightarrow> (string \<Rightarrow> bool) \<Rightarrow> int \<Rightarrow> register_params \<Rightarrow> session_cache \<Rightarrow> session_cache" where
  "register getModelCacheRates isOneHourBody now p s =
     (if \<not> enabled s then s
      else
        let key = slot_key (reg_accountId p) (reg_sessionKey p);
            cachedTokens = reg_cacheReadTokens p + reg_cacheCreationTokens p;
            s1 = (case jm_get (slots s) key of
                    None \<Rightarrow> s
                  | Some prev \<Rightarrow> if reg_cacheReadTokens p > 0 then bookWarmResume prev (reg_cacheReadTokens p) s else s);
            rates = getModelCacheRates (case reg_model p of None \<Rightarrow> [] | Some m \<Rightarrow> m)
        in if \<not> isEligibleByTokens cachedTokens (minTokens s1) then deleteKey key s1
           else if \<not> hasCacheWritePremium (cacheReadPer1M rates) (cacheWritePer1M rates) then deleteKey key s1
           else if int (length (reg_body p)) > MAX_SESSION_BODY_BYTES then deleteKey key s1
           else
             let slot = registered_slot rates (isOneHourBody (reg_body p)) now p (riskFactor s1);
                 s2 = deleteKey key s1
             in enforceBounds (s2\<lparr>slots := jm_set (slots s2) key slot, totalBytes := totalBytes s2 + body_bytes slot\<rparr>))"

subsection \<open>Keepalives\<close>

definition slot_due :: "int \<Rightarrow> session_slot \<Rightarrow> bool" where
  "slot_due now x \<longleftrightarrow> slot_budgetUsd x > 0 \<and> slot_spentUsd x < slot_budgetUsd x
     \<and> \<not> now - max (slot_lastActivityTs x) (case slot_lastKeepaliveTs x of None \<Rightarrow> 0 | Some t \<Rightarrow> t) < slot_refreshMs x"

definition getEligibleSessions :: "int \<Rightarrow> session_cache \<Rightarrow> session_slot list" where
  "getEligibleSessions now s =
     js_sort (\<lambda>a b. cmp_num (slot_priorityUsd b) (slot_priorityUsd a)) (filter (slot_due now) (map snd (slots s)))"

definition MAX_BRIDGE_KEEPALIVES_PER_TICK :: nat where
  "MAX_BRIDGE_KEEPALIVES_PER_TICK = 20"

text \<open>The batch of one tick: each slot with the activity stamp it was selected under.\<close>

definition keepalive_batch :: "int \<Rightarrow> session_cache \<Rightarrow> (session_slot \<times> int) list" where
  "keepalive_batch now s = map (\<lambda>x. (x, slot_lastActivityTs x))
     (take MAX_BRIDGE_KEEPALIVES_PER_TICK (getEligibleSessions now s))"

definition stale_outcome :: "int option \<Rightarrow> session_slot \<Rightarrow> bool" where
  "stale_outcome expected x \<longleftrightarrow> expected \<noteq> None \<and> expected \<noteq> Some (slot_lastActivityTs x)"

definition keepalive_cost :: "bool \<Rightarrow> session_slot \<Rightarrow> rat" where
  "keepalive_cost cacheHit x = (if cacheHit then keepaliveHitCostUsd (slot_cachedTokens x) (slot_cacheReadPer1M x)
     else keepaliveMissCostUsd (slot_cachedTokens x) (slot_cacheWriteEffectivePer1M x))"

definition recordKeepaliveResult ::
  "string \<Rightarrow> string \<Rightarrow> bool \<Rightarrow> int \<Rightarrow> int option \<Rightarrow> session_cache \<Rightarrow> session_cache" where
  "recordKeepaliveResult accountId sessionKey cacheHit now expected s =
     (let key = slot_key accountId sessionKey in
      case jm_get (slots s) key of
        None \<Rightarrow> s
      | Some x \<Rightarrow>
          if stale_outcome expected x then s
          else let cost = keepalive_cost cacheHit x
               in s\<lparr>slots := jm_set (slots s) key (x\<lparr>slot_spentUsd := slot_spentUsd x + cost,
                      slot_lastKeepaliveTs := Some now, slot_keepaliveCount := slot_keepaliveCount x + 1,
                      slot_keepaliveFailures := 0\<rparr>),
                    stats := recordResult cacheHit cost (stats s)\<rparr>)"

definition recordKeepaliveFailure ::
  "string \<Rightarrow> string \<Rightarrow> int \<Rightarrow> int option \<Rightarrow> bool \<Rightarrow> session_cache \<Rightarrow> session_cache" where
  "recordKeepaliveFailure accountId sessionKey now expected usageUnknown s =
     (let key = slot_key accountId sessionKey in
      case jm_get (slots s) key of
        None \<Rightarrow> s
      | Some x \<Rightarrow>
          if stale_outcome expected x then s
          else if usageUnknown then
            deleteKey key (s\<lparr>stats := recordFailure (keepalive_cost False x) (stats s)\<rparr>)
          else let x' = x\<lparr>slot_lastKeepaliveTs := Some now, slot_keepaliveFailures := slot_keepaliveFailures x + 1\<rparr>;
                   s1 = s\<lparr>stats := recordFailure 0 (stats s), slots := jm_set (slots s) key x'\<rparr>
               in if slot_keepaliveFailures x' \<ge> MAX_KEEPALIVE_FAILURES then deleteKey key s1 else s1)"

definition touchActivity :: "string \<Rightarrow> string \<Rightarrow> int \<Rightarrow> int \<Rightarrow> session_cache \<Rightarrow> session_cache" where
  "touchActivity accountId sessionKey now readTokens s =
     (let key = slot_key accountId sessionKey in
      case jm_get (slots s) key of
        None \<Rightarrow> s
      | Some x \<Rightarrow>
          (let s1 = bookWarmResume x readTokens s
           in s1\<lparr>slots := jm_set (slots s1) key (x\<lparr>slot_lastActivityTs := now, slot_spentUsd := 0,
                slot_lastKeepaliveTs := None, slot_keepaliveCount := 0\<rparr>)\<rparr>))"

definition evictSession :: "string \<Rightarrow> string \<Rightarrow> int \<Rightarrow> session_cache \<Rightarrow> session_cache" where
  "evictSession accountId sessionKey expected s =
     (let key = slot_key accountId sessionKey in
      case jm_get (slots s) key of
        None \<Rightarrow> s
      | Some x \<Rightarrow> if slot_lastActivityTs x \<noteq> expected then s else deleteKey key s)"

definition evictAccount :: "string \<Rightarrow> session_cache \<Rightarrow> session_cache" where
  "evictAccount accountId s =
     foldl (\<lambda>s (k, x). if slot_accountId x = accountId then deleteKey k s else s) s (slots s)"

definition getPromotedSessions :: "session_cache \<Rightarrow> nat" where
  "getPromotedSessions s = length (filter (\<lambda>(_, x). slot_refreshMs x = KEEPALIVE_REFRESH_1H_MS) (slots s))"

subsection \<open>Runs\<close>

datatype bridge_event =
    Set_enabled bool
  | Set_min_tokens "int option"
  | Set_risk_factor "rat option"
  | Register int register_params
  | Keepalive_result string string bool int "int option"
  | Keepalive_failure string string int "int option" bool
  | Touch string string int int
  | Evict_session string string int
  | Evict_account string

definition bridge_step ::
  "(string \<Rightarrow> cache_rates) \<Rightarrow> (string \<Rightarrow> bool) \<Rightarrow> session_cache \<Rightarrow> bridge_event \<Rightarrow> session_cache" where
  "bridge_step rates oneHour s ev = (case ev of
     Set_enabled on \<Rightarrow> setEnabled on s
   | Set_min_tokens n \<Rightarrow> setMinTokens n s
   | Set_risk_factor r \<Rightarrow> setRiskFactor r s
   | Register now p \<Rightarrow> register rates oneHour now p s
   | Keepalive_result a k hit now expected \<Rightarrow> recordKeepaliveResult a k hit now expected s
   | Keepalive_failure a k now expected unknown \<Rightarrow> recordKeepaliveFailure a k now expected unknown s
   | Touch a k now n \<Rightarrow> touchActivity a k now n s
   | Evict_session a k expected \<Rightarrow> evictSession a k expected s
   | Evict_account a \<Rightarrow> evictAccount a s)"

definition bytes_of :: "(string, session_slot) jsmap \<Rightarrow> int" where
  "bytes_of m = sum_list (map (\<lambda>(_, x). body_bytes x) m)"

definition slot_ok :: "rat \<Rightarrow> string \<Rightarrow> session_slot \<Rightarrow> bool" where
  "slot_ok f k x \<longleftrightarrow> k = slot_key (slot_accountId x) (slot_sessionKey x) \<and> body_bytes x \<le> MAX_SESSION_BODY_BYTES
     \<and> 0 \<le> slot_spentUsd x \<and> slot_keepaliveFailures x < MAX_KEEPALIVE_FAILURES
     \<and> slot_budgetUsd x = keepaliveBudgetUsd (slot_cachedTokens x) (slot_cacheReadPer1M x) (slot_cacheWritePer1M x) (Some f)"

text \<open>What holds even before the bounds are enforced.\<close>

definition bridge_wf :: "session_cache \<Rightarrow> bool" where
  "bridge_wf s \<longleftrightarrow> jm_wf (slots s) \<and> totalBytes s = bytes_of (slots s)
     \<and> (\<forall>k x. jm_get (slots s) k = Some x \<longrightarrow> slot_ok (riskFactor s) k x)"

definition bridge_inv :: "session_cache \<Rightarrow> bool" where
  "bridge_inv s \<longleftrightarrow> bridge_wf s \<and> \<not> over_bounds s \<and> (enabled s \<or> slots s = [])"

subsection \<open>Lemmas\<close>

lemma bytes_delete:
  "jm_wf m \<Longrightarrow> jm_get m k = Some x \<Longrightarrow> bytes_of (jm_delete m k) = bytes_of m - body_bytes x"
  by (induction m) (auto simp: bytes_of_def jm_get_def jm_delete_def split: if_splits)

lemma bytes_set_new: "k \<notin> set (jm_keys m) \<Longrightarrow> bytes_of (jm_set m k x) = bytes_of m + body_bytes x"
  by (simp add: jm_set_new bytes_of_def)

lemma bytes_set_same:
  "jm_get m k = Some x \<Longrightarrow> slot_body y = slot_body x \<Longrightarrow> bytes_of (jm_set m k y) = bytes_of m"
  by (induction m) (auto simp: bytes_of_def jm_get_def jm_set_def body_bytes_def split: if_splits)

lemma length_set_same: "jm_has m k \<Longrightarrow> length (jm_set m k y) = length m"
  by (induction m) (auto simp: jm_has_def jm_get_def jm_set_def split: if_splits)

lemma bridge_wfD:
  assumes "bridge_wf s"
  shows "jm_wf (slots s)" "totalBytes s = bytes_of (slots s)" "jm_get (slots s) k = Some x \<Longrightarrow> slot_ok (riskFactor s) k x"
  using assms by (auto simp: bridge_wf_def)

lemma delete_key_fields [simp]:
  "riskFactor (deleteKey k s) = riskFactor s" "minTokens (deleteKey k s) = minTokens s"
  "enabled (deleteKey k s) = enabled s" "stats (deleteKey k s) = stats s"
  by (simp_all add: deleteKey_def split: option.split)

lemma delete_key_slots [simp]: "slots (deleteKey k s) = jm_delete (slots s) k"
proof (cases "jm_get (slots s) k")
  case None
  then show ?thesis using jm_get_None [of "slots s" k] by (simp add: deleteKey_def jm_delete_new)
qed (simp add: deleteKey_def)

lemma delete_key_bytes: "totalBytes (deleteKey k s) \<le> totalBytes s"
  by (simp add: deleteKey_def body_bytes_def split: option.split)

lemma delete_key_wf: "bridge_wf s \<Longrightarrow> bridge_wf (deleteKey k s)"
  by (auto simp: bridge_wf_def jm_wf_delete deleteKey_def bytes_delete split: option.splits if_splits)

lemma over_bounds_mono:
  "\<not> over_bounds s \<Longrightarrow> length (slots s') \<le> length (slots s) \<Longrightarrow> totalBytes s' \<le> totalBytes s \<Longrightarrow> \<not> over_bounds s'"
  by (auto simp: over_bounds_def)

lemma delete_key_inv: "bridge_inv s \<Longrightarrow> bridge_inv (deleteKey k s)"
  unfolding bridge_inv_def
  using delete_key_wf [of s k] over_bounds_mono [of s "deleteKey k s"] delete_key_bytes [of k s]
    jm_length_delete_le [of "slots s" k]
  by (auto simp: jm_delete_filter)

lemma fold_delete_inv:
  assumes "bridge_inv s"
  shows "bridge_inv (foldl (\<lambda>s (k, x). if P s k x then deleteKey k s else s) s xs)"
  using assms
proof (induction xs arbitrary: s)
  case (Cons e xs)
  obtain k x where e: "e = (k, x)" by fastforce
  have "bridge_inv (if P s k x then deleteKey k s else s)" using Cons.prems delete_key_inv by simp
  then show ?case using Cons.IH by (simp add: e)
qed simp

lemma stats_inv [simp]: "bridge_inv (s\<lparr>stats := st\<rparr>) = bridge_inv s"
  by (simp add: bridge_inv_def bridge_wf_def over_bounds_def)

lemma min_tokens_inv [simp]: "bridge_inv (s\<lparr>minTokens := n\<rparr>) = bridge_inv s"
  by (simp add: bridge_inv_def bridge_wf_def over_bounds_def)

lemma book_fields [simp]:
  "slots (bookWarmResume x n s) = slots s" "bridge_inv (bookWarmResume x n s) = bridge_inv s"
  "riskFactor (bookWarmResume x n s) = riskFactor s" "enabled (bookWarmResume x n s) = enabled s"
  "totalBytes (bookWarmResume x n s) = totalBytes s" "minTokens (bookWarmResume x n s) = minTokens s"
  by (simp_all add: bookWarmResume_def Let_def)

lemma pick_victim_Some: "m \<noteq> [] \<Longrightarrow> \<exists>v. pick_victim m = Some v"
proof -
  have "\<exists>w. foldl (\<lambda>v x. case v of None \<Rightarrow> Some x | Some y \<Rightarrow> if better_victim x y then Some x else Some y) (Some v) m = Some w" for v m
    by (induction m arbitrary: v) auto
  then show "m \<noteq> [] \<Longrightarrow> ?thesis" by (cases m) (auto simp: pick_victim_def)
qed

lemma enforce_inv: "bridge_wf s \<Longrightarrow> enabled s \<Longrightarrow> bridge_inv (enforceBounds s)"
proof (induction s rule: enforceBounds.induct)
  case (1 s)
  show ?case
  proof (cases "over_bounds s")
    case False
    with 1 show ?thesis by (simp add: enforceBounds.simps [of s] bridge_inv_def)
  next
    case True
    then have "slots s \<noteq> []"
      using bridge_wfD(2) [OF 1(2)] by (auto simp: over_bounds_def bytes_of_def MAX_SESSION_BRIDGE_BYTES_def)
    then obtain k x where v: "pick_victim (slots s) = Some (k, x)" using pick_victim_Some by fastforce
    with 1(1) [OF True v refl] delete_key_wf [OF 1(2)] 1(3) True show ?thesis
      by (simp add: enforceBounds.simps [of s])
  qed
qed

text \<open>Replacing a slot by one with the same body.\<close>

lemma update_slot_inv:
  assumes "bridge_inv s" and "jm_get (slots s) k = Some x" and "slot_body y = slot_body x" and "slot_ok (riskFactor s) k y"
  shows "bridge_inv (s\<lparr>slots := jm_set (slots s) k y\<rparr>)"
proof -
  have "length (jm_set (slots s) k y) = length (slots s)"
    using assms(2) by (intro length_set_same) (simp add: jm_has_def)
  moreover have "enabled s" using assms(1,2) by (auto simp: bridge_inv_def)
  ultimately show ?thesis using assms
    by (auto simp: bridge_inv_def bridge_wf_def over_bounds_def jm_wf_set bytes_set_same)
qed

lemma rebudget_get: "jm_get (map (\<lambda>(k, x). (k, rebudget f x)) m) k = map_option (rebudget f) (jm_get m k)"
  by (simp add: jm_get_def map_of_map)

lemma rebudget_ok: "slot_ok g k x \<Longrightarrow> slot_ok f k (rebudget f x)"
  by (simp add: slot_ok_def rebudget_def body_bytes_def)

lemma set_risk_inv:
  assumes "bridge_inv s"
  shows "bridge_inv (setRiskFactor r s)"
proof -
  let ?f = "clampRiskFactor r"
  let ?m = "map (\<lambda>(k, x). (k, rebudget ?f x)) (slots s)"
  have keys: "jm_keys ?m = jm_keys (slots s)" by (simp add: case_prod_unfold)
  have bytes: "bytes_of ?m = bytes_of (slots s)"
    by (simp add: bytes_of_def case_prod_unfold comp_def rebudget_def body_bytes_def)
  have "bridge_wf (setRiskFactor r s)"
    unfolding bridge_wf_def
  proof (intro conjI allI impI)
    show "slot_ok (riskFactor (setRiskFactor r s)) k y" if "jm_get (slots (setRiskFactor r s)) k = Some y" for k y
      using that assms
      by (auto simp: setRiskFactor_def Let_def rebudget_get bridge_inv_def bridge_wf_def intro: rebudget_ok)
  qed (use assms in \<open>simp_all add: setRiskFactor_def Let_def bytes keys bridge_inv_def bridge_wf_def del: map_map\<close>)
  then show ?thesis using assms
    by (auto simp: bridge_inv_def over_bounds_def setRiskFactor_def Let_def)
qed

lemma registered_ok:
  "int (length (reg_body p)) \<le> MAX_SESSION_BODY_BYTES \<Longrightarrow>
    slot_ok f (slot_key (reg_accountId p) (reg_sessionKey p)) (registered_slot rates oneHour now p f)"
  by (simp add: registered_slot_def Let_def slot_ok_def body_bytes_def MAX_KEEPALIVE_FAILURES_def)

lemma register_inv:
  assumes "bridge_inv s"
  shows "bridge_inv (register rates oneHour now p s)"
proof (cases "enabled s")
  case False
  with assms show ?thesis by (simp add: register_def)
next
  case True
  let ?key = "slot_key (reg_accountId p) (reg_sessionKey p)"
  define s1 where "s1 = (case jm_get (slots s) ?key of None \<Rightarrow> s
    | Some prev \<Rightarrow> if reg_cacheReadTokens p > 0 then bookWarmResume prev (reg_cacheReadTokens p) s else s)"
  have s1: "bridge_inv s1" "enabled s1" using assms True by (auto simp: s1_def split: option.split)
  have del: "bridge_inv (deleteKey ?key s1)" using s1 delete_key_inv by blast
  have ins: "bridge_inv (enforceBounds ((deleteKey ?key s1)\<lparr>slots := jm_set (slots (deleteKey ?key s1)) ?key x,
      totalBytes := totalBytes (deleteKey ?key s1) + body_bytes x\<rparr>))"
    if "slot_ok (riskFactor s1) ?key x" for x
  proof (rule enforce_inv)
    have new: "?key \<notin> set (jm_keys (jm_delete (slots s1) ?key))" by (auto simp: jm_delete_filter)
    show "bridge_wf ((deleteKey ?key s1)\<lparr>slots := jm_set (slots (deleteKey ?key s1)) ?key x,
      totalBytes := totalBytes (deleteKey ?key s1) + body_bytes x\<rparr>)"
      using del that bytes_set_new [OF new] by (auto simp: bridge_inv_def bridge_wf_def jm_wf_set)
    show "enabled ((deleteKey ?key s1)\<lparr>slots := jm_set (slots (deleteKey ?key s1)) ?key x,
      totalBytes := totalBytes (deleteKey ?key s1) + body_bytes x\<rparr>)" using s1 by simp
  qed
  show ?thesis
    unfolding register_def Let_def s1_def [symmetric]
    using True s1 del by (auto intro!: ins registered_ok simp del: delete_key_slots)
qed

lemma slot_present: "bridge_inv s \<Longrightarrow> jm_get (slots s) k = Some x \<Longrightarrow> slot_ok (riskFactor s) k x"
  by (simp add: bridge_inv_def bridge_wf_def)

lemma cost_nonneg: "0 \<le> keepalive_cost hit x"
  by (simp add: keepalive_cost_def hit_cost_nonneg miss_cost_nonneg)

lemma result_inv:
  assumes "bridge_inv s"
  shows "bridge_inv (recordKeepaliveResult a k hit now expected s)"
proof (cases "jm_get (slots s) (slot_key a k)")
  case None
  with assms show ?thesis by (simp add: recordKeepaliveResult_def)
next
  case (Some x)
  let ?y = "x\<lparr>slot_spentUsd := slot_spentUsd x + keepalive_cost hit x, slot_lastKeepaliveTs := Some now,
    slot_keepaliveCount := slot_keepaliveCount x + 1, slot_keepaliveFailures := 0\<rparr>"
  have "slot_ok (riskFactor s) (slot_key a k) ?y"
    using slot_present [OF assms Some] cost_nonneg [of hit x] by (simp add: slot_ok_def body_bytes_def)
  then have "bridge_inv (s\<lparr>slots := jm_set (slots s) (slot_key a k) ?y\<rparr>)"
    by (intro update_slot_inv [OF assms Some]) simp_all
  with assms Some show ?thesis
    using stats_inv [where s = "s\<lparr>slots := jm_set (slots s) (slot_key a k) ?y\<rparr>"]
    by (simp add: recordKeepaliveResult_def Let_def)
qed

lemma failure_inv:
  assumes "bridge_inv s"
  shows "bridge_inv (recordKeepaliveFailure a k now expected unknown s)"
proof (cases "jm_get (slots s) (slot_key a k)")
  case None
  with assms show ?thesis by (simp add: recordKeepaliveFailure_def)
next
  case (Some x)
  let ?key = "slot_key a k"
  let ?y = "x\<lparr>slot_lastKeepaliveTs := Some now, slot_keepaliveFailures := slot_keepaliveFailures x + 1\<rparr>"
  let ?s = "s\<lparr>stats := recordFailure 0 (stats s)\<rparr>"
  show ?thesis
  proof (cases "slot_keepaliveFailures x + 1 \<ge> MAX_KEEPALIVE_FAILURES \<and> \<not> stale_outcome expected x \<and> \<not> unknown")
    case False
    have "bridge_inv (?s\<lparr>slots := jm_set (slots ?s) ?key ?y\<rparr>)" if "\<not> slot_keepaliveFailures x + 1 \<ge> MAX_KEEPALIVE_FAILURES"
      using that assms Some slot_present [OF assms Some]
      by (intro update_slot_inv) (simp_all add: slot_ok_def body_bytes_def)
    moreover have "bridge_inv (deleteKey ?key (s\<lparr>stats := st\<rparr>))" for st using assms delete_key_inv by simp
    ultimately show ?thesis using False Some assms by (auto simp: recordKeepaliveFailure_def Let_def)
  next
    case True
    let ?s2 = "s\<lparr>stats := recordFailure 0 (stats s), slots := jm_set (slots s) ?key ?y\<rparr>"
    have "slots (deleteKey ?key ?s2) = slots (deleteKey ?key ?s)"
      by (simp add: jm_delete_def jm_set_def delete_update_same)
    moreover have "totalBytes (deleteKey ?key ?s2) = totalBytes (deleteKey ?key ?s)"
      using Some by (simp add: deleteKey_def body_bytes_def)
    ultimately have "deleteKey ?key ?s2 = deleteKey ?key ?s" by simp
    moreover have "bridge_inv (deleteKey ?key ?s)" using assms delete_key_inv by simp
    ultimately show ?thesis using True Some by (simp add: recordKeepaliveFailure_def Let_def)
  qed
qed

lemma touch_inv:
  assumes "bridge_inv s"
  shows "bridge_inv (touchActivity a k now n s)"
proof (cases "jm_get (slots s) (slot_key a k)")
  case None
  with assms show ?thesis by (simp add: touchActivity_def)
next
  case (Some x)
  have "bridge_inv ((bookWarmResume x n s)\<lparr>slots := jm_set (slots (bookWarmResume x n s)) (slot_key a k)
      (x\<lparr>slot_lastActivityTs := now, slot_spentUsd := 0, slot_lastKeepaliveTs := None, slot_keepaliveCount := 0\<rparr>)\<rparr>)"
    using assms Some slot_present [OF assms Some]
    by (intro update_slot_inv) (simp_all add: slot_ok_def body_bytes_def)
  with Some show ?thesis by (simp add: touchActivity_def Let_def)
qed

lemma bridge_step_inv: "bridge_inv s \<Longrightarrow> bridge_inv (bridge_step rates oneHour s ev)"
proof (cases ev)
  case (Set_enabled on)
  then show "bridge_inv s \<Longrightarrow> ?thesis"
    by (auto simp: bridge_step_def setEnabled_def clear_slots_def bridge_inv_def bridge_wf_def over_bounds_def bytes_of_def
        MAX_SESSION_BRIDGE_BYTES_def Let_def)
next
  case (Set_min_tokens n)
  then show "bridge_inv s \<Longrightarrow> ?thesis"
    by (simp add: bridge_step_def setMinTokens_def Let_def fold_delete_inv [where P = "\<lambda>s k x. slot_cachedTokens x < minTokens s", simplified])
next
  case (Evict_session a k e)
  then show "bridge_inv s \<Longrightarrow> ?thesis"
    by (simp add: bridge_step_def evictSession_def Let_def delete_key_inv split: option.split)
next
  case (Evict_account a)
  then show "bridge_inv s \<Longrightarrow> ?thesis"
    by (simp add: bridge_step_def evictAccount_def fold_delete_inv [where P = "\<lambda>s k x. slot_accountId x = a"])
qed (simp_all add: bridge_step_def set_risk_inv register_inv result_inv failure_inv touch_inv)

lemma new_store_inv: "bridge_inv new_session_cache"
  by (simp add: new_session_cache_def bridge_inv_def bridge_wf_def over_bounds_def bytes_of_def
      MAX_SESSION_BRIDGE_BYTES_def)

interpretation bridge: invariant_system "bridge_step rates oneHour" bridge_inv
  by unfold_locales (rule bridge_step_inv)

text \<open>The charge of a miss is at the effective write rate, which is never below the five-minute one.\<close>

definition priced :: "session_cache \<Rightarrow> bool" where
  "priced s \<longleftrightarrow> (\<forall>x \<in> snd ` set (slots s). slot_cacheWritePer1M x \<le> slot_cacheWriteEffectivePer1M x)"

lemma priced_mono: "priced s \<Longrightarrow> set (slots s') \<subseteq> set (slots s) \<Longrightarrow> priced s'"
  by (auto simp: priced_def)

lemma priced_set:
  assumes "priced s" and "jm_get (slots s) k = Some x" and "slots s' = jm_set (slots s) k y"
    and "slot_cacheWritePer1M y = slot_cacheWritePer1M x" and "slot_cacheWriteEffectivePer1M y = slot_cacheWriteEffectivePer1M x"
  shows "priced s'"
proof -
  have "(k, x) \<in> set (slots s)" using assms(2) by (simp add: jm_get_def map_of_SomeD)
  then have "slot_cacheWritePer1M y \<le> slot_cacheWriteEffectivePer1M y" using assms by (force simp: priced_def)
  with assms(1,3) show ?thesis by (auto simp: priced_def dest!: jm_set_in_set)
qed

lemma delete_subset: "set (slots (deleteKey k s)) \<subseteq> set (slots s)"
  by (auto simp: jm_delete_filter)

lemma enforce_subset: "set (slots (enforceBounds s)) \<subseteq> set (slots s)"
proof (induction s rule: enforceBounds.induct)
  case (1 s)
  show ?case
  proof (cases "over_bounds s \<and> pick_victim (slots s) \<noteq> None")
    case True
    then obtain k x where v: "pick_victim (slots s) = Some (k, x)" by fastforce
    with 1 [OF _ v refl] True delete_subset [of k s] show ?thesis by (auto simp: enforceBounds.simps [of s])
  qed (auto simp: enforceBounds.simps [of s] split: option.splits)
qed

lemma fold_delete_subset:
  "set (slots (foldl (\<lambda>s (k, x). if P s k x then deleteKey k s else s) s xs)) \<subseteq> set (slots s)"
proof (induction xs arbitrary: s)
  case (Cons e xs)
  obtain k x where e: "e = (k, x)" by fastforce
  have "set (slots (if P s k x then deleteKey k s else s)) \<subseteq> set (slots s)" using delete_subset by simp
  then show ?case using Cons [of "if P s k x then deleteKey k s else s"] by (simp add: e)
qed simp

lemma register_priced:
  assumes "\<forall>m. cacheWritePer1M (rates m) \<le> inputPer1M (rates m) * ONE_HOUR_WRITE_MULT" and "priced s"
  shows "priced (register rates oneHour now p s)"
proof -
  let ?key = "slot_key (reg_accountId p) (reg_sessionKey p)"
  define s1 where "s1 = (case jm_get (slots s) ?key of None \<Rightarrow> s
    | Some prev \<Rightarrow> if reg_cacheReadTokens p > 0 then bookWarmResume prev (reg_cacheReadTokens p) s else s)"
  have s1: "slots s1 = slots s" by (simp add: s1_def split: option.split)
  have del: "priced (deleteKey ?key s1)" using assms(2) by (rule priced_mono) (use s1 in \<open>auto simp: jm_delete_filter\<close>)
  have ins: "priced (enforceBounds (s2\<lparr>slots := jm_set (slots s2) ?key (registered_slot (rates m) b now p f), totalBytes := n\<rparr>))"
    if "s2 = deleteKey ?key s1" for s2 b f m n
  proof (rule priced_mono [OF _ enforce_subset])
    show "priced (s2\<lparr>slots := jm_set (slots s2) ?key (registered_slot (rates m) b now p f), totalBytes := n\<rparr>)"
      using assms(1) del that
      by (auto simp: priced_def registered_slot_def Let_def simp del: delete_key_slots dest!: jm_set_in_set)
  qed
  show ?thesis
    unfolding register_def Let_def s1_def [symmetric]
    using assms(2) del by (auto intro!: ins simp del: delete_key_slots)
qed

lemma bridge_step_priced:
  assumes "\<forall>m. cacheWritePer1M (rates m) \<le> inputPer1M (rates m) * ONE_HOUR_WRITE_MULT" and "priced s"
  shows "priced (bridge_step rates oneHour s ev)"
proof (cases ev)
  case (Set_risk_factor r)
  with assms(2) show ?thesis
    by (auto simp: bridge_step_def setRiskFactor_def Let_def priced_def rebudget_def)
next
  case (Set_enabled on)
  with assms(2) show ?thesis
    by (auto simp: bridge_step_def setEnabled_def clear_slots_def Let_def priced_def)
next
  case (Register now p)
  with assms show ?thesis by (simp add: bridge_step_def register_priced)
next
  case (Set_min_tokens n)
  then show ?thesis
    using priced_mono [OF assms(2)]
      fold_delete_subset [where P = "\<lambda>s k x. slot_cachedTokens x < minTokens s" and xs = "slots s" and
        s = "s\<lparr>minTokens := (case n of Some m \<Rightarrow> if m > 0 then m else 0 | None \<Rightarrow> 0)\<rparr>"]
    by (simp add: bridge_step_def setMinTokens_def Let_def)
next
  case (Evict_account a)
  then show ?thesis
    using priced_mono [OF assms(2)] fold_delete_subset [where P = "\<lambda>s k x. slot_accountId x = a" and xs = "slots s"]
    by (simp add: bridge_step_def evictAccount_def)
next
  case (Evict_session a k e)
  then show ?thesis
    using assms(2) priced_mono [OF assms(2) delete_subset]
    by (simp add: bridge_step_def evictSession_def Let_def split: option.split)
next
  case (Keepalive_result a k hit now e)
  then show ?thesis using assms(2)
    by (auto simp: bridge_step_def recordKeepaliveResult_def Let_def split: option.split intro: priced_set)
next
  case (Touch a k now n)
  then show ?thesis using assms(2)
    by (auto simp: bridge_step_def touchActivity_def Let_def split: option.split intro: priced_set)
next
  case (Keepalive_failure a k now e unknown)
  have "priced (s\<lparr>stats := st, slots := jm_set (slots s) (slot_key a k) (x\<lparr>slot_lastKeepaliveTs := t, slot_keepaliveFailures := n\<rparr>)\<rparr>)"
    if "jm_get (slots s) (slot_key a k) = Some x" for x st t n
    by (rule priced_set [OF assms(2) that, where y = "x\<lparr>slot_lastKeepaliveTs := t, slot_keepaliveFailures := n\<rparr>"]) simp_all
  moreover have "priced (deleteKey (slot_key a k) s')" if "priced s'" for s'
    using that delete_subset by (rule priced_mono)
  moreover have "priced (s\<lparr>stats := st\<rparr>)" for st using assms(2) by (simp add: priced_def)
  ultimately show ?thesis using Keepalive_failure assms(2)
    by (simp add: bridge_step_def recordKeepaliveFailure_def Let_def split: option.split)
qed

lemma run_priced:
  assumes "\<forall>m. cacheWritePer1M (rates m) \<le> inputPer1M (rates m) * ONE_HOUR_WRITE_MULT"
  shows "priced (foldl (bridge_step rates oneHour) new_session_cache evs)"
proof (induction evs rule: rev_induct)
  case Nil
  show ?case by (simp add: priced_def new_session_cache_def)
next
  case (snoc ev evs)
  then show ?case using bridge_step_priced [OF assms] by simp
qed

lemma victim_fold_min:
  assumes "foldl (\<lambda>v x. case v of None \<Rightarrow> Some x | Some y \<Rightarrow> if better_victim x y then Some x else Some y) (Some v) m = Some w"
    and "x \<in> insert v (set m)"
  shows "\<not> better_victim x w"
  using assms
proof (induction m arbitrary: v x)
  case Nil
  then show ?case by (auto simp: better_victim_def)
next
  case (Cons y ys)
  let ?v = "if better_victim y v then y else v"
  have w: "foldl (\<lambda>v x. case v of None \<Rightarrow> Some x | Some y \<Rightarrow> if better_victim x y then Some x else Some y) (Some ?v) ys = Some w"
    using Cons.prems(1) by (auto split: if_splits)
  have v: "\<not> better_victim ?v w" by (rule Cons.IH [OF w]) simp
  then have "\<not> better_victim v w" "\<not> better_victim y w" by (auto simp: better_victim_def split: if_splits)
  with Cons.IH [OF w, of x] Cons.prems(2) show ?case by auto
qed

lemma pick_victim_min:
  assumes "pick_victim m = Some w" and "x \<in> set m"
  shows "\<not> better_victim x w"
proof (cases m)
  case (Cons v xs)
  with assms victim_fold_min [of v xs w x] show ?thesis by (simp add: pick_victim_def)
qed (use assms in simp)

lemma budget_posD:
  "0 < keepaliveBudgetUsd n r w f \<Longrightarrow> 0 < n \<and> hasCacheWritePremium r w"
  by (auto simp: keepaliveBudgetUsd_def split: if_splits)

lemma batch_slot:
  assumes "bridge_inv s" and "(x, stamp) \<in> set (keepalive_batch now s)"
  shows "jm_get (slots s) (slot_key (slot_accountId x) (slot_sessionKey x)) = Some x" "slot_due now x" "stamp = slot_lastActivityTs x"
proof -
  have x: "x \<in> set (getEligibleSessions now s)" "stamp = slot_lastActivityTs x"
    using assms(2) in_set_takeD [of x MAX_BRIDGE_KEEPALIVES_PER_TICK] by (auto simp: keepalive_batch_def)
  then obtain k where k: "(k, x) \<in> set (slots s)" "slot_due now x" by (auto simp: getEligibleSessions_def)
  then have "jm_get (slots s) k = Some x" using assms(1) by (simp add: jm_get_def bridge_inv_def bridge_wf_def)
  with slot_present [OF assms(1) this] k x
  show "jm_get (slots s) (slot_key (slot_accountId x) (slot_sessionKey x)) = Some x" "slot_due now x" "stamp = slot_lastActivityTs x"
    by (auto simp: slot_ok_def)
qed

subsection \<open>Properties\<close>

text \<open>
  C38. Memory of the bridge: after any sequence of operations on the store, under any price table,
  the store holds at most 100 sessions and 64 MiB of bodies, none above 2 MiB, its byte count is
  that of the bodies it holds, every slot is filed under its own key with fewer than three failed
  keepalives and the budget of the current risk factor, and a disabled store is empty.
\<close>

theorem bridge_store_bounded:
  assumes "s = foldl (bridge_step rates oneHour) new_session_cache evs"
  shows "jm_wf (slots s) \<and> length (slots s) \<le> 100 \<and> totalBytes s \<le> 67108864
    \<and> totalBytes s = sum_list (map (\<lambda>(_, x). int (length (slot_body x))) (slots s))
    \<and> (\<forall>k x. jm_get (slots s) k = Some x \<longrightarrow>
          k = slot_key (slot_accountId x) (slot_sessionKey x) \<and> length (slot_body x) \<le> 2097152
          \<and> 0 \<le> slot_spentUsd x \<and> slot_keepaliveFailures x < 3
          \<and> slot_budgetUsd x = keepaliveBudgetUsd (slot_cachedTokens x) (slot_cacheReadPer1M x) (slot_cacheWritePer1M x) (Some (riskFactor s)))
    \<and> (\<not> enabled s \<longrightarrow> slots s = [])"
proof -
  have inv: "bridge_inv s" using bridge.run_inv [OF new_store_inv] assms by simp
  have body: "k = slot_key (slot_accountId x) (slot_sessionKey x) \<and> length (slot_body x) \<le> 2097152
      \<and> 0 \<le> slot_spentUsd x \<and> slot_keepaliveFailures x < 3
      \<and> slot_budgetUsd x = keepaliveBudgetUsd (slot_cachedTokens x) (slot_cacheReadPer1M x) (slot_cacheWritePer1M x) (Some (riskFactor s))"
    if "jm_get (slots s) k = Some x" for k x
    using slot_present [OF inv that]
    by (simp add: slot_ok_def body_bytes_def MAX_SESSION_BODY_BYTES_def MAX_KEEPALIVE_FAILURES_def)
  show ?thesis
    using inv body
    by (auto simp: bridge_inv_def bridge_wf_def over_bounds_def bytes_of_def body_bytes_def
        MAX_SESSION_SLOTS_def MAX_SESSION_BRIDGE_BYTES_def case_prod_unfold)
qed


subsection \<open>Witnesses\<close>

definition sample_rates :: cache_rates where
  "sample_rates = \<lparr>inputPer1M = 5, cacheReadPer1M = 1 / 2, cacheWritePer1M = 25 / 4\<rparr>"

definition sample_register :: register_params where
  "sample_register = \<lparr>reg_accountId = ''a'', reg_sessionKey = ''s'', reg_body = ''body'', reg_path = ''/v1/messages'',
     reg_model = None, reg_cacheReadTokens = 200000, reg_cacheCreationTokens = 0\<rparr>"

definition sample_slot :: session_slot where
  "sample_slot = registered_slot sample_rates True 0 sample_register RISK_FACTOR"

definition sample_bridge :: session_cache where
  "sample_bridge = foldl (bridge_step (\<lambda>_. sample_rates) (\<lambda>_. True)) new_session_cache
     [Set_enabled True, Register 0 sample_register]"

lemma sample_slot_fields:
  "slot_accountId sample_slot = ''a''" "slot_sessionKey sample_slot = ''s''" "slot_body sample_slot = ''body''"
  "slot_lastActivityTs sample_slot = 0" "slot_spentUsd sample_slot = 0" "slot_budgetUsd sample_slot = 23 / 50"
  "slot_refreshMs sample_slot = 3000000" "slot_lastKeepaliveTs sample_slot = None" "slot_cachedTokens sample_slot = 200000"
  "slot_cacheWriteEffectivePer1M sample_slot = 10"
  by (simp_all add: sample_slot_def registered_slot_def sample_rates_def sample_register_def Let_def
      keepaliveBudgetUsd_def hasCacheWritePremium_def clampRiskFactor_def RISK_FACTOR_def MAX_RISK_FACTOR_def
      KEEPALIVE_REFRESH_1H_MS_def ONE_HOUR_WRITE_MULT_def)

lemma sample_bridge_state:
  "slots sample_bridge = [(''a:s'', sample_slot)]" "totalBytes sample_bridge = 4" "enabled sample_bridge"
  "stats sample_bridge = no_stats"
proof -
  have key: "slot_key (reg_accountId sample_register) (reg_sessionKey sample_register) = ''a:s''"
    and premium: "hasCacheWritePremium (cacheReadPer1M sample_rates) (cacheWritePer1M sample_rates)"
    and tokens: "reg_cacheReadTokens sample_register + reg_cacheCreationTokens sample_register = 200000"
    and body: "length (reg_body sample_register) = 4"
    by (simp_all add: slot_key_def sample_register_def hasCacheWritePremium_def sample_rates_def)
  define s0 where "s0 = new_session_cache\<lparr>enabled := True\<rparr>"
  have s0: "slots s0 = []" "totalBytes s0 = 0" "enabled s0" "minTokens s0 = 100000" "riskFactor s0 = RISK_FACTOR"
    "stats s0 = no_stats"
    by (simp_all add: s0_def new_session_cache_def DEFAULT_MIN_CACHE_TOKENS_def)
  have step0: "bridge_step (\<lambda>_. sample_rates) (\<lambda>_. True) new_session_cache (Set_enabled True) = s0"
    by (simp add: bridge_step_def setEnabled_def s0_def Let_def)
  have bytes: "body_bytes sample_slot = 4" by (simp add: body_bytes_def sample_slot_fields)
  have "register (\<lambda>_. sample_rates) (\<lambda>_. True) 0 sample_register s0 = s0\<lparr>slots := [(''a:s'', sample_slot)], totalBytes := 4\<rparr>"
    using s0 by (simp add: register_def key premium tokens body isEligibleByTokens_def deleteKey_def
        sample_slot_def [symmetric] jm_set_new MAX_SESSION_BODY_BYTES_def enforceBounds.simps over_bounds_def
        MAX_SESSION_SLOTS_def MAX_SESSION_BRIDGE_BYTES_def bytes Let_def)
  then have s: "sample_bridge = s0\<lparr>slots := [(''a:s'', sample_slot)], totalBytes := 4\<rparr>"
    by (simp add: sample_bridge_def step0 bridge_step_def [of _ _ s0])
  show "slots sample_bridge = [(''a:s'', sample_slot)]" "totalBytes sample_bridge = 4" "enabled sample_bridge"
    "stats sample_bridge = no_stats"
    by (simp_all add: s s0)
qed

theorem bridge_store_bounded_witness:
  "jm_get (slots sample_bridge) ''a:s'' = Some sample_slot \<and> slot_keepaliveFailures sample_slot < 3
    \<and> length (slots sample_bridge) \<le> 100 \<and> totalBytes sample_bridge \<le> 67108864"
proof -
  note bounded = bridge_store_bounded [OF sample_bridge_def]
  have "jm_get (slots sample_bridge) ''a:s'' = Some sample_slot" by (simp add: sample_bridge_state jm_get_def)
  with bounded show ?thesis by blast
qed


end
