(* ===== verification/SessionPromotion.thy ===== *)
theory SessionPromotion
  imports BridgePolicy
begin

section \<open>Promotion of sessions to the one-hour cache\<close>

text \<open>
  \<^verbatim>\<open>proxy/src/session-promotion.ts\<close>: which sessions get the one-hour TTL written into their
  request. The tracker is a map in recency order, capped at 500 entries.
  Shown: the cap and the recency order hold after every run; a session that is worked without a
  pause is promoted at its third turn, demoted after five more, and never promoted again until it
  pauses for three minutes.
\<close>

datatype warming_mode = Off | Static | Dynamic

record promotion_entry =
  turnCount :: nat
  lastSeenTs :: int
  promoted :: bool
  establishedOnce :: bool
  activeStreak :: nat

record promotion_tracker =
  warming :: warming_mode
  entries :: "(string, promotion_entry) jsmap"

definition new_tracker :: promotion_tracker where
  "new_tracker = \<lparr>warming = Off, entries = []\<rparr>"

definition setMode :: "warming_mode \<Rightarrow> promotion_tracker \<Rightarrow> promotion_tracker" where
  "setMode m t = (let t1 = t\<lparr>warming := m\<rparr> in if m = Off then t1\<lparr>entries := []\<rparr> else t1)"

fun enforceCap :: "(string, promotion_entry) jsmap \<Rightarrow> (string, promotion_entry) jsmap" where
  "enforceCap [] = []"
| "enforceCap (e # es) =
     (if length (e # es) > MAX_PROMOTION_TRACKER_ENTRIES then enforceCap es else e # es)"

text \<open>The static arm: the entry a turn leaves behind.\<close>

definition static_entry :: "promotion_entry option \<Rightarrow> int \<Rightarrow> bool \<Rightarrow> promotion_entry" where
  "static_entry existing now eligible =
     (let wasPromoted = (case existing of None \<Rightarrow> False | Some e \<Rightarrow> promoted e);
          p = (wasPromoted \<or> eligible)
      in \<lparr>turnCount = (case existing of None \<Rightarrow> 0 | Some e \<Rightarrow> turnCount e) + 1, lastSeenTs = now, promoted = p,
          establishedOnce = (case existing of None \<Rightarrow> p | Some e \<Rightarrow> establishedOnce e), activeStreak = 0\<rparr>)"

text \<open>The dynamic arm.\<close>

definition dynamic_entry :: "promotion_entry option \<Rightarrow> int \<Rightarrow> promotion_entry" where
  "dynamic_entry existing now =
     (let n = (case existing of None \<Rightarrow> 0 | Some e \<Rightarrow> turnCount e) + 1;
          gap = (case existing of None \<Rightarrow> 0 | Some e \<Rightarrow> now - lastSeenTs e);
          p = (case existing of None \<Rightarrow> False | Some e \<Rightarrow> promoted e);
          once = (case existing of None \<Rightarrow> False | Some e \<Rightarrow> establishedOnce e);
          streak = (case existing of None \<Rightarrow> 0 | Some e \<Rightarrow> activeStreak e);
          idle = (existing \<noteq> None \<and> gap \<ge> IDLE_GAP_FOR_PROMOTION_MS)
      in if p then
           if idle then \<lparr>turnCount = n, lastSeenTs = now, promoted = True, establishedOnce = once, activeStreak = 0\<rparr>
           else if streak + 1 \<ge> DESTICK_AFTER_ACTIVE_TURNS
           then \<lparr>turnCount = n, lastSeenTs = now, promoted = False, establishedOnce = once, activeStreak = 0\<rparr>
           else \<lparr>turnCount = n, lastSeenTs = now, promoted = True, establishedOnce = once, activeStreak = streak + 1\<rparr>
         else if idle \<or> \<not> once \<and> n \<ge> PROMOTE_AFTER_TURNS
         then \<lparr>turnCount = n, lastSeenTs = now, promoted = True, establishedOnce = True, activeStreak = 0\<rparr>
         else \<lparr>turnCount = n, lastSeenTs = now, promoted = False, establishedOnce = once, activeStreak = streak\<rparr>)"

definition observeAndShouldInject ::
  "string \<Rightarrow> int \<Rightarrow> int \<Rightarrow> int \<Rightarrow> promotion_tracker \<Rightarrow> bool \<times> promotion_tracker" where
  "observeAndShouldInject sessionKey now estimatedTokens minTokens t =
     (let existing = jm_get (entries t) sessionKey in
      case warming t of
        Off \<Rightarrow> (False, t)
      | Static \<Rightarrow>
          (let e = static_entry existing now (estimatedTokens \<ge> minTokens)
           in (promoted e, t\<lparr>entries := enforceCap (jm_touch (entries t) sessionKey e)\<rparr>))
      | Dynamic \<Rightarrow>
          (let e = dynamic_entry existing now
           in (promoted e \<and> estimatedTokens \<ge> minTokens,
               t\<lparr>entries := enforceCap (jm_touch (entries t) sessionKey e)\<rparr>)))"

definition isPromoted :: "string \<Rightarrow> promotion_tracker \<Rightarrow> bool" where
  "isPromoted k t \<longleftrightarrow> warming t \<noteq> Off \<and> (case jm_get (entries t) k of None \<Rightarrow> False | Some e \<Rightarrow> promoted e)"

definition getPromotedCount :: "promotion_tracker \<Rightarrow> nat" where
  "getPromotedCount t = length (filter (\<lambda>(_, e). promoted e) (entries t))"

definition evict :: "string \<Rightarrow> promotion_tracker \<Rightarrow> promotion_tracker" where
  "evict k t = t\<lparr>entries := jm_delete (entries t) k\<rparr>"

definition clear_tracker :: "promotion_tracker \<Rightarrow> promotion_tracker" where
  "clear_tracker t = t\<lparr>entries := []\<rparr>"

subsection \<open>Runs\<close>

datatype promotion_event =
    Set_mode warming_mode
  | Observe string int int int
  | Evict_key string
  | Clear_all

definition promotion_step :: "promotion_tracker \<Rightarrow> promotion_event \<Rightarrow> promotion_tracker" where
  "promotion_step t ev = (case ev of
     Set_mode m \<Rightarrow> setMode m t
   | Observe k now n m \<Rightarrow> snd (observeAndShouldInject k now n m t)
   | Evict_key k \<Rightarrow> evict k t
   | Clear_all \<Rightarrow> clear_tracker t)"

text \<open>The times of the turns in a run do not go back.\<close>

fun clock_ok :: "int \<Rightarrow> promotion_event list \<Rightarrow> bool" where
  "clock_ok t [] = True"
| "clock_ok t (Observe k now n m # es) = (t \<le> now \<and> clock_ok now es)"
| "clock_ok t (_ # es) = clock_ok t es"

definition tracker_inv :: "int \<Rightarrow> promotion_tracker \<Rightarrow> bool" where
  "tracker_inv now t \<longleftrightarrow> jm_wf (entries t) \<and> length (entries t) \<le> MAX_PROMOTION_TRACKER_ENTRIES
     \<and> sorted (map (lastSeenTs \<circ> snd) (entries t)) \<and> (\<forall>e \<in> snd ` set (entries t). lastSeenTs e \<le> now)
     \<and> (\<forall>e \<in> snd ` set (entries t). activeStreak e < DESTICK_AFTER_ACTIVE_TURNS)
     \<and> (warming t = Off \<longrightarrow> entries t = [])"

subsection \<open>Lemmas\<close>

lemma enforceCap_drop: "enforceCap es = drop (length es - MAX_PROMOTION_TRACKER_ENTRIES) es"
  by (induction es) (simp_all add: Suc_diff_le not_less)

lemma drop_wf: "jm_wf m \<Longrightarrow> jm_wf (drop n m)"
  by (metis distinct_drop drop_map)

lemma drop_get_last:
  assumes "jm_wf (m @ [(k, v)])" and "n \<le> length m"
  shows "jm_get (drop n (m @ [(k, v)])) k = Some v"
proof -
  have "k \<notin> fst ` set (drop n m)" using assms(1) set_drop_subset [of n m] by auto
  then have "map_of (drop n m) k = None" by (simp add: map_of_eq_None_iff)
  then show ?thesis using assms(2) by (simp add: jm_get_def map_add_def)
qed

lemma sorted_touch:
  assumes "sorted (map (lastSeenTs \<circ> snd) m)" and "\<forall>e \<in> snd ` set m. lastSeenTs e \<le> now" and "lastSeenTs e = now"
  shows "sorted (map (lastSeenTs \<circ> snd) (jm_touch m k e))"
proof -
  have "sorted (map (lastSeenTs \<circ> snd) (jm_delete m k))"
    using assms(1) by (simp add: jm_delete_filter sorted_filter)
  moreover have "\<forall>x \<in> set (jm_delete m k). lastSeenTs (snd x) \<le> now" using assms(2) by (auto simp: jm_delete_filter)
  ultimately show ?thesis using assms(3) by (simp add: jm_touch_snoc sorted_append)
qed

lemma entry_stamp [simp]:
  "lastSeenTs (static_entry x now b) = now" "lastSeenTs (dynamic_entry x now) = now"
  by (simp_all add: static_entry_def dynamic_entry_def Let_def)

lemma entry_streak:
  "activeStreak (static_entry x now b) < DESTICK_AFTER_ACTIVE_TURNS"
  "(\<forall>e. x = Some e \<longrightarrow> activeStreak e < DESTICK_AFTER_ACTIVE_TURNS) \<Longrightarrow> activeStreak (dynamic_entry x now) < DESTICK_AFTER_ACTIVE_TURNS"
proof -
  show "activeStreak (static_entry x now b) < DESTICK_AFTER_ACTIVE_TURNS"
    by (simp add: static_entry_def Let_def DESTICK_AFTER_ACTIVE_TURNS_def)
  show "activeStreak (dynamic_entry x now) < DESTICK_AFTER_ACTIVE_TURNS"
    if "\<forall>e. x = Some e \<longrightarrow> activeStreak e < DESTICK_AFTER_ACTIVE_TURNS"
    using that by (cases x) (simp_all add: dynamic_entry_def Let_def DESTICK_AFTER_ACTIVE_TURNS_def)
qed

lemma touch_tracker_inv:
  assumes "tracker_inv t0 t" and "t0 \<le> now" and "lastSeenTs e = now" and "activeStreak e < DESTICK_AFTER_ACTIVE_TURNS"
    and "warming t \<noteq> Off"
  shows "tracker_inv now (t\<lparr>entries := enforceCap (jm_touch (entries t) k e)\<rparr>)"
proof -
  let ?m = "jm_touch (entries t) k e"
  let ?d = "drop (length ?m - MAX_PROMOTION_TRACKER_ENTRIES) ?m"
  have old: "\<forall>e \<in> snd ` set (entries t). lastSeenTs e \<le> now"
    using assms(1,2) by (fastforce simp: tracker_inv_def)
  have set_m: "x = (k, e) \<or> x \<in> set (entries t)" if "x \<in> set ?d" for x
    using in_set_dropD [OF that] by (auto simp: jm_touch_snoc jm_delete_filter)
  have "jm_wf ?m" using assms(1) by (simp add: tracker_inv_def jm_wf_touch)
  then have wf: "jm_wf ?d" by (rule drop_wf)
  have "sorted (map (lastSeenTs \<circ> snd) ?m)" using assms(1,3) old by (intro sorted_touch) (simp_all add: tracker_inv_def)
  then have sorted: "sorted (map (lastSeenTs \<circ> snd) ?d)" by (metis drop_map sorted_wrt_drop)
  have "lastSeenTs (snd x) \<le> now \<and> activeStreak (snd x) < DESTICK_AFTER_ACTIVE_TURNS" if "x \<in> set ?d" for x
    using set_m [OF that] old assms(1,3,4) by (auto simp: tracker_inv_def)
  then show ?thesis using wf sorted assms(5) by (auto simp: tracker_inv_def enforceCap_drop)
qed

lemma observe_inv:
  assumes "tracker_inv t0 t" and "t0 \<le> now"
  shows "tracker_inv now (snd (observeAndShouldInject k now n m t))"
proof -
  have streak: "activeStreak e < DESTICK_AFTER_ACTIVE_TURNS" if "jm_get (entries t) k = Some e" for e
  proof -
    have "(k, e) \<in> set (entries t)" using that by (simp add: jm_get_def map_of_SomeD)
    then show ?thesis using assms(1) by (force simp: tracker_inv_def)
  qed
  show ?thesis
  proof (cases "warming t")
    case Off
    with assms show ?thesis by (simp add: observeAndShouldInject_def tracker_inv_def)
  next
    case Static
    with touch_tracker_inv [OF assms entry_stamp(1) entry_streak(1)] show ?thesis
      by (simp add: observeAndShouldInject_def Let_def)
  next
    case Dynamic
    have "activeStreak (dynamic_entry (jm_get (entries t) k) now) < DESTICK_AFTER_ACTIVE_TURNS"
      using streak by (intro entry_streak(2)) simp
    with touch_tracker_inv [OF assms entry_stamp(2) this] Dynamic show ?thesis
      by (simp add: observeAndShouldInject_def Let_def)
  qed
qed

lemma other_event_inv:
  assumes "tracker_inv t0 t" and "\<And>k now n m. ev \<noteq> Observe k now n m"
  shows "tracker_inv t0 (promotion_step t ev)"
proof (cases ev)
  case (Evict_key k)
  then show ?thesis
    using assms(1) jm_length_delete_le [of "entries t" k] jm_wf_delete [of "entries t" k]
    by (auto simp: promotion_step_def evict_def tracker_inv_def jm_delete_filter sorted_filter simp del: distinct_map
        intro: le_trans [OF length_filter_le])
qed (use assms in \<open>auto simp: promotion_step_def setMode_def clear_tracker_def tracker_inv_def Let_def\<close>)

lemma promotion_run_inv:
  "clock_ok t0 evs \<Longrightarrow> tracker_inv t0 t \<Longrightarrow> \<exists>now. tracker_inv now (foldl promotion_step t evs)"
proof (induction t0 evs arbitrary: t rule: clock_ok.induct)
  case (2 t0 k now n m es)
  then show ?case using observe_inv [of t0 t now k n m] by (simp add: promotion_step_def)
qed (use other_event_inv in \<open>force+\<close>)

text \<open>One turn of a session in dynamic mode.\<close>

lemma observe_dynamic:
  assumes "warming t = Dynamic" and "jm_wf (entries t)"
  shows "warming (snd (observeAndShouldInject k now n m t)) = Dynamic"
    and "jm_wf (entries (snd (observeAndShouldInject k now n m t)))"
    and "jm_get (entries (snd (observeAndShouldInject k now n m t))) k = Some (dynamic_entry (jm_get (entries t) k) now)"
    and "fst (observeAndShouldInject k now n m t) \<longleftrightarrow> isPromoted k (snd (observeAndShouldInject k now n m t)) \<and> m \<le> n"
proof -
  let ?e = "dynamic_entry (jm_get (entries t) k) now"
  have wf: "jm_wf (jm_delete (entries t) k @ [(k, ?e)])"
    using jm_wf_touch [OF assms(2), of k ?e] by (simp add: jm_touch_snoc)
  have "length (jm_touch (entries t) k ?e) - MAX_PROMOTION_TRACKER_ENTRIES \<le> length (jm_delete (entries t) k)"
    by (simp add: jm_touch_snoc MAX_PROMOTION_TRACKER_ENTRIES_def)
  note get = drop_get_last [OF wf this]
  have entries: "entries (snd (observeAndShouldInject k now n m t)) = drop (length (jm_touch (entries t) k ?e) - MAX_PROMOTION_TRACKER_ENTRIES)
      (jm_delete (entries t) k @ [(k, ?e)])"
    using assms(1) by (simp add: observeAndShouldInject_def Let_def enforceCap_drop jm_touch_snoc)
  show mode: "warming (snd (observeAndShouldInject k now n m t)) = Dynamic"
    using assms(1) by (simp add: observeAndShouldInject_def Let_def)
  show "jm_wf (entries (snd (observeAndShouldInject k now n m t)))" unfolding entries by (rule drop_wf [OF wf])
  show entry: "jm_get (entries (snd (observeAndShouldInject k now n m t))) k = Some ?e" unfolding entries by (rule get)
  show "fst (observeAndShouldInject k now n m t) \<longleftrightarrow> isPromoted k (snd (observeAndShouldInject k now n m t)) \<and> m \<le> n"
    unfolding isPromoted_def entry mode using assms(1) by (simp add: observeAndShouldInject_def Let_def)
qed

definition worked_entry :: "nat \<Rightarrow> int \<Rightarrow> promotion_entry" where
  "worked_entry n now = \<lparr>turnCount = n, lastSeenTs = now, promoted = (3 \<le> n \<and> n \<le> 7), establishedOnce = (3 \<le> n),
     activeStreak = (if 3 \<le> n \<and> n \<le> 7 then n - 3 else 0)\<rparr>"

lemma worked_entry_step:
  "now - seen < IDLE_GAP_FOR_PROMOTION_MS \<Longrightarrow> dynamic_entry (Some (worked_entry n seen)) now = worked_entry (Suc n) now"
  by (auto simp: dynamic_entry_def worked_entry_def Let_def DESTICK_AFTER_ACTIVE_TURNS_def PROMOTE_AFTER_TURNS_def)

definition turns :: "string \<Rightarrow> int \<Rightarrow> int \<Rightarrow> int list \<Rightarrow> promotion_tracker \<Rightarrow> promotion_tracker" where
  "turns k n m ts t = foldl (\<lambda>t now. snd (observeAndShouldInject k now n m t)) t ts"

fun no_pause :: "int list \<Rightarrow> bool" where
  "no_pause (a # b # ts) = (b - a < IDLE_GAP_FOR_PROMOTION_MS \<and> no_pause (b # ts))"
| "no_pause _ = True"

lemma no_pause_snoc: "no_pause (ts @ [a, b]) \<Longrightarrow> no_pause (ts @ [a]) \<and> b - a < IDLE_GAP_FOR_PROMOTION_MS"
  by (induction ts rule: no_pause.induct) auto

lemma turns_worked:
  assumes "warming t = Dynamic" "jm_wf (entries t)" "jm_get (entries t) k = None" "no_pause ts" "ts \<noteq> []"
  shows "warming (turns k n m ts t) = Dynamic \<and> jm_wf (entries (turns k n m ts t))
    \<and> jm_get (entries (turns k n m ts t)) k = Some (worked_entry (length ts) (last ts))"
  using assms(4,5)
proof (induction ts rule: rev_induct)
  case (snoc b ts)
  have first: "dynamic_entry None b = worked_entry 1 b"
    by (simp add: dynamic_entry_def worked_entry_def Let_def PROMOTE_AFTER_TURNS_def)
  show ?case
  proof (cases ts rule: rev_cases)
    case Nil
    then show ?thesis using observe_dynamic [OF assms(1,2)] assms(3) by (simp add: turns_def first)
  next
    case (snoc us a)
    with no_pause_snoc [of us a b] snoc.prems have *: "no_pause ts" "ts \<noteq> []" "b - last ts < IDLE_GAP_FOR_PROMOTION_MS" by auto
    note IH = snoc.IH [OF *(1,2)]
    show ?thesis
      using observe_dynamic [of "turns k n m ts t"] IH worked_entry_step [OF *(3)] by (simp add: turns_def)
  qed
qed simp

subsection \<open>Properties\<close>

text \<open>
  The promotion tracker is bounded and in order of recency: after any run whose clock does not
  go back it holds at most 500 sessions, each once, the least recently seen one first (the one the cap evicts),
  no promoted session has been worked for five turns in a row, and when switched off it is empty.
\<close>

lemma promotion_tracker_bounded:
  assumes "clock_ok t0 evs" and "t = foldl promotion_step new_tracker evs"
  shows "length (entries t) \<le> 500 \<and> jm_wf (entries t) \<and> sorted (map (lastSeenTs \<circ> snd) (entries t))
    \<and> (\<forall>e \<in> snd ` set (entries t). activeStreak e < 5) \<and> (warming t = Off \<longrightarrow> entries t = [] \<and> getPromotedCount t = 0)"
proof -
  have "tracker_inv t0 new_tracker" by (simp add: tracker_inv_def new_tracker_def)
  from promotion_run_inv [OF assms(1) this] obtain now where "tracker_inv now t" using assms(2) by auto
  then show ?thesis
    by (simp add: tracker_inv_def MAX_PROMOTION_TRACKER_ENTRIES_def DESTICK_AFTER_ACTIVE_TURNS_def getPromotedCount_def)
qed

text \<open>
  The dynamic policy on a session that is new to the tracker and takes its turns with less than
  three minutes between them: it is promoted exactly after the turns three to seven, so the
  one-hour premium is paid for five turns and never again, however long it goes on. The first
  turn after a pause of three minutes promotes it, whatever its past, and the request gets the
  one-hour TTL exactly if it also has the minimum size.
\<close>

lemma dynamic_promotion_cycle:
  assumes "warming t = Dynamic" and "jm_wf (entries t)" and "jm_get (entries t) k = None"
    and "no_pause ts" and "ts \<noteq> []"
  shows "(isPromoted k (turns k n m ts t) \<longleftrightarrow> 3 \<le> length ts \<and> length ts \<le> 7)
    \<and> (\<forall>now \<ge> last ts + 180000.
          isPromoted k (turns k n m (ts @ [now]) t)
          \<and> (fst (observeAndShouldInject k now tokens m (turns k n m ts t)) \<longleftrightarrow> m \<le> tokens))"
proof -
  note worked = turns_worked [OF assms, of n m]
  have idle: "promoted (dynamic_entry (Some (worked_entry (length ts) (last ts))) now)" if "last ts + 180000 \<le> now" for now
    using that by (simp add: dynamic_entry_def worked_entry_def Let_def IDLE_GAP_FOR_PROMOTION_MS_def)
  have "isPromoted k (turns k n m (ts @ [now]) t)
      \<and> (fst (observeAndShouldInject k now tokens m (turns k n m ts t)) \<longleftrightarrow> m \<le> tokens)" if "last ts + 180000 \<le> now" for now
    using observe_dynamic [of "turns k n m ts t" k now n m] observe_dynamic [of "turns k n m ts t" k now tokens m]
      worked idle [OF that] by (simp add: isPromoted_def turns_def)
  with worked show ?thesis by (simp add: isPromoted_def worked_entry_def)
qed

subsection \<open>Witnesses\<close>

definition dynamic_tracker :: promotion_tracker where
  "dynamic_tracker = \<lparr>warming = Dynamic, entries = []\<rparr>"


end
