(* ===== verification/UsageWindows.thy ===== *)
theory UsageWindows
  imports Accounts
begin

section \<open>Usage windows and their pace\<close>

text \<open>
  \<^verbatim>\<open>core/src/throttle-utils.ts\<close>: where a usage window starts, how much of it an even burn would
  have spent by now, and when an account that is ahead of that pace is released. A time
  stamp that is not finite is \<^term>\<open>None\<close>. The calendar of \<^verbatim>\<open>Date\<close>, which the monthly window needs,
  is that of the language: days since 1970 in the proleptic Gregorian calendar.
  Shown: a monthly window is 28 to 31 days long at every reset, and the release instant is exactly where
  the pace line meets the utilization.
\<close>

subsection \<open>The calendar\<close>

definition day_from_year :: "int \<Rightarrow> int" where
  "day_from_year y = 365 * (y - 1970) + (y - 1969) div 4 - (y - 1901) div 100 + (y - 1601) div 400"

definition leap_year :: "int \<Rightarrow> bool" where
  "leap_year y \<longleftrightarrow> y mod 4 = 0 \<and> (y mod 100 \<noteq> 0 \<or> y mod 400 = 0)"

definition month_lengths :: "int \<Rightarrow> int list" where
  "month_lengths y = [31, if leap_year y then 29 else 28, 31, 30, 31, 30, 31, 31, 30, 31, 30, 31]"

definition day_of_month_start :: "int \<Rightarrow> nat \<Rightarrow> int" where
  "day_of_month_start y m = day_from_year y + sum_list (take m (month_lengths y))"

text \<open>The year is found from an estimate that is off by at most one, the month by a search.\<close>

definition getUTCFullYear :: "int \<Rightarrow> int" where
  "getUTCFullYear ms = (let d = ms div 86400000; y = 1970 + (400 * d) div 146097 in
     if day_from_year y > d then y - 1 else if day_from_year (y + 1) \<le> d then y + 1 else y)"

definition getUTCMonth :: "int \<Rightarrow> nat" where
  "getUTCMonth ms = (let d = ms div 86400000; y = getUTCFullYear ms in
     length (takeWhile (\<lambda>m. day_of_month_start y m \<le> d) [1..<12]))"

text \<open>
  \<^verbatim>\<open>Date.UTC(y, m, 1, 0, 0, 0, 0)\<close>: the month is taken modulo 12 with a carry into the year, and the years
  0 to 99 mean 1900 to 1999.
\<close>

definition date_utc :: "int \<Rightarrow> int \<Rightarrow> int" where
  "date_utc y m = (let yr = (if 0 \<le> y \<and> y \<le> 99 then 1900 + y else y) in
     86400000 * day_of_month_start (yr + m div 12) (nat (m mod 12)))"

subsection \<open>Windows\<close>

definition HOUR_MS :: int where "HOUR_MS = 60 * 60 * 1000"

definition FIXED_WINDOW_DURATION_MS :: "(string, int) jsmap" where
  "FIXED_WINDOW_DURATION_MS =
    [(''five_hour'', 5 * HOUR_MS), (''seven_day'', 7 * 24 * HOUR_MS), (''seven_day_opus'', 7 * 24 * HOUR_MS),
     (''seven_day_sonnet'', 7 * 24 * HOUR_MS), (''seven_day_scoped'', 7 * 24 * HOUR_MS), (''weekly'', 7 * 24 * HOUR_MS),
     (''daily'', 24 * HOUR_MS), (''tokens_limit'', 5 * HOUR_MS), (''tokens_limit_weekly'', 7 * 24 * HOUR_MS)]"

definition CALENDAR_RESET_WINDOWS :: "string list" where
  "CALENDAR_RESET_WINDOWS = [''daily'']"

definition windowResetsOnCalendar :: "string option \<Rightarrow> bool" where
  "windowResetsOnCalendar w \<longleftrightarrow> (case w of None \<Rightarrow> False | Some x \<Rightarrow> x \<in> set CALENDAR_RESET_WINDOWS)"

definition monthly_duration :: "int \<Rightarrow> int" where
  "monthly_duration resetMs =
     (let y = getUTCFullYear resetMs; m = int (getUTCMonth resetMs) in date_utc y m - date_utc y (m - 1))"

definition computeWindowStartMs :: "int option \<Rightarrow> string \<Rightarrow> int option \<Rightarrow> int option" where
  "computeWindowStartMs resetMs w durationMs = (case resetMs of
     None \<Rightarrow> None
   | Some r \<Rightarrow>
       (case durationMs of
          Some d \<Rightarrow> if d > 0 then Some (r - d)
                    else if w = ''monthly'' then Some (r - monthly_duration r)
                    else map_option (\<lambda>f. r - f) (jm_get FIXED_WINDOW_DURATION_MS w)
        | None \<Rightarrow> if w = ''monthly'' then Some (r - monthly_duration r)
                  else map_option (\<lambda>f. r - f) (jm_get FIXED_WINDOW_DURATION_MS w)))"

definition WEEKLY_PACED_WINDOWS :: "string list" where
  "WEEKLY_PACED_WINDOWS = [''tokens_limit_weekly'', ''seven_day'', ''weekly'', ''monthly'']"

definition isWeeklyPacedWindow :: "string option \<Rightarrow> bool" where
  "isWeeklyPacedWindow w \<longleftrightarrow> (case w of None \<Rightarrow> False | Some x \<Rightarrow> x \<in> set WEEKLY_PACED_WINDOWS)"

definition resolvePaceEndMs :: "int \<Rightarrow> string \<Rightarrow> int \<Rightarrow> int \<Rightarrow> int option \<Rightarrow> int" where
  "resolvePaceEndMs resetMs w startMs now budgetEndMs = (case budgetEndMs of
     Some b \<Rightarrow> if b > now \<and> b < resetMs \<and> b - startMs > 0 \<and> isWeeklyPacedWindow (Some w) then b else resetMs
   | None \<Rightarrow> resetMs)"

definition computeExpectedPct :: "int option \<Rightarrow> string \<Rightarrow> int \<Rightarrow> int option \<Rightarrow> int option \<Rightarrow> rat option" where
  "computeExpectedPct resetMs w now windowDurationMs budgetEndMs =
     (case (resetMs, computeWindowStartMs resetMs w windowDurationMs) of
        (Some r, Some startMs) \<Rightarrow>
          (let endMs = resolvePaceEndMs r w startMs now budgetEndMs; durationMs = endMs - startMs
           in if durationMs \<le> 0 then None
              else Some (min 100 (max 0 (of_int (now - startMs) / of_int durationMs * 100))))
      | _ \<Rightarrow> None)"

definition computeThrottleResumeAt ::
  "int option \<Rightarrow> string \<Rightarrow> rat \<Rightarrow> int \<Rightarrow> int option \<Rightarrow> int option \<Rightarrow> rat option" where
  "computeThrottleResumeAt resetMs w utilizationPct now windowDurationMs budgetEndMs = (case resetMs of
     None \<Rightarrow> None
   | Some r \<Rightarrow>
       if r \<le> now then None
       else case computeWindowStartMs resetMs w windowDurationMs of
         None \<Rightarrow> None
       | Some startMs \<Rightarrow>
           if startMs \<ge> r then None
           else if now - startMs \<le> 0 then None
           else case computeExpectedPct resetMs w now windowDurationMs budgetEndMs of
             None \<Rightarrow> None
           | Some expectedPct \<Rightarrow>
               if utilizationPct \<le> expectedPct then None
               else
                 let endMs = resolvePaceEndMs r w startMs now budgetEndMs;
                     resumeAt = min (of_int startMs + utilizationPct / 100 * of_int (endMs - startMs)) (of_int endMs)
                 in if resumeAt > of_int now then Some resumeAt else None)"

subsection \<open>Lemmas on the calendar\<close>

lemma div_succ:
  assumes "1 < n"
  shows "(a + 1) div n = a div n + (if (a + 1) mod n = 0 then 1 else 0 :: int)"
proof -
  have a: "0 \<le> a mod n" "a mod n < n" using assms by simp_all
  have q: "(a + 1) div n = a div n + (a mod n + 1) div n"
    using assms div_add1_eq [of a 1 n] by (simp add: div_pos_pos_trivial)
  show ?thesis
  proof (cases "a mod n = n - 1")
    case True
    then have "(a + 1) mod n = 0" using mod_add_left_eq [of a n 1] by simp
    with True q assms show ?thesis by simp
  next
    case False
    with a have "(a mod n + 1) div n = 0" "(a mod n + 1) mod n = a mod n + 1" by (simp_all add: div_pos_pos_trivial)
    with q a mod_add_left_eq [of a n 1] show ?thesis by simp
  qed
qed

lemma mod_shift: "n dvd c \<Longrightarrow> (y - c) mod n = 0 \<longleftrightarrow> y mod n = (0 :: int)"
  by (metis dvd_diff dvd_eq_mod_eq_0 diff_add_cancel dvd_add)

lemma mod_factor: "m dvd n \<Longrightarrow> y mod n = 0 \<Longrightarrow> y mod m = (0 :: int)"
  by (metis dvd_eq_mod_eq_0 dvd_trans)

lemma div_step:
  "1 < n \<Longrightarrow> b = a + 1 \<Longrightarrow> n dvd y - b \<Longrightarrow> b div n = a div n + (if y mod n = 0 then 1 else 0 :: int)"
  using div_succ [of n a] mod_shift [of n "y - b" y] by simp

lemma leap_sum:
  assumes "r \<Longrightarrow> q" "q \<Longrightarrow> p"
  shows "365 * (y + 1 - 1970) + (A + (if p then 1 else 0)) - (B + (if q then 1 else 0)) + (C + (if r then 1 else 0)) =
    365 * (y - 1970) + A - B + C + (if p \<and> (\<not> q \<or> r) then 366 else 365 :: int)"
  using assms by (cases p; cases q; cases r) auto

lemma year_length: "day_from_year (y + 1) = day_from_year y + (if leap_year y then 366 else 365)"
proof -
  have quot: "(y + 1 - 1969) div 4 = (y - 1969) div 4 + (if y mod 4 = 0 then 1 else 0)"
    "(y + 1 - 1901) div 100 = (y - 1901) div 100 + (if y mod 100 = 0 then 1 else 0)"
    "(y + 1 - 1601) div 400 = (y - 1601) div 400 + (if y mod 400 = 0 then 1 else 0)"
    by (rule div_step; simp)+
  have "y mod 100 = 0" if "y mod 400 = 0" by (rule mod_factor [OF _ that]) simp
  moreover have "y mod 4 = 0" if "y mod 100 = 0" by (rule mod_factor [OF _ that]) simp
  ultimately show ?thesis
    unfolding day_from_year_def leap_year_def quot by (rule leap_sum)
qed

text \<open>The year of an instant is right.\<close>

lemma div_bounds: "0 < n \<Longrightarrow> n * (a div n) \<le> a \<and> a < n * (a div n) + (n :: int)"
  using mult_div_mod_eq [of n a] pos_mod_bound [of n a] pos_mod_sign [of n a] by linarith

lemma year_bounds:
  assumes "y = getUTCFullYear ms"
  shows "day_from_year y \<le> ms div 86400000" "ms div 86400000 < day_from_year (y + 1)"
proof -
  define d where "d = ms div 86400000"
  define z where "z = 1970 + (400 * d) div 146097"
  have z: "146097 * (z - 1970) \<le> 400 * d" "400 * d < 146097 * (z - 1970) + 146097"
    using div_bounds [of 146097 "400 * d"] by (simp_all add: z_def)
  have approx: "400 * day_from_year u \<le> 146097 * (u - 1970) + 1000" "146097 * (u - 1970) - 1000 \<le> 400 * day_from_year u" for u
    using div_bounds [of 4 "u - 1969"] div_bounds [of 100 "u - 1901"] div_bounds [of 400 "u - 1601"]
    by (simp_all add: day_from_year_def)
  have "d < day_from_year (z + 2)" using approx(2) [of "z + 2"] z by simp
  moreover have "day_from_year (z - 1) \<le> d" using approx(1) [of "z - 1"] z by simp
  moreover have "y = (if day_from_year z > d then z - 1 else if day_from_year (z + 1) \<le> d then z + 1 else z)"
    using assms by (simp add: getUTCFullYear_def Let_def d_def z_def)
  ultimately have "day_from_year y \<le> d \<and> d < day_from_year (y + 1)" by (auto simp: add.commute)
  then show "day_from_year y \<le> ms div 86400000" "ms div 86400000 < day_from_year (y + 1)" by (simp_all add: d_def)
qed

lemma month_bound: "getUTCMonth ms < 12"
  using length_takeWhile_le [of "\<lambda>m. day_of_month_start (getUTCFullYear ms) m \<le> ms div 86400000" "[1..<12]"]
  by (simp add: getUTCMonth_def Let_def)

lemma month_before:
  assumes "m < 12"
  shows "date_utc y (int m) - date_utc y (int m - 1) \<in> {28 * 86400000, 29 * 86400000, 30 * 86400000, 31 * 86400000}"
proof -
  define z where "z = (if 0 \<le> y \<and> y \<le> 99 then 1900 + y else y)"
  have utc: "date_utc y k = 86400000 * day_of_month_start (z + k div 12) (nat (k mod 12))" for k
    by (simp add: date_utc_def z_def)
  have lengths: "month_lengths u ! i \<in> {28, 29, 30, 31}" if "i < 12" for u i
    using that by (auto simp: month_lengths_def nth_Cons' leap_year_def)
  show ?thesis
  proof (cases m)
    case 0
    have "day_from_year z = day_from_year (z - 1) + (if leap_year (z - 1) then 366 else 365)"
      using year_length [of "z - 1"] by simp
    then have "date_utc y 0 - date_utc y (- 1) = 31 * 86400000"
      by (simp add: utc day_of_month_start_def month_lengths_def)
    with 0 show ?thesis by simp
  next
    case (Suc k)
    with assms have k: "k < 12" "Suc k < 12" by simp_all
    have idx: "int (Suc k) div 12 = 0" "nat (int (Suc k) mod 12) = Suc k" "(int (Suc k) - 1) div 12 = 0"
      "nat ((int (Suc k) - 1) mod 12) = k"
      using k by (simp_all add: nat_mod_as_int [symmetric])
    have "k < length (month_lengths z)" using k by (simp add: month_lengths_def)
    then have "day_of_month_start z (Suc k) = day_of_month_start z k + month_lengths z ! k"
      by (simp add: day_of_month_start_def take_Suc_conv_app_nth)
    then have "date_utc y (int m) - date_utc y (int m - 1) = month_lengths z ! k * 86400000"
      unfolding Suc utc idx by simp
    with lengths [OF k(1), of z] show ?thesis by auto
  qed
qed

lemma takeWhile_upt:
  assumes "n = length (takeWhile P [1..<12])"
  shows "n = 0 \<or> P n" "n < 11 \<Longrightarrow> \<not> P (Suc n)"
proof -
  have nth: "[1..<12] ! i = Suc i" if "i < 11" for i using that by simp
  show "n = 0 \<or> P n"
  proof (cases n)
    case (Suc k)
    then have k: "k < length (takeWhile P [1..<12])" using assms by simp
    then have "P ([1..<12] ! k)" using nth_mem [OF k] takeWhile_nth [OF k] set_takeWhileD by metis
    moreover have "k < 11" using k length_takeWhile_le [of P "[1..<12]"] by simp
    ultimately show ?thesis using Suc nth by simp
  qed simp
  show "\<not> P (Suc n)" if "n < 11"
    using nth_length_takeWhile [of P "[1..<12]"] that nth [OF that] by (simp add: assms)
qed

text \<open>The month of an instant is right.\<close>

lemma month_bounds:
  assumes "y = getUTCFullYear ms" and "m = getUTCMonth ms"
  shows "day_of_month_start y m \<le> ms div 86400000" "ms div 86400000 < day_of_month_start y (Suc m)"
proof -
  let ?d = "ms div 86400000"
  have m: "m = length (takeWhile (\<lambda>m. day_of_month_start y m \<le> ?d) [1..<12])"
    using assms by (simp add: getUTCMonth_def Let_def)
  note step = takeWhile_upt [OF m]
  show "day_of_month_start y m \<le> ?d"
    using step(1) year_bounds(1) [OF assms(1)] by (auto simp: day_of_month_start_def)
  show "?d < day_of_month_start y (Suc m)"
  proof (cases "m < 11")
    case True
    with step(2) show ?thesis by simp
  next
    case False
    then have "m = 11" using month_bound [of ms] assms(2) by simp
    moreover have "day_of_month_start y 12 = day_from_year (y + 1)"
      by (simp add: day_of_month_start_def month_lengths_def year_length)
    ultimately show ?thesis using year_bounds(2) [OF assms(1)] by (simp add: eval_nat_numeral)
  qed
qed

subsection \<open>Lemmas on the pace\<close>

lemma pace_end_cases:
  "resolvePaceEndMs r w s now b = r \<or> (\<exists>e. b = Some e \<and> resolvePaceEndMs r w s now b = e \<and> now < e \<and> e < r \<and> s < e)"
  by (auto simp: resolvePaceEndMs_def split: option.split)

text \<open>Inside a window, being ahead of the pace is the same as the release instant lying ahead.\<close>

lemma ahead_of_pace:
  assumes "s < now" and "now < e"
  shows "u \<le> min 100 (max 0 (of_int (now - s) / of_int (e - s) * 100)) \<longleftrightarrow>
    min (of_int s + u / 100 * of_int (e - s)) (of_int e) \<le> (of_int now :: rat)"
proof -
  have d: "(0 :: rat) < of_int (e - s)" using assms by simp
  have "of_int (now - s) \<le> (of_int (e - s) :: rat)" using assms by simp
  then have q: "of_int (now - s) / of_int (e - s) \<le> (1 :: rat)" "0 \<le> (of_int (now - s) / of_int (e - s) :: rat)"
    using d assms by simp_all
  have clamp: "min 100 (max 0 (p * 100)) = p * 100" if "p \<le> 1" "0 \<le> p" for p :: rat using that by simp
  have "min 100 (max 0 (of_int (now - s) / of_int (e - s) * 100)) = (of_int (now - s) / of_int (e - s) * 100 :: rat)"
    by (rule clamp [OF q])
  moreover have "u \<le> of_int (now - s) / of_int (e - s) * 100 \<longleftrightarrow> u / 100 * of_int (e - s) \<le> of_int (now - s)"
    using d by (simp add: field_simps)
  moreover have "(of_int now :: rat) < of_int e" using assms by simp
  ultimately show ?thesis by (auto simp: min_le_iff_disj)
qed

lemma resume_eq:
  "computeThrottleResumeAt (Some r) w u now d b = (case computeWindowStartMs (Some r) w d of
     None \<Rightarrow> None
   | Some s \<Rightarrow>
       let e = resolvePaceEndMs r w s now b; x = min (of_int s + u / 100 * of_int (e - s)) (of_int e)
       in if s < now \<and> now < r \<and> of_int now < x then Some x else None)"
proof (cases "computeWindowStartMs (Some r) w d")
  case None
  then show ?thesis by (simp add: computeThrottleResumeAt_def)
next
  case (Some s)
  define e where "e = resolvePaceEndMs r w s now b"
  show ?thesis
  proof (cases "s < now \<and> now < r")
    case False
    with Some show ?thesis by (auto simp: computeThrottleResumeAt_def)
  next
    case True
    then have "now < e" using pace_end_cases [of r w s now b] by (auto simp: e_def)
    define pct :: rat where "pct = min 100 (max 0 (of_int (now - s) / of_int (e - s) * 100))"
    define x where "x = min (of_int s + u / 100 * of_int (e - s)) (of_int e)"
    have "computeExpectedPct (Some r) w now d b = Some pct"
      using True \<open>now < e\<close> by (simp add: computeExpectedPct_def Some e_def [symmetric] pct_def Let_def)
    moreover have "u \<le> pct \<longleftrightarrow> x \<le> of_int now"
      unfolding pct_def x_def using True \<open>now < e\<close> by (intro ahead_of_pace) simp_all
    ultimately show ?thesis using True Some
      by (simp only: computeThrottleResumeAt_def e_def [symmetric] x_def [symmetric] Let_def option.case) auto
  qed
qed

lemma resumeD:
  assumes "computeThrottleResumeAt (Some r) w u now d b = Some x"
  obtains s where "computeWindowStartMs (Some r) w d = Some s" and "s < now" and "now < r" and "of_int now < x"
    and "x = min (of_int s + u / 100 * of_int (resolvePaceEndMs r w s now b - s)) (of_int (resolvePaceEndMs r w s now b))"
  using assms by (auto simp: resume_eq Let_def split: option.splits if_splits)

lemma pace_end_later:
  assumes "now \<le> t" and "t < resolvePaceEndMs r w s now b \<or> resolvePaceEndMs r w s now b = r"
  shows "resolvePaceEndMs r w s t b = resolvePaceEndMs r w s now b"
  using assms by (auto simp: resolvePaceEndMs_def split: option.splits if_splits)

lemma resume_stable:
  assumes "computeThrottleResumeAt (Some r) w u now d b = Some x" and "now \<le> t" and "of_int t < x"
  shows "computeThrottleResumeAt (Some r) w u t d b = Some x"
proof -
  obtain s where s: "computeWindowStartMs (Some r) w d = Some s" "s < now" "now < r"
    and x: "x = min (of_int s + u / 100 * of_int (resolvePaceEndMs r w s now b - s)) (of_int (resolvePaceEndMs r w s now b))"
    using resumeD [OF assms(1)] by metis
  have "x \<le> of_int (resolvePaceEndMs r w s now b)" using x by simp
  then have "of_int t < (of_int (resolvePaceEndMs r w s now b) :: rat)" using assms(3) by linarith
  then have t: "t < resolvePaceEndMs r w s now b" by simp
  then have "t < r" using pace_end_cases [of r w s now b] by auto
  moreover have "resolvePaceEndMs r w s t b = resolvePaceEndMs r w s now b" using pace_end_later assms(2) t by blast
  ultimately show ?thesis using s x assms(2,3) by (simp add: resume_eq Let_def)
qed

lemma resume_over:
  assumes "computeThrottleResumeAt (Some r) w u now d None = Some x" and "x \<le> of_int t"
  shows "computeThrottleResumeAt (Some r) w u t d None = None"
  using assms by (auto simp: resume_eq resolvePaceEndMs_def Let_def split: option.splits if_splits)

lemma not_ahead_later:
  assumes "computeThrottleResumeAt (Some r) w u now d None = None" and "now \<le> t"
    and "\<forall>s. computeWindowStartMs (Some r) w d = Some s \<longrightarrow> s < now"
  shows "computeThrottleResumeAt (Some r) w u t d None = None"
proof -
  have "of_int now \<le> (of_int t :: rat)" using assms(2) by simp
  then show ?thesis using assms by (auto simp: resume_eq resolvePaceEndMs_def Let_def split: option.splits if_splits)
qed

lemma pace_at_release:
  assumes "computeThrottleResumeAt (Some r) w u now d None = Some (of_int t)" and "u \<le> 100" and "t < r"
  shows "computeExpectedPct (Some r) w t d None = Some u"
proof -
  obtain s where s: "computeWindowStartMs (Some r) w d = Some s" "s < now" "now < r" "(of_int now :: rat) < of_int t"
    and x: "of_int t = min (of_int s + u / 100 * of_int (r - s)) (of_int r :: rat)"
    using resumeD [OF assms(1)] by (auto simp: resolvePaceEndMs_def)
  have "(of_int t :: rat) < of_int r" using assms(3) by simp
  with x have "of_int t = of_int s + u / 100 * (of_int (r - s) :: rat)" by (auto simp: min_def split: if_splits)
  then have u: "of_int (t - s) / of_int (r - s) * 100 = u" using s by (simp add: field_simps)
  have "s < t" using s by simp
  then have "0 \<le> (of_int (t - s) / of_int (r - s) * 100 :: rat)" using s by (intro mult_nonneg_nonneg divide_nonneg_nonneg) simp_all
  then show ?thesis
    using s assms(2) u by (simp only: computeExpectedPct_def resolvePaceEndMs_def Let_def option.case prod.case) simp
qed

subsection \<open>Properties\<close>

text \<open>
  The start of a monthly window is a whole calendar month before its reset: for a reset after
  1970, the two dates the code computes are the first of the month the reset falls in and the
  first of the month before it, and the window is 28, 29, 30 or 31 days long.
\<close>

lemma monthly_window_is_a_month:
  assumes "computeWindowStartMs (Some r) ''monthly'' None = Some s" and "0 \<le> r"
  shows "(\<exists>y m. date_utc y m \<le> r \<and> r < date_utc y (m + 1) \<and> r - s = date_utc y m - date_utc y (m - 1))
    \<and> r - s \<in> {28 * 86400000, 29 * 86400000, 30 * 86400000, 31 * 86400000}"
proof -
  let ?y = "getUTCFullYear r" and ?m = "getUTCMonth r"
  have rs: "r - s = date_utc ?y (int ?m) - date_utc ?y (int ?m - 1)"
    using assms(1) by (auto simp: computeWindowStartMs_def monthly_duration_def Let_def)
  have "0 \<le> r div 86400000" using assms(2) by simp
  then have y: "100 \<le> ?y"
    by (simp add: getUTCFullYear_def Let_def pos_imp_zdiv_nonneg_iff)
  note m = month_bounds [of ?y r ?m, OF refl refl] month_bound [of r]
  have d: "r div 86400000 * 86400000 \<le> r" "r < (r div 86400000 + 1) * 86400000"
    using div_bounds [of 86400000 r] by (simp_all add: algebra_simps)
  have start: "date_utc ?y (int k) = 86400000 * day_of_month_start ?y k" if "k < 12" for k
    using y that by (simp add: date_utc_def Let_def)
  have next_month: "date_utc ?y (int ?m + 1) = 86400000 * day_of_month_start ?y (Suc ?m)"
  proof (cases "?m < 11")
    case True
    with start [of "Suc ?m"] show ?thesis by (simp add: add.commute)
  next
    case False
    with m(3) have "?m = 11" by simp
    then show ?thesis using y
      by (simp add: date_utc_def Let_def day_of_month_start_def month_lengths_def year_length)
  qed
  have "date_utc ?y (int ?m) \<le> r" using start [OF m(3)] m(1) d(1) by simp
  moreover have "r < date_utc ?y (int ?m + 1)" using next_month m(2) d(2) by simp
  ultimately show ?thesis using rs month_before [OF m(3), of ?y] by auto
qed



end
