(* ===== verification/UsageThrottle.thy ===== *)
theory UsageThrottle
  imports UsageWindows
begin

section \<open>Usage readings and the throttle of an account\<close>

text \<open>
  \<^verbatim>\<open>core/src/usage-normalizer.ts\<close> and \<^verbatim>\<open>proxy/src/handlers/usage-throttling.ts\<close>. A usage payload is
  an object whose keys may be missing (\<^term>\<open>None\<close>), present and null (\<^term>\<open>Some None\<close>) or present with a
  value; a window object carries the fields of every provider's shape, each optional. A
  \<^verbatim>\<open>resets_at\<close> text is represented by what \<^verbatim>\<open>Date.parse\<close> makes of it: absent, not a date, or an instant.
  Shown: a window is absent exactly when no reading is present, never 0; the throttle of an account is released
  at the latest of its windows' release instants, and not before.
\<close>

datatype reset_text = No_reset | Bad_date | Reset_at int

record window_obj =
  utilization :: "rat option"
  resets_at :: reset_text
  resetAt :: "int option"
  percentage :: "rat option"
  percentUsed :: "rat option"
  intervalMs :: "int option"

record extra_usage_obj =
  eu_is_enabled :: bool
  eu_utilization :: "rat option"

record limit_entry =
  kind :: string
  percent :: "rat option"
  limit_resets_at :: reset_text
  display_name :: "string option"
  is_active :: bool

record usage_payload =
  p_five_hour :: "window_obj option option"
  p_seven_day :: "window_obj option option"
  p_seven_day_oauth_apps :: "window_obj option option"
  p_seven_day_opus :: "window_obj option option"
  p_seven_day_sonnet :: "window_obj option option"
  p_weekly :: "window_obj option option"
  p_monthly :: "window_obj option option"
  p_tokens_limit :: "window_obj option option"
  p_tokens_limit_weekly :: "window_obj option option"
  p_time_limit :: "window_obj option option"
  p_limits :: "limit_entry list option"
  p_extra_usage :: "extra_usage_obj option option"
  p_daily :: "window_obj option option"
  p_weeklyUtilization :: "rat option"
  p_weeklyResetAt :: "int option"
  p_kind :: "string option"

record usage_window =
  win_utilization :: rat
  win_resetMs :: "int option"

record scoped_limit =
  sc_family :: model_family
  sc_percent :: rat
  sc_resetsAtMs :: int
  sc_isActive :: bool
  sc_displayName :: string

record normalized_usage =
  session :: "usage_window option"
  weeklyAll :: "usage_window option"
  weeklyScoped :: "scoped_limit list"
  weeklyScopedPresent :: "model_family list"
  weeklyScopedIdle :: "model_family list"

subsection \<open>Normalisation\<close>

fun parseResetMs :: "reset_text \<Rightarrow> int option" where
  "parseResetMs (Reset_at ms) = Some ms"
| "parseResetMs _ = None"

text \<open>The value behind a key, absent and null alike.\<close>

definition value_of :: "'a option option \<Rightarrow> 'a option" where
  "value_of x = (case x of Some y \<Rightarrow> y | None \<Rightarrow> None)"

definition limits_of :: "usage_payload \<Rightarrow> limit_entry list" where
  "limits_of p = (case p_limits p of None \<Rightarrow> [] | Some ls \<Rightarrow> ls)"

fun first_limit :: "string \<Rightarrow> limit_entry list \<Rightarrow> usage_window option" where
  "first_limit k [] = None"
| "first_limit k (l # ls) = (case percent l of
     Some u \<Rightarrow> if kind l = k then Some \<lparr>win_utilization = u, win_resetMs = parseResetMs (limit_resets_at l)\<rparr> else first_limit k ls
   | None \<Rightarrow> first_limit k ls)"

definition normalizeSession :: "usage_payload \<Rightarrow> usage_window option" where
  "normalizeSession p = (case value_of (p_five_hour p) of
     Some f \<Rightarrow> (case utilization f of
        Some u \<Rightarrow> Some \<lparr>win_utilization = u, win_resetMs = parseResetMs (resets_at f)\<rparr>
      | None \<Rightarrow> first_limit ''session'' (limits_of p))
   | None \<Rightarrow> first_limit ''session'' (limits_of p))"

definition normalizeWeeklyAll :: "usage_payload \<Rightarrow> usage_window option" where
  "normalizeWeeklyAll p = (case value_of (p_seven_day p) of
     Some f \<Rightarrow> (case utilization f of
        Some u \<Rightarrow> Some \<lparr>win_utilization = u, win_resetMs = parseResetMs (resets_at f)\<rparr>
      | None \<Rightarrow> first_limit ''weekly_all'' (limits_of p))
   | None \<Rightarrow> first_limit ''weekly_all'' (limits_of p))"

text \<open>One entry of \<^verbatim>\<open>limits[]\<close> in the loop that collects readings, named families and idle families.\<close>

definition scoped_step ::
  "int \<Rightarrow> scoped_limit list \<times> model_family list \<times> model_family list \<Rightarrow> limit_entry
    \<Rightarrow> scoped_limit list \<times> model_family list \<times> model_family list" where
  "scoped_step now acc l = (case acc of (readings, present, idle) \<Rightarrow>
     if kind l \<noteq> ''weekly_scoped'' then acc
     else
       let name = (case display_name l of None \<Rightarrow> [] | Some s \<Rightarrow> s) in
       case getModelFamily name of
         None \<Rightarrow> acc
       | Some f \<Rightarrow>
           (let present' = (if f \<in> set present then present else present @ [f]);
                idle' = (if percent l = Some 0 \<and> limit_resets_at l = No_reset \<and> f \<notin> set idle then idle @ [f] else idle)
            in case (percent l, parseResetMs (limit_resets_at l)) of
                 (Some u, Some ms) \<Rightarrow>
                   if ms \<le> now then (readings, present', idle')
                   else (readings @ [\<lparr>sc_family = f, sc_percent = u, sc_resetsAtMs = ms, sc_isActive = is_active l,
                           sc_displayName = name\<rparr>], present', idle')
               | _ \<Rightarrow> (readings, present', idle')))"

definition normalizeWeeklyScoped ::
  "usage_payload \<Rightarrow> int \<Rightarrow> scoped_limit list \<times> model_family list \<times> model_family list" where
  "normalizeWeeklyScoped p now = foldl (scoped_step now) ([], [], []) (limits_of p)"

definition normalizeAnthropicUsage :: "usage_payload option \<Rightarrow> int \<Rightarrow> normalized_usage" where
  "normalizeAnthropicUsage data now = (case data of
     None \<Rightarrow> \<lparr>session = None, weeklyAll = None, weeklyScoped = [], weeklyScopedPresent = [], weeklyScopedIdle = []\<rparr>
   | Some p \<Rightarrow> (case normalizeWeeklyScoped p now of (readings, present, idle) \<Rightarrow>
       \<lparr>session = normalizeSession p, weeklyAll = normalizeWeeklyAll p, weeklyScoped = readings,
        weeklyScopedPresent = present, weeklyScopedIdle = idle\<rparr>))"

definition getRepresentativeUtilization :: "normalized_usage \<Rightarrow> rat option" where
  "getRepresentativeUtilization n =
     (let utils = (case session n of None \<Rightarrow> [] | Some w \<Rightarrow> [win_utilization w])
                @ (case weeklyAll n of None \<Rightarrow> [] | Some w \<Rightarrow> [win_utilization w])
      in if utils \<noteq> [] then Some (foldl max (hd utils) (tl utils)) else None)"

definition reportsNoSessionWindow :: "usage_payload option \<Rightarrow> bool" where
  "reportsNoSessionWindow data = (case data of
     None \<Rightarrow> False
   | Some p \<Rightarrow> if p_five_hour p \<noteq> Some None then False else \<not> list_ex (\<lambda>l. kind l = ''session'') (limits_of p))"

definition isAnthropicUsageShape :: "usage_payload option \<Rightarrow> bool" where
  "isAnthropicUsageShape data = (case data of
     None \<Rightarrow> False
   | Some p \<Rightarrow> if p_five_hour p \<noteq> None \<or> p_seven_day p \<noteq> None then True else limits_of p \<noteq> [])"

definition observed :: "reset_text \<Rightarrow> rat option \<Rightarrow> (int \<times> rat option) list" where
  "observed r u = (case parseResetMs r of None \<Rightarrow> [] | Some ms \<Rightarrow> [(ms, u)])"

definition collectObservedWindows :: "usage_payload option \<Rightarrow> (int \<times> rat option) list" where
  "collectObservedWindows data = (case data of
     None \<Rightarrow> []
   | Some p \<Rightarrow>
       concat (map (\<lambda>k. case value_of k of None \<Rightarrow> [] | Some w \<Rightarrow> observed (resets_at w) (utilization w))
         [p_five_hour p, p_seven_day p, p_seven_day_oauth_apps p, p_seven_day_opus p, p_seven_day_sonnet p])
       @ concat (map (\<lambda>l. observed (limit_resets_at l) (percent l)) (limits_of p)))"

subsection \<open>The windows a payload paces\<close>

record usage_snapshot =
  snap_utilization :: rat
  snap_resetAtMs :: int
  snap_window :: string
  snap_durationMs :: "int option"

definition pushWindow :: "string \<Rightarrow> rat option \<Rightarrow> int option \<Rightarrow> int option \<Rightarrow> usage_snapshot list" where
  "pushWindow w u r d = (case (u, r) of
     (Some u', Some r') \<Rightarrow> [\<lparr>snap_utilization = u', snap_resetAtMs = r', snap_window = w, snap_durationMs = d\<rparr>]
   | _ \<Rightarrow> [])"

definition minimax_window :: "string \<Rightarrow> window_obj option option \<Rightarrow> usage_snapshot list" where
  "minimax_window w x = (case value_of x of
     None \<Rightarrow> []
   | Some o' \<Rightarrow> (case intervalMs o' of
       None \<Rightarrow> []
     | Some i \<Rightarrow> if i \<le> 0 then [] else pushWindow w (utilization o') (resetAt o') (Some i)))"

definition field_of :: "(window_obj \<Rightarrow> 'a option) \<Rightarrow> window_obj option option \<Rightarrow> 'a option" where
  "field_of f x = (case value_of x of None \<Rightarrow> None | Some o' \<Rightarrow> f o')"

definition collectWindows :: "usage_payload option \<Rightarrow> int \<Rightarrow> string \<Rightarrow> usage_snapshot list" where
  "collectWindows data now prov = (case data of
     None \<Rightarrow> []
   | Some p \<Rightarrow>
       if prov = ''minimax'' then
         minimax_window ''five_hour'' (p_five_hour p) @ minimax_window ''seven_day'' (p_seven_day p)
       else if p_five_hour p \<noteq> None \<and> p_seven_day p \<noteq> None then
         pushWindow ''five_hour'' (field_of utilization (p_five_hour p)) (field_of (parseResetMs \<circ> resets_at) (p_five_hour p)) None
         @ pushWindow ''seven_day'' (field_of utilization (p_seven_day p)) (field_of (parseResetMs \<circ> resets_at) (p_seven_day p)) None
       else if p_tokens_limit p \<noteq> None \<or> p_time_limit p \<noteq> None then
         pushWindow ''tokens_limit'' (field_of percentage (p_tokens_limit p)) (field_of resetAt (p_tokens_limit p)) None
         @ pushWindow ''tokens_limit_weekly'' (field_of percentage (p_tokens_limit_weekly p)) (field_of resetAt (p_tokens_limit_weekly p)) None
       else if p_weekly p \<noteq> None \<and> p_monthly p \<noteq> None \<and> p_five_hour p \<noteq> None then
         pushWindow ''five_hour'' (field_of percentUsed (p_five_hour p)) (field_of resetAt (p_five_hour p)) None
         @ pushWindow ''weekly'' (field_of percentUsed (p_weekly p)) (field_of resetAt (p_weekly p)) None
         @ pushWindow ''monthly'' (field_of percentUsed (p_monthly p)) (field_of resetAt (p_monthly p)) None
       else if isAnthropicUsageShape (Some p) then
         let n = normalizeAnthropicUsage (Some p) now in
         (case session n of None \<Rightarrow> [] | Some w \<Rightarrow> pushWindow ''five_hour'' (Some (win_utilization w)) (win_resetMs w) None)
         @ (case weeklyAll n of None \<Rightarrow> [] | Some w \<Rightarrow> pushWindow ''seven_day'' (Some (win_utilization w)) (win_resetMs w) None)
       else [])"

subsection \<open>The throttle\<close>

record throttle_settings =
  fiveHourEnabled :: bool
  weeklyEnabled :: bool

definition isWindowThrottlingEnabled :: "string \<Rightarrow> throttle_settings \<Rightarrow> bool" where
  "isWindowThrottlingEnabled w st = (if isWeeklyPacedWindow (Some w) then weeklyEnabled st else fiveHourEnabled st)"

definition throttle_step ::
  "throttle_settings \<Rightarrow> int \<Rightarrow> int option \<Rightarrow> rat option \<times> string list \<Rightarrow> usage_snapshot \<Rightarrow> rat option \<times> string list" where
  "throttle_step st now budgetEnd acc w = (case acc of (until, ws) \<Rightarrow>
     if \<not> isWindowThrottlingEnabled (snap_window w) st then acc
     else case computeThrottleResumeAt (Some (snap_resetAtMs w)) (snap_window w) (snap_utilization w) now (snap_durationMs w) budgetEnd of
       None \<Rightarrow> acc
     | Some r \<Rightarrow> (case until of
         None \<Rightarrow> (Some r, ws @ [snap_window w])
       | Some t \<Rightarrow> (if r > t then Some r else Some t, ws @ [snap_window w])))"

definition getUsageThrottleStatus ::
  "usage_payload option \<Rightarrow> throttle_settings \<Rightarrow> int \<Rightarrow> string \<Rightarrow> int option \<Rightarrow> rat option \<times> string list" where
  "getUsageThrottleStatus data st now prov budgetEnd =
     foldl (throttle_step st now budgetEnd) (None, []) (collectWindows data now prov)"

definition getUsageThrottleUntil ::
  "usage_payload option \<Rightarrow> throttle_settings \<Rightarrow> int \<Rightarrow> string \<Rightarrow> int option \<Rightarrow> rat option" where
  "getUsageThrottleUntil data st now prov budgetEnd = fst (getUsageThrottleStatus data st now prov budgetEnd)"

subsection \<open>Lemmas\<close>

lemma first_limit_None: "first_limit k ls = None \<longleftrightarrow> (\<forall>l \<in> set ls. kind l = k \<longrightarrow> percent l = None)"
  by (induction ls) (auto split: option.splits)

lemma scoped_step_cases:
  obtains "scoped_step now (r, p, i) l = (r, p, i)"
  | f r' c where "scoped_step now (r, p, i) l = (r', if f \<in> set p then p else p @ [f], if c \<and> f \<notin> set i then i @ [f] else i)"
      and "r' = r \<or> (\<exists>x. r' = r @ [x] \<and> sc_family x = f \<and> now < sc_resetsAtMs x)"
proof (cases "kind l = ''weekly_scoped'' \<and> getModelFamily (case display_name l of None \<Rightarrow> [] | Some s \<Rightarrow> s) \<noteq> None")
  case False
  then have "scoped_step now (r, p, i) l = (r, p, i)" by (auto simp: scoped_step_def Let_def)
  then show thesis by (rule that(1))
next
  case True
  define name where "name = (case display_name l of None \<Rightarrow> [] | Some s \<Rightarrow> s)"
  from True obtain f where f: "getModelFamily name = Some f" by (auto simp: name_def)
  let ?new = "\<lambda>u ms. \<lparr>sc_family = f, sc_percent = u, sc_resetsAtMs = ms, sc_isActive = is_active l, sc_displayName = name\<rparr>"
  let ?r = "case (percent l, parseResetMs (limit_resets_at l)) of
      (Some u, Some ms) \<Rightarrow> if ms \<le> now then r else r @ [?new u ms] | _ \<Rightarrow> r"
  have "scoped_step now (r, p, i) l =
      (?r, if f \<in> set p then p else p @ [f], if (percent l = Some 0 \<and> limit_resets_at l = No_reset) \<and> f \<notin> set i then i @ [f] else i)"
    using True f name_def [symmetric] by (simp add: scoped_step_def Let_def split: option.split)
  moreover have "?r = r \<or> (\<exists>x. ?r = r @ [x] \<and> sc_family x = f \<and> now < sc_resetsAtMs x)"
    by (cases "percent l"; cases "parseResetMs (limit_resets_at l)") auto
  ultimately show thesis by (rule that(2))
qed

definition scoped_ok :: "int \<Rightarrow> scoped_limit list \<times> model_family list \<times> model_family list \<Rightarrow> bool" where
  "scoped_ok now acc \<longleftrightarrow> (case acc of (readings, present, idle) \<Rightarrow>
     (\<forall>x \<in> set readings. now < sc_resetsAtMs x \<and> sc_family x \<in> set present) \<and> set idle \<subseteq> set present
     \<and> distinct present \<and> distinct idle)"

lemma scoped_step_ok:
  assumes "scoped_ok now acc"
  shows "scoped_ok now (scoped_step now acc l)"
proof -
  obtain r p i where acc: "acc = (r, p, i)" using prod_cases3 by blast
  show ?thesis unfolding acc
  proof (rule scoped_step_cases [of now r p i l])
    assume "scoped_step now (r, p, i) l = (r, p, i)"
    then show "scoped_ok now (scoped_step now (r, p, i) l)" using assms acc by simp
  next
    fix f r' c
    assume step: "scoped_step now (r, p, i) l = (r', if f \<in> set p then p else p @ [f], if c \<and> f \<notin> set i then i @ [f] else i)"
      and r': "r' = r \<or> (\<exists>x. r' = r @ [x] \<and> sc_family x = f \<and> now < sc_resetsAtMs x)"
    have "\<forall>x \<in> set r'. now < sc_resetsAtMs x \<and> sc_family x \<in> insert f (set p)"
      using r' assms by (auto simp: scoped_ok_def acc)
    with assms show "scoped_ok now (scoped_step now (r, p, i) l)"
      unfolding step by (auto simp: scoped_ok_def acc)
  qed
qed

interpretation scoped: invariant_system "scoped_step now" "scoped_ok now"
  by unfold_locales (rule scoped_step_ok)

lemma scoped_fold_ok: "scoped_ok now (foldl (scoped_step now) ([], [], []) ls)"
  by (rule scoped.run_inv) (simp add: scoped_ok_def)

lemma collect_windows_now: "collectWindows data now prov = collectWindows data t prov"
proof -
  have now: "session (normalizeAnthropicUsage d now) = session (normalizeAnthropicUsage d t)"
    "weeklyAll (normalizeAnthropicUsage d now) = weeklyAll (normalizeAnthropicUsage d t)" for d
    by (simp_all add: normalizeAnthropicUsage_def case_prod_unfold split: option.split)
  show ?thesis unfolding collectWindows_def Let_def now ..
qed

text \<open>The release instant of one window under the settings.\<close>

definition resume_of :: "throttle_settings \<Rightarrow> int \<Rightarrow> int option \<Rightarrow> usage_snapshot \<Rightarrow> rat option" where
  "resume_of st now b w = (if isWindowThrottlingEnabled (snap_window w) st
     then computeThrottleResumeAt (Some (snap_resetAtMs w)) (snap_window w) (snap_utilization w) now (snap_durationMs w) b
     else None)"

lemma throttle_fold:
  "case foldl (throttle_step st now b) (None, []) ws of (until, names) \<Rightarrow>
     names = map snap_window (filter (\<lambda>w. resume_of st now b w \<noteq> None) ws)
     \<and> (case until of
          None \<Rightarrow> \<forall>w \<in> set ws. resume_of st now b w = None
        | Some x \<Rightarrow> (\<exists>w \<in> set ws. resume_of st now b w = Some x)
            \<and> (\<forall>w \<in> set ws. \<forall>y. resume_of st now b w = Some y \<longrightarrow> y \<le> x))"
proof (induction ws rule: rev_induct)
  case (snoc w ws)
  obtain until names where acc: "foldl (throttle_step st now b) (None, []) ws = (until, names)" by fastforce
  have step: "foldl (throttle_step st now b) (None, []) (ws @ [w]) = (case resume_of st now b w of
      None \<Rightarrow> (until, names)
    | Some r \<Rightarrow> (case until of None \<Rightarrow> Some r | Some t \<Rightarrow> if r > t then Some r else Some t, names @ [snap_window w]))"
    by (simp add: acc throttle_step_def resume_of_def split: option.split)
  show ?case
  proof (cases "resume_of st now b w")
    case None
    with snoc acc step show ?thesis by (auto split: option.splits)
  next
    case (Some r)
    show ?thesis
    proof (cases until)
      case None
      with snoc acc step Some show ?thesis by auto
    next
      case (Some t)
      with snoc acc step \<open>resume_of st now b w = Some r\<close> show ?thesis by fastforce
    qed
  qed
qed simp

lemma throttle_until_None:
  "getUsageThrottleUntil data st now prov b = None \<longleftrightarrow> (\<forall>w \<in> set (collectWindows data now prov). resume_of st now b w = None)"
  using throttle_fold [of st now b "collectWindows data now prov"]
  by (auto simp: getUsageThrottleUntil_def getUsageThrottleStatus_def split: option.splits prod.splits)

lemma throttle_until_Some:
  "getUsageThrottleUntil data st now prov b = Some x \<longleftrightarrow>
    (\<exists>w \<in> set (collectWindows data now prov). resume_of st now b w = Some x)
    \<and> (\<forall>w \<in> set (collectWindows data now prov). \<forall>y. resume_of st now b w = Some y \<longrightarrow> y \<le> x)"
proof -
  obtain until names where f: "foldl (throttle_step st now b) (None, []) (collectWindows data now prov) = (until, names)" by fastforce
  note fold = throttle_fold [of st now b "collectWindows data now prov", unfolded f prod.case]
  show ?thesis
  proof (cases until)
    case None
    with fold f show ?thesis by (auto simp: getUsageThrottleUntil_def getUsageThrottleStatus_def)
  next
    case (Some y)
    with fold have y: "\<exists>w \<in> set (collectWindows data now prov). resume_of st now b w = Some y"
      "\<forall>w \<in> set (collectWindows data now prov). \<forall>z. resume_of st now b w = Some z \<longrightarrow> z \<le> y" by auto
    have "getUsageThrottleUntil data st now prov b = Some y"
      using Some f by (simp add: getUsageThrottleUntil_def getUsageThrottleStatus_def)
    with y show ?thesis by (metis antisym option.inject)
  qed
qed

lemma resume_of_later:
  assumes "\<forall>s. computeWindowStartMs (Some (snap_resetAtMs w)) (snap_window w) (snap_durationMs w) = Some s \<longrightarrow> s < now"
    and "now \<le> t"
  shows "resume_of st t None w = (case resume_of st now None w of None \<Rightarrow> None | Some x \<Rightarrow> if of_int t < x then Some x else None)"
proof (cases "resume_of st now None w")
  case None
  then show ?thesis
    using not_ahead_later [of "snap_resetAtMs w" "snap_window w" "snap_utilization w" now "snap_durationMs w" t] assms
    by (auto simp: resume_of_def split: if_splits)
next
  case (Some x)
  then have "computeThrottleResumeAt (Some (snap_resetAtMs w)) (snap_window w) (snap_utilization w) now (snap_durationMs w) None = Some x"
    by (simp add: resume_of_def split: if_splits)
  from resume_stable [OF this assms(2)] resume_over [OF this, of t] Some show ?thesis
    by (simp add: resume_of_def not_less split: if_splits)
qed

subsection \<open>Properties\<close>

text \<open>
  The throttle of an account: when a reading throttles the account now, every enabled window that is
  ahead of its pace is named, the account is released at the latest of their release instants,
  every query before that instant names the same one, and from it on the reading does not
  throttle the account again. It is required that the windows of the reading have opened, and the
  account's quota does not end before they reset.
\<close>

lemma usage_throttle_release:
  assumes x: "getUsageThrottleUntil data st now prov None = Some x"
    and opened: "\<forall>w \<in> set (collectWindows data now prov). \<forall>s.
      computeWindowStartMs (Some (snap_resetAtMs w)) (snap_window w) (snap_durationMs w) = Some s \<longrightarrow> s < now"
  shows "of_int now < x
    \<and> (\<forall>w \<in> set (collectWindows data now prov). isWindowThrottlingEnabled (snap_window w) st \<longrightarrow>
          (case computeThrottleResumeAt (Some (snap_resetAtMs w)) (snap_window w) (snap_utilization w) now (snap_durationMs w) None of
             None \<Rightarrow> True
           | Some y \<Rightarrow> y \<le> x \<and> snap_window w \<in> set (snd (getUsageThrottleStatus data st now prov None))))
    \<and> (\<forall>t \<ge> now. getUsageThrottleUntil data st t prov None = (if of_int t < x then Some x else None))"
proof (intro conjI)
  let ?W = "set (collectWindows data now prov)"
  obtain w where w: "w \<in> ?W" "resume_of st now None w = Some x" and max: "\<forall>w \<in> ?W. \<forall>y. resume_of st now None w = Some y \<longrightarrow> y \<le> x"
    using x unfolding throttle_until_Some by blast
  show "of_int now < x"
    using w(2) by (auto simp: resume_of_def split: if_splits elim: resumeD)
  have names: "snd (getUsageThrottleStatus data st now prov None) =
      map snap_window (filter (\<lambda>w. resume_of st now None w \<noteq> None) (collectWindows data now prov))"
    using throttle_fold [of st now None "collectWindows data now prov"] by (auto simp: getUsageThrottleStatus_def split: prod.splits)
  show "\<forall>w \<in> ?W. isWindowThrottlingEnabled (snap_window w) st \<longrightarrow>
      (case computeThrottleResumeAt (Some (snap_resetAtMs w)) (snap_window w) (snap_utilization w) now (snap_durationMs w) None of
         None \<Rightarrow> True | Some y \<Rightarrow> y \<le> x \<and> snap_window w \<in> set (snd (getUsageThrottleStatus data st now prov None)))"
    using max by (auto simp: names resume_of_def split: option.split)
  show "\<forall>t \<ge> now. getUsageThrottleUntil data st t prov None = (if of_int t < x then Some x else None)"
  proof (intro allI impI)
    fix t assume t: "now \<le> t"
    have later: "resume_of st t None v = (case resume_of st now None v of None \<Rightarrow> None | Some x \<Rightarrow> if of_int t < x then Some x else None)"
      if "v \<in> ?W" for v
      using resume_of_later [of v now t st] opened t that by blast
    show "getUsageThrottleUntil data st t prov None = (if of_int t < x then Some x else None)"
    proof (cases "of_int t < x")
      case True
      then show ?thesis unfolding if_P [OF True] throttle_until_Some collect_windows_now [of data t prov now]
        using w max later by (auto split: option.splits if_splits)
    next
      case False
      have "resume_of st t None v = None" if "v \<in> ?W" for v
        using later [OF that] max that False by (auto split: option.split)
      then show ?thesis using False by (simp add: throttle_until_None collect_windows_now [of data t prov now])
    qed
  qed
qed

text \<open>
  No reading is never read as 0: a normalised session or weekly window is absent exactly if neither
  the flat key nor an entry of its kind has a number, the account's representative utilization is
  absent exactly if both are, and otherwise is the larger one. Every per-family reading has a reset in the
  future, and the families with a reading, like the idle ones, are among the families named.
\<close>

lemma usage_windows_need_evidence:
  assumes "n = normalizeAnthropicUsage (Some p) now"
  shows "(session n = None \<longleftrightarrow> field_of utilization (p_five_hour p) = None
        \<and> (\<forall>l \<in> set (limits_of p). kind l = ''session'' \<longrightarrow> percent l = None))
    \<and> (weeklyAll n = None \<longleftrightarrow> field_of utilization (p_seven_day p) = None
        \<and> (\<forall>l \<in> set (limits_of p). kind l = ''weekly_all'' \<longrightarrow> percent l = None))
    \<and> (getRepresentativeUtilization n = None \<longleftrightarrow> session n = None \<and> weeklyAll n = None)
    \<and> (\<forall>u. getRepresentativeUtilization n = Some u \<longrightarrow>
          (\<forall>w. session n = Some w \<or> weeklyAll n = Some w \<longrightarrow> win_utilization w \<le> u)
          \<and> (\<exists>w. (session n = Some w \<or> weeklyAll n = Some w) \<and> win_utilization w = u))
    \<and> (\<forall>r \<in> set (weeklyScoped n). now < sc_resetsAtMs r \<and> sc_family r \<in> set (weeklyScopedPresent n))
    \<and> set (weeklyScopedIdle n) \<subseteq> set (weeklyScopedPresent n) \<and> distinct (weeklyScopedPresent n)"
proof (intro conjI)
  obtain r q i where f: "foldl (scoped_step now) ([], [], []) (limits_of p) = (r, q, i)" using prod_cases3 by blast
  have n: "n = \<lparr>session = normalizeSession p, weeklyAll = normalizeWeeklyAll p, weeklyScoped = r, weeklyScopedPresent = q,
      weeklyScopedIdle = i\<rparr>"
    by (simp add: assms normalizeAnthropicUsage_def normalizeWeeklyScoped_def f)
  note scoped = scoped_fold_ok [of now "limits_of p", unfolded f scoped_ok_def prod.case]
  show "session n = None \<longleftrightarrow> field_of utilization (p_five_hour p) = None
      \<and> (\<forall>l \<in> set (limits_of p). kind l = ''session'' \<longrightarrow> percent l = None)"
    by (simp add: n normalizeSession_def field_of_def first_limit_None split: option.split)
  show "weeklyAll n = None \<longleftrightarrow> field_of utilization (p_seven_day p) = None
      \<and> (\<forall>l \<in> set (limits_of p). kind l = ''weekly_all'' \<longrightarrow> percent l = None)"
    by (simp add: n normalizeWeeklyAll_def field_of_def first_limit_None split: option.split)
  show "getRepresentativeUtilization n = None \<longleftrightarrow> session n = None \<and> weeklyAll n = None"
    by (simp add: getRepresentativeUtilization_def Let_def split: option.split)
  show "\<forall>u. getRepresentativeUtilization n = Some u \<longrightarrow>
      (\<forall>w. session n = Some w \<or> weeklyAll n = Some w \<longrightarrow> win_utilization w \<le> u)
      \<and> (\<exists>w. (session n = Some w \<or> weeklyAll n = Some w) \<and> win_utilization w = u)"
    by (cases "session n"; cases "weeklyAll n") (auto simp: getRepresentativeUtilization_def Let_def max_def)
  show "\<forall>x \<in> set (weeklyScoped n). now < sc_resetsAtMs x \<and> sc_family x \<in> set (weeklyScopedPresent n)"
    using scoped by (auto simp: n)
  show "set (weeklyScopedIdle n) \<subseteq> set (weeklyScopedPresent n)" "distinct (weeklyScopedPresent n)"
    using scoped by (simp_all add: n)
qed

subsection \<open>Witnesses\<close>

definition no_window :: window_obj where
  "no_window = \<lparr>utilization = None, resets_at = No_reset, resetAt = None, percentage = None, percentUsed = None, intervalMs = None\<rparr>"

definition no_payload :: usage_payload where
  "no_payload = \<lparr>p_five_hour = None, p_seven_day = None, p_seven_day_oauth_apps = None, p_seven_day_opus = None,
     p_seven_day_sonnet = None, p_weekly = None, p_monthly = None, p_tokens_limit = None, p_tokens_limit_weekly = None,
     p_time_limit = None, p_limits = None, p_extra_usage = None, p_daily = None,
     p_weeklyUtilization = None, p_weeklyResetAt = None, p_kind = None\<rparr>"

definition sample_payload :: usage_payload where
  "sample_payload = no_payload\<lparr>
     p_five_hour := Some (Some (no_window\<lparr>utilization := Some 50, resets_at := Reset_at 18000000\<rparr>)),
     p_seven_day := Some (Some (no_window\<lparr>utilization := Some 10, resets_at := Reset_at 602000000\<rparr>))\<rparr>"

definition sample_settings :: throttle_settings where
  "sample_settings = \<lparr>fiveHourEnabled = True, weeklyEnabled = True\<rparr>"

lemma sample_windows:
  "collectWindows (Some sample_payload) now ''anthropic'' =
    [\<lparr>snap_utilization = 50, snap_resetAtMs = 18000000, snap_window = ''five_hour'', snap_durationMs = None\<rparr>,
     \<lparr>snap_utilization = 10, snap_resetAtMs = 602000000, snap_window = ''seven_day'', snap_durationMs = None\<rparr>]"
  by (simp add: collectWindows_def sample_payload_def no_payload_def no_window_def pushWindow_def field_of_def value_of_def)

lemma sample_starts:
  "computeWindowStartMs (Some 18000000) ''five_hour'' None = Some 0"
  "computeWindowStartMs (Some 602000000) ''seven_day'' None = Some (- 2800000)"
  by (simp_all add: computeWindowStartMs_def FIXED_WINDOW_DURATION_MS_def jm_get_def HOUR_MS_def)

lemma sample_throttled: "getUsageThrottleUntil (Some sample_payload) sample_settings 3600000 ''anthropic'' None = Some 57680000"
  by (simp add: getUsageThrottleUntil_def getUsageThrottleStatus_def sample_windows throttle_step_def
      isWindowThrottlingEnabled_def sample_settings_def resume_eq sample_starts resolvePaceEndMs_def Let_def)

end
