(* ===== verification/RoutingRules.thy ===== *)
theory RoutingRules
  imports Accounts
begin

section \<open>Routing rules\<close>

text \<open>
  \<^verbatim>\<open>core/src/routing.ts\<close> with the types of \<^verbatim>\<open>types/src/routing.ts\<close> and the model-id helpers of
  \<^verbatim>\<open>types/src/sdk-bridge-transport.ts\<close>. The regular expressions are matched by derivatives; the
  validator reads an arbitrary JSON value and throws on the first check that fails.
  Shown: a validated rule is in normal form and validates to itself, a validated rule never throws when it
  is resolved, and the rule that wins is the enabled matching one with the least position.
\<close>

subsection \<open>Regular expressions\<close>

datatype rx = Empty | Eps | Chars "char list" | Seq rx rx | Alt rx rx | Star rx

fun nullable :: "rx \<Rightarrow> bool" where
  "nullable Empty = False"
| "nullable Eps = True"
| "nullable (Chars cs) = False"
| "nullable (Seq a b) = (nullable a \<and> nullable b)"
| "nullable (Alt a b) = (nullable a \<or> nullable b)"
| "nullable (Star a) = True"

fun deriv :: "char \<Rightarrow> rx \<Rightarrow> rx" where
  "deriv c Empty = Empty"
| "deriv c Eps = Empty"
| "deriv c (Chars cs) = (if c \<in> set cs then Eps else Empty)"
| "deriv c (Seq a b) = (if nullable a then Alt (Seq (deriv c a) b) (deriv c b) else Seq (deriv c a) b)"
| "deriv c (Alt a b) = Alt (deriv c a) (deriv c b)"
| "deriv c (Star a) = Seq (deriv c a) (Star a)"

definition rx_match :: "rx \<Rightarrow> string \<Rightarrow> bool" where
  "rx_match r s \<longleftrightarrow> nullable (foldl (\<lambda>r c. deriv c r) r s)"

text \<open>A literal is compared without case: the text is lowered before matching.\<close>

definition rx_lit :: "string \<Rightarrow> rx" where
  "rx_lit s = foldr (\<lambda>c r. Seq (Chars [c]) r) s Eps"

definition rx_opt :: "rx \<Rightarrow> rx" where "rx_opt r = Alt r Eps"
definition rx_plus :: "rx \<Rightarrow> rx" where "rx_plus r = Seq r (Star r)"
definition rx_digits :: rx where "rx_digits = rx_plus (Chars ''0123456789'')"
definition rx_version :: rx where "rx_version = Seq rx_digits (Star (Seq (Chars ''.-'') rx_digits))"

text \<open>What a regular expression matches.\<close>

inductive_set lang_star :: "string set \<Rightarrow> string set" for L where
  star_Nil: "[] \<in> lang_star L"
| star_append: "u \<in> L \<Longrightarrow> v \<in> lang_star L \<Longrightarrow> u @ v \<in> lang_star L"

fun lang :: "rx \<Rightarrow> string set" where
  "lang Empty = {}"
| "lang Eps = {[]}"
| "lang (Chars cs) = {[c] | c. c \<in> set cs}"
| "lang (Seq a b) = {u @ v | u v. u \<in> lang a \<and> v \<in> lang b}"
| "lang (Alt a b) = lang a \<union> lang b"
| "lang (Star a) = lang_star (lang a)"

lemma nullable_lang: "nullable r \<longleftrightarrow> [] \<in> lang r"
  by (induction r) (auto intro: star_Nil)

lemma star_Cons: "c # w \<in> lang_star L \<longleftrightarrow> (\<exists>u v. w = u @ v \<and> c # u \<in> L \<and> v \<in> lang_star L)"
proof
  have "x \<in> lang_star L \<Longrightarrow> x = c # w \<Longrightarrow> \<exists>u v. w = u @ v \<and> c # u \<in> L \<and> v \<in> lang_star L" for x
  proof (induction arbitrary: w rule: lang_star.induct)
    case (star_append u v)
    then show ?case by (cases u) auto
  qed simp
  then show "c # w \<in> lang_star L \<Longrightarrow> \<exists>u v. w = u @ v \<and> c # u \<in> L \<and> v \<in> lang_star L" by blast
next
  assume "\<exists>u v. w = u @ v \<and> c # u \<in> L \<and> v \<in> lang_star L"
  then show "c # w \<in> lang_star L" using star_append [of "c # _" L] by fastforce
qed

lemma deriv_lang: "w \<in> lang (deriv c r) \<longleftrightarrow> c # w \<in> lang r"
proof (induction r arbitrary: w)
  case (Seq a b)
  have split: "c # w \<in> lang (Seq a b) \<longleftrightarrow>
      (\<exists>u v. w = u @ v \<and> c # u \<in> lang a \<and> v \<in> lang b) \<or> ([] \<in> lang a \<and> c # w \<in> lang b)"
    by (auto simp: Cons_eq_append_conv)
  show ?case unfolding split by (auto simp: nullable_lang [symmetric] Seq)
next
  case (Star a)
  then show ?case by (auto simp: star_Cons)
qed auto

lemma rx_match_lang: "rx_match r s \<longleftrightarrow> s \<in> lang r"
proof -
  have "w \<in> lang (foldl (\<lambda>r c. deriv c r) r s) \<longleftrightarrow> s @ w \<in> lang r" for w
    by (induction s arbitrary: r) (simp_all add: deriv_lang)
  from this [of "[]"] show ?thesis by (simp add: rx_match_def nullable_lang)
qed

subsection \<open>Model ids\<close>

definition strip_last :: "nat \<Rightarrow> 'a list \<Rightarrow> 'a list" where
  "strip_last n s = take (length s - n) s"

definition ends_with :: "'a list \<Rightarrow> 'a list \<Rightarrow> bool" where
  "ends_with s p = starts_with (rev s) (rev p)"

definition sdkBridgeWireModel :: "string \<Rightarrow> string" where
  "sdkBridgeWireModel m = (if ends_with (to_lower m) ''[1m]'' then strip_last 4 m else m)"

definition ONE_MILLION_CONTEXT_MODELS :: "string list" where
  "ONE_MILLION_CONTEXT_MODELS = [''claude-opus-5-5'', ''claude-fable-5-1'', ''claude-sonnet-5'']"

definition oneMillionContextBase :: "string \<Rightarrow> string option" where
  "oneMillionContextBase m = (if \<not> ends_with m ''[1m]'' then None
     else let base = strip_last 4 m in if base \<in> set ONE_MILLION_CONTEXT_MODELS then Some base else None)"

definition ROUTING_MODEL_FAMILIES :: "string list" where
  "ROUTING_MODEL_FAMILIES = [''anthropic:opus'', ''anthropic:sonnet'', ''anthropic:haiku'', ''anthropic:fable'']"

definition family_then_version :: "string \<Rightarrow> rx" where
  "family_then_version f = Seq (rx_lit (''claude-'' @ f @ ''-'')) (Seq rx_version (rx_opt (rx_lit ''-latest'')))"

definition version_then_family :: "string \<Rightarrow> rx" where
  "version_then_family f = Seq (rx_lit ''claude-'') (Seq rx_version (Seq (rx_lit (''-'' @ f))
     (Seq (rx_opt (Seq (rx_lit ''-'') rx_digits)) (rx_opt (rx_lit ''-latest'')))))"

definition getRoutingModelFamily :: "string \<Rightarrow> string option" where
  "getRoutingModelFamily requested =
     (let model = to_lower (sdkBridgeWireModel requested);
          hit = (case List.find (\<lambda>f. rx_match (family_then_version f) model)
                   [''opus'', ''sonnet'', ''haiku'', ''fable'', ''mythos''] of
                   Some f \<Rightarrow> Some f
                 | None \<Rightarrow> List.find (\<lambda>f. rx_match (version_then_family f) model) [''opus'', ''sonnet'', ''haiku''])
      in map_option (\<lambda>f. ''anthropic:'' @ (if f = ''mythos'' then ''fable'' else f)) hit)"

subsection \<open>Rules\<close>

datatype match_kind = Any | Exact | Family
datatype pool_kind = Inherit | Provider_pool | Accounts_pool
datatype target_kind = Default | Literal | Requested

record routing_rule =
  rule_id :: string
  rule_name :: string
  rule_enabled :: bool
  position :: int
  match_api_key_id :: "string option"
  match_model_kind :: match_kind
  match_model_value :: "string option"
  rule_pool_kind :: pool_kind
  pool_provider :: "string option"
  pool_account_ids :: "string list option"
  rule_target_kind :: target_kind
  target_model :: "string option"

definition rule_matches :: "string option \<Rightarrow> string \<Rightarrow> routing_rule \<Rightarrow> bool" where
  "rule_matches apiKeyId requested r \<longleftrightarrow> rule_enabled r
     \<and> (match_api_key_id r = None \<or> match_api_key_id r = apiKeyId)
     \<and> (match_model_kind r = Any
         \<or> (if match_model_kind r = Exact then match_model_value r = Some requested
            else match_model_value r = getRoutingModelFamily requested))"

definition matchRoutingRule :: "routing_rule list \<Rightarrow> string option \<Rightarrow> string \<Rightarrow> routing_rule option" where
  "matchRoutingRule rules apiKeyId requested =
     List.find (rule_matches apiKeyId requested) (js_sort (\<lambda>a b. cmp_num (position a) (position b)) rules)"

datatype target_source = From_literal | From_requested | From_identity

definition resolveRoutingTarget :: "routing_rule option \<Rightarrow> string \<Rightarrow> string + (string \<times> target_source)" where
  "resolveRoutingTarget rule requested = (case rule of
     None \<Rightarrow> Inr (requested, From_identity)
   | Some r \<Rightarrow>
       if rule_target_kind r = Literal then
         (case target_model r of
            None \<Rightarrow> Inl ''Literal route requires a target model''
          | Some m \<Rightarrow> if m = [] then Inl ''Literal route requires a target model'' else Inr (m, From_literal))
       else if rule_target_kind r = Requested then Inr (requested, From_requested)
       else Inr (requested, From_identity))"

datatype completeness = Unknown | Known_complete | Known_empty

record permission_set =
  completeness :: completeness
  discovered_ids :: "string list"
  manual_ids :: "string list"

definition isModelPermitted ::
  "permission_set option \<Rightarrow> string \<Rightarrow> string \<Rightarrow> string \<Rightarrow> routing_rule option \<Rightarrow> bool" where
  "isModelPermitted permissions accountId prov model winningRule =
     (let base = (if isOfficialAnthropicProvider prov then oneMillionContextBase model else None);
          ids = (case base of Some b \<Rightarrow> if b \<noteq> [] then [model, b] else [model] | None \<Rightarrow> [model]);
          literal = (case winningRule of
              None \<Rightarrow> False
            | Some r \<Rightarrow> rule_enabled r \<and> rule_pool_kind r = Accounts_pool
                \<and> (case pool_account_ids r of None \<Rightarrow> False | Some as \<Rightarrow> accountId \<in> set as)
                \<and> rule_target_kind r = Literal \<and> target_model r = Some model)
      in case permissions of
           None \<Rightarrow> literal
         | Some p \<Rightarrow>
             if list_ex (\<lambda>i. i \<in> set (manual_ids p)) ids then True
             else if completeness p \<noteq> Unknown then list_ex (\<lambda>i. i \<in> set (discovered_ids p)) ids
             else literal)"

subsection \<open>Validation\<close>

datatype js_value =
    Undefined
  | Null
  | Bool bool
  | Num rat
  | Not_finite
  | Str string
  | Arr "js_value list"
  | Obj "(string \<times> js_value) list"

definition field :: "(string \<times> js_value) list \<Rightarrow> string \<Rightarrow> js_value" where
  "field o' k = (case map_of o' k of None \<Rightarrow> Undefined | Some v \<Rightarrow> v)"

fun good_string :: "js_value \<Rightarrow> bool" where
  "good_string (Str s) = (js_trim s \<noteq> [] \<and> s = js_trim s \<and> length s \<le> 256)"
| "good_string _ = False"

fun as_string :: "js_value \<Rightarrow> string option" where
  "as_string (Str s) = Some s"
| "as_string _ = None"

fun is_bool :: "js_value \<Rightarrow> bool" where
  "is_bool (Bool b) = True"
| "is_bool _ = False"

fun safe_position :: "js_value \<Rightarrow> bool" where
  "safe_position (Num q) = (of_int \<lfloor>q\<rfloor> = q \<and> \<bar>q\<bar> \<le> 9007199254740991 \<and> 0 \<le> q)"
| "safe_position _ = False"

fun elements :: "js_value \<Rightarrow> js_value list option" where
  "elements (Arr vs) = Some vs"
| "elements _ = None"

fun match_kind_of :: "js_value \<Rightarrow> match_kind option" where
  "match_kind_of (Str s) = (if s = ''any'' then Some Any else if s = ''exact'' then Some Exact
     else if s = ''family'' then Some Family else None)"
| "match_kind_of _ = None"

fun pool_kind_of :: "js_value \<Rightarrow> pool_kind option" where
  "pool_kind_of (Str s) = (if s = ''inherit'' then Some Inherit else if s = ''provider'' then Some Provider_pool
     else if s = ''accounts'' then Some Accounts_pool else None)"
| "pool_kind_of _ = None"

fun target_kind_of :: "js_value \<Rightarrow> target_kind option" where
  "target_kind_of (Str s) = (if s = ''literal'' then Some Literal else if s = ''default'' then Some Default
     else if s = ''requested'' then Some Requested else None)"
| "target_kind_of _ = None"

text \<open>The checks in the order of the code: the first that fails names the error.\<close>

definition match_checks :: "(string \<times> js_value) list \<Rightarrow> (bool \<times> string) list" where
  "match_checks r = (let v = field r ''match_model_value'' in case match_kind_of (field r ''match_model_kind'') of
     Some Any \<Rightarrow> [(v = Null, ''Model predicate must be null'')]
   | Some Exact \<Rightarrow> [(good_string v, ''Invalid Model predicate'')]
   | Some Family \<Rightarrow> [(v \<in> Str ` set ROUTING_MODEL_FAMILIES, ''Invalid model family'')]
   | None \<Rightarrow> [(False, ''Invalid model predicate kind'')])"

definition pool_checks :: "(string \<times> js_value) list \<Rightarrow> (bool \<times> string) list" where
  "pool_checks r =
     (let prov = field r ''pool_provider''; ids = field r ''pool_account_ids'' in
      case pool_kind_of (field r ''pool_kind'') of
        Some Inherit \<Rightarrow> [(prov = Null, ''Pool provider must be null''), (ids = Null, ''Pool accounts must be null'')]
      | Some Provider_pool \<Rightarrow> [(good_string prov, ''Invalid Pool provider''), (ids = Null, ''Pool accounts must be null'')]
      | Some Accounts_pool \<Rightarrow>
          (case elements ids of
             None \<Rightarrow> [(prov = Null, ''Pool provider must be null''), (False, ''Account pool must be nonempty'')]
           | Some vs \<Rightarrow>
               [(prov = Null, ''Pool provider must be null''),
                (vs \<noteq> [] \<and> length vs \<le> 1000, ''Account pool must be nonempty''),
                (list_all good_string vs, ''Invalid Pool account ID''),
                (distinct vs, ''Duplicate account ID'')])
      | None \<Rightarrow> [(False, ''Invalid pool kind'')])"

definition target_checks :: "(string \<times> js_value) list \<Rightarrow> (bool \<times> string) list" where
  "target_checks r = (let v = field r ''target_model'' in case target_kind_of (field r ''target_kind'') of
     Some Literal \<Rightarrow> [(good_string v, ''Invalid Target model'')]
   | Some _ \<Rightarrow> [(v = Null, ''Target model must be null'')]
   | None \<Rightarrow> [(False, ''Invalid target kind'')])"

definition rule_checks :: "(string \<times> js_value) list \<Rightarrow> (bool \<times> string) list" where
  "rule_checks r =
     [(good_string (field r ''id''), ''Invalid rule ID''),
      (good_string (field r ''name''), ''Invalid rule name''),
      (is_bool (field r ''enabled''), ''Invalid enabled flag''),
      (safe_position (field r ''position''), ''Position must be a nonnegative safe integer''),
      (field r ''match_api_key_id'' = Null \<or> good_string (field r ''match_api_key_id''), ''Invalid API key ID'')]
     @ match_checks r @ pool_checks r @ target_checks r"

definition first_error :: "(bool \<times> string) list \<Rightarrow> string option" where
  "first_error cs = map_option snd (List.find (\<lambda>(ok, _). \<not> ok) cs)"

definition rule_of :: "(string \<times> js_value) list \<Rightarrow> routing_rule" where
  "rule_of r = \<lparr>
     rule_id = the (as_string (field r ''id'')),
     rule_name = the (as_string (field r ''name'')),
     rule_enabled = (field r ''enabled'' = Bool True),
     position = (case field r ''position'' of Num q \<Rightarrow> \<lfloor>q\<rfloor> | _ \<Rightarrow> 0),
     match_api_key_id = as_string (field r ''match_api_key_id''),
     match_model_kind = the (match_kind_of (field r ''match_model_kind'')),
     match_model_value = as_string (field r ''match_model_value''),
     rule_pool_kind = the (pool_kind_of (field r ''pool_kind'')),
     pool_provider = as_string (field r ''pool_provider''),
     pool_account_ids = map_option (map (\<lambda>v. the (as_string v))) (elements (field r ''pool_account_ids'')),
     rule_target_kind = (if target_kind_of (field r ''target_kind'') = Some Default then Requested
       else the (target_kind_of (field r ''target_kind''))),
     target_model = as_string (field r ''target_model'')\<rparr>"

definition validateRoutingRule :: "js_value \<Rightarrow> string + routing_rule" where
  "validateRoutingRule v = (case v of
     Obj r \<Rightarrow> (case first_error (rule_checks r) of Some e \<Rightarrow> Inl e | None \<Rightarrow> Inr (rule_of r))
   | _ \<Rightarrow> Inl ''Routing rule must be an object'')"

text \<open>A rule as the JSON value the API returns.\<close>

definition nullable_str :: "string option \<Rightarrow> js_value" where
  "nullable_str x = (case x of None \<Rightarrow> Null | Some s \<Rightarrow> Str s)"

definition rule_value :: "routing_rule \<Rightarrow> js_value" where
  "rule_value r = Obj [
     (''id'', Str (rule_id r)), (''name'', Str (rule_name r)), (''enabled'', Bool (rule_enabled r)),
     (''position'', Num (of_int (position r))),
     (''match_api_key_id'', nullable_str (match_api_key_id r)),
     (''match_model_kind'', Str (case match_model_kind r of Any \<Rightarrow> ''any'' | Exact \<Rightarrow> ''exact'' | Family \<Rightarrow> ''family'')),
     (''match_model_value'', nullable_str (match_model_value r)),
     (''pool_kind'', Str (case rule_pool_kind r of Inherit \<Rightarrow> ''inherit'' | Provider_pool \<Rightarrow> ''provider'' | Accounts_pool \<Rightarrow> ''accounts'')),
     (''pool_provider'', nullable_str (pool_provider r)),
     (''pool_account_ids'', case pool_account_ids r of None \<Rightarrow> Null | Some ids \<Rightarrow> Arr (map Str ids)),
     (''target_kind'', Str (case rule_target_kind r of Default \<Rightarrow> ''default'' | Literal \<Rightarrow> ''literal'' | Requested \<Rightarrow> ''requested'')),
     (''target_model'', nullable_str (target_model r))]"

subsection \<open>Lemmas\<close>

lemma first_error_None: "first_error cs = None \<longleftrightarrow> (\<forall>c \<in> set cs. fst c)"
  by (auto simp: first_error_def find_None_iff)

definition str_ok :: "string \<Rightarrow> bool" where
  "str_ok s \<longleftrightarrow> js_trim s \<noteq> [] \<and> s = js_trim s \<and> length s \<le> 256"

text \<open>The normal form of a rule.\<close>

definition rule_ok :: "routing_rule \<Rightarrow> bool" where
  "rule_ok r \<longleftrightarrow> str_ok (rule_id r) \<and> str_ok (rule_name r) \<and> 0 \<le> position r \<and> position r \<le> 9007199254740991
     \<and> pred_option str_ok (match_api_key_id r)
     \<and> (case match_model_kind r of
          Any \<Rightarrow> match_model_value r = None
        | Exact \<Rightarrow> (\<exists>s. match_model_value r = Some s \<and> str_ok s)
        | Family \<Rightarrow> (\<exists>s \<in> set ROUTING_MODEL_FAMILIES. match_model_value r = Some s))
     \<and> (case rule_pool_kind r of
          Inherit \<Rightarrow> pool_provider r = None \<and> pool_account_ids r = None
        | Provider_pool \<Rightarrow> (\<exists>s. pool_provider r = Some s \<and> str_ok s) \<and> pool_account_ids r = None
        | Accounts_pool \<Rightarrow> pool_provider r = None
            \<and> (\<exists>ids. pool_account_ids r = Some ids \<and> ids \<noteq> [] \<and> length ids \<le> 1000 \<and> list_all str_ok ids \<and> distinct ids))
     \<and> (case rule_target_kind r of
          Default \<Rightarrow> False
        | Literal \<Rightarrow> (\<exists>s. target_model r = Some s \<and> str_ok s)
        | Requested \<Rightarrow> target_model r = None)"

lemma good_stringD: "good_string v \<Longrightarrow> \<exists>s. v = Str s \<and> str_ok s"
  by (cases v) (auto simp: str_ok_def)

lemma good_string_Str [simp]: "good_string (Str s) = str_ok s"
  by (simp add: str_ok_def)

declare good_string.simps(1) [simp del]

lemma good_strings: "list_all good_string vs \<Longrightarrow> \<exists>ss. vs = map Str ss \<and> list_all str_ok ss"
proof (induction vs)
  case (Cons v vs)
  then obtain ss where "vs = map Str ss" "list_all str_ok ss" by auto
  moreover obtain s where "v = Str s" "str_ok s" using good_stringD [of v] Cons.prems by auto
  ultimately have "v # vs = map Str (s # ss) \<and> list_all str_ok (s # ss)" by simp
  then show ?case by (rule exI)
qed simp

lemma position_facts:
  "safe_position v \<Longrightarrow> \<exists>n. v = Num (of_int n) \<and> 0 \<le> n \<and> n \<le> 9007199254740991"
proof (cases v)
  case (Num q)
  assume "safe_position v"
  with Num have q: "of_int \<lfloor>q\<rfloor> = q" "0 \<le> q" "q \<le> 9007199254740991" by auto
  then have "0 \<le> \<lfloor>q\<rfloor>" "\<lfloor>q\<rfloor> \<le> 9007199254740991" by (simp_all add: floor_le_iff)
  with q Num show ?thesis by metis
qed simp_all

lemma match_checks_ok:
  assumes "\<forall>c \<in> set (match_checks o'). fst c"
  shows "case match_model_kind (rule_of o') of
      Any \<Rightarrow> match_model_value (rule_of o') = None
    | Exact \<Rightarrow> (\<exists>s. match_model_value (rule_of o') = Some s \<and> str_ok s)
    | Family \<Rightarrow> (\<exists>s \<in> set ROUTING_MODEL_FAMILIES. match_model_value (rule_of o') = Some s)"
proof (cases "match_kind_of (field o' ''match_model_kind'')")
  case (Some k)
  then show ?thesis using assms
    by (cases k) (auto simp: match_checks_def rule_of_def Let_def dest: good_stringD)
qed (use assms in \<open>simp add: match_checks_def Let_def\<close>)

lemma pool_checks_ok:
  assumes "\<forall>c \<in> set (pool_checks o'). fst c"
  shows "case rule_pool_kind (rule_of o') of
      Inherit \<Rightarrow> pool_provider (rule_of o') = None \<and> pool_account_ids (rule_of o') = None
    | Provider_pool \<Rightarrow> (\<exists>s. pool_provider (rule_of o') = Some s \<and> str_ok s) \<and> pool_account_ids (rule_of o') = None
    | Accounts_pool \<Rightarrow> pool_provider (rule_of o') = None
        \<and> (\<exists>ids. pool_account_ids (rule_of o') = Some ids \<and> ids \<noteq> [] \<and> length ids \<le> 1000 \<and> list_all str_ok ids \<and> distinct ids)"
proof (cases "pool_kind_of (field o' ''pool_kind'')")
  case (Some k)
  show ?thesis
  proof (cases k)
    case Accounts_pool
    with Some assms obtain vs where vs: "elements (field o' ''pool_account_ids'') = Some vs"
      by (cases "elements (field o' ''pool_account_ids'')") (auto simp: pool_checks_def Let_def)
    with Accounts_pool Some assms have *: "field o' ''pool_provider'' = Null" "vs \<noteq> []" "length vs \<le> 1000" "list_all good_string vs" "distinct vs"
      by (auto simp: pool_checks_def Let_def)
    from good_strings [OF *(4)] obtain ss where ss: "vs = map Str ss" "list_all str_ok ss" by blast
    have "map (\<lambda>v. the (as_string v)) vs = ss" by (simp add: ss(1) comp_def)
    moreover have "distinct ss" "ss \<noteq> []" "length ss \<le> 1000" using *(2,3,5) ss(1) by (auto simp: distinct_map)
    ultimately show ?thesis using Accounts_pool Some vs * ss by (simp add: rule_of_def)
  qed (use Some assms in \<open>auto simp: pool_checks_def rule_of_def Let_def dest: good_stringD\<close>)
qed (use assms in \<open>simp add: pool_checks_def Let_def\<close>)

lemma target_checks_ok:
  assumes "\<forall>c \<in> set (target_checks o'). fst c"
  shows "case rule_target_kind (rule_of o') of
      Default \<Rightarrow> False
    | Literal \<Rightarrow> (\<exists>s. target_model (rule_of o') = Some s \<and> str_ok s)
    | Requested \<Rightarrow> target_model (rule_of o') = None"
proof (cases "target_kind_of (field o' ''target_kind'')")
  case (Some k)
  then show ?thesis using assms
    by (cases k) (auto simp: target_checks_def rule_of_def Let_def dest: good_stringD)
qed (use assms in \<open>simp add: target_checks_def Let_def\<close>)

lemma validated_ok:
  assumes "validateRoutingRule v = Inr r"
  shows "rule_ok r"
proof -
  obtain o' where v: "v = Obj o'" and none: "first_error (rule_checks o') = None" and r: "r = rule_of o'"
    using assms by (auto simp: validateRoutingRule_def split: js_value.splits option.splits)
  have head: "good_string (field o' ''id'')" "good_string (field o' ''name'')" "safe_position (field o' ''position'')"
    "field o' ''match_api_key_id'' = Null \<or> good_string (field o' ''match_api_key_id'')"
    and tail: "\<forall>c \<in> set (match_checks o'). fst c" "\<forall>c \<in> set (pool_checks o'). fst c" "\<forall>c \<in> set (target_checks o'). fst c"
    using none by (simp_all add: first_error_None rule_checks_def ball_Un)
  obtain i n where "field o' ''id'' = Str i" "str_ok i" "field o' ''name'' = Str n" "str_ok n"
    using head(1,2) good_stringD by blast
  moreover obtain q where "field o' ''position'' = Num (of_int q)" "0 \<le> q" "q \<le> 9007199254740991"
    using position_facts [OF head(3)] by blast
  moreover have "pred_option str_ok (as_string (field o' ''match_api_key_id''))"
    using head(4) good_stringD by fastforce
  ultimately have first: "str_ok (rule_id r)" "str_ok (rule_name r)" "0 \<le> position r" "position r \<le> 9007199254740991"
    "pred_option str_ok (match_api_key_id r)"
    by (simp_all add: r rule_of_def)
  show ?thesis
    unfolding rule_ok_def r
    using first [unfolded r] match_checks_ok [OF tail(1)] pool_checks_ok [OF tail(2)] target_checks_ok [OF tail(3)]
    by (intro conjI)
qed

definition rule_fields :: "routing_rule \<Rightarrow> (string \<times> js_value) list" where
  "rule_fields r = (case rule_value r of Obj o' \<Rightarrow> o' | _ \<Rightarrow> [])"

lemma rule_value_Obj: "rule_value r = Obj (rule_fields r)"
  by (simp add: rule_fields_def rule_value_def)

lemma rule_field:
  "field (rule_fields r) ''id'' = Str (rule_id r)" "field (rule_fields r) ''name'' = Str (rule_name r)"
  "field (rule_fields r) ''enabled'' = Bool (rule_enabled r)" "field (rule_fields r) ''position'' = Num (of_int (position r))"
  "field (rule_fields r) ''match_api_key_id'' = nullable_str (match_api_key_id r)"
  "field (rule_fields r) ''match_model_value'' = nullable_str (match_model_value r)"
  "field (rule_fields r) ''pool_provider'' = nullable_str (pool_provider r)"
  "field (rule_fields r) ''target_model'' = nullable_str (target_model r)"
  "field (rule_fields r) ''pool_account_ids'' = (case pool_account_ids r of None \<Rightarrow> Null | Some ids \<Rightarrow> Arr (map Str ids))"
  by (simp_all add: rule_fields_def rule_value_def field_def)

lemma rule_kinds:
  "match_kind_of (field (rule_fields r) ''match_model_kind'') = Some (match_model_kind r)"
  "pool_kind_of (field (rule_fields r) ''pool_kind'') = Some (rule_pool_kind r)"
  "target_kind_of (field (rule_fields r) ''target_kind'') = Some (rule_target_kind r)"
  by (simp_all add: rule_fields_def rule_value_def field_def split: match_kind.split pool_kind.split target_kind.split)

lemma as_nullable [simp]: "as_string (nullable_str x) = x"
  by (simp add: nullable_str_def split: option.split)

lemma nullable_Null [simp]: "nullable_str x = Null \<longleftrightarrow> x = None"
  by (simp add: nullable_str_def split: option.split)

lemma nullable_Some [simp]: "nullable_str (Some s) = Str s"
  by (simp add: nullable_str_def)

lemma rule_of_fields:
  assumes "rule_target_kind r \<noteq> Default"
  shows "rule_of (rule_fields r) = r"
  using assms
  by (cases "pool_account_ids r") (simp_all add: rule_of_def rule_field rule_kinds comp_def)

lemma checks_pass:
  assumes "rule_ok r"
  shows "first_error (rule_checks (rule_fields r)) = None"
proof -
  have "\<forall>c \<in> set (match_checks (rule_fields r)). fst c"
    using assms by (cases "match_model_kind r") (auto simp: match_checks_def rule_kinds rule_field rule_ok_def)
  moreover have "\<forall>c \<in> set (pool_checks (rule_fields r)). fst c"
    using assms
    by (cases "rule_pool_kind r") (auto simp: pool_checks_def rule_kinds rule_field rule_ok_def list_all_iff distinct_map inj_on_def)
  moreover have "\<forall>c \<in> set (target_checks (rule_fields r)). fst c"
    using assms by (cases "rule_target_kind r") (auto simp: target_checks_def rule_kinds rule_field rule_ok_def)
  moreover have "nullable_str (match_api_key_id r) = Null \<or> good_string (nullable_str (match_api_key_id r))"
    using assms by (cases "match_api_key_id r") (simp_all add: rule_ok_def)
  moreover have "safe_position (Num (of_int (position r)))"
    using assms by (simp add: rule_ok_def)
  ultimately show ?thesis
    using assms by (simp add: first_error_None rule_checks_def rule_field ball_Un rule_ok_def)
qed

lemma ok_validates:
  assumes "rule_ok r"
  shows "validateRoutingRule (rule_value r) = Inr r"
proof -
  have "rule_target_kind r \<noteq> Default" using assms by (auto simp: rule_ok_def)
  with checks_pass [OF assms] rule_of_fields [of r] show ?thesis by (simp add: validateRoutingRule_def rule_value_Obj)
qed

lemma family_of_1m:
  assumes "\<not> ends_with (to_lower m) ''[1m]''"
  shows "getRoutingModelFamily (m @ ''[1m]'') = getRoutingModelFamily m"
proof -
  have "to_lower ''[1m]'' = ''[1m]''" by (simp add: to_lower_def lower_char_def of_char_def)
  then have "ends_with (to_lower (m @ ''[1m]'')) ''[1m]''" by (simp add: ends_with_def to_lower_def)
  with assms show ?thesis by (simp add: getRoutingModelFamily_def sdkBridgeWireModel_def strip_last_def)
qed

interpretation by_position: consistent_comparator "\<lambda>a b. cmp_num (position a) (position b)" "\<lambda>_. True"
  by unfold_locales auto

lemma find_refine: "List.find P xs = Some r \<Longrightarrow> Q r \<Longrightarrow> List.find P (filter Q xs) = Some r"
  by (induction xs) (auto split: if_splits)

lemma find_filter: "List.find P (filter Q xs) = List.find (\<lambda>x. P x \<and> Q x) xs"
  by (induction xs) auto

lemma find_sorted_min:
  assumes "List.find P xs = Some r" and "sorted_wrt (\<lambda>a b. cmp_num (position a) (position b) \<le> 0) xs" and "x \<in> set xs" and "P x"
  shows "position r \<le> position x"
  using assms by (induction xs) (auto split: if_splits)

subsection \<open>Properties\<close>

text \<open>
  C31. Validation normalises: whatever JSON value the validator accepts becomes a rule in normal form that it accepts
  again unchanged (it runs on both the write and the read path), the retired \<^verbatim>\<open>default\<close> target
  never comes out of it, and resolving a validated rule never throws and changes the model only to the rule's
  literal target.
\<close>

theorem routing_rule_normal_form:
  assumes "validateRoutingRule v = Inr r"
  shows "validateRoutingRule (rule_value r) = Inr r \<and> rule_target_kind r \<noteq> Default
    \<and> (\<exists>upstream source. resolveRoutingTarget (Some r) requested = Inr (upstream, source)
        \<and> (upstream \<noteq> requested \<longrightarrow> rule_target_kind r = Literal \<and> target_model r = Some upstream \<and> source = From_literal))"
proof -
  have ok: "rule_ok r" by (rule validated_ok [OF assms])
  have "\<exists>upstream source. resolveRoutingTarget (Some r) requested = Inr (upstream, source)
      \<and> (upstream \<noteq> requested \<longrightarrow> rule_target_kind r = Literal \<and> target_model r = Some upstream \<and> source = From_literal)"
  proof (cases "rule_target_kind r")
    case Literal
    with ok obtain s where "target_model r = Some s" "str_ok s" by (auto simp: rule_ok_def)
    moreover from this have "s \<noteq> []" using str_ok_def by metis
    ultimately show ?thesis using Literal by (simp add: resolveRoutingTarget_def)
  qed (simp_all add: resolveRoutingTarget_def)
  with ok ok_validates [OF ok] show ?thesis by (auto simp: rule_ok_def)
qed

text \<open>
  C30. The winning rule: a request is matched by the enabled rule for its key and model that has the least
  position, the first one in the list among equals, and by no rule exactly if none matches. A rule for a
  model family matches a one-million-context id like the bare id.
\<close>

theorem winning_rule_is_least:
  "(\<forall>r. matchRoutingRule rules apiKeyId requested = Some r \<longrightarrow>
      r \<in> set rules \<and> rule_matches apiKeyId requested r
      \<and> (\<forall>x \<in> set rules. rule_matches apiKeyId requested x \<longrightarrow> position r \<le> position x)
      \<and> List.find (\<lambda>x. rule_matches apiKeyId requested x \<and> position x = position r) rules = Some r)
    \<and> (matchRoutingRule rules apiKeyId requested = None \<longleftrightarrow> (\<forall>x \<in> set rules. \<not> rule_matches apiKeyId requested x))
    \<and> (\<not> ends_with (to_lower bare) ''[1m]'' \<longrightarrow> getRoutingModelFamily (bare @ ''[1m]'') = getRoutingModelFamily bare)"
proof (intro conjI allI impI)
  let ?P = "rule_matches apiKeyId requested" and ?s = "js_sort (\<lambda>a b. cmp_num (position a) (position b)) rules"
  show "matchRoutingRule rules apiKeyId requested = None \<longleftrightarrow> (\<forall>x \<in> set rules. \<not> ?P x)"
    by (auto simp: matchRoutingRule_def find_None_iff)
  show "getRoutingModelFamily (bare @ ''[1m]'') = getRoutingModelFamily bare" if "\<not> ends_with (to_lower bare) ''[1m]''"
    using that by (rule family_of_1m)
  fix r assume "matchRoutingRule rules apiKeyId requested = Some r"
  then have r: "List.find ?P ?s = Some r" by (simp add: matchRoutingRule_def)
  then have "?P r \<and> r \<in> set ?s" by (rule find_SomeD)
  then show "r \<in> set rules" "?P r" by simp_all
  show "\<forall>x \<in> set rules. ?P x \<longrightarrow> position r \<le> position x"
    using find_sorted_min [OF r] by_position.sort_sorted [of rules] by simp
  have "List.find ?P (filter (\<lambda>y. position r \<le> position y \<and> position y \<le> position r) ?s) = Some r"
    using find_refine [OF r] by simp
  moreover have "filter (\<lambda>y. position r \<le> position y \<and> position y \<le> position r) ?s =
      filter (\<lambda>y. position r \<le> position y \<and> position y \<le> position r) rules"
    using by_position.sort_stable [where v = r and xs = rules] by simp
  moreover have "(\<lambda>x. ?P x \<and> position r \<le> position x \<and> position x \<le> position r) = (\<lambda>x. ?P x \<and> position x = position r)" by auto
  ultimately show "List.find (\<lambda>x. ?P x \<and> position x = position r) rules = Some r" by (simp add: find_filter)
qed

subsection \<open>Witnesses\<close>

definition sample_rule :: routing_rule where
  "sample_rule = \<lparr>rule_id = ''r1'', rule_name = ''opus'', rule_enabled = True, position = 3, match_api_key_id = None,
     match_model_kind = Family, match_model_value = Some ''anthropic:opus'', rule_pool_kind = Inherit, pool_provider = None,
     pool_account_ids = None, rule_target_kind = Literal, target_model = Some ''claude-sonnet-5''\<rparr>"

lemma sample_rule_ok: "rule_ok sample_rule"
  by (simp add: rule_ok_def sample_rule_def str_ok_def js_trim_def is_space_def ROUTING_MODEL_FAMILIES_def of_char_def)

theorem routing_rule_normal_form_witness:
  "validateRoutingRule (rule_value sample_rule) = Inr sample_rule
    \<and> (\<exists>upstream source. resolveRoutingTarget (Some sample_rule) ''claude-opus-5'' = Inr (upstream, source))"
  using routing_rule_normal_form [OF ok_validates [OF sample_rule_ok], of "''claude-opus-5''"] by blast

lemma sample_family: "getRoutingModelFamily ''claude-opus-5'' = Some ''anthropic:opus''"
proof -
  have low: "to_lower ''claude-opus-5'' = ''claude-opus-5''" by (simp add: to_lower_def lower_char_def of_char_def)
  have "rx_match (family_then_version ''opus'') ''claude-opus-5''"
    by (simp add: rx_match_def family_then_version_def rx_lit_def rx_version_def rx_digits_def rx_plus_def rx_opt_def)
  then show ?thesis by (simp add: getRoutingModelFamily_def sdkBridgeWireModel_def low ends_with_def Let_def)
qed

theorem winning_rule_is_least_witness:
  "matchRoutingRule [sample_rule] None ''claude-opus-5'' = Some sample_rule \<and> sample_rule \<in> set [sample_rule]
    \<and> getRoutingModelFamily ''claude-opus-5[1m]'' = Some ''anthropic:opus''"
proof -
  have "rule_matches None ''claude-opus-5'' sample_rule"
    by (simp add: rule_matches_def sample_family) (simp add: sample_rule_def)
  then have "matchRoutingRule [sample_rule] None ''claude-opus-5'' = Some sample_rule" by (simp add: matchRoutingRule_def)
  moreover have "\<not> ends_with (to_lower ''claude-opus-5'') ''[1m]''"
    by (simp add: ends_with_def to_lower_def lower_char_def of_char_def)
  ultimately show ?thesis
    using winning_rule_is_least [of "[sample_rule]" None "''claude-opus-5''" "''claude-opus-5''"] by (simp add: sample_family)
qed

end
