(* ===== verification/ReadGate.thy ===== *)
theory ReadGate
  imports JsBase
begin

section \<open>The spaced read gate\<close>

text \<open>
  \<^verbatim>\<open>proxy/src/spaced-read-gate.ts\<close>: one turn at a time for reads of provider usage, with requests for
  different accounts kept apart. A promise is its number; \<open>outcomes\<close> records in order which were
  resolved (\<^term>\<open>True\<close>) and which rejected. The only \<^verbatim>\<open>await\<close> is the sleep before a turn, so a
  gate is idle, sleeping before a turn, or holding one; the timer never fires before it is due. Each caller's draw
  of the jitter is a function of its number.
  Shown: the gate refines a pair of first-in-first-out queues of which the urgent one goes first; every
  caller gets exactly one answer and none waits at an idle gate; and two requests for
  different accounts are never closer than the spacing.
\<close>

record waiter =
  w_id :: nat
  w_account :: string
  w_urgent :: bool

datatype turn = Idle | Sleeping waiter rat | Holding waiter

record read_gate =
  waiters :: "waiter list"
  last_sent :: "(string \<times> rat) option"
  busy :: bool
  stopped :: bool
  turn :: turn
  outcomes :: "(nat \<times> bool) list"
  next_id :: nat

definition new_gate :: read_gate where
  "new_gate = \<lparr>waiters = [], last_sent = None, busy = False, stopped = False, turn = Idle, outcomes = [], next_id = 0\<rparr>"

text \<open>An urgent waiter goes before the first one that is not.\<close>

definition insert_waiter :: "waiter \<Rightarrow> waiter list \<Rightarrow> waiter list" where
  "insert_waiter w ws = (let i = length (takeWhile w_urgent ws) in
     if w_urgent w \<and> i < length ws then take i ws @ w # drop i ws else ws @ [w])"

text \<open>How long a waiter has to sleep, 0 for not at all.\<close>

definition wait_for :: "rat \<Rightarrow> (nat \<Rightarrow> rat) \<Rightarrow> rat \<Rightarrow> (string \<times> rat) option \<Rightarrow> waiter \<Rightarrow> rat" where
  "wait_for spacing jitter now lst w = (case lst of
     None \<Rightarrow> 0
   | Some (a, t0) \<Rightarrow>
       if a = w_account w then 0
       else let gap = spacing * (1 + jitter (w_id w)); wait = min (t0 + gap - now) gap in if wait > 0 then wait else 0)"

function next_turn :: "rat \<Rightarrow> (nat \<Rightarrow> rat) \<Rightarrow> rat \<Rightarrow> read_gate \<Rightarrow> read_gate" where
  "next_turn spacing jitter now g =
     (if busy g then g
      else case waiters g of
        [] \<Rightarrow> g
      | w # ws \<Rightarrow>
          (let wait = wait_for spacing jitter now (last_sent g) w in
           if wait > 0 then g\<lparr>waiters := ws, busy := True, turn := Sleeping w (now + wait)\<rparr>
           else if stopped g
           then next_turn spacing jitter now (g\<lparr>waiters := ws, busy := False, outcomes := outcomes g @ [(w_id w, False)]\<rparr>)
           else g\<lparr>waiters := ws, busy := True, turn := Holding w, outcomes := outcomes g @ [(w_id w, True)]\<rparr>))"
  by pat_completeness auto

termination
  by (relation "measure (\<lambda>(_, _, _, g). length (waiters g))") auto

declare next_turn.simps [simp del]

definition acquire :: "rat \<Rightarrow> (nat \<Rightarrow> rat) \<Rightarrow> string \<Rightarrow> bool \<Rightarrow> rat \<Rightarrow> read_gate \<Rightarrow> read_gate" where
  "acquire spacing jitter accountId urgent now g =
     (let w = \<lparr>w_id = next_id g, w_account = accountId, w_urgent = urgent\<rparr>; g1 = g\<lparr>next_id := next_id g + 1\<rparr> in
      if stopped g then g1\<lparr>outcomes := outcomes g @ [(w_id w, False)]\<rparr>
      else next_turn spacing jitter now (g1\<lparr>waiters := insert_waiter w (waiters g)\<rparr>))"

definition stop :: "read_gate \<Rightarrow> read_gate" where
  "stop g = g\<lparr>stopped := True, waiters := [], outcomes := outcomes g @ map (\<lambda>w. (w_id w, False)) (waiters g)\<rparr>"

text \<open>The rest of \<^verbatim>\<open>next\<close> after the sleep.\<close>

definition wake :: "rat \<Rightarrow> (nat \<Rightarrow> rat) \<Rightarrow> rat \<Rightarrow> read_gate \<Rightarrow> read_gate" where
  "wake spacing jitter now g = (case turn g of
     Sleeping w due \<Rightarrow>
       if now < due then g
       else if stopped g
       then next_turn spacing jitter now (g\<lparr>busy := False, turn := Idle, outcomes := outcomes g @ [(w_id w, False)]\<rparr>)
       else g\<lparr>turn := Holding w, outcomes := outcomes g @ [(w_id w, True)]\<rparr>
   | _ \<Rightarrow> g)"

definition sent :: "nat \<Rightarrow> rat \<Rightarrow> read_gate \<Rightarrow> read_gate" where
  "sent i now g = (case turn g of
     Holding w \<Rightarrow> if w_id w = i then g\<lparr>last_sent := Some (w_account w, now)\<rparr> else g
   | _ \<Rightarrow> g)"

definition release :: "rat \<Rightarrow> (nat \<Rightarrow> rat) \<Rightarrow> nat \<Rightarrow> rat \<Rightarrow> read_gate \<Rightarrow> read_gate" where
  "release spacing jitter i now g = (case turn g of
     Holding w \<Rightarrow> if w_id w = i then next_turn spacing jitter now (g\<lparr>busy := False, turn := Idle\<rparr>) else g
   | _ \<Rightarrow> g)"

subsection \<open>Runs\<close>

datatype gate_event = Acquire string bool rat | Wake rat | Sent nat rat | Release nat rat | Stop

definition gate_step :: "rat \<Rightarrow> (nat \<Rightarrow> rat) \<Rightarrow> read_gate \<Rightarrow> gate_event \<Rightarrow> read_gate" where
  "gate_step spacing jitter g ev = (case ev of
     Acquire a urgent now \<Rightarrow> acquire spacing jitter a urgent now g
   | Wake now \<Rightarrow> wake spacing jitter now g
   | Sent i now \<Rightarrow> sent i now g
   | Release i now \<Rightarrow> release spacing jitter i now g
   | Stop \<Rightarrow> stop g)"

subsection \<open>The specification\<close>

text \<open>Two queues, and a turn that is taken whenever there is none.\<close>

record queue_gate =
  q_urgent :: "waiter list"
  q_normal :: "waiter list"
  q_last :: "(string \<times> rat) option"
  q_stopped :: bool
  q_turn :: turn
  q_outcomes :: "(nat \<times> bool) list"
  q_next :: nat

definition q_start :: "rat \<Rightarrow> (nat \<Rightarrow> rat) \<Rightarrow> rat \<Rightarrow> waiter \<Rightarrow> queue_gate \<Rightarrow> queue_gate" where
  "q_start spacing jitter now w q =
     (let wait = wait_for spacing jitter now (q_last q) w in
      if wait > 0 then q\<lparr>q_turn := Sleeping w (now + wait)\<rparr>
      else q\<lparr>q_turn := Holding w, q_outcomes := q_outcomes q @ [(w_id w, True)]\<rparr>)"

definition q_take :: "rat \<Rightarrow> (nat \<Rightarrow> rat) \<Rightarrow> rat \<Rightarrow> queue_gate \<Rightarrow> queue_gate" where
  "q_take spacing jitter now q = (if q_turn q \<noteq> Idle then q
     else case q_urgent q of
       w # ws \<Rightarrow> q_start spacing jitter now w (q\<lparr>q_urgent := ws\<rparr>)
     | [] \<Rightarrow> (case q_normal q of w # ws \<Rightarrow> q_start spacing jitter now w (q\<lparr>q_normal := ws\<rparr>) | [] \<Rightarrow> q))"

definition queue_step :: "rat \<Rightarrow> (nat \<Rightarrow> rat) \<Rightarrow> queue_gate \<Rightarrow> gate_event \<Rightarrow> queue_gate" where
  "queue_step spacing jitter q ev = (case ev of
     Acquire a urgent now \<Rightarrow>
       (let w = \<lparr>w_id = q_next q, w_account = a, w_urgent = urgent\<rparr>; q1 = q\<lparr>q_next := q_next q + 1\<rparr> in
        if q_stopped q then q1\<lparr>q_outcomes := q_outcomes q @ [(w_id w, False)]\<rparr>
        else q_take spacing jitter now
          (if urgent then q1\<lparr>q_urgent := q_urgent q @ [w]\<rparr> else q1\<lparr>q_normal := q_normal q @ [w]\<rparr>))
   | Wake now \<Rightarrow> (case q_turn q of
       Sleeping w due \<Rightarrow>
         if now < due then q
         else if q_stopped q then q\<lparr>q_turn := Idle, q_outcomes := q_outcomes q @ [(w_id w, False)]\<rparr>
         else q\<lparr>q_turn := Holding w, q_outcomes := q_outcomes q @ [(w_id w, True)]\<rparr>
     | _ \<Rightarrow> q)
   | Sent i now \<Rightarrow> (case q_turn q of
       Holding w \<Rightarrow> if w_id w = i then q\<lparr>q_last := Some (w_account w, now)\<rparr> else q
     | _ \<Rightarrow> q)
   | Release i now \<Rightarrow> (case q_turn q of
       Holding w \<Rightarrow> if w_id w = i then q_take spacing jitter now (q\<lparr>q_turn := Idle\<rparr>) else q
     | _ \<Rightarrow> q)
   | Stop \<Rightarrow> q\<lparr>q_stopped := True, q_urgent := [], q_normal := [],
       q_outcomes := q_outcomes q @ map (\<lambda>w. (w_id w, False)) (q_urgent q @ q_normal q)\<rparr>)"

definition queues :: "read_gate \<Rightarrow> queue_gate" where
  "queues g = \<lparr>q_urgent = filter w_urgent (waiters g), q_normal = filter (\<lambda>w. \<not> w_urgent w) (waiters g),
     q_last = last_sent g, q_stopped = stopped g, q_turn = turn g, q_outcomes = outcomes g, q_next = next_id g\<rparr>"

subsection \<open>The invariant\<close>

definition sleeping :: "turn \<Rightarrow> nat list" where
  "sleeping t = (case t of Sleeping w _ \<Rightarrow> [w_id w] | _ \<Rightarrow> [])"

definition by_urgency :: "waiter list \<Rightarrow> bool" where
  "by_urgency ws \<longleftrightarrow> filter w_urgent ws @ filter (\<lambda>w. \<not> w_urgent w) ws = ws"

definition gate_inv :: "read_gate \<Rightarrow> bool" where
  "gate_inv g \<longleftrightarrow> busy g = (turn g \<noteq> Idle)
     \<and> (turn g = Idle \<or> stopped g \<longrightarrow> waiters g = [])
     \<and> by_urgency (waiters g)
     \<and> mset (map w_id (waiters g) @ sleeping (turn g) @ map fst (outcomes g)) = mset [0..<next_id g]"

text \<open>The invariant while the gate is between two turns.\<close>

definition between :: "read_gate \<Rightarrow> bool" where
  "between g \<longleftrightarrow> busy g = (turn g \<noteq> Idle)
     \<and> (stopped g \<longrightarrow> waiters g = [])
     \<and> by_urgency (waiters g)
     \<and> mset (map w_id (waiters g) @ sleeping (turn g) @ map fst (outcomes g)) = mset [0..<next_id g]"

subsection \<open>Lemmas\<close>

text \<open>In the order of urgency, inserting is enqueueing in one of the two queues.\<close>

lemma split_by_urgency:
  assumes "\<forall>w \<in> set us. w_urgent w" and "\<forall>w \<in> set ns. \<not> w_urgent w"
  shows "takeWhile w_urgent (us @ ns) = us"
proof -
  have "takeWhile w_urgent ns = []" using assms(2) by (cases ns) auto
  then show ?thesis using assms(1) by (simp add: takeWhile_append2)
qed

lemma insert_waiter_ordered:
  assumes "by_urgency ws"
  shows "insert_waiter w ws = (if w_urgent w then filter w_urgent ws @ w # filter (\<lambda>w. \<not> w_urgent w) ws
    else filter w_urgent ws @ filter (\<lambda>w. \<not> w_urgent w) ws @ [w])"
proof -
  define us ns where "us = filter w_urgent ws" and "ns = filter (\<lambda>w. \<not> w_urgent w) ws"
  have ws: "ws = us @ ns" using assms by (simp add: by_urgency_def us_def ns_def)
  have tw: "takeWhile w_urgent (us @ ns) = us" by (rule split_by_urgency) (simp_all add: us_def ns_def)
  have "insert_waiter w (us @ ns) = (if w_urgent w then us @ w # ns else us @ ns @ [w])"
    unfolding insert_waiter_def tw Let_def by (cases ns) simp_all
  with ws show ?thesis by (simp add: us_def ns_def)
qed

lemma insert_waiter_filters:
  assumes "by_urgency ws"
  shows "filter w_urgent (insert_waiter w ws) = (if w_urgent w then filter w_urgent ws @ [w] else filter w_urgent ws)"
    "filter (\<lambda>w. \<not> w_urgent w) (insert_waiter w ws) =
      (if w_urgent w then filter (\<lambda>w. \<not> w_urgent w) ws else filter (\<lambda>w. \<not> w_urgent w) ws @ [w])"
    "mset (insert_waiter w ws) = add_mset w (mset ws)"
proof -
  show "filter w_urgent (insert_waiter w ws) = (if w_urgent w then filter w_urgent ws @ [w] else filter w_urgent ws)"
    "filter (\<lambda>w. \<not> w_urgent w) (insert_waiter w ws) =
      (if w_urgent w then filter (\<lambda>w. \<not> w_urgent w) ws else filter (\<lambda>w. \<not> w_urgent w) ws @ [w])"
    by (simp_all add: insert_waiter_ordered [OF assms])
  show "mset (insert_waiter w ws) = add_mset w (mset ws)"
    using multiset_partition [of "mset ws" w_urgent] by (simp add: insert_waiter_ordered [OF assms] mset_filter)
qed

lemma by_urgency_Nil [simp]: "by_urgency []"
  by (simp add: by_urgency_def)

lemma by_urgency_insert: "by_urgency ws \<Longrightarrow> by_urgency (insert_waiter w ws)"
  unfolding by_urgency_def [of "insert_waiter w ws"] by (simp add: insert_waiter_filters insert_waiter_ordered)

text \<open>If the head is not urgent, nobody is.\<close>

lemma by_urgency_head:
  assumes "by_urgency (w # ws)"
  shows "w_urgent w \<or> filter w_urgent ws = []"
proof (rule disjCI)
  assume "filter w_urgent ws \<noteq> []"
  then obtain u us where u: "filter w_urgent ws = u # us" by (cases "filter w_urgent ws") auto
  then have "u \<in> set (filter w_urgent ws)" by simp
  then have "w_urgent u" by simp
  with assms u show "w_urgent w" by (auto simp: by_urgency_def split: if_splits)
qed

lemma by_urgency_tail: "by_urgency (w # ws) \<Longrightarrow> by_urgency ws"
  using by_urgency_head [of w ws] by (auto simp: by_urgency_def split: if_splits)

text \<open>A gate that is not stopped takes one step at most.\<close>

lemma next_turn_simp:
  assumes "between g"
  shows "next_turn spacing jitter now g = (if turn g \<noteq> Idle then g
    else case waiters g of
      [] \<Rightarrow> g
    | w # ws \<Rightarrow>
        (let wait = wait_for spacing jitter now (last_sent g) w in
         if wait > 0 then g\<lparr>waiters := ws, busy := True, turn := Sleeping w (now + wait)\<rparr>
         else g\<lparr>waiters := ws, busy := True, turn := Holding w, outcomes := outcomes g @ [(w_id w, True)]\<rparr>))"
  using assms by (cases "waiters g") (auto simp: next_turn.simps [of _ _ _ g] between_def Let_def)

lemma next_turn_inv:
  assumes "between g"
  shows "gate_inv (next_turn spacing jitter now g)"
proof (cases "turn g = Idle \<and> waiters g \<noteq> []")
  case False
  then show ?thesis using assms unfolding next_turn_simp [OF assms] by (auto simp: gate_inv_def between_def)
next
  case True
  then obtain w ws where ws: "waiters g = w # ws" by (cases "waiters g") auto
  then have "by_urgency ws" using assms by_urgency_tail by (auto simp: between_def)
  moreover have "\<not> stopped g" "\<not> busy g" using assms ws True by (auto simp: between_def)
  ultimately show ?thesis using True ws assms unfolding next_turn_simp [OF assms]
    by (simp add: gate_inv_def between_def sleeping_def Let_def)
qed

lemma next_turn_queues:
  assumes "between g"
  shows "queues (next_turn spacing jitter now g) = q_take spacing jitter now (queues g)"
proof (cases "turn g = Idle \<and> waiters g \<noteq> []")
  case False
  then show ?thesis unfolding next_turn_simp [OF assms] by (auto simp: q_take_def queues_def)
next
  case True
  then obtain w ws where ws: "waiters g = w # ws" by (cases "waiters g") auto
  then have "w_urgent w \<or> filter w_urgent ws = []" using assms by_urgency_head by (simp add: between_def)
  with True ws show ?thesis
    unfolding next_turn_simp [OF assms] by (auto simp: q_take_def queues_def q_start_def Let_def)
qed

lemma between_acquire:
  assumes "gate_inv g" and "\<not> stopped g" and "w_id w = next_id g"
  shows "between (g\<lparr>next_id := next_id g + 1, waiters := insert_waiter w (waiters g)\<rparr>)"
proof -
  have u: "by_urgency (waiters g)" using assms(1) by (simp add: gate_inv_def)
  have "mset (map w_id (insert_waiter w (waiters g))) = add_mset (next_id g) (mset (map w_id (waiters g)))"
    using insert_waiter_filters(3) [OF u, of w] assms(3) by simp
  then show ?thesis
    using assms(1,2) by_urgency_insert [OF u] by (simp add: gate_inv_def between_def)
qed

lemma between_release:
  assumes "gate_inv g" and "turn g = Holding w"
  shows "between (g\<lparr>busy := False, turn := Idle\<rparr>)"
  using assms by (simp add: gate_inv_def between_def sleeping_def)

lemma wake_stopped:
  assumes "gate_inv g" and "turn g = Sleeping w due" and "stopped g"
  shows "between (g\<lparr>busy := False, turn := Idle, outcomes := outcomes g @ [(w_id w, False)]\<rparr>)" "waiters g = []"
  using assms by (auto simp: gate_inv_def between_def sleeping_def)

lemma gate_step_inv:
  assumes "gate_inv g"
  shows "gate_inv (gate_step spacing jitter g ev)"
proof (cases ev)
  case (Acquire a urgent now)
  show ?thesis
  proof (cases "stopped g")
    case True
    with assms Acquire show ?thesis by (auto simp: gate_step_def acquire_def gate_inv_def Let_def)
  next
    case False
    with Acquire next_turn_inv [OF between_acquire [OF assms False]] show ?thesis
      by (simp add: gate_step_def acquire_def Let_def)
  qed
next
  case (Wake now)
  show ?thesis
  proof (cases "turn g")
    case (Sleeping w due)
    with next_turn_inv [OF wake_stopped(1) [OF assms Sleeping]] Wake assms show ?thesis
      by (simp add: gate_step_def wake_def) (simp add: gate_inv_def sleeping_def)
  qed (use Wake assms in \<open>simp_all add: gate_step_def wake_def\<close>)
next
  case (Sent i now)
  with assms show ?thesis by (cases "turn g") (auto simp: gate_step_def sent_def gate_inv_def)
next
  case (Release i now)
  show ?thesis
  proof (cases "turn g")
    case (Holding w)
    with next_turn_inv [OF between_release [OF assms Holding]] Release assms show ?thesis
      by (simp add: gate_step_def release_def)
  qed (use Release assms in \<open>simp_all add: gate_step_def release_def\<close>)
next
  case Stop
  with assms show ?thesis by (simp add: gate_step_def stop_def gate_inv_def comp_def add.commute add.left_commute)
qed

lemma gate_step_queues:
  assumes "gate_inv g"
  shows "queues (gate_step spacing jitter g ev) = queue_step spacing jitter (queues g) ev"
proof (cases ev)
  case (Acquire a urgent now)
  let ?w = "\<lparr>w_id = next_id g, w_account = a, w_urgent = urgent\<rparr>"
  show ?thesis
  proof (cases "stopped g")
    case True
    with Acquire show ?thesis by (simp add: gate_step_def acquire_def queue_step_def queues_def Let_def)
  next
    case False
    have u: "by_urgency (waiters g)" using assms by (simp add: gate_inv_def)
    from False Acquire next_turn_queues [OF between_acquire [OF assms False, of ?w]] insert_waiter_filters [OF u, of ?w]
    show ?thesis by (simp add: gate_step_def acquire_def queue_step_def queues_def Let_def)
  qed
next
  case (Wake now)
  show ?thesis
  proof (cases "turn g")
    case (Sleeping w due)
    show ?thesis
    proof (cases "stopped g")
      case True
      have "next_turn spacing jitter now (g\<lparr>busy := False, turn := Idle, outcomes := outcomes g @ [(w_id w, False)]\<rparr>) =
          g\<lparr>busy := False, turn := Idle, outcomes := outcomes g @ [(w_id w, False)]\<rparr>"
        using wake_stopped(2) [OF assms Sleeping True] by (simp add: next_turn.simps)
      with True Sleeping Wake show ?thesis by (simp add: gate_step_def wake_def queue_step_def queues_def)
    next
      case False
      with Sleeping Wake show ?thesis by (simp add: gate_step_def wake_def queue_step_def queues_def)
    qed
  qed (use Wake in \<open>simp_all add: gate_step_def wake_def queue_step_def queues_def\<close>)
next
  case (Sent i now)
  then show ?thesis by (simp add: gate_step_def sent_def queue_step_def queues_def split: turn.split)
next
  case (Release i now)
  show ?thesis
  proof (cases "turn g")
    case (Holding w)
    with next_turn_queues [OF between_release [OF assms Holding]] Release show ?thesis
      by (simp add: gate_step_def release_def queue_step_def queues_def)
  qed (use Release in \<open>simp_all add: gate_step_def release_def queue_step_def queues_def\<close>)
next
  case Stop
  have "filter w_urgent (waiters g) @ filter (\<lambda>w. \<not> w_urgent w) (waiters g) = waiters g"
    using assms by (simp add: gate_inv_def by_urgency_def)
  then have "map (\<lambda>w. (w_id w, False)) (filter w_urgent (waiters g)) @ map (\<lambda>w. (w_id w, False)) (filter (\<lambda>w. \<not> w_urgent w) (waiters g)) =
      map (\<lambda>w. (w_id w, False)) (waiters g)"
    by (metis map_append)
  with Stop show ?thesis by (simp add: gate_step_def stop_def queue_step_def queues_def)
qed

lemma new_gate_inv: "gate_inv new_gate"
  by (simp add: gate_inv_def new_gate_def sleeping_def)

interpretation gate: refined_system "gate_step spacing jitter" gate_inv queues "queue_step spacing jitter"
  by unfold_locales (simp_all add: gate_step_inv gate_step_queues)

subsection \<open>Spacing\<close>

fun event_time :: "gate_event \<Rightarrow> rat option" where
  "event_time (Acquire _ _ now) = Some now"
| "event_time (Wake now) = Some now"
| "event_time (Sent _ now) = Some now"
| "event_time (Release _ now) = Some now"
| "event_time Stop = None"

text \<open>The clock of a run does not go back.\<close>

definition tick :: "rat \<Rightarrow> gate_event \<Rightarrow> rat" where
  "tick t ev = (case event_time ev of None \<Rightarrow> t | Some now \<Rightarrow> now)"

fun times_ok :: "rat \<Rightarrow> gate_event list \<Rightarrow> bool" where
  "times_ok t [] = True"
| "times_ok t (ev # evs) = (t \<le> tick t ev \<and> times_ok (tick t ev) evs)"

definition spaced :: "rat \<Rightarrow> rat \<Rightarrow> read_gate \<Rightarrow> bool" where
  "spaced spacing t g \<longleftrightarrow> (\<forall>a t0. last_sent g = Some (a, t0) \<longrightarrow> t0 \<le> t
     \<and> (\<forall>w. turn g = Holding w \<longrightarrow> a \<noteq> w_account w \<longrightarrow> t0 + spacing \<le> t)
     \<and> (\<forall>w due. turn g = Sleeping w due \<longrightarrow> a \<noteq> w_account w \<longrightarrow> t0 + spacing \<le> due))"

lemma spaced_later: "spaced spacing t g \<Longrightarrow> t \<le> t' \<Longrightarrow> spaced spacing t' g"
  by (fastforce simp: spaced_def)

lemma wait_long_enough:
  assumes "0 \<le> spacing" and "0 \<le> jitter (w_id w)" and "t0 \<le> now" and "a \<noteq> w_account w"
  shows "t0 + spacing \<le> now + wait_for spacing jitter now (Some (a, t0)) w"
proof -
  have "spacing \<le> spacing * (1 + jitter (w_id w))" using assms(1,2) by (simp add: algebra_simps)
  then show ?thesis using assms(3,4) by (auto simp: wait_for_def Let_def min_def)
qed

lemma next_turn_spaced:
  assumes "between g" and "spaced spacing now g" and "0 \<le> spacing" and "\<And>i. 0 \<le> jitter i"
  shows "spaced spacing now (next_turn spacing jitter now g)"
proof (cases "turn g = Idle \<and> waiters g \<noteq> []")
  case False
  then show ?thesis using assms(2) unfolding next_turn_simp [OF assms(1)] by auto
next
  case True
  then obtain w ws where ws: "waiters g = w # ws" by (cases "waiters g") auto
  have long: "t0 + spacing \<le> now + wait_for spacing jitter now (last_sent g) w"
    if "last_sent g = Some (a, t0)" "a \<noteq> w_account w" for a t0
    using that assms(2) wait_long_enough [OF assms(3), of jitter w t0 now a] assms(4) by (simp add: spaced_def)
  have zero: "wait_for spacing jitter now (last_sent g) w = 0" if "\<not> wait_for spacing jitter now (last_sent g) w > 0"
    using that by (auto simp: wait_for_def Let_def split: option.splits if_splits)
  show ?thesis
    using True ws long zero assms(2) unfolding next_turn_simp [OF assms(1)] spaced_def by (auto simp: Let_def)
qed

lemma gate_step_spaced:
  assumes inv: "gate_inv g" and sp: "spaced spacing t g" and time: "t \<le> tick t ev" and "0 \<le> spacing" and "\<And>i. 0 \<le> jitter i"
  shows "spaced spacing (tick t ev) (gate_step spacing jitter g ev)"
proof -
  have sp': "spaced spacing (tick t ev) g" using spaced_later [OF sp time] .
  show ?thesis
  proof (cases ev)
    case (Acquire a urgent now)
    let ?w = "\<lparr>w_id = next_id g, w_account = a, w_urgent = urgent\<rparr>"
    let ?g = "g\<lparr>next_id := next_id g + 1, waiters := insert_waiter ?w (waiters g)\<rparr>"
    have "spaced spacing now ?g" using sp' Acquire by (simp add: spaced_def tick_def)
    with next_turn_spaced [OF between_acquire [OF inv, of ?w] this assms(4,5)] sp' Acquire show ?thesis
      by (simp add: gate_step_def acquire_def tick_def Let_def) (simp add: spaced_def)
  next
    case (Wake now)
    show ?thesis
    proof (cases "turn g")
      case (Sleeping w due)
      let ?g = "g\<lparr>busy := False, turn := Idle, outcomes := outcomes g @ [(w_id w, False)]\<rparr>"
      have idle: "spaced spacing now ?g" using sp' Wake by (simp add: spaced_def tick_def)
      have held: "spaced spacing now (g\<lparr>turn := Holding w, outcomes := outcomes g @ [(w_id w, True)]\<rparr>)" if "due \<le> now"
        using sp' Wake Sleeping that by (fastforce simp: spaced_def tick_def)
      from next_turn_spaced [OF wake_stopped(1) [OF inv Sleeping] idle assms(4,5)] held sp' Wake Sleeping show ?thesis
        by (simp add: gate_step_def wake_def tick_def not_less)
    qed (use Wake sp' in \<open>simp_all add: gate_step_def wake_def\<close>)
  next
    case (Sent i now)
    then show ?thesis using sp' by (auto simp: gate_step_def sent_def spaced_def tick_def split: turn.splits)
  next
    case (Release i now)
    show ?thesis
    proof (cases "turn g")
      case (Holding w)
      have "spaced spacing now (g\<lparr>busy := False, turn := Idle\<rparr>)" using sp' Release by (simp add: spaced_def tick_def)
      from next_turn_spaced [OF between_release [OF inv Holding] this assms(4,5)] sp' Release Holding show ?thesis
        by (simp add: gate_step_def release_def tick_def)
    qed (use Release sp' in \<open>simp_all add: gate_step_def release_def\<close>)
  next
    case Stop
    then show ?thesis using sp' by (simp add: gate_step_def stop_def spaced_def)
  qed
qed

lemma times_ok_append: "times_ok t (xs @ ys) \<longleftrightarrow> times_ok t xs \<and> times_ok (foldl tick t xs) ys"
  by (induction xs arbitrary: t) auto

lemma run_spaced:
  assumes "gate_inv g" and "spaced spacing t g" and "times_ok t evs" and "0 \<le> spacing" and "\<And>i. 0 \<le> jitter i"
  shows "spaced spacing (foldl tick t evs) (foldl (gate_step spacing jitter) g evs)"
  using assms(1,2,3)
proof (induction evs arbitrary: g t)
  case (Cons ev evs)
  have "gate_inv (gate_step spacing jitter g ev)" using Cons.prems(1) by (rule gate_step_inv)
  moreover have "spaced spacing (tick t ev) (gate_step spacing jitter g ev)"
    using gate_step_spaced [OF Cons.prems(1,2)] Cons.prems(3) assms(4,5) by simp
  ultimately show ?case using Cons by simp
qed simp

subsection \<open>Properties\<close>

text \<open>
  C36. The read gate implements two first-in-first-out queues: every run of the gate is, step by step, a
  run of the queues in which a turn goes to the longest-waiting urgent caller if there is one, and to the
  longest-waiting other caller if not. No caller waits while the gate is idle or stopped, and every
  caller has got exactly one answer or is still waiting or sleeping.
\<close>

theorem read_gate_refines_queues:
  "queues (foldl (gate_step spacing jitter) new_gate evs) = foldl (queue_step spacing jitter) (queues new_gate) evs
    \<and> (let g = foldl (gate_step spacing jitter) new_gate evs in
       (turn g = Idle \<or> stopped g \<longrightarrow> waiters g = [])
       \<and> mset (map w_id (waiters g) @ sleeping (turn g) @ map fst (outcomes g)) = mset [0..<next_id g])"
  using gate.run_abs [OF new_gate_inv] gate.run_inv [OF new_gate_inv, of spacing jitter evs]
  by (simp add: gate_inv_def Let_def)

text \<open>
  C37. Requests of different accounts are spaced: in any run whose clock does not go back, when a
  request is sent for another account than the one before it, at least the spacing has passed since
  that one, whatever was acquired, released unsent, or stopped in between.
\<close>

theorem read_gate_spaces_accounts:
  assumes "times_ok t0 (evs @ [Sent i now])" and "0 \<le> spacing" and "\<And>i. 0 \<le> jitter i"
    and "g = foldl (gate_step spacing jitter) new_gate evs"
    and "last_sent g = Some (a, t)" and "last_sent (sent i now g) = Some (b, t')" and "b \<noteq> a"
  shows "t + spacing \<le> t' \<and> t' = now"
proof -
  have times: "times_ok t0 evs" "foldl tick t0 evs \<le> now"
    using assms(1) times_ok_append [of t0 evs "[Sent i now]"] by (simp_all add: tick_def)
  have "spaced spacing t0 new_gate" by (simp add: spaced_def new_gate_def)
  from run_spaced [OF new_gate_inv this times(1) assms(2,3)] have sp: "spaced spacing (foldl tick t0 evs) g"
    using assms(4) by simp
  obtain w where w: "turn g = Holding w" "w_account w = b" "t' = now"
    using assms(5-7) by (auto simp: sent_def split: turn.splits if_splits)
  then have "t + spacing \<le> foldl tick t0 evs" using sp assms(5,7) by (auto simp: spaced_def)
  with times(2) w(3) show ?thesis by simp
qed

subsection \<open>Witnesses\<close>

definition sample_reads :: "gate_event list" where
  "sample_reads = [Acquire ''a'' False 0, Acquire ''b'' False 1, Acquire ''a'' True 2, Sent 0 3, Release 0 4, Release 2 5, Wake 13]"

theorem read_gate_refines_queues_witness:
  "turn (foldl (gate_step 10 (\<lambda>_. 0)) new_gate sample_reads) = Holding \<lparr>w_id = 1, w_account = ''b'', w_urgent = False\<rparr>
    \<and> mset (map fst (outcomes (foldl (gate_step 10 (\<lambda>_. 0)) new_gate sample_reads))) = mset [0..<3]"
proof -
  have run: "turn (foldl (gate_step 10 (\<lambda>_. 0)) new_gate sample_reads) = Holding \<lparr>w_id = 1, w_account = ''b'', w_urgent = False\<rparr>"
    "waiters (foldl (gate_step 10 (\<lambda>_. 0)) new_gate sample_reads) = []"
    "next_id (foldl (gate_step 10 (\<lambda>_. 0)) new_gate sample_reads) = 3"
    by code_simp+
  with read_gate_refines_queues [of 10 "\<lambda>_. 0" sample_reads] show ?thesis by (simp add: Let_def sleeping_def)
qed

theorem read_gate_spaces_accounts_witness:
  "last_sent (foldl (gate_step 10 (\<lambda>_. 0)) new_gate sample_reads) = Some (''a'', 3)
    \<and> last_sent (sent 1 14 (foldl (gate_step 10 (\<lambda>_. 0)) new_gate sample_reads)) = Some (''b'', 14) \<and> (3 :: rat) + 10 \<le> 14"
proof -
  have run: "last_sent (foldl (gate_step 10 (\<lambda>_. 0)) new_gate sample_reads) = Some (''a'', 3)"
    "last_sent (sent 1 14 (foldl (gate_step 10 (\<lambda>_. 0)) new_gate sample_reads)) = Some (''b'', 14)"
    by code_simp+
  have "times_ok 0 (sample_reads @ [Sent 1 14])" by code_simp
  from read_gate_spaces_accounts [OF this _ _ refl run] run show ?thesis by simp
qed

end
