(* ===== verification/ResolvedRoute.thy ===== *)
theory ResolvedRoute
  imports RoutingRules
begin

section \<open>The frozen route of a request\<close>

text \<open>
  \<^verbatim>\<open>proxy/src/resolved-route.ts\<close> with the predicates it calls: the destinations of an API key
  (\<^verbatim>\<open>core/src/api-key-pin.ts\<close>), the Chat Completions fields a provider can honour
  (\<^verbatim>\<open>core/src/chat-capabilities.ts\<close>) and the providers that take only custom tools
  (\<^verbatim>\<open>core/src/messages-server-tools.ts\<close>). A route is built once per request and holds the accounts the request
  may be sent to, each with the model it sends and the identity it was authorized under. The reason an account
  is left out, a text in the code, is a constructor here, and an error its class with the data of its message.
  The digest of an account identity (\<^verbatim>\<open>modelPermissionScope\<close>) is an argument. The JSON snapshot kept for the audit
  is left out.
  Shown: a route authorizes exactly the accounts that pass every restriction, each with the one model the
  routing table gives; which error is raised when none does; an installed route is replaced only by an admitted
  stage of its own alias plan; a body passes the last check only if no field of it can override the model.
\<close>

subsection \<open>Destinations of an API key\<close>

record routing_pin =
  key_accountId :: "string option"
  key_providers :: "string list option"
  key_excludedProviders :: "string list option"

abbreviation nonempty :: "'a list option \<Rightarrow> bool" where
  "nonempty x \<equiv> x \<noteq> None \<and> x \<noteq> Some []"

definition isPinActive :: "routing_pin option \<Rightarrow> bool" where
  "isPinActive pin = (case pin of
     None \<Rightarrow> False
   | Some p \<Rightarrow> if nonempty (key_accountId p) then True
              else nonempty (key_providers p) \<or> nonempty (key_excludedProviders p))"

definition isRoutingPinValid :: "routing_pin \<Rightarrow> bool" where
  "isRoutingPinValid p =
     (let modes = [key_accountId p \<noteq> None, key_providers p \<noteq> None, key_excludedProviders p \<noteq> None] in
      if length (filter id modes) > 1 then False
      else if key_accountId p \<noteq> None \<and> trimmed (key_accountId p) = None then False
      else list_all (\<lambda>ps. case ps of None \<Rightarrow> True | Some l \<Rightarrow> l \<noteq> [] \<and> list_all isKnownProvider l)
             [key_providers p, key_excludedProviders p])"

definition isAccountAllowedByPin :: "routing_pin option \<Rightarrow> account \<Rightarrow> bool" where
  "isAccountAllowedByPin pin a = (case pin of
     None \<Rightarrow> True
   | Some p \<Rightarrow>
       if key_excludedProviders p \<noteq> None \<and> \<not> isRoutingPinValid p then False
       else if \<not> isPinActive pin then True
       else if (case key_excludedProviders p of None \<Rightarrow> False | Some l \<Rightarrow> provider a \<in> set l) then False
       else if nonempty (key_accountId p) then Some (acc_id a) = key_accountId p
       else (case key_providers p of None \<Rightarrow> True | Some l \<Rightarrow> provider a \<in> set l))"

subsection \<open>What a provider can carry\<close>

datatype chat_field = Max_tokens | Temperature | Top_p | Stop | Reasoning_content | Response_format
datatype field_treatment = Passed | Ignored | Refused

fun codex_capability :: "chat_field \<Rightarrow> field_treatment" where
  "codex_capability Stop = Refused"
| "codex_capability Reasoning_content = Refused"
| "codex_capability Response_format = Passed"
| "codex_capability _ = Ignored"

fun openrouter_capability :: "chat_field \<Rightarrow> field_treatment" where
  "openrouter_capability _ = Passed"

fun sdk_bridge_capability :: "chat_field \<Rightarrow> field_treatment" where
  "sdk_bridge_capability Temperature = Ignored"
| "sdk_bridge_capability Top_p = Ignored"
| "sdk_bridge_capability _ = Passed"

definition chatFieldCapability :: "string \<Rightarrow> bool \<Rightarrow> (chat_field \<Rightarrow> field_treatment) option" where
  "chatFieldCapability prov viaSdkBridge =
     (if viaSdkBridge then Some sdk_bridge_capability
      else if prov = CODEX then Some codex_capability
      else if prov = ''openrouter'' then Some openrouter_capability
      else None)"

definition refusedChatField :: "(chat_field \<Rightarrow> field_treatment) \<Rightarrow> chat_field list \<Rightarrow> chat_field option" where
  "refusedChatField cap fs = List.find (\<lambda>f. cap f = Refused) fs"

definition ignoredChatFields :: "(chat_field \<Rightarrow> field_treatment) \<Rightarrow> chat_field list \<Rightarrow> chat_field list" where
  "ignoredChatFields cap fs = filter (\<lambda>f. cap f = Ignored) fs"

definition REFUSES_MESSAGES_SERVER_TOOLS :: "string list" where
  "REFUSES_MESSAGES_SERVER_TOOLS = [CODEX, ''openai-compatible'', ''kilo'', ''qwen'', ''devin'']"

definition refusesMessagesServerTools :: "string \<Rightarrow> bool" where
  "refusesMessagesServerTools prov \<longleftrightarrow> prov \<in> set REFUSES_MESSAGES_SERVER_TOOLS"

subsection \<open>Errors and reasons\<close>

record refused_field =
  refused_name :: string
  refused_message :: string

record version_floor =
  floor_model :: string
  requiredVersion :: string
  rejectedVersion :: string

datatype exclusion =
    Account_disabled
  | Outside_pin
  | Official_excluded string
  | Other_account_named
  | Other_account_maintained
  | Pools_provider string "string option"
  | Not_in_pool string
  | Model_not_permitted string
  | Model_answered_differently string
  | Model_suppressed string
  | No_chat_ingress string
  | Chat_field_refused chat_field
  | Custom_tools_only string string
  | Bridge_refuses_field string
  | Bridge_too_old version_floor string
  | Bridge_only_model string
  | Account_changed
  | Provider_changed

datatype routing_policy_error =
    No_resolved_route
  | Outside_destinations string
  | Model_required
  | Invalid_destinations
  | Sdk_bridge_field refused_field
  | Server_tool_route string string
  | Sdk_bridge_version version_floor
  | Model_suffix_route string
  | Chat_capability chat_field string
  | Model_substitution_route string
  | No_chat_destination string
  | No_destination string "string option" bool "(string \<times> exclusion) list"
  | Literal_without_target
  | Route_not_replaceable
  | Alias_without_destinations
  | Alias_outside_plan
  | Alias_rejected
  | No_alias_plan
  | Model_switch_field string
  | Unreadable_body
  | Body_not_object
  | Model_changed string
  | No_permitted_account
  | Destination_withdrawn
  | Unknown_alias string
  | Internal_without_account
  | Internal_without_purpose
  | Bridge_deadline_passed
  | Not_a_bridge_model string
  | Key_destinations_invalid
  | Permission_read_failed string

text \<open>A literal rule without a target and a failed read are plain errors, which carry no status.\<close>

fun statusCode :: "routing_policy_error \<Rightarrow> int option" where
  "statusCode Literal_without_target = None"
| "statusCode (Permission_read_failed _) = None"
| "statusCode (Model_substitution_route _) = Some 503"
| "statusCode (Chat_capability _ _) = Some 400"
| "statusCode (Sdk_bridge_field _) = Some 400"
| "statusCode (Server_tool_route _ _) = Some 400"
| "statusCode (Sdk_bridge_version _) = Some 400"
| "statusCode (Model_suffix_route _) = Some 400"
| "statusCode _ = Some 403"

subsection \<open>Routes\<close>

record authorized_target =
  upstreamModel :: string
  targetSource :: target_source
  target_provider :: string
  target_scope :: string

type_synonym route_targets = "(string, authorized_target) jsmap"

datatype maintenance_purpose = Auto_refresh | Keepalive

record maintenance =
  maintained_account :: string
  maintenance_purpose :: maintenance_purpose

record alias_evidence =
  alias_id :: string
  alias_revision :: int
  alias_targetIndex :: nat

record bridge_exclusion =
  bridge_reason :: exclusion
  versionFloor :: "version_floor option"

record route =
  route_requestedModel :: string
  admissionError :: "routing_policy_error option"
  route_ruleId :: "string option"
  route_alias :: "alias_evidence option"
  aliasReason :: "string option"
  officialAnthropicExcluded :: "exclusion option"
  route_maintenance :: "maintenance option"
  route_model :: "string option"
  route_rule :: "routing_rule option"
  targets :: route_targets

record destination_restrictions =
  in_pin :: "routing_pin option"
  headerAccountId :: "string option"
  officialAnthropicExclusion :: "string option"
  bridgesOfficialAnthropic :: bool
  sdkBridgeRefusal :: "refused_field option"
  sdkBridgeVersionFloor :: "string \<Rightarrow> version_floor option"
  serverToolType :: "string option"
  in_maintenance :: "maintenance option"

record build_route_input = destination_restrictions +
  in_alias :: "alias_evidence option"
  in_accounts :: "account list"
  in_rules :: "routing_rule list"
  in_requestedModel :: string
  in_routingModel :: "string option"
  in_apiKeyId :: "string option"
  in_permissions :: "(string, permission_set) jsmap"
  priorExclusions :: "(string, string \<times> exclusion) jsmap"
  suppressedPairs :: "(string \<times> string) list"
  substitutedPairs :: "(string \<times> string) list"
  chatRequirements :: "chat_field list option"

definition common_model :: "route_targets \<Rightarrow> string option" where
  "common_model ts = (case remdups (map (upstreamModel \<circ> snd) ts) of [m] \<Rightarrow> Some m | _ \<Rightarrow> None)"

definition new_route ::
  "build_route_input \<Rightarrow> routing_rule option \<Rightarrow> route_targets \<Rightarrow> routing_policy_error option \<Rightarrow> bridge_exclusion option \<Rightarrow> route" where
  "new_route input rule ts err bridgeExclusion =
     \<lparr>route_requestedModel = in_requestedModel input, admissionError = err, route_ruleId = map_option rule_id rule,
      route_alias = in_alias input, aliasReason = None, officialAnthropicExcluded = map_option bridge_reason bridgeExclusion,
      route_maintenance = in_maintenance input, route_model = common_model ts, route_rule = rule, targets = ts\<rparr>"

definition route_target :: "(account \<Rightarrow> string) \<Rightarrow> route \<Rightarrow> account \<Rightarrow> authorized_target option" where
  "route_target scopeOf r a = (case jm_get (targets r) (acc_id a) of
     None \<Rightarrow> None
   | Some t \<Rightarrow> if target_provider t = provider a \<and> target_scope t = scopeOf a then Some t else None)"

definition permits :: "(account \<Rightarrow> string) \<Rightarrow> route \<Rightarrow> account \<Rightarrow> permission_set option \<Rightarrow> bool" where
  "permits scopeOf r a permissions = (case route_target scopeOf r a of
     None \<Rightarrow> False
   | Some t \<Rightarrow> route_maintenance r \<noteq> None
       \<or> isModelPermitted permissions (acc_id a) (provider a) (upstreamModel t) (route_rule r))"

definition accountIds :: "route \<Rightarrow> string list" where
  "accountIds r = jm_keys (targets r)"

text \<open>
  The identity a destination is authorized under: the fields of the account row that \<^verbatim>\<open>account\<close> does not carry are looked
  up by its id, JSON parsing (\<open>None\<close> when it throws) and the digest are arguments.
\<close>

record account_identity =
  api_key :: "string option"
  identity_external_id :: "string option"
  identity_email :: "string option"
  identity_organization_name :: "string option"
  identity_plan_tier :: "string option"

definition parseCustomEndpointData :: "(string \<Rightarrow> js_value option) \<Rightarrow> string option \<Rightarrow> string option" where
  "parseCustomEndpointData parse customEndpoint = (case customEndpoint of
     None \<Rightarrow> None
   | Some s \<Rightarrow>
       if s = [] then None
       else let t = js_trim s in
         if \<not> starts_with t ''{'' then Some t
         else case parse t of
           None \<Rightarrow> Some t
         | Some (Obj fs) \<Rightarrow> (case field fs ''endpoint'' of Str e \<Rightarrow> Some e | _ \<Rightarrow> None)
         | Some _ \<Rightarrow> None)"

definition modelPermissionScope ::
  "(string option list \<Rightarrow> string) \<Rightarrow> (string \<Rightarrow> js_value option) \<Rightarrow> (string \<Rightarrow> account_identity) \<Rightarrow> account \<Rightarrow> string" where
  "modelPermissionScope digest parse identityOf a =
     (let i = identityOf (acc_id a) in
      digest [Some (provider a), parseCustomEndpointData parse (custom_endpoint a), api_key i,
        Some (case identity_external_id i of None \<Rightarrow> acc_id a | Some e \<Rightarrow> e),
        identity_email i, identity_organization_name i, identity_plan_tier i])"

subsection \<open>Building a route\<close>

definition routeAccountLabel :: "account \<Rightarrow> string" where
  "routeAccountLabel a = (if acc_name a = [] then acc_id a else acc_name a) @ '' ('' @ provider a @ '')''"

definition destinationExclusionReason ::
  "account \<Rightarrow> 'z destination_restrictions_scheme \<Rightarrow> routing_rule option \<Rightarrow> exclusion option" where
  "destinationExclusionReason a input rule =
     (if disabled a then Some Account_disabled
      else if \<not> isAccountAllowedByPin (in_pin input) a then Some Outside_pin
      else if nonempty (officialAnthropicExclusion input) \<and> isOfficialAnthropicProvider (provider a)
      then map_option Official_excluded (officialAnthropicExclusion input)
      else if nonempty (headerAccountId input) \<and> headerAccountId input \<noteq> Some (acc_id a) then Some Other_account_named
      else if (case in_maintenance input of None \<Rightarrow> False | Some m \<Rightarrow> maintained_account m \<noteq> acc_id a) then Some Other_account_maintained
      else case rule of
        None \<Rightarrow> None
      | Some r \<Rightarrow>
          if rule_pool_kind r = Provider_pool \<and> pool_provider r \<noteq> Some (provider a)
          then Some (Pools_provider (rule_name r) (pool_provider r))
          else if rule_pool_kind r = Accounts_pool
              \<and> \<not> (case pool_account_ids r of None \<Rightarrow> False | Some is \<Rightarrow> acc_id a \<in> set is)
          then Some (Not_in_pool (rule_name r))
          else None)"

record build_state =
  bs_targets :: route_targets
  exclusions :: "(string \<times> exclusion) list"
  unsupportedProvider :: bool
  unsupportedField :: "chat_field option"
  refusedByBridge :: "refused_field option"
  refusedServerTool :: "string option"
  refusedByVersion :: "version_floor option"
  bridgeExclusion :: "bridge_exclusion option"
  refusedSuffix :: "string option"
  substitutedExclusions :: nat

definition new_build :: build_state where
  "new_build = \<lparr>bs_targets = [], exclusions = [], unsupportedProvider = False, unsupportedField = None, refusedByBridge = None,
     refusedServerTool = None, refusedByVersion = None, bridgeExclusion = None, refusedSuffix = None, substitutedExclusions = 0\<rparr>"

definition exclude :: "account \<Rightarrow> exclusion \<Rightarrow> build_state \<Rightarrow> build_state" where
  "exclude a reason s = s\<lparr>exclusions := exclusions s @ [(routeAccountLabel a, reason)]\<rparr>"

definition routing_model :: "build_route_input \<Rightarrow> string" where
  "routing_model input = (case in_routingModel input of Some m \<Rightarrow> m | None \<Rightarrow> in_requestedModel input)"

definition resolved_model :: "build_route_input \<Rightarrow> routing_rule option \<Rightarrow> routing_policy_error + (string \<times> target_source)" where
  "resolved_model input winning =
     (if map_option maintenance_purpose (in_maintenance input) = Some Keepalive then Inr (in_requestedModel input, From_requested)
      else map_sum (\<lambda>_. Literal_without_target) id (resolveRoutingTarget winning (routing_model input)))"

text \<open>The Chat Completions test of the loop: whether it excludes the account, and why.\<close>

definition bridged :: "'z destination_restrictions_scheme \<Rightarrow> account \<Rightarrow> bool" where
  "bridged input a \<longleftrightarrow> bridgesOfficialAnthropic input \<and> isOfficialAnthropicProvider (provider a)"

definition chat_refusal :: "build_route_input \<Rightarrow> account \<Rightarrow> exclusion option" where
  "chat_refusal input a = (case chatRequirements input of
     None \<Rightarrow> None
   | Some fs \<Rightarrow> (case chatFieldCapability (provider a) (bridged input a) of
       None \<Rightarrow> Some (No_chat_ingress (provider a))
     | Some cap \<Rightarrow> map_option Chat_field_refused (refusedChatField cap fs)))"

definition note_chat :: "exclusion \<Rightarrow> build_state \<Rightarrow> build_state" where
  "note_chat reason s = (case reason of
     Chat_field_refused f \<Rightarrow> s\<lparr>unsupportedField := Some (case unsupportedField s of None \<Rightarrow> f | Some f' \<Rightarrow> f')\<rparr>
   | _ \<Rightarrow> s\<lparr>unsupportedProvider := True\<rparr>)"

definition note_bridge :: "bridge_exclusion \<Rightarrow> build_state \<Rightarrow> build_state" where
  "note_bridge b s = s\<lparr>bridgeExclusion := Some (case bridgeExclusion s of None \<Rightarrow> b | Some b' \<Rightarrow> b')\<rparr>"

definition build_step ::
  "(account \<Rightarrow> string) \<Rightarrow> build_route_input \<Rightarrow> routing_rule option \<Rightarrow> build_state \<Rightarrow> account \<Rightarrow> routing_policy_error + build_state" where
  "build_step scopeOf input winning s a = (case destinationExclusionReason a input winning of
     Some reason \<Rightarrow> Inr (exclude a reason s)
   | None \<Rightarrow> bind_result (resolved_model input winning) (\<lambda>(model, source).
       if in_maintenance input = None
           \<and> \<not> isModelPermitted (jm_get (in_permissions input) (acc_id a)) (acc_id a) (provider a) model winning
       then Inr (exclude a (Model_not_permitted model) s)
       else if (acc_id a, model) \<in> set (suppressedPairs input)
       then Inr (if (acc_id a, model) \<in> set (substitutedPairs input)
                 then exclude a (Model_answered_differently model) (s\<lparr>substitutedExclusions := substitutedExclusions s + 1\<rparr>)
                 else exclude a (Model_suppressed model) s)
       else case chat_refusal input a of
         Some reason \<Rightarrow> Inr (exclude a reason (note_chat reason s))
       | None \<Rightarrow>
           if serverToolType input \<noteq> None \<and> refusesMessagesServerTools (provider a)
           then Inr (exclude a (Custom_tools_only (provider a) (the (serverToolType input))) (s\<lparr>refusedServerTool := serverToolType input\<rparr>))
           else if sdkBridgeRefusal input \<noteq> None \<and> bridged input a
           then let reason = Bridge_refuses_field (refused_name (the (sdkBridgeRefusal input))) in
                Inr (exclude a reason (note_bridge \<lparr>bridge_reason = reason, versionFloor = None\<rparr>
                       (s\<lparr>refusedByBridge := sdkBridgeRefusal input\<rparr>)))
           else case (if bridged input a then sdkBridgeVersionFloor input model else None) of
             Some fl \<Rightarrow>
               (let reason = Bridge_too_old fl model in
                Inr (exclude a reason (note_bridge \<lparr>bridge_reason = reason, versionFloor = Some fl\<rparr> (s\<lparr>refusedByVersion := Some fl\<rparr>))))
           | None \<Rightarrow>
               if \<not> bridgesOfficialAnthropic input \<and> isOfficialAnthropicProvider (provider a) \<and> sdkBridgeWireModel model \<noteq> model
               then Inr (exclude a (Bridge_only_model model) (s\<lparr>refusedSuffix := Some model\<rparr>))
               else Inr (s\<lparr>bs_targets := jm_set (bs_targets s) (acc_id a)
                   \<lparr>upstreamModel = model, targetSource = source, target_provider = provider a, target_scope = scopeOf a\<rparr>\<rparr>)))"

text \<open>The error of an empty route, by the precedence of the code.\<close>

definition empty_route_error :: "build_route_input \<Rightarrow> routing_rule option \<Rightarrow> build_state \<Rightarrow> routing_policy_error" where
  "empty_route_error input winning s =
     (case refusedByBridge s of Some f \<Rightarrow> Sdk_bridge_field f | None \<Rightarrow>
      case refusedServerTool s of Some t \<Rightarrow> Server_tool_route t (in_requestedModel input) | None \<Rightarrow>
      case refusedByVersion s of Some fl \<Rightarrow> Sdk_bridge_version fl | None \<Rightarrow>
      case refusedSuffix s of Some m \<Rightarrow> Model_suffix_route m | None \<Rightarrow>
      case unsupportedField s of Some f \<Rightarrow> Chat_capability f (in_requestedModel input) | None \<Rightarrow>
      if substitutedExclusions s > 0
          \<and> substitutedExclusions s = length (exclusions s) + length (priorExclusions input)
      then Model_substitution_route (in_requestedModel input)
      else if unsupportedProvider s then No_chat_destination (in_requestedModel input)
      else No_destination (in_requestedModel input) (map_option rule_name winning) (nonempty (headerAccountId input))
             (map snd (priorExclusions input) @ exclusions s))"

definition winning_rule :: "build_route_input \<Rightarrow> routing_rule option" where
  "winning_rule input =
     (if in_maintenance input \<noteq> None then None
      else matchRoutingRule (in_rules input) (in_apiKeyId input) (routing_model input))"

definition buildResolvedRoute :: "(account \<Rightarrow> string) \<Rightarrow> build_route_input \<Rightarrow> routing_policy_error + route" where
  "buildResolvedRoute scopeOf input =
     (if js_trim (in_requestedModel input) = [] then Inl Model_required
      else if (case in_pin input of None \<Rightarrow> False | Some p \<Rightarrow> \<not> isRoutingPinValid p) then Inl Invalid_destinations
      else let winning = winning_rule input in
        bind_result (fold_result (build_step scopeOf input winning) new_build (in_accounts input)) (\<lambda>s.
          if bs_targets s = [] then
            (let err = empty_route_error input winning s in
             if in_alias input \<noteq> None then Inr (new_route input winning [] (Some err) (bridgeExclusion s)) else Inl err)
          else Inr (new_route input winning (bs_targets s) None (bridgeExclusion s))))"

subsection \<open>The route of a request\<close>

text \<open>
  \<^verbatim>\<open>routes\<close> and \<^verbatim>\<open>aliasStages\<close> of one request. A route is an object that both maps may hold, so routes live in a list
  and the maps hold positions in it.
\<close>

record request_routes =
  route_objects :: "route list"
  installed :: "nat option"
  alias_stages :: "nat list option"

definition no_routes :: request_routes where
  "no_routes = \<lparr>route_objects = [], installed = None, alias_stages = None\<rparr>"

definition installed_route :: "request_routes \<Rightarrow> route option" where
  "installed_route st = map_option (nth (route_objects st)) (installed st)"

definition admissibleAliasStages :: "route list \<Rightarrow> nat list \<Rightarrow> nat list" where
  "admissibleAliasStages objs stages = filter (\<lambda>i. admissionError (objs ! i) = None) stages"

definition install_object :: "nat \<Rightarrow> request_routes \<Rightarrow> routing_policy_error + request_routes" where
  "install_object i st = (if installed st \<noteq> None then Inl Route_not_replaceable else Inr (st\<lparr>installed := Some i\<rparr>))"

definition installResolvedRoute :: "route \<Rightarrow> request_routes \<Rightarrow> routing_policy_error + request_routes" where
  "installResolvedRoute r st = install_object (length (route_objects st)) (st\<lparr>route_objects := route_objects st @ [r]\<rparr>)"

definition installAliasRoutes :: "route list \<Rightarrow> request_routes \<Rightarrow> routing_policy_error + request_routes" where
  "installAliasRoutes stages st =
     (let objs = route_objects st @ stages; ids = [length (route_objects st)..<length objs] in
      case stages of
        [] \<Rightarrow> Inl Alias_without_destinations
      | s # _ \<Rightarrow> (case admissibleAliasStages objs ids of
          [] \<Rightarrow> Inl (the (admissionError s))
        | i # _ \<Rightarrow> map_sum id (\<lambda>st'. st'\<lparr>alias_stages := Some ids\<rparr>) (install_object i (st\<lparr>route_objects := objs\<rparr>))))"

definition getAliasRoutes :: "request_routes \<Rightarrow> route list option" where
  "getAliasRoutes st = map_option (map (nth (route_objects st))) (alias_stages st)"

definition selectAliasRoute :: "nat \<Rightarrow> string option \<Rightarrow> request_routes \<Rightarrow> routing_policy_error + request_routes" where
  "selectAliasRoute i reason st =
     (if \<not> (case alias_stages st of None \<Rightarrow> False | Some is \<Rightarrow> i \<in> set is) then Inl Alias_outside_plan
      else if admissionError (route_objects st ! i) \<noteq> None then Inl Alias_rejected
      else Inr (st\<lparr>route_objects := (route_objects st)[i := (route_objects st ! i)\<lparr>aliasReason := reason\<rparr>], installed := Some i\<rparr>))"

definition getResolvedRoute :: "request_routes \<Rightarrow> routing_policy_error + route" where
  "getResolvedRoute st = (case installed_route st of None \<Rightarrow> Inl No_resolved_route | Some r \<Rightarrow> Inr r)"

definition getAttemptTarget ::
  "(account \<Rightarrow> string) \<Rightarrow> route option \<Rightarrow> account \<Rightarrow> routing_policy_error + authorized_target" where
  "getAttemptTarget scopeOf resolved a = (case resolved of
     None \<Rightarrow> Inl No_resolved_route
   | Some r \<Rightarrow> (case route_target scopeOf r a of
       None \<Rightarrow> Inl (Outside_destinations (acc_id a))
     | Some t \<Rightarrow> Inr t))"

subsection \<open>The body that is sent\<close>

definition MODEL_SWITCH_FIELDS :: "string list" where
  "MODEL_SWITCH_FIELDS = [''models'', ''fallbacks'', ''model_fallbacks'', ''route'']"

definition own_field :: "(string \<times> js_value) list \<Rightarrow> string \<Rightarrow> bool" where
  "own_field o' k \<longleftrightarrow> k \<in> fst ` set o'"

lemma size_map_of: "map_of o' k = Some v \<Longrightarrow> size v < Suc (size_list (size_prod (\<lambda>_. 0) size) o')"
  by (induction o') (auto split: if_splits)

function rejectModelSwitchFields :: "(string \<times> js_value) list \<Rightarrow> routing_policy_error option" where
  "rejectModelSwitchFields body = (case List.find (own_field body) MODEL_SWITCH_FIELDS of
     Some f \<Rightarrow> Some (Model_switch_field f)
   | None \<Rightarrow> (case field body ''extra_body'' of
       Obj extra \<Rightarrow>
         if own_field extra ''model'' then Some (Model_switch_field ''extra_body.model'')
         else rejectModelSwitchFields extra
     | _ \<Rightarrow> None))"
  by pat_completeness auto
termination
proof (relation "measure (size_list (size_prod (\<lambda>_. 0) size))")
  fix body extra :: "(string \<times> js_value) list"
  assume "field body ''extra_body'' = Obj extra"
  then have "map_of body ''extra_body'' = Some (Obj extra)" by (auto simp: field_def split: option.splits)
  from size_map_of [OF this] show "(extra, body) \<in> measure (size_list (size_prod (\<lambda>_. 0) size))" by simp
qed simp

declare rejectModelSwitchFields.simps [simp del]

definition enforceOutgoingModel :: "js_value option \<Rightarrow> string \<Rightarrow> routing_policy_error + string" where
  "enforceOutgoingModel body expectedModel = (case body of
     None \<Rightarrow> Inl Unreadable_body
   | Some (Obj o') \<Rightarrow> (case rejectModelSwitchFields o' of
       Some e \<Rightarrow> Inl e
     | None \<Rightarrow> if field o' ''model'' \<noteq> Str expectedModel then Inl (Model_changed expectedModel) else Inr expectedModel)
   | Some _ \<Rightarrow> Inl Body_not_object)"

subsection \<open>The verdict on one account\<close>

text \<open>The first reason the loop finds against an account when the request sends \<open>m\<close>, and what it notes of that reason.\<close>

definition refusal :: "build_route_input \<Rightarrow> routing_rule option \<Rightarrow> string \<Rightarrow> account \<Rightarrow> exclusion option" where
  "refusal input winning m a = (case destinationExclusionReason a input winning of Some r \<Rightarrow> Some r | None \<Rightarrow>
     if in_maintenance input = None
         \<and> \<not> isModelPermitted (jm_get (in_permissions input) (acc_id a)) (acc_id a) (provider a) m winning
     then Some (Model_not_permitted m)
     else if (acc_id a, m) \<in> set (suppressedPairs input)
     then Some (if (acc_id a, m) \<in> set (substitutedPairs input) then Model_answered_differently m else Model_suppressed m)
     else case chat_refusal input a of Some r \<Rightarrow> Some r | None \<Rightarrow>
     if serverToolType input \<noteq> None \<and> refusesMessagesServerTools (provider a)
     then Some (Custom_tools_only (provider a) (the (serverToolType input)))
     else if sdkBridgeRefusal input \<noteq> None \<and> bridged input a
     then Some (Bridge_refuses_field (refused_name (the (sdkBridgeRefusal input))))
     else case (if bridged input a then sdkBridgeVersionFloor input m else None) of Some fl \<Rightarrow> Some (Bridge_too_old fl m) | None \<Rightarrow>
     if \<not> bridgesOfficialAnthropic input \<and> isOfficialAnthropicProvider (provider a) \<and> sdkBridgeWireModel m \<noteq> m
     then Some (Bridge_only_model m)
     else None)"

fun note_refusal :: "build_route_input \<Rightarrow> exclusion \<Rightarrow> build_state \<Rightarrow> build_state" where
  "note_refusal input (Model_answered_differently _) s = s\<lparr>substitutedExclusions := substitutedExclusions s + 1\<rparr>"
| "note_refusal input (No_chat_ingress _) s = s\<lparr>unsupportedProvider := True\<rparr>"
| "note_refusal input (Chat_field_refused f) s =
     s\<lparr>unsupportedField := Some (case unsupportedField s of None \<Rightarrow> f | Some f' \<Rightarrow> f')\<rparr>"
| "note_refusal input (Custom_tools_only _ t) s = s\<lparr>refusedServerTool := Some t\<rparr>"
| "note_refusal input (Bridge_refuses_field n) s =
     note_bridge \<lparr>bridge_reason = Bridge_refuses_field n, versionFloor = None\<rparr> (s\<lparr>refusedByBridge := sdkBridgeRefusal input\<rparr>)"
| "note_refusal input (Bridge_too_old fl m) s =
     note_bridge \<lparr>bridge_reason = Bridge_too_old fl m, versionFloor = Some fl\<rparr> (s\<lparr>refusedByVersion := Some fl\<rparr>)"
| "note_refusal input (Bridge_only_model m) s = s\<lparr>refusedSuffix := Some m\<rparr>"
| "note_refusal input _ s = s"

definition account_target :: "(account \<Rightarrow> string) \<Rightarrow> string \<Rightarrow> target_source \<Rightarrow> account \<Rightarrow> authorized_target" where
  "account_target scopeOf m src a = \<lparr>upstreamModel = m, targetSource = src, target_provider = provider a, target_scope = scopeOf a\<rparr>"

definition build_total ::
  "(account \<Rightarrow> string) \<Rightarrow> build_route_input \<Rightarrow> routing_rule option \<Rightarrow> string \<Rightarrow> target_source \<Rightarrow> build_state \<Rightarrow> account \<Rightarrow> build_state" where
  "build_total scopeOf input winning m src s a = (case refusal input winning m a of
     None \<Rightarrow> s\<lparr>bs_targets := jm_set (bs_targets s) (acc_id a) (account_target scopeOf m src a)\<rparr>
   | Some reason \<Rightarrow> exclude a reason (note_refusal input reason s))"

lemma destination_reason_plain:
  "destinationExclusionReason a input rule = Some reason \<Longrightarrow> note_refusal input' reason s = s"
  by (auto simp: destinationExclusionReason_def split: if_splits option.splits)

lemma chat_reason:
  "chat_refusal input a = Some reason \<Longrightarrow> note_chat reason s = note_refusal input' reason s"
  by (auto simp: chat_refusal_def note_chat_def split: option.splits)

lemma build_step_eq:
  assumes "resolved_model input winning = Inr (m, src)"
  shows "build_step scopeOf input winning s a = Inr (build_total scopeOf input winning m src s a)"
proof (cases "destinationExclusionReason a input winning")
  case (Some reason)
  then show ?thesis by (simp add: build_step_def build_total_def refusal_def destination_reason_plain)
next
  case None
  note step = None assms
  show ?thesis
  proof (cases "chat_refusal input a")
    case (Some reason)
    with step show ?thesis
      by (auto simp: build_step_def build_total_def refusal_def bind_result_def chat_reason [of input a reason s input])
  next
    case None
    with step show ?thesis
      by (auto simp: build_step_def build_total_def refusal_def bind_result_def Let_def account_target_def bridged_def split: option.split)
  qed
qed

lemma build_fold:
  assumes "resolved_model input winning = Inr (m, src)"
  shows "fold_result (build_step scopeOf input winning) s as = Inr (foldl (build_total scopeOf input winning m src) s as)"
  by (rule fold_result_total) (rule build_step_eq [OF assms])

subsection \<open>What the loop has noted\<close>

definition built ::
  "(account \<Rightarrow> string) \<Rightarrow> build_route_input \<Rightarrow> routing_rule option \<Rightarrow> string \<Rightarrow> target_source \<Rightarrow> account list \<Rightarrow> build_state" where
  "built scopeOf input winning m src as = foldl (build_total scopeOf input winning m src) new_build as"

lemma built_Nil [simp]: "built scopeOf input winning m src [] = new_build"
  by (simp add: built_def)

lemma built_snoc:
  "built scopeOf input winning m src (as @ [a]) = build_total scopeOf input winning m src (built scopeOf input winning m src as) a"
  by (simp add: built_def)

lemma note_targets [simp]: "bs_targets (note_refusal input r s) = bs_targets s"
  by (cases r) (simp_all add: note_bridge_def)

lemma note_exclusions [simp]: "exclusions (note_refusal input r s) = exclusions s"
  by (cases r) (simp_all add: note_bridge_def)

lemma built_target:
  "jm_get (bs_targets (built scopeOf input winning m src as)) i =
    map_option (account_target scopeOf m src) (List.find (\<lambda>a. acc_id a = i \<and> refusal input winning m a = None) (rev as))"
  by (induction as rule: rev_induct) (auto simp: new_build_def built_snoc build_total_def exclude_def split: option.split)

lemma built_targets_wf: "jm_wf (bs_targets (built scopeOf input winning m src as))"
  by (induction as rule: rev_induct)
    (auto simp: new_build_def built_snoc build_total_def exclude_def jm_wf_set split: option.split)

lemma built_exclusions:
  "exclusions (built scopeOf input winning m src as) =
    map (\<lambda>a. (routeAccountLabel a, the (refusal input winning m a))) (filter (\<lambda>a. refusal input winning m a \<noteq> None) as)"
  by (induction as rule: rev_induct) (auto simp: new_build_def built_snoc build_total_def exclude_def split: option.split)

text \<open>The reasons that lie in what the request asks for; they are found only on an account that passes all the others.\<close>

fun request_fault :: "exclusion \<Rightarrow> bool" where
  "request_fault (Chat_field_refused _) = True"
| "request_fault (Custom_tools_only _ _) = True"
| "request_fault (Bridge_refuses_field _) = True"
| "request_fault (Bridge_too_old _ _) = True"
| "request_fault (Bridge_only_model _) = True"
| "request_fault _ = False"

definition faulted :: "build_state \<Rightarrow> bool" where
  "faulted s \<longleftrightarrow> refusedByBridge s \<noteq> None \<or> refusedServerTool s \<noteq> None \<or> refusedByVersion s \<noteq> None
     \<or> refusedSuffix s \<noteq> None \<or> unsupportedField s \<noteq> None"

lemma destination_no_fault: "destinationExclusionReason a input rule = Some r \<Longrightarrow> \<not> request_fault r"
  by (auto simp: destinationExclusionReason_def split: if_splits option.splits)

lemma refusal_bridge_field: "refusal input winning m a = Some (Bridge_refuses_field n) \<Longrightarrow> sdkBridgeRefusal input \<noteq> None"
  by (auto simp: refusal_def chat_refusal_def dest: destination_no_fault split: option.splits if_splits)

lemma note_faulted:
  assumes "refusal input winning m a = Some r"
  shows "faulted (note_refusal input r s) \<longleftrightarrow> faulted s \<or> request_fault r"
  using refusal_bridge_field [of input winning m a] assms by (cases r) (auto simp: faulted_def note_bridge_def)

lemma built_faulted:
  "faulted (built scopeOf input winning m src as) \<longleftrightarrow> (\<exists>a \<in> set as. \<exists>r. refusal input winning m a = Some r \<and> request_fault r)"
proof (induction as rule: rev_induct)
  case Nil
  then show ?case by (simp add: faulted_def new_build_def)
next
  case (snoc a as)
  have upd: "faulted (exclude a r s) = faulted s" "faulted (s\<lparr>bs_targets := t\<rparr>) = faulted s" for r s t
    by (simp_all add: faulted_def exclude_def)
  show ?case
    using snoc by (cases "refusal input winning m a") (auto simp: built_snoc build_total_def upd note_faulted)
qed

lemma built_substituted:
  "substitutedExclusions (built scopeOf input winning m src as) =
    length (filter (\<lambda>a. \<exists>m'. refusal input winning m a = Some (Model_answered_differently m')) as)"
proof (induction as rule: rev_induct)
  case (snoc a as)
  have "substitutedExclusions (note_refusal input r s) = substitutedExclusions s + (if \<exists>m'. r = Model_answered_differently m' then 1 else 0)" for r s
    by (cases r) (simp_all add: note_bridge_def)
  with snoc show ?case by (auto simp: built_snoc build_total_def exclude_def split: option.split)
qed (simp add: new_build_def)

lemma refusal_substituted: "refusal input winning m a = Some (Model_answered_differently m') \<Longrightarrow> m' = m"
  by (auto simp: refusal_def destinationExclusionReason_def chat_refusal_def split: option.splits if_splits)

subsection \<open>Authorization\<close>

definition in_pool :: "routing_rule option \<Rightarrow> account \<Rightarrow> bool" where
  "in_pool rule a = (case rule of
     None \<Rightarrow> True
   | Some r \<Rightarrow> (case rule_pool_kind r of
       Inherit \<Rightarrow> True
     | Provider_pool \<Rightarrow> pool_provider r = Some (provider a)
     | Accounts_pool \<Rightarrow> (case pool_account_ids r of None \<Rightarrow> False | Some is \<Rightarrow> acc_id a \<in> set is)))"

definition eligible_destination :: "'z destination_restrictions_scheme \<Rightarrow> routing_rule option \<Rightarrow> account \<Rightarrow> bool" where
  "eligible_destination input rule a \<longleftrightarrow> \<not> disabled a \<and> isAccountAllowedByPin (in_pin input) a \<and> in_pool rule a
     \<and> (nonempty (officialAnthropicExclusion input) \<longrightarrow> \<not> isOfficialAnthropicProvider (provider a))
     \<and> (nonempty (headerAccountId input) \<longrightarrow> headerAccountId input = Some (acc_id a))
     \<and> (\<forall>mt. in_maintenance input = Some mt \<longrightarrow> maintained_account mt = acc_id a)"

definition can_carry :: "build_route_input \<Rightarrow> string \<Rightarrow> account \<Rightarrow> bool" where
  "can_carry input m a \<longleftrightarrow>
     (\<forall>fs. chatRequirements input = Some fs \<longrightarrow>
        (\<exists>cap. chatFieldCapability (provider a) (bridged input a) = Some cap \<and> (\<forall>f \<in> set fs. cap f \<noteq> Refused)))
     \<and> (serverToolType input \<noteq> None \<longrightarrow> \<not> refusesMessagesServerTools (provider a))
     \<and> (bridged input a \<longrightarrow> sdkBridgeRefusal input = None \<and> sdkBridgeVersionFloor input m = None)
     \<and> (isOfficialAnthropicProvider (provider a) \<and> \<not> bridgesOfficialAnthropic input \<longrightarrow> sdkBridgeWireModel m = m)"

definition authorized :: "build_route_input \<Rightarrow> routing_rule option \<Rightarrow> string \<Rightarrow> account \<Rightarrow> bool" where
  "authorized input rule m a \<longleftrightarrow> eligible_destination input rule a
     \<and> (in_maintenance input = None \<longrightarrow>
          isModelPermitted (jm_get (in_permissions input) (acc_id a)) (acc_id a) (provider a) m rule)
     \<and> (acc_id a, m) \<notin> set (suppressedPairs input) \<and> can_carry input m a"

lemma destination_None: "destinationExclusionReason a input rule = None \<longleftrightarrow> eligible_destination input rule a"
proof (cases rule)
  case None
  then show ?thesis
    by (auto simp: destinationExclusionReason_def eligible_destination_def in_pool_def split: option.split)
next
  case (Some r)
  then show ?thesis
    by (cases "rule_pool_kind r")
      (auto simp: destinationExclusionReason_def eligible_destination_def in_pool_def split: option.split if_splits)
qed

lemma chat_None:
  "chat_refusal input a = None \<longleftrightarrow> (\<forall>fs. chatRequirements input = Some fs \<longrightarrow>
     (\<exists>cap. chatFieldCapability (provider a) (bridged input a) = Some cap \<and> (\<forall>f \<in> set fs. cap f \<noteq> Refused)))"
  by (auto simp: chat_refusal_def refusedChatField_def find_None_iff split: option.split)

lemma can_carry_iff:
  "can_carry input m a \<longleftrightarrow> chat_refusal input a = None
     \<and> (serverToolType input \<noteq> None \<longrightarrow> \<not> refusesMessagesServerTools (provider a))
     \<and> (bridged input a \<longrightarrow> sdkBridgeRefusal input = None \<and> sdkBridgeVersionFloor input m = None)
     \<and> (isOfficialAnthropicProvider (provider a) \<and> \<not> bridgesOfficialAnthropic input \<longrightarrow> sdkBridgeWireModel m = m)"
  unfolding can_carry_def chat_None ..

lemma refusal_None: "refusal input rule m a = None \<longleftrightarrow> authorized input rule m a"
proof (cases "destinationExclusionReason a input rule")
  case (Some r)
  then show ?thesis using destination_None [of a input rule] by (simp add: refusal_def authorized_def)
next
  case None
  then have "eligible_destination input rule a" by (simp add: destination_None)
  with None show ?thesis
    by (cases "bridged input a"; cases "chat_refusal input a")
      (auto simp: refusal_def authorized_def can_carry_iff split: option.split)
qed

lemma build_result:
  assumes "js_trim (in_requestedModel input) \<noteq> []" and "\<forall>p. in_pin input = Some p \<longrightarrow> isRoutingPinValid p"
    and "resolved_model input (winning_rule input) = Inr (m, src)"
    and s: "s = built scopeOf input (winning_rule input) m src (in_accounts input)"
  shows "buildResolvedRoute scopeOf input =
    (if bs_targets s = [] then
       if in_alias input \<noteq> None
       then Inr (new_route input (winning_rule input) [] (Some (empty_route_error input (winning_rule input) s)) (bridgeExclusion s))
       else Inl (empty_route_error input (winning_rule input) s)
     else Inr (new_route input (winning_rule input) (bs_targets s) None (bridgeExclusion s)))"
proof -
  have fold: "fold_result (build_step scopeOf input (winning_rule input)) new_build (in_accounts input) = Inr s"
    unfolding s built_def by (rule build_fold [OF assms(3)])
  have pin: "\<not> (case in_pin input of None \<Rightarrow> False | Some p \<Rightarrow> \<not> isRoutingPinValid p)"
    using assms(2) by (cases "in_pin input") simp_all
  show ?thesis unfolding buildResolvedRoute_def Let_def fold using pin assms(1) by (simp add: bind_result_def)
qed

lemma built_empty:
  "bs_targets (built scopeOf input rule m src as) = [] \<longleftrightarrow> (\<forall>a \<in> set as. \<not> authorized input rule m a)"
proof -
  have "bs_targets (built scopeOf input rule m src as) = [] \<longleftrightarrow> (\<forall>i. jm_get (bs_targets (built scopeOf input rule m src as)) i = None)"
    by (metis jm_get_None list.set_intros(1) list.simps(8) list.simps(9) neq_Nil_conv empty_iff list.set(1))
  also have "\<dots> \<longleftrightarrow> (\<forall>a \<in> set as. \<not> authorized input rule m a)"
    by (auto simp: built_target find_None_iff refusal_None)
  finally show ?thesis .
qed

text \<open>Whatever the model of the route, an authorized account passed every restriction on destinations.\<close>

lemma build_target_eligible:
  assumes "buildResolvedRoute scopeOf input = Inr r" and "jm_get (targets r) i = Some t"
  shows "\<exists>b \<in> set (in_accounts input). acc_id b = i \<and> target_provider t = provider b \<and> eligible_destination input (winning_rule input) b"
proof -
  let ?P = "\<lambda>s. \<forall>i t. jm_get (bs_targets s) i = Some t \<longrightarrow>
    (\<exists>b \<in> set (in_accounts input). acc_id b = i \<and> target_provider t = provider b \<and> eligible_destination input (winning_rule input) b)"
  have step: "?P s'" if "a \<in> set (in_accounts input)" "?P s" "build_step scopeOf input (winning_rule input) s a = Inr s'" for s a s'
  proof (cases "destinationExclusionReason a input (winning_rule input)")
    case (Some reason)
    with that show ?thesis by (auto simp: build_step_def exclude_def)
  next
    case None
    then have "eligible_destination input (winning_rule input) a" by (simp add: destination_None)
    moreover from None that(3) obtain m src where m: "resolved_model input (winning_rule input) = Inr (m, src)"
      by (auto simp: build_step_def bind_result_Inr)
    from that(3) have "s' = build_total scopeOf input (winning_rule input) m src s a" by (simp add: build_step_eq [OF m])
    ultimately show ?thesis
      using that(1,2) by (auto simp: build_total_def exclude_def account_target_def split: option.splits)
  qed
  from assms(1) obtain s where fold: "fold_result (build_step scopeOf input (winning_rule input)) new_build (in_accounts input) = Inr s"
    by (auto simp: buildResolvedRoute_def Let_def bind_result_Inr split: if_splits)
  from assms(1) have "targets r = bs_targets s"
    by (auto simp: buildResolvedRoute_def Let_def fold bind_result_Inr new_route_def split: if_splits)
  moreover have "?P s" by (rule fold_result_inv [where P = ?P, OF fold]) (use step in \<open>auto simp: new_build_def\<close>)
  ultimately show ?thesis using assms(2) by simp
qed

text \<open>
  C2. A route authorizes exactly the accounts of the pool that pass every restriction of the request: the
  destinations of the key, the rule's pool, a forced or maintained account, the account's own permission for the
  model, and what its provider can carry. Each is authorized for the one model the routing table gives and under the
  identity it had when the route was built, and no account outside the pool is.
\<close>

theorem route_authorizes_exactly:
  assumes "buildResolvedRoute scopeOf input = Inr r" and "distinct (map acc_id (in_accounts input))"
    and "resolved_model input (winning_rule input) = Inr (m, src)"
  shows "(\<forall>a \<in> set (in_accounts input). route_target scopeOf r a =
      (if authorized input (winning_rule input) m a then Some (account_target scopeOf m src a) else None))
    \<and> set (accountIds r) = acc_id ` {a \<in> set (in_accounts input). authorized input (winning_rule input) m a}
    \<and> (\<forall>b t. route_target scopeOf r b = Some t \<longrightarrow> upstreamModel t = m \<and> acc_id b \<in> acc_id ` set (in_accounts input))"
proof -
  define s where "s = built scopeOf input (winning_rule input) m src (in_accounts input)"
  have "js_trim (in_requestedModel input) \<noteq> []" "\<forall>p. in_pin input = Some p \<longrightarrow> isRoutingPinValid p"
    using assms(1) by (auto simp: buildResolvedRoute_def split: if_splits)
  from build_result [OF this assms(3) s_def] assms(1) have ts: "targets r = bs_targets s"
    by (auto simp: new_route_def split: if_splits)
  have get: "jm_get (targets r) i = map_option (account_target scopeOf m src)
      (List.find (\<lambda>a. acc_id a = i \<and> authorized input (winning_rule input) m a) (rev (in_accounts input)))" for i
    unfolding ts s_def built_target refusal_None ..
  have same: "a = b" if "a \<in> set (in_accounts input)" "b \<in> set (in_accounts input)" "acc_id a = acc_id b" for a b
    using assms(2) that by (auto simp: distinct_map dest: inj_onD)
  have "route_target scopeOf r a = (if authorized input (winning_rule input) m a then Some (account_target scopeOf m src a) else None)"
    if a: "a \<in> set (in_accounts input)" for a
  proof (cases "List.find (\<lambda>b. acc_id b = acc_id a \<and> authorized input (winning_rule input) m b) (rev (in_accounts input))")
    case None
    with a have "\<not> authorized input (winning_rule input) m a" by (auto simp: find_None_iff)
    with None show ?thesis by (simp add: route_target_def get)
  next
    case (Some b)
    then have "b \<in> set (in_accounts input)" "acc_id b = acc_id a" "authorized input (winning_rule input) m b"
      by (auto dest!: find_SomeD)
    with a same Some show ?thesis by (auto simp: route_target_def get account_target_def)
  qed
  moreover have "set (accountIds r) = acc_id ` {a \<in> set (in_accounts input). authorized input (winning_rule input) m a}"
  proof -
    have "i \<in> set (accountIds r) \<longleftrightarrow> jm_get (targets r) i \<noteq> None" for i by (simp add: accountIds_def jm_get_None)
    then show ?thesis by (auto simp: get find_None_iff)
  qed
  moreover have "upstreamModel t = m \<and> acc_id b \<in> acc_id ` set (in_accounts input)" if t: "route_target scopeOf r b = Some t" for b t
  proof -
    obtain a where "List.find (\<lambda>a. acc_id a = acc_id b \<and> authorized input (winning_rule input) m a) (rev (in_accounts input)) = Some a"
      "t = account_target scopeOf m src a"
      using t by (cases "List.find (\<lambda>a. acc_id a = acc_id b \<and> authorized input (winning_rule input) m a) (rev (in_accounts input))")
        (auto simp: route_target_def get split: if_splits)
    then have "upstreamModel t = m" "a \<in> set (in_accounts input)" "acc_id b = acc_id a" by (auto simp: account_target_def dest!: find_SomeD)
    then show ?thesis by simp
  qed
  ultimately show ?thesis by blast
qed

lemma filter_counts_all:
  "0 < length (filter P xs) \<and> length (filter P xs) = length xs + n \<longleftrightarrow> xs \<noteq> [] \<and> n = 0 \<and> (\<forall>x \<in> set xs. P x)"
proof (cases "\<forall>x \<in> set xs. P x")
  case True
  then show ?thesis by auto
next
  case False
  then have "length (filter P xs) < length xs" by (auto intro: length_filter_less)
  with False show ?thesis by auto
qed

lemma empty_error_status:
  "statusCode (empty_route_error input rule s) = (if faulted s then Some 400
      else if 0 < substitutedExclusions s \<and> substitutedExclusions s = length (exclusions s) + length (priorExclusions input) then Some 503
      else Some 403)"
  by (auto simp: faulted_def empty_route_error_def split: option.split)

lemma built_all_substituted:
  assumes "\<forall>a \<in> set as. refusal input rule m a \<noteq> None"
  shows "0 < substitutedExclusions (built scopeOf input rule m src as)
      \<and> substitutedExclusions (built scopeOf input rule m src as) = length (exclusions (built scopeOf input rule m src as)) + n
    \<longleftrightarrow> as \<noteq> [] \<and> n = 0 \<and> (\<forall>a \<in> set as. refusal input rule m a = Some (Model_answered_differently m))"
proof -
  have "length (exclusions (built scopeOf input rule m src as)) = length as"
    using assms by (simp add: built_exclusions)
  moreover have "(\<exists>m'. refusal input rule m a = Some (Model_answered_differently m')) \<longleftrightarrow>
      refusal input rule m a = Some (Model_answered_differently m)" for a
    using refusal_substituted by blast
  ultimately show ?thesis unfolding built_substituted by (simp only: filter_counts_all)
qed

text \<open>
  C13. Which status a request is rejected with when its route is empty. There is a rejection exactly when no account
  of the pool is authorized. It is a 503, which a client may retry, exactly when nothing but a substituted model
  keeps the accounts out; a 400 exactly when some account was refused only for what the request asks for;
  and a 403 otherwise.
\<close>

theorem route_rejection_status:
  assumes "js_trim (in_requestedModel input) \<noteq> []" and "\<forall>p. in_pin input = Some p \<longrightarrow> isRoutingPinValid p"
    and "resolved_model input (winning_rule input) = Inr (m, src)" and "in_alias input = None"
  shows "(isl (buildResolvedRoute scopeOf input) \<longleftrightarrow> (\<forall>a \<in> set (in_accounts input). \<not> authorized input (winning_rule input) m a))
    \<and> (\<forall>e. buildResolvedRoute scopeOf input = Inl e \<longrightarrow>
      statusCode e = (if \<exists>a \<in> set (in_accounts input). \<exists>r. refusal input (winning_rule input) m a = Some r \<and> request_fault r then Some 400
        else if in_accounts input \<noteq> [] \<and> priorExclusions input = []
          \<and> (\<forall>a \<in> set (in_accounts input). refusal input (winning_rule input) m a = Some (Model_answered_differently m)) then Some 503
        else Some 403))"
proof -
  let ?rule = "winning_rule input"
  define s where "s = built scopeOf input ?rule m src (in_accounts input)"
  note result = build_result [OF assms(1-3) s_def]
  have empty: "bs_targets s = [] \<longleftrightarrow> (\<forall>a \<in> set (in_accounts input). \<not> authorized input ?rule m a)"
    unfolding s_def by (rule built_empty)
  have isl: "isl (buildResolvedRoute scopeOf input) \<longleftrightarrow> (\<forall>a \<in> set (in_accounts input). \<not> authorized input ?rule m a)"
    unfolding result by (simp add: assms(4) empty [symmetric])
  have "statusCode e = (if \<exists>a \<in> set (in_accounts input). \<exists>r. refusal input ?rule m a = Some r \<and> request_fault r then Some 400
        else if in_accounts input \<noteq> [] \<and> priorExclusions input = []
          \<and> (\<forall>a \<in> set (in_accounts input). refusal input ?rule m a = Some (Model_answered_differently m)) then Some 503
        else Some 403)" if "buildResolvedRoute scopeOf input = Inl e" for e
  proof -
    from that result assms(4) have none: "bs_targets s = []" and e: "e = empty_route_error input ?rule s"
      by (auto split: if_splits)
    have refused: "\<forall>a \<in> set (in_accounts input). refusal input ?rule m a \<noteq> None"
      using none by (auto simp: empty refusal_None)
    show ?thesis
      unfolding e empty_error_status s_def built_faulted built_all_substituted [OF refused] length_0_conv ..
  qed
  with isl show ?thesis by blast
qed

subsection \<open>Frozen routes\<close>

datatype route_event = Install route | Install_alias "route list" | Select_alias nat "string option"

definition route_step :: "request_routes \<Rightarrow> route_event \<Rightarrow> request_routes" where
  "route_step st ev = (case (case ev of
       Install r \<Rightarrow> installResolvedRoute r st
     | Install_alias stages \<Rightarrow> installAliasRoutes stages st
     | Select_alias i reason \<Rightarrow> selectAliasRoute i reason st) of
     Inl _ \<Rightarrow> st
   | Inr st' \<Rightarrow> st')"

definition routes_wf :: "request_routes \<Rightarrow> bool" where
  "routes_wf st \<longleftrightarrow> (\<forall>i. installed st = Some i \<longrightarrow> i < length (route_objects st))
     \<and> (\<forall>is. alias_stages st = Some is \<longrightarrow> (\<forall>i \<in> set is. i < length (route_objects st)))"

definition unreasoned :: "route \<Rightarrow> route" where
  "unreasoned r = r\<lparr>aliasReason := None\<rparr>"

lemma unreasoned_update [simp]: "unreasoned (r\<lparr>aliasReason := q\<rparr>) = unreasoned r" "admissionError (unreasoned r) = admissionError r"
  by (simp_all add: unreasoned_def)

lemma unreasoned_eq: "unreasoned r = unreasoned s \<Longrightarrow> r = s\<lparr>aliasReason := aliasReason r\<rparr>"
  by (cases r; cases s) (simp add: unreasoned_def)

definition same_plan :: "request_routes \<Rightarrow> request_routes \<Rightarrow> bool" where
  "same_plan st0 st \<longleftrightarrow> alias_stages st = alias_stages st0
     \<and> map unreasoned (route_objects st) = map unreasoned (route_objects st0)
     \<and> (installed st = installed st0 \<and> route_objects st = route_objects st0
        \<or> (\<exists>is i. alias_stages st0 = Some is \<and> i \<in> set is \<and> installed st = Some i \<and> admissionError (route_objects st0 ! i) = None))"

lemma step_installed:
  assumes "installed st \<noteq> None"
  shows "route_step st ev = (case ev of
    Select_alias i reason \<Rightarrow> (case selectAliasRoute i reason st of Inl _ \<Rightarrow> st | Inr st' \<Rightarrow> st') | _ \<Rightarrow> st)"
  using assms
  by (auto simp: route_step_def installResolvedRoute_def installAliasRoutes_def install_object_def Let_def
      split: route_event.split list.split sum.split)

lemma admissible_in: "admissibleAliasStages objs is = i # rest \<Longrightarrow> i \<in> set is"
  by (metis admissibleAliasStages_def filter_is_subset list.set_intros(1) subsetD)

lemma routes_wf_step: "routes_wf st \<Longrightarrow> routes_wf (route_step st ev)"
proof (cases ev)
  case (Install_alias stages)
  then show "routes_wf st \<Longrightarrow> ?thesis"
    by (auto simp: route_step_def installAliasRoutes_def install_object_def routes_wf_def Let_def simp del: upt_Suc
        split: list.split dest!: admissible_in)
qed (auto simp: route_step_def installResolvedRoute_def install_object_def selectAliasRoute_def routes_wf_def intro: less_SucI
    split: option.splits)

interpretation routes: invariant_system route_step routes_wf
  by unfold_locales (rule routes_wf_step)

lemma same_plan_step:
  assumes "same_plan st0 st" and "installed st \<noteq> None" and "routes_wf st0"
  shows "same_plan st0 (route_step st ev)"
proof (cases ev)
  case (Select_alias i reason)
  show ?thesis
  proof (cases "selectAliasRoute i reason st")
    case (Inl e)
    with assms Select_alias show ?thesis by (simp add: step_installed)
  next
    case (Inr st')
    then have st': "st' = st\<lparr>route_objects := (route_objects st)[i := (route_objects st ! i)\<lparr>aliasReason := reason\<rparr>], installed := Some i\<rparr>"
      and admitted: "admissionError (route_objects st ! i) = None" and plan: "\<exists>is. alias_stages st = Some is \<and> i \<in> set is"
      by (auto simp: selectAliasRoute_def split: if_splits option.splits)
    from assms plan have i: "i < length (route_objects st0)" by (auto simp: same_plan_def routes_wf_def)
    have objs: "map unreasoned (route_objects st) = map unreasoned (route_objects st0)" using assms(1) by (simp add: same_plan_def)
    then have "length (route_objects st) = length (route_objects st0)" by (metis length_map)
    with i objs have same: "unreasoned (route_objects st ! i) = unreasoned (route_objects st0 ! i)" by (metis nth_map)
    then have "admissionError (route_objects st0 ! i) = None" using admitted by (metis unreasoned_update(2))
    moreover have "map unreasoned (route_objects st') = map unreasoned (route_objects st0)"
      by (simp add: st' map_update objs same) (metis i list_update_id nth_map)
    ultimately show ?thesis using plan assms(1,2) Inr Select_alias by (auto simp: step_installed same_plan_def st')
  qed
qed (use assms in \<open>simp_all add: step_installed\<close>)

lemma stays_installed: "installed st \<noteq> None \<Longrightarrow> installed (route_step st ev) \<noteq> None"
  by (auto simp: step_installed selectAliasRoute_def split: route_event.split sum.split option.split)

interpretation plan: invariant_system route_step "\<lambda>st. same_plan st0 st \<and> installed st \<noteq> None \<and> routes_wf st0" for st0
  by unfold_locales (simp add: same_plan_step stays_installed)

lemma plan_run:
  assumes "installed st \<noteq> None" and "routes_wf st"
  shows "same_plan st (foldl route_step st es)" and "installed (foldl route_step st es) \<noteq> None"
  using plan.run_inv [of st st es] assms by (simp_all add: same_plan_def)

text \<open>
  C3. The authorization of a request is frozen once it is installed. Whatever is installed or selected
  afterwards, a route stays installed; without an alias plan it is the very same route, and with one it is an
  admitted stage of that plan, unchanged but for the reason that is kept for the audit.
\<close>

theorem installed_route_frozen:
  assumes "installed_route (foldl route_step no_routes before) = Some r"
  shows "\<exists>r'. installed_route (foldl route_step no_routes (before @ later)) = Some r' \<and>
    (r' = r \<or> (\<exists>stages s. getAliasRoutes (foldl route_step no_routes before) = Some stages \<and> s \<in> set stages
       \<and> admissionError s = None \<and> r' = s\<lparr>aliasReason := aliasReason r'\<rparr>))"
proof -
  define st where "st = foldl route_step no_routes before"
  define st' where "st' = foldl route_step st later"
  have wf: "routes_wf st" unfolding st_def by (rule routes.run_inv) (simp add: routes_wf_def no_routes_def)
  have "installed st \<noteq> None" using assms by (auto simp: installed_route_def st_def)
  with wf have plan: "same_plan st st'" "installed st' \<noteq> None"
    unfolding st'_def using plan_run by blast+
  show ?thesis
  proof (cases "installed st' = installed st \<and> route_objects st' = route_objects st")
    case True
    then have "installed_route st' = Some r" using assms by (simp add: installed_route_def st_def)
    then show ?thesis by (auto simp: st_def st'_def)
  next
    case False
    with plan obtain "is" i where i: "alias_stages st = Some is" "i \<in> set is" "installed st' = Some i"
      "admissionError (route_objects st ! i) = None" by (auto simp: same_plan_def)
    have objs: "map unreasoned (route_objects st') = map unreasoned (route_objects st)" using plan by (simp add: same_plan_def)
    moreover have "i < length (route_objects st)" using wf i by (auto simp: routes_wf_def)
    ultimately have "unreasoned (route_objects st' ! i) = unreasoned (route_objects st ! i)" by (metis length_map nth_map)
    from unreasoned_eq [OF this] i show ?thesis
      by (auto simp: installed_route_def getAliasRoutes_def st_def st'_def)
  qed
qed

subsection \<open>Bodies\<close>

text \<open>A body and the containers reached from it through \<^verbatim>\<open>extra_body\<close>.\<close>

inductive nested_extra :: "(string \<times> js_value) list \<Rightarrow> (string \<times> js_value) list \<Rightarrow> bool" where
  Here: "nested_extra body body"
| There: "field body ''extra_body'' = Obj extra \<Longrightarrow> nested_extra extra x \<Longrightarrow> nested_extra body x"

inductive_simps nested_extra_iff: "nested_extra body x"

definition overrides_model :: "(string \<times> js_value) list \<Rightarrow> bool" where
  "overrides_model body \<longleftrightarrow>
     (\<exists>x. nested_extra body x \<and> (\<exists>f \<in> set MODEL_SWITCH_FIELDS. own_field x f))
     \<or> (\<exists>x y. nested_extra body x \<and> field x ''extra_body'' = Obj y \<and> own_field y ''model'')"

lemma reject_iff: "rejectModelSwitchFields body = None \<longleftrightarrow> \<not> overrides_model body"
proof (induction body rule: rejectModelSwitchFields.induct)
  case (1 body)
  have own: "overrides_model body \<longleftrightarrow> (\<exists>f \<in> set MODEL_SWITCH_FIELDS. own_field body f)
      \<or> (\<exists>extra. field body ''extra_body'' = Obj extra \<and> (own_field extra ''model'' \<or> overrides_model extra))"
    unfolding overrides_model_def by (subst (1 2) nested_extra_iff) blast
  show ?case
  proof (cases "List.find (own_field body) MODEL_SWITCH_FIELDS")
    case (Some f)
    then show ?thesis by (subst rejectModelSwitchFields.simps) (auto simp: own dest!: find_SomeD)
  next
    case None
    note 1 = 1 [OF None]
    from None have "\<forall>f \<in> set MODEL_SWITCH_FIELDS. \<not> own_field body f" by (auto simp: find_None_iff)
    with None 1 show ?thesis
      by (subst rejectModelSwitchFields.simps) (auto simp: own split: js_value.split)
  qed
qed

lemma enforced_body:
  "enforceOutgoingModel body m = Inr m' \<longleftrightarrow>
    m' = m \<and> (\<exists>fs. body = Some (Obj fs) \<and> field fs ''model'' = Str m \<and> \<not> overrides_model fs)"
  by (auto simp: enforceOutgoingModel_def reject_iff [symmetric] split: option.splits js_value.splits if_splits)

text \<open>
  C8. The last check before a body is sent. It accepts exactly a JSON object whose model is the authorized one and
  in which no field can override the model, neither at the top nor in any container nested through
  \<^verbatim>\<open>extra_body\<close>, at whatever depth; and then it returns the authorized model.
\<close>

theorem outgoing_body_model:
  "enforceOutgoingModel body m = Inr m' \<longleftrightarrow>
    m' = m \<and> (\<exists>fs. body = Some (Obj fs) \<and> field fs ''model'' = Str m \<and> \<not> overrides_model fs)"
  by (rule enforced_body)

subsection \<open>Examples\<close>

definition sample_input :: build_route_input where
  "sample_input = \<lparr>in_pin = None, headerAccountId = None, officialAnthropicExclusion = None, bridgesOfficialAnthropic = False,
     sdkBridgeRefusal = None, sdkBridgeVersionFloor = (\<lambda>_. None), serverToolType = None, in_maintenance = None,
     in_alias = None, in_accounts = [sample_account ''a'' 0, sample_account ''b'' 0], in_rules = [],
     in_requestedModel = ''claude-opus-4'', in_routingModel = None, in_apiKeyId = None,
     in_permissions = [(''a'', \<lparr>completeness = Known_complete, discovered_ids = [''claude-opus-4''], manual_ids = []\<rparr>)],
     priorExclusions = [], suppressedPairs = [], substitutedPairs = [], chatRequirements = None\<rparr>"

definition sample_route :: route where
  "sample_route = new_route sample_input None
     [(''a'', account_target (\<lambda>_. ''s'') ''claude-opus-4'' From_identity (sample_account ''a'' 0))] None None"

lemma sample_build: "buildResolvedRoute (\<lambda>_. ''s'') sample_input = Inr sample_route"
  by code_simp

lemma sample_model: "winning_rule sample_input = None" "resolved_model sample_input None = Inr (''claude-opus-4'', From_identity)"
  by code_simp+

theorem route_authorizes_exactly_witness:
  "set (accountIds sample_route) = acc_id ` {a \<in> set (in_accounts sample_input). authorized sample_input None ''claude-opus-4'' a}"
proof -
  have "distinct (map acc_id (in_accounts sample_input))" by code_simp
  moreover have "resolved_model sample_input (winning_rule sample_input) = Inr (''claude-opus-4'', From_identity)"
    by (simp add: sample_model)
  ultimately show ?thesis using route_authorizes_exactly [OF sample_build] by (simp add: sample_model)
qed

text \<open>Without the one permission the pool is empty, and the request is refused for good.\<close>

definition sample_unpermitted :: build_route_input where
  "sample_unpermitted = sample_input\<lparr>in_permissions := []\<rparr>"

theorem route_rejection_status_witness:
  "isl (buildResolvedRoute (\<lambda>_. ''s'') sample_unpermitted) \<and> statusCode (projl (buildResolvedRoute (\<lambda>_. ''s'') sample_unpermitted)) = Some 403"
proof -
  have model: "winning_rule sample_unpermitted = None" "resolved_model sample_unpermitted None = Inr (''claude-opus-4'', From_identity)"
    by code_simp+
  have named: "list_all (\<lambda>a. refusal sample_unpermitted None ''claude-opus-4'' a = Some (Model_not_permitted ''claude-opus-4''))
      (in_accounts sample_unpermitted)"
    by code_simp
  then have refused: "\<forall>a \<in> set (in_accounts sample_unpermitted). \<not> authorized sample_unpermitted None ''claude-opus-4'' a"
    by (auto simp: refusal_None [symmetric] list_all_iff)
  have "js_trim (in_requestedModel sample_unpermitted) \<noteq> []" by code_simp
  moreover have "\<forall>p. in_pin sample_unpermitted = Some p \<longrightarrow> isRoutingPinValid p" by (simp add: sample_unpermitted_def sample_input_def)
  moreover have "resolved_model sample_unpermitted (winning_rule sample_unpermitted) = Inr (''claude-opus-4'', From_identity)"
    by (simp add: model)
  moreover have "in_alias sample_unpermitted = None" by (simp add: sample_unpermitted_def sample_input_def)
  ultimately have "(isl (buildResolvedRoute (\<lambda>_. ''s'') sample_unpermitted)
        \<longleftrightarrow> (\<forall>a \<in> set (in_accounts sample_unpermitted). \<not> authorized sample_unpermitted (winning_rule sample_unpermitted) ''claude-opus-4'' a))
      \<and> (\<forall>e. buildResolvedRoute (\<lambda>_. ''s'') sample_unpermitted = Inl e \<longrightarrow> statusCode e =
        (if \<exists>a \<in> set (in_accounts sample_unpermitted). \<exists>r. refusal sample_unpermitted (winning_rule sample_unpermitted) ''claude-opus-4'' a = Some r \<and> request_fault r
         then Some 400 else if in_accounts sample_unpermitted \<noteq> [] \<and> priorExclusions sample_unpermitted = []
          \<and> (\<forall>a \<in> set (in_accounts sample_unpermitted). refusal sample_unpermitted (winning_rule sample_unpermitted) ''claude-opus-4'' a
            = Some (Model_answered_differently ''claude-opus-4'')) then Some 503 else Some 403))"
    by (rule route_rejection_status)
  moreover have "in_accounts sample_unpermitted \<noteq> []" by code_simp
  ultimately show ?thesis
    using refused named by (auto simp: model list_all_iff)
qed

theorem installed_route_frozen_witness:
  "installed_route (foldl route_step no_routes [Install sample_route]) = Some sample_route
    \<and> installed_route (foldl route_step no_routes ([Install sample_route] @ [Install (sample_route\<lparr>targets := []\<rparr>), Select_alias 0 None])) \<noteq> None"
proof
  show first: "installed_route (foldl route_step no_routes [Install sample_route]) = Some sample_route"
    by (simp add: route_step_def installResolvedRoute_def install_object_def no_routes_def installed_route_def)
  show "installed_route (foldl route_step no_routes ([Install sample_route] @ [Install (sample_route\<lparr>targets := []\<rparr>), Select_alias 0 None])) \<noteq> None"
    using installed_route_frozen [OF first, of "[Install (sample_route\<lparr>targets := []\<rparr>), Select_alias 0 None]"] by blast
qed

end
