(* ===== verification/Capacity.thy ===== *)
theory Capacity
  imports SessionRanking UsageThrottle
begin

section \<open>The capacity signal of a usage reading\<close>

text \<open>
  \<^verbatim>\<open>getAccountCapacitySignal\<close> of \<^verbatim>\<open>providers/src/usage-fetcher.ts\<close> with its branches per provider, the
  representative window, the scoped limits of \<^verbatim>\<open>core/src/scoped-limits.ts\<close> and the exhaustion verdicts of
  \<^verbatim>\<open>core/src/weekly-exhaustion.ts\<close>. A number of a payload is absent or finite, as JSON has no other; a
  window is a utilization and an optional reset.
  Shown: a signal exists only on evidence and only while every window it rests on is still open, its
  minimum bounds the headroom of every axis, and an exhaustion verdict names a spent window that is open.
\<close>

subsection \<open>Hard windows\<close>

definition flatWindowToHard :: "window_obj option \<Rightarrow> usage_window option" where
  "flatWindowToHard w = (case w of
     None \<Rightarrow> None
   | Some o' \<Rightarrow> (case utilization o' of
       None \<Rightarrow> None
     | Some u \<Rightarrow> Some \<lparr>win_utilization = u, win_resetMs = parseResetMs (resets_at o')\<rparr>))"

definition headroom :: "usage_window \<Rightarrow> rat" where
  "headroom w = 100 - win_utilization w"

definition past_reset :: "int \<Rightarrow> usage_window \<Rightarrow> bool" where
  "past_reset now w \<longleftrightarrow> (case win_resetMs w of None \<Rightarrow> False | Some r \<Rightarrow> r \<le> now)"

definition min_reset :: "int option \<Rightarrow> usage_window \<Rightarrow> int option" where
  "min_reset acc w = (case win_resetMs w of
     None \<Rightarrow> acc
   | Some r \<Rightarrow> (case acc of None \<Rightarrow> Some r | Some s \<Rightarrow> Some (min s r)))"

definition soonest_reset :: "usage_window list \<Rightarrow> int option" where
  "soonest_reset ws = foldl min_reset None ws"

text \<open>
  The reset of the most constrained weekly window: the latest among the windows tied at the maximum,
  unknown as soon as one of them is.
\<close>

definition binding_weekly_reset :: "usage_window list \<Rightarrow> int option" where
  "binding_weekly_reset ws = (case ws of
     [] \<Rightarrow> None
   | w # rest \<Rightarrow>
       let maxUtil = foldl (\<lambda>m v. max m (win_utilization v)) (win_utilization w) rest;
           tied = filter (\<lambda>v. win_utilization v = maxUtil) ws
       in if list_ex (\<lambda>v. win_resetMs v = None) tied then None
          else Some (foldl max (the (win_resetMs (hd tied))) (map (the \<circ> win_resetMs) (tl tied))))"

definition opt_list :: "'a option \<Rightarrow> 'a list" where
  "opt_list x = (case x of None \<Rightarrow> [] | Some y \<Rightarrow> [y])"

definition at_ms :: "int option \<Rightarrow> deadline option" where
  "at_ms = map_option At"

subsection \<open>The signal of each provider\<close>

definition anthropic_extra :: "usage_payload \<Rightarrow> rat option" where
  "anthropic_extra p = Option.bind (value_of (p_extra_usage p)) eu_utilization"

definition anthropicCapacity :: "usage_payload \<Rightarrow> int \<Rightarrow> capacity_signal option" where
  "anthropicCapacity p now =
     (let n = normalizeAnthropicUsage (Some p) now;
          oauth = flatWindowToHard (value_of (p_seven_day_oauth_apps p));
          hard = opt_list (session n) @ opt_list (weeklyAll n) @ opt_list oauth;
          weekly = opt_list (weeklyAll n) @ opt_list oauth
      in if hard = [] then None
         else if list_ex (past_reset now) hard then None
         else
           let minH = foldl (\<lambda>m w. min m (headroom w)) 100 hard;
               hardBinding = foldl (\<lambda>m w. max m (win_utilization w)) 0 hard;
               bindingU = (case anthropic_extra p of None \<Rightarrow> hardBinding | Some u \<Rightarrow> max hardBinding u)
           in Some \<lparr>sig_minHeadroom = minH,
                sig_sessionHeadroom = (case session n of None \<Rightarrow> 100 | Some w \<Rightarrow> headroom w),
                sig_soonestResetMs = at_ms (soonest_reset hard),
                sig_bindingUtilization = bindingU,
                sig_weeklyResetMs = at_ms (soonest_reset weekly),
                sig_bindingWeeklyResetMs = at_ms (binding_weekly_reset weekly),
                sig_weeklyHeadroom = foldl (\<lambda>m w. min m (headroom w)) 100 weekly,
                sig_sessionResetMs = at_ms (Option.bind (session n) win_resetMs),
                sig_extraUsageUtilization = anthropic_extra p\<rparr>)"

definition calendar_window :: "window_obj option option \<Rightarrow> usage_window option" where
  "calendar_window x = (case value_of x of
     None \<Rightarrow> None
   | Some o' \<Rightarrow> (case utilization o' of
       None \<Rightarrow> None | Some u \<Rightarrow> Some \<lparr>win_utilization = u, win_resetMs = resetAt o'\<rparr>))"

definition devinCapacity :: "usage_payload \<Rightarrow> int \<Rightarrow> capacity_signal option" where
  "devinCapacity p now =
     (let weekly = calendar_window (p_weekly p);
          windows = opt_list (calendar_window (p_daily p)) @ opt_list weekly
      in case windows of
           [] \<Rightarrow> None
         | w # ws \<Rightarrow>
             if list_ex (past_reset now) windows then None
             else
               let bindingU = foldl (\<lambda>m v. max m (win_utilization v)) (win_utilization w) ws;
                   weeklyReset = at_ms (Option.bind weekly win_resetMs)
               in Some \<lparr>sig_minHeadroom = 100 - bindingU, sig_sessionHeadroom = 100,
                    sig_soonestResetMs = at_ms (soonest_reset windows), sig_bindingUtilization = bindingU,
                    sig_weeklyResetMs = weeklyReset, sig_bindingWeeklyResetMs = weeklyReset,
                    sig_weeklyHeadroom = (case weekly of None \<Rightarrow> 100 | Some v \<Rightarrow> headroom v),
                    sig_sessionResetMs = None, sig_extraUsageUtilization = None\<rparr>)"

definition readZaiWindow :: "window_obj option option \<Rightarrow> usage_window option" where
  "readZaiWindow x = (case value_of x of
     None \<Rightarrow> None
   | Some o' \<Rightarrow> (case percentage o' of
       None \<Rightarrow> None | Some u \<Rightarrow> Some \<lparr>win_utilization = u, win_resetMs = resetAt o'\<rparr>))"

definition zaiCapacity :: "usage_payload \<Rightarrow> int \<Rightarrow> capacity_signal option" where
  "zaiCapacity p now =
     (let ses = readZaiWindow (p_tokens_limit p);
          weekly = readZaiWindow (p_tokens_limit_weekly p);
          hard = opt_list ses @ opt_list weekly
      in case hard of
           [] \<Rightarrow> None
         | w # ws \<Rightarrow>
             if list_ex (past_reset now) hard then None
             else Some \<lparr>sig_minHeadroom = foldl (\<lambda>m v. min m (headroom v)) (headroom w) ws,
                    sig_sessionHeadroom = (case ses of None \<Rightarrow> 100 | Some v \<Rightarrow> headroom v),
                    sig_soonestResetMs = at_ms (soonest_reset hard),
                    sig_bindingUtilization = foldl (\<lambda>m v. max m (win_utilization v)) (win_utilization w) ws,
                    sig_weeklyResetMs = at_ms (Option.bind weekly win_resetMs),
                    sig_bindingWeeklyResetMs = at_ms (Option.bind weekly win_resetMs),
                    sig_weeklyHeadroom = (case weekly of None \<Rightarrow> 100 | Some v \<Rightarrow> headroom v),
                    sig_sessionResetMs = at_ms (Option.bind ses win_resetMs),
                    sig_extraUsageUtilization = None\<rparr>)"

definition grokSubscriptionCapacity :: "usage_payload \<Rightarrow> int \<Rightarrow> capacity_signal option" where
  "grokSubscriptionCapacity p now = (case p_weeklyUtilization p of
     None \<Rightarrow> None
   | Some u \<Rightarrow>
       let resetMs = p_weeklyResetAt p in
       if (case resetMs of None \<Rightarrow> False | Some r \<Rightarrow> r \<le> now) then None
       else Some \<lparr>sig_minHeadroom = 100 - u, sig_sessionHeadroom = 100, sig_soonestResetMs = at_ms resetMs,
              sig_bindingUtilization = u, sig_weeklyResetMs = at_ms resetMs,
              sig_bindingWeeklyResetMs = at_ms resetMs, sig_weeklyHeadroom = 100 - u,
              sig_sessionResetMs = None, sig_extraUsageUtilization = None\<rparr>)"

definition getAccountCapacitySignal :: "usage_payload option \<Rightarrow> string \<Rightarrow> int \<Rightarrow> capacity_signal option" where
  "getAccountCapacitySignal data prov now = (case data of
     None \<Rightarrow> None
   | Some p \<Rightarrow>
       if prov = ''devin'' then devinCapacity p now
       else if prov = ZAI then zaiCapacity p now
       else if prov = ''grok-subscription'' then grokSubscriptionCapacity p now
       else if prov \<noteq> ANTHROPIC \<and> prov \<noteq> CODEX then None
       else anthropicCapacity p now)"

subsection \<open>The representative window\<close>

definition representative_candidates :: "usage_payload \<Rightarrow> int \<Rightarrow> (string \<times> rat) list" where
  "representative_candidates p now =
     (let n = normalizeAnthropicUsage (Some p) now in
      map (\<lambda>w. (''five_hour'', win_utilization w)) (opt_list (session n))
      @ map (\<lambda>w. (''seven_day'', win_utilization w)) (opt_list (weeklyAll n))
      @ map (\<lambda>u. (''seven_day_oauth_apps'', u)) (opt_list (Option.bind (value_of (p_seven_day_oauth_apps p)) utilization)))"

definition resolveRepresentativeWindow :: "usage_payload option \<Rightarrow> int \<Rightarrow> (string \<times> rat) option" where
  "resolveRepresentativeWindow data now = (case data of
     None \<Rightarrow> None
   | Some p \<Rightarrow> (case representative_candidates p now of
       [] \<Rightarrow> None
     | c # cs \<Rightarrow> Some (foldl (\<lambda>prev cur. if snd cur > snd prev then cur else prev) c cs)))"

definition representative_utilization :: "usage_payload option \<Rightarrow> int \<Rightarrow> rat option" where
  "representative_utilization data now = map_option snd (resolveRepresentativeWindow data now)"

definition getRepresentativeWindow :: "usage_payload option \<Rightarrow> int \<Rightarrow> string option" where
  "getRepresentativeWindow data now = map_option fst (resolveRepresentativeWindow data now)"

definition shouldReportCapacityRestored :: "rat option \<Rightarrow> bool" where
  "shouldReportCapacityRestored u \<longleftrightarrow> (case u of None \<Rightarrow> False | Some v \<Rightarrow> v < 100)"

subsection \<open>Scoped limits\<close>

definition FAMILY_WEEKLY_EXHAUSTED_THRESHOLD_PERCENT :: rat where
  "FAMILY_WEEKLY_EXHAUSTED_THRESHOLD_PERCENT = 100"

definition getExhaustedFamilies :: "usage_payload option \<Rightarrow> int \<Rightarrow> scoped_limit list" where
  "getExhaustedFamilies data now =
     filter (\<lambda>l. sc_percent l \<ge> FAMILY_WEEKLY_EXHAUSTED_THRESHOLD_PERCENT) (weeklyScoped (normalizeAnthropicUsage data now))"

definition getScopedFamilyLimits :: "usage_payload option \<Rightarrow> model_family \<Rightarrow> int \<Rightarrow> scoped_limit list" where
  "getScopedFamilyLimits data family now =
     filter (\<lambda>l. sc_family l = family) (weeklyScoped (normalizeAnthropicUsage data now))"

definition isFamilyWeeklyExhaustedWithHeadroom ::
  "usage_payload option \<Rightarrow> capacity_signal option \<Rightarrow> model_family \<Rightarrow> int \<Rightarrow> bool" where
  "isFamilyWeeklyExhaustedWithHeadroom data capacity family now = (case capacity of
     None \<Rightarrow> False
   | Some s \<Rightarrow> if sig_minHeadroom s \<le> 0 then False
               else list_ex (\<lambda>l. sc_family l = family) (getExhaustedFamilies data now))"

subsection \<open>Windows by shape\<close>

definition isAlibabaShape :: "usage_payload \<Rightarrow> bool" where
  "isAlibabaShape p \<longleftrightarrow> p_five_hour p \<noteq> None \<and> p_weekly p \<noteq> None"

definition isZaiShape :: "usage_payload \<Rightarrow> bool" where
  "isZaiShape p \<longleftrightarrow> p_time_limit p \<noteq> None \<or> p_tokens_limit p \<noteq> None"

definition isDevinShape :: "usage_payload \<Rightarrow> bool" where
  "isDevinShape p \<longleftrightarrow> p_kind p = Some ''devin''"

definition isGrokSubscriptionShape :: "usage_payload \<Rightarrow> bool" where
  "isGrokSubscriptionShape p \<longleftrightarrow> p_kind p = Some ''grok-subscription''"

definition isAnthropicStyleShape :: "usage_payload \<Rightarrow> bool" where
  "isAnthropicStyleShape p \<longleftrightarrow>
     (if isAlibabaShape p then False else if isZaiShape p then False else if isDevinShape p then False
      else if isGrokSubscriptionShape p then False else isAnthropicUsageShape (Some p))"

definition fiveHourKnownAbsent :: "usage_payload \<Rightarrow> bool" where
  "fiveHourKnownAbsent p \<longleftrightarrow> isAnthropicStyleShape p \<and> reportsNoSessionWindow (Some p)"

record extracted_value =
  ex_pct :: "rat option"
  ex_resetMs :: "int option"

definition extractFiveHour :: "usage_payload \<Rightarrow> extracted_value option" where
  "extractFiveHour p =
     (if isDevinShape p then None
      else if isGrokSubscriptionShape p then None
      else if isAlibabaShape p then
        Some \<lparr>ex_pct = field_of percentUsed (p_five_hour p), ex_resetMs = field_of resetAt (p_five_hour p)\<rparr>
      else if isZaiShape p then
        (case value_of (p_tokens_limit p) of
           None \<Rightarrow> Some \<lparr>ex_pct = None, ex_resetMs = None\<rparr>
         | Some t \<Rightarrow> Some \<lparr>ex_pct = percentage t, ex_resetMs = resetAt t\<rparr>)
      else if fiveHourKnownAbsent p then None
      else if isAnthropicStyleShape p then
        Some \<lparr>ex_pct = map_option win_utilization (normalizeSession p),
              ex_resetMs = Option.bind (normalizeSession p) win_resetMs\<rparr>
      else None)"

definition devinWindow :: "window_obj option \<Rightarrow> extracted_value" where
  "devinWindow w = (case w of
     None \<Rightarrow> \<lparr>ex_pct = None, ex_resetMs = None\<rparr>
   | Some o' \<Rightarrow> \<lparr>ex_pct = utilization o', ex_resetMs = resetAt o'\<rparr>)"

definition extractSevenDay :: "usage_payload \<Rightarrow> extracted_value option" where
  "extractSevenDay p =
     (if isDevinShape p then Some (devinWindow (value_of (p_weekly p)))
      else if isGrokSubscriptionShape p then Some \<lparr>ex_pct = p_weeklyUtilization p, ex_resetMs = p_weeklyResetAt p\<rparr>
      else if isAlibabaShape p then
        Some \<lparr>ex_pct = field_of percentUsed (p_weekly p), ex_resetMs = field_of resetAt (p_weekly p)\<rparr>
      else if isZaiShape p then
        (case value_of (p_tokens_limit_weekly p) of
           None \<Rightarrow> None
         | Some t \<Rightarrow> Some \<lparr>ex_pct = percentage t, ex_resetMs = resetAt t\<rparr>)
      else if isAnthropicStyleShape p then
        Some \<lparr>ex_pct = map_option win_utilization (normalizeWeeklyAll p),
              ex_resetMs = Option.bind (normalizeWeeklyAll p) win_resetMs\<rparr>
      else None)"

definition extractDaily :: "usage_payload \<Rightarrow> extracted_value option" where
  "extractDaily p = (if isDevinShape p then Some (devinWindow (value_of (p_daily p))) else None)"

subsection \<open>Exhaustion\<close>

definition open_spent :: "int \<Rightarrow> usage_window \<Rightarrow> bool" where
  "open_spent now w \<longleftrightarrow> win_utilization w \<ge> 100 \<and> (case win_resetMs w of None \<Rightarrow> False | Some r \<Rightarrow> r > now)"

definition weekly_spent_step :: "int \<Rightarrow> bool \<times> int option \<Rightarrow> usage_window \<Rightarrow> bool \<times> int option" where
  "weekly_spent_step now acc w =
     (if open_spent now w
      then (True, Some (case snd acc of None \<Rightarrow> the (win_resetMs w) | Some r \<Rightarrow> max r (the (win_resetMs w))))
      else acc)"

definition flatOauthAppsWindow :: "usage_payload option \<Rightarrow> usage_window option" where
  "flatOauthAppsWindow usage = flatWindowToHard (Option.bind usage (value_of \<circ> p_seven_day_oauth_apps))"

definition weeklyExhaustion :: "usage_payload option \<Rightarrow> int \<Rightarrow> bool \<times> int option" where
  "weeklyExhaustion usage now =
     foldl (weekly_spent_step now) (False, None)
       (opt_list (weeklyAll (normalizeAnthropicUsage usage now))
        @ opt_list (flatOauthAppsWindow usage))"

datatype exhaustion_binding = Weekly_binding | Session_binding

record exhaustion_verdict =
  exhausted :: bool
  exh_binding :: "exhaustion_binding option"
  exh_resetMs :: "int option"

definition NOT_EXHAUSTED :: exhaustion_verdict where
  "NOT_EXHAUSTED = \<lparr>exhausted = False, exh_binding = None, exh_resetMs = None\<rparr>"

definition exhausted_by :: "exhaustion_binding \<Rightarrow> int option \<Rightarrow> exhaustion_verdict" where
  "exhausted_by b r = \<lparr>exhausted = True, exh_binding = Some b, exh_resetMs = r\<rparr>"

definition accountWideExhaustion ::
  "usage_payload option \<Rightarrow> int \<Rightarrow> usage_payload option \<Rightarrow> exhaustion_verdict" where
  "accountWideExhaustion usage now sessionUsage =
     (let weekly = weeklyExhaustion usage now in
      if fst weekly then exhausted_by Weekly_binding (snd weekly)
      else case session (normalizeAnthropicUsage sessionUsage now) of
        None \<Rightarrow> NOT_EXHAUSTED
      | Some w \<Rightarrow> if open_spent now w then exhausted_by Session_binding (win_resetMs w) else NOT_EXHAUSTED)"

definition spentWindow :: "extracted_value option \<Rightarrow> int \<Rightarrow> int option" where
  "spentWindow w now = (case w of
     None \<Rightarrow> None
   | Some v \<Rightarrow> (case (ex_pct v, ex_resetMs v) of
       (Some u, Some r) \<Rightarrow> if u < 100 \<or> r \<le> now then None else Some r
     | _ \<Rightarrow> None))"

definition zaiAccountWideExhaustion ::
  "usage_payload option \<Rightarrow> int \<Rightarrow> usage_payload option \<Rightarrow> exhaustion_verdict" where
  "zaiAccountWideExhaustion usage now sessionUsage = (case usage of
     None \<Rightarrow> NOT_EXHAUSTED
   | Some p \<Rightarrow> (case spentWindow (extractSevenDay p) now of
       Some r \<Rightarrow> exhausted_by Weekly_binding (Some r)
     | None \<Rightarrow> (case Option.bind sessionUsage (\<lambda>q. spentWindow (extractFiveHour q) now) of
         Some r \<Rightarrow> exhausted_by Session_binding (Some r)
       | None \<Rightarrow> NOT_EXHAUSTED)))"

definition grokSubscriptionAccountWideExhaustion :: "usage_payload option \<Rightarrow> int \<Rightarrow> exhaustion_verdict" where
  "grokSubscriptionAccountWideExhaustion usage now = (case usage of
     None \<Rightarrow> NOT_EXHAUSTED
   | Some p \<Rightarrow> (case spentWindow (extractSevenDay p) now of
       None \<Rightarrow> NOT_EXHAUSTED | Some r \<Rightarrow> exhausted_by Weekly_binding (Some r)))"

definition accountWideExhaustionFor ::
  "string \<Rightarrow> usage_payload option \<Rightarrow> int \<Rightarrow> usage_payload option \<Rightarrow> exhaustion_verdict" where
  "accountWideExhaustionFor prov usage now sessionUsage =
     (if prov = ANTHROPIC \<or> prov = CODEX then accountWideExhaustion usage now sessionUsage
      else if prov = ZAI then zaiAccountWideExhaustion usage now sessionUsage
      else if prov = ''grok-subscription'' then grokSubscriptionAccountWideExhaustion usage now
      else NOT_EXHAUSTED)"

subsection \<open>Lemmas\<close>

lemma fold_max:
  "foldl (\<lambda>m w. max m (f w)) a ws < x \<longleftrightarrow> a < x \<and> (\<forall>w \<in> set ws. f w < x)" for f :: "'w \<Rightarrow> 'b :: linorder"
  by (induction ws arbitrary: a) auto

lemma set_opt_list [simp]: "set (opt_list x) = set_option x"
  by (cases x) (simp_all add: opt_list_def)

lemma soonest_step: "foldl min_reset acc ws = Some r \<Longrightarrow> acc = Some r \<or> (\<exists>w \<in> set ws. win_resetMs w = Some r)"
proof (induction ws arbitrary: acc)
  case (Cons w ws)
  have "min_reset acc w = Some r \<Longrightarrow> acc = Some r \<or> win_resetMs w = Some r"
    by (auto simp: min_reset_def min_def split: option.splits if_splits)
  with Cons show ?case by auto
qed simp

lemma soonest_in: "soonest_reset ws = Some r \<Longrightarrow> \<exists>w \<in> set ws. win_resetMs w = Some r"
  using soonest_step [of None ws r] by (simp add: soonest_reset_def)

lemma fold_max_in: "foldl max a xs \<in> insert a (set xs)" for a :: "'b :: linorder"
  by (induction xs arbitrary: a) (auto simp: max_def)

lemma binding_in:
  assumes "binding_weekly_reset ws = Some r"
  shows "\<exists>w \<in> set ws. win_resetMs w = Some r"
proof -
  obtain tied where "set tied \<subseteq> set ws" "\<not> list_ex (\<lambda>v. win_resetMs v = None) tied" "tied \<noteq> []"
    and r: "r = foldl max (the (win_resetMs (hd tied))) (map (the \<circ> win_resetMs) (tl tied))"
  proof (cases ws)
    case Nil
    with assms show ?thesis by (simp add: binding_weekly_reset_def)
  next
    case (Cons w rest)
    define m where "m = foldl (\<lambda>m v. max m (win_utilization v)) (win_utilization w) rest"
    have "\<not> m < m" by simp
    then have "\<exists>v \<in> set ws. \<not> win_utilization v < m" unfolding Cons
      using fold_max [of win_utilization "win_utilization w" rest m] by (auto simp: m_def)
    moreover have "win_utilization v \<le> m" if "v \<in> set ws" for v
    proof (rule ccontr)
      assume "\<not> win_utilization v \<le> m"
      then have "m < win_utilization v" by simp
      then show False
        using fold_max [of win_utilization "win_utilization w" rest "win_utilization v"] that by (auto simp: m_def Cons)
    qed
    ultimately have "filter (\<lambda>v. win_utilization v = m) ws \<noteq> []" by (force simp: filter_empty_conv)
    with assms show ?thesis
      by (intro that [of "filter (\<lambda>v. win_utilization v = m) ws"])
        (auto simp: binding_weekly_reset_def Cons Let_def m_def [symmetric] split: if_splits)
  qed
  then have "r \<in> (the \<circ> win_resetMs) ` set tied"
    using fold_max_in [of "the (win_resetMs (hd tied))" "map (the \<circ> win_resetMs) (tl tied)"] by (cases tied) auto
  with \<open>\<not> list_ex _ tied\<close> \<open>set tied \<subseteq> set ws\<close> show ?thesis by (force simp: list_ex_iff)
qed

text \<open>The windows a signal rests on.\<close>

definition signal_windows :: "string \<Rightarrow> usage_payload \<Rightarrow> int \<Rightarrow> usage_window list" where
  "signal_windows prov p now =
     (if prov = ''devin'' then opt_list (calendar_window (p_daily p)) @ opt_list (calendar_window (p_weekly p))
      else if prov = ZAI then opt_list (readZaiWindow (p_tokens_limit p)) @ opt_list (readZaiWindow (p_tokens_limit_weekly p))
      else if prov = ''grok-subscription'' then
        map (\<lambda>u. \<lparr>win_utilization = u, win_resetMs = p_weeklyResetAt p\<rparr>) (opt_list (p_weeklyUtilization p))
      else if prov \<noteq> ANTHROPIC \<and> prov \<noteq> CODEX then []
      else opt_list (normalizeSession p) @ opt_list (normalizeWeeklyAll p) @ opt_list (flatOauthAppsWindow (Some p)))"

lemma normalize_simps [simp]:
  "session (normalizeAnthropicUsage (Some p) now) = normalizeSession p"
  "weeklyAll (normalizeAnthropicUsage (Some p) now) = normalizeWeeklyAll p"
  "session (normalizeAnthropicUsage None now) = None" "weeklyAll (normalizeAnthropicUsage None now) = None"
  "weeklyScoped (normalizeAnthropicUsage None now) = []"
  by (simp_all add: normalizeAnthropicUsage_def case_prod_unfold)

lemma provider_distinct [simp]:
  "ANTHROPIC \<noteq> ''devin''" "CODEX \<noteq> ''devin''" "ANTHROPIC \<noteq> ZAI" "CODEX \<noteq> ZAI"
  "ANTHROPIC \<noteq> ''grok-subscription''" "CODEX \<noteq> ''grok-subscription''" "ZAI \<noteq> ''devin''" "ZAI \<noteq> ''grok-subscription''"
  "ANTHROPIC \<noteq> CODEX"
  by (simp_all add: provider_name_defs)

text \<open>What a signal owes to the windows it is computed from.\<close>

definition signal_from :: "usage_window list \<Rightarrow> int \<Rightarrow> capacity_signal \<Rightarrow> bool" where
  "signal_from ws now s \<longleftrightarrow> ws \<noteq> [] \<and> \<not> list_ex (past_reset now) ws
     \<and> (\<forall>d. Some d \<in> {sig_soonestResetMs s, sig_weeklyResetMs s, sig_bindingWeeklyResetMs s, sig_sessionResetMs s} \<longrightarrow>
          (\<exists>w \<in> set ws. \<exists>r. win_resetMs w = Some r \<and> d = At r))
     \<and> (\<forall>x \<le> 100. x \<le> sig_minHeadroom s \<longleftrightarrow> (\<forall>w \<in> set ws. x \<le> headroom w))
     \<and> (\<forall>x \<le> 100. x \<le> sig_minHeadroom s \<longrightarrow> x \<le> sig_weeklyHeadroom s \<and> x \<le> sig_sessionHeadroom s)"

lemma le_fold_min: "x \<le> foldl (\<lambda>m w. min m (f w)) a ws \<longleftrightarrow> x \<le> a \<and> (\<forall>w \<in> set ws. x \<le> f w)" for f :: "'w \<Rightarrow> 'b :: linorder"
  by (induction ws arbitrary: a) auto

lemma fold_max_le: "foldl (\<lambda>m w. max m (f w)) a ws \<le> x \<longleftrightarrow> a \<le> x \<and> (\<forall>w \<in> set ws. f w \<le> x)" for f :: "'w \<Rightarrow> 'b :: linorder"
  by (induction ws arbitrary: a) auto

lemma at_ms_Some [simp]: "at_ms x = Some d \<longleftrightarrow> (\<exists>r. x = Some r \<and> d = At r)" "Some d = at_ms x \<longleftrightarrow> (\<exists>r. x = Some r \<and> d = At r)"
  by (cases x; auto simp: at_ms_def)+

lemma anthropic_signal:
  assumes "anthropicCapacity p now = Some s"
  shows "signal_from (opt_list (normalizeSession p) @ opt_list (normalizeWeeklyAll p) @ opt_list (flatOauthAppsWindow (Some p))) now s"
proof -
  define ses wk oa where "ses = normalizeSession p" and "wk = normalizeWeeklyAll p" and "oa = flatOauthAppsWindow (Some p)"
  let ?ws = "opt_list ses @ opt_list wk @ opt_list oa" and ?wk = "opt_list wk @ opt_list oa"
  have oa: "flatWindowToHard (value_of (p_seven_day_oauth_apps p)) = oa" by (simp add: oa_def flatOauthAppsWindow_def)
  have ws: "?ws \<noteq> []" "\<not> list_ex (past_reset now) ?ws"
    and s: "sig_minHeadroom s = foldl (\<lambda>m w. min m (headroom w)) 100 ?ws"
      "sig_sessionHeadroom s = (case ses of None \<Rightarrow> 100 | Some w \<Rightarrow> headroom w)"
      "sig_weeklyHeadroom s = foldl (\<lambda>m w. min m (headroom w)) 100 ?wk"
      "sig_soonestResetMs s = at_ms (soonest_reset ?ws)" "sig_weeklyResetMs s = at_ms (soonest_reset ?wk)"
      "sig_bindingWeeklyResetMs s = at_ms (binding_weekly_reset ?wk)"
      "sig_sessionResetMs s = at_ms (Option.bind ses win_resetMs)"
    using assms unfolding anthropicCapacity_def Let_def normalize_simps oa ses_def [symmetric] wk_def [symmetric]
    by (auto simp: list_ex_append split: if_splits)
  show ?thesis unfolding signal_from_def ses_def [symmetric] wk_def [symmetric] oa_def [symmetric]
  proof (intro conjI ws allI impI, goal_cases)
    case (1 d)
    then show ?case unfolding s by (auto dest!: soonest_in binding_in simp: bind_eq_Some_conv)
  next
    case (2 x)
    then show ?case unfolding s by (simp add: le_fold_min ball_Un)
  next
    case (3 x)
    then show ?case unfolding s by (simp add: le_fold_min)
  next
    case (4 x)
    then show ?case unfolding s by (auto simp: le_fold_min split: option.split)
  qed
qed

lemma two_window_signal:
  assumes "ws = opt_list a @ opt_list b" and "\<not> list_ex (past_reset now) ws" and "ws \<noteq> []"
    and "sig_soonestResetMs s = at_ms (soonest_reset ws)"
    and "sig_weeklyResetMs s = at_ms (Option.bind b win_resetMs)" "sig_bindingWeeklyResetMs s = at_ms (Option.bind b win_resetMs)"
    and "sig_sessionResetMs s \<in> {None, at_ms (Option.bind a win_resetMs)}"
    and "\<And>x. x \<le> sig_minHeadroom s \<longleftrightarrow> (\<forall>w \<in> set ws. x \<le> headroom w)"
    and "sig_weeklyHeadroom s = (case b of None \<Rightarrow> 100 | Some w \<Rightarrow> headroom w)"
    and "sig_sessionHeadroom s \<in> {100, case a of None \<Rightarrow> 100 | Some w \<Rightarrow> headroom w}"
  shows "signal_from ws now s"
  unfolding signal_from_def
proof (intro conjI assms(2,3) allI impI, goal_cases)
  case (1 d)
  then show ?case using assms(1,4,5,6,7) by (auto dest!: soonest_in simp: bind_eq_Some_conv)
next
  case (2 x)
  show ?case by (rule assms(8))
next
  case (3 x)
  then show ?case using assms(1,8,9) by (auto split: option.split)
next
  case (4 x)
  then show ?case using assms(1,8,10) by (auto split: option.splits)
qed

lemma devin_signal:
  assumes "devinCapacity p now = Some s"
  shows "signal_from (opt_list (calendar_window (p_daily p)) @ opt_list (calendar_window (p_weekly p))) now s"
proof -
  define a b ws where "a = calendar_window (p_daily p)" and "b = calendar_window (p_weekly p)" and "ws = opt_list a @ opt_list b"
  have "devinCapacity p now = (case ws of [] \<Rightarrow> None | w # r \<Rightarrow> if list_ex (past_reset now) ws then None
      else Some \<lparr>sig_minHeadroom = 100 - foldl (\<lambda>m v. max m (win_utilization v)) (win_utilization w) r, sig_sessionHeadroom = 100,
        sig_soonestResetMs = at_ms (soonest_reset ws), sig_bindingUtilization = foldl (\<lambda>m v. max m (win_utilization v)) (win_utilization w) r,
        sig_weeklyResetMs = at_ms (Option.bind b win_resetMs), sig_bindingWeeklyResetMs = at_ms (Option.bind b win_resetMs),
        sig_weeklyHeadroom = (case b of None \<Rightarrow> 100 | Some v \<Rightarrow> headroom v), sig_sessionResetMs = None, sig_extraUsageUtilization = None\<rparr>)"
    by (simp only: devinCapacity_def Let_def a_def b_def ws_def)
  with assms obtain w r where ws: "ws = w # r" "\<not> list_ex (past_reset now) ws"
    and s: "s = \<lparr>sig_minHeadroom = 100 - foldl (\<lambda>m v. max m (win_utilization v)) (win_utilization w) r, sig_sessionHeadroom = 100,
        sig_soonestResetMs = at_ms (soonest_reset ws), sig_bindingUtilization = foldl (\<lambda>m v. max m (win_utilization v)) (win_utilization w) r,
        sig_weeklyResetMs = at_ms (Option.bind b win_resetMs), sig_bindingWeeklyResetMs = at_ms (Option.bind b win_resetMs),
        sig_weeklyHeadroom = (case b of None \<Rightarrow> 100 | Some v \<Rightarrow> headroom v), sig_sessionResetMs = None, sig_extraUsageUtilization = None\<rparr>"
    by (cases ws) (simp_all split: if_splits)
  have "x \<le> 100 - foldl (\<lambda>m v. max m (win_utilization v)) (win_utilization w) r \<longleftrightarrow> (\<forall>v \<in> set ws. x \<le> headroom v)" for x
    using fold_max_le [of win_utilization "win_utilization w" r "100 - x"] by (auto simp: ws(1) headroom_def algebra_simps)
  then have "signal_from ws now s"
    by (intro two_window_signal [OF ws_def ws(2)]) (simp_all add: s ws(1))
  then show ?thesis by (simp add: ws_def a_def b_def)
qed

lemma zai_signal:
  assumes "zaiCapacity p now = Some s"
  shows "signal_from (opt_list (readZaiWindow (p_tokens_limit p)) @ opt_list (readZaiWindow (p_tokens_limit_weekly p))) now s"
proof -
  define a b ws where "a = readZaiWindow (p_tokens_limit p)" and "b = readZaiWindow (p_tokens_limit_weekly p)"
    and "ws = opt_list a @ opt_list b"
  have "zaiCapacity p now = (case ws of [] \<Rightarrow> None | w # r \<Rightarrow> if list_ex (past_reset now) ws then None
      else Some \<lparr>sig_minHeadroom = foldl (\<lambda>m v. min m (headroom v)) (headroom w) r,
        sig_sessionHeadroom = (case a of None \<Rightarrow> 100 | Some v \<Rightarrow> headroom v),
        sig_soonestResetMs = at_ms (soonest_reset ws), sig_bindingUtilization = foldl (\<lambda>m v. max m (win_utilization v)) (win_utilization w) r,
        sig_weeklyResetMs = at_ms (Option.bind b win_resetMs), sig_bindingWeeklyResetMs = at_ms (Option.bind b win_resetMs),
        sig_weeklyHeadroom = (case b of None \<Rightarrow> 100 | Some v \<Rightarrow> headroom v),
        sig_sessionResetMs = at_ms (Option.bind a win_resetMs), sig_extraUsageUtilization = None\<rparr>)"
    by (simp only: zaiCapacity_def Let_def a_def b_def ws_def)
  with assms have ws: "ws \<noteq> []" "\<not> list_ex (past_reset now) ws"
    and s: "sig_minHeadroom s = foldl (\<lambda>m v. min m (headroom v)) (headroom (hd ws)) (tl ws)"
      "sig_sessionHeadroom s = (case a of None \<Rightarrow> 100 | Some v \<Rightarrow> headroom v)"
      "sig_soonestResetMs s = at_ms (soonest_reset ws)" "sig_weeklyResetMs s = at_ms (Option.bind b win_resetMs)"
      "sig_bindingWeeklyResetMs s = at_ms (Option.bind b win_resetMs)"
      "sig_weeklyHeadroom s = (case b of None \<Rightarrow> 100 | Some v \<Rightarrow> headroom v)" "sig_sessionResetMs s = at_ms (Option.bind a win_resetMs)"
    by (cases ws; auto split: if_splits)+
  have "x \<le> sig_minHeadroom s \<longleftrightarrow> (\<forall>v \<in> set ws. x \<le> headroom v)" for x
    using ws(1) by (cases ws) (simp_all add: s(1) le_fold_min)
  then have "signal_from ws now s"
    by (intro two_window_signal [OF ws_def ws(2,1)]) (simp_all add: s)
  then show ?thesis by (simp add: ws_def a_def b_def)
qed

lemma grok_signal:
  assumes "grokSubscriptionCapacity p now = Some s"
  shows "signal_from (map (\<lambda>u. \<lparr>win_utilization = u, win_resetMs = p_weeklyResetAt p\<rparr>) (opt_list (p_weeklyUtilization p))) now s"
  using assms
  by (auto simp: grokSubscriptionCapacity_def signal_from_def opt_list_def headroom_def past_reset_def Let_def
      split: option.splits if_splits)

lemma signal_windows:
  assumes "getAccountCapacitySignal (Some p) prov now = Some s"
  shows "signal_from (signal_windows prov p now) now s"
  using assms devin_signal zai_signal grok_signal anthropic_signal
  by (auto simp: getAccountCapacitySignal_def signal_windows_def provider_distinct [symmetric] split: if_splits)

lemma signal_headroom:
  assumes "getAccountCapacitySignal data prov now = Some s" and "x \<le> 100" and "x \<le> sig_minHeadroom s"
  shows "x \<le> sig_weeklyHeadroom s" and "x \<le> sig_sessionHeadroom s"
  using assms signal_windows [of _ prov now s]
  by (cases data; simp add: getAccountCapacitySignal_def signal_from_def)+

lemma signal_fromD:
  assumes "signal_from ws now s"
  shows "ws \<noteq> []" "w \<in> set ws \<Longrightarrow> \<not> past_reset now w"
    "x \<le> 100 \<Longrightarrow> x \<le> sig_minHeadroom s \<longleftrightarrow> (\<forall>w \<in> set ws. x \<le> headroom w)"
    "Some d \<in> {sig_soonestResetMs s, sig_weeklyResetMs s, sig_bindingWeeklyResetMs s, sig_sessionResetMs s} \<Longrightarrow>
      \<exists>w \<in> set ws. \<exists>r. win_resetMs w = Some r \<and> d = At r"
  using assms unfolding signal_from_def list_ex_iff by blast+

lemma signal_positive:
  assumes "signal_from ws now s"
  shows "0 < sig_minHeadroom s \<longleftrightarrow> (\<forall>w \<in> set ws. 0 < headroom w)"
proof
  assume pos: "0 < sig_minHeadroom s"
  have "min 100 (sig_minHeadroom s) \<le> headroom w" if "w \<in> set ws" for w
    using signal_fromD(3) [OF assms, of "min 100 (sig_minHeadroom s)"] that by simp
  with pos show "\<forall>w \<in> set ws. 0 < headroom w" by (fastforce simp: min_def split: if_splits)
next
  assume pos: "\<forall>w \<in> set ws. 0 < headroom w"
  define x where "x = Min (insert 100 (headroom ` set ws))"
  have "x \<le> 100" "\<forall>w \<in> set ws. x \<le> headroom w" by (auto simp: x_def)
  then have "x \<le> sig_minHeadroom s" using signal_fromD(3) [OF assms] by blast
  moreover have "0 < x" using pos by (simp add: x_def)
  ultimately show "0 < sig_minHeadroom s" by simp
qed

lemma weekly_spent_fold:
  "fst (foldl (weekly_spent_step now) acc ws) \<longleftrightarrow> fst acc \<or> (\<exists>w \<in> set ws. open_spent now w)"
  by (induction ws arbitrary: acc) (auto simp: weekly_spent_step_def)

lemma open_spent_headroom: "open_spent now w \<Longrightarrow> headroom w \<le> 0"
  by (simp add: open_spent_def headroom_def)

text \<open>The payload is the one the provider sends.\<close>

definition shaped_for :: "string \<Rightarrow> usage_payload \<Rightarrow> bool" where
  "shaped_for prov p \<longleftrightarrow>
     (prov = ZAI \<longrightarrow> isZaiShape p \<and> \<not> isAlibabaShape p \<and> p_kind p = None)
     \<and> (prov = ''grok-subscription'' \<longrightarrow> isGrokSubscriptionShape p)"

lemma spent_zai:
  assumes "shaped_for ZAI p"
  shows "spentWindow (extractSevenDay p) now \<noteq> None \<longleftrightarrow> (\<exists>w. readZaiWindow (p_tokens_limit_weekly p) = Some w \<and> open_spent now w)"
    and "spentWindow (extractFiveHour p) now \<noteq> None \<longleftrightarrow> (\<exists>w. readZaiWindow (p_tokens_limit p) = Some w \<and> open_spent now w)"
  using assms
  by (auto simp: shaped_for_def extractSevenDay_def extractFiveHour_def isDevinShape_def isGrokSubscriptionShape_def
      spentWindow_def readZaiWindow_def open_spent_def split: option.splits if_splits)

lemma verdict_window:
  assumes "shaped_for prov p" and "exhausted (accountWideExhaustionFor prov (Some p) now (Some p))"
  shows "\<exists>w \<in> set (signal_windows prov p now). open_spent now w"
proof -
  consider "prov = ANTHROPIC \<or> prov = CODEX" | "prov = ZAI" | "prov = ''grok-subscription''"
    using assms(2) by (auto simp: accountWideExhaustionFor_def NOT_EXHAUSTED_def split: if_splits)
  then show ?thesis
  proof cases
    case 1
    with assms(2) have "exhausted (accountWideExhaustion (Some p) now (Some p))" by (auto simp: accountWideExhaustionFor_def)
    then have "(\<exists>w \<in> set_option (normalizeWeeklyAll p) \<union> set_option (flatOauthAppsWindow (Some p)). open_spent now w)
        \<or> (\<exists>w \<in> set_option (normalizeSession p). open_spent now w)"
      by (auto simp: accountWideExhaustion_def weeklyExhaustion_def weekly_spent_fold NOT_EXHAUSTED_def Let_def
          split: if_splits option.splits)
    then show ?thesis using 1 by (auto simp: signal_windows_def)
  next
    case 2
    with assms(2) have "exhausted (zaiAccountWideExhaustion (Some p) now (Some p))"
      by (simp add: accountWideExhaustionFor_def provider_distinct [symmetric])
    then have "spentWindow (extractSevenDay p) now \<noteq> None \<or> spentWindow (extractFiveHour p) now \<noteq> None"
      by (auto simp: zaiAccountWideExhaustion_def NOT_EXHAUSTED_def split: option.splits)
    then show ?thesis using spent_zai assms(1) unfolding 2 by (auto simp: signal_windows_def)
  next
    case 3
    with assms have "spentWindow (Some \<lparr>ex_pct = p_weeklyUtilization p, ex_resetMs = p_weeklyResetAt p\<rparr>) now \<noteq> None"
      by (auto simp: accountWideExhaustionFor_def grokSubscriptionAccountWideExhaustion_def NOT_EXHAUSTED_def shaped_for_def
          extractSevenDay_def isGrokSubscriptionShape_def isDevinShape_def provider_distinct [symmetric] split: option.splits if_splits)
    then show ?thesis using 3
      by (auto simp: signal_windows_def spentWindow_def open_spent_def opt_list_def provider_distinct [symmetric]
          split: option.splits if_splits)
  qed
qed

lemma representative_max:
  "snd (foldl (\<lambda>prev cur. if snd cur > snd prev then cur else prev) c cs) < (x :: rat) \<longleftrightarrow> snd c < x \<and> (\<forall>y \<in> set cs. snd y < x)"
  by (induction cs arbitrary: c) auto

lemma flat_utilization: "opt_list (Option.bind w utilization) = map win_utilization (opt_list (flatWindowToHard w))"
  by (cases w) (simp_all add: flatWindowToHard_def opt_list_def split: option.split)

lemma representative_windows:
  assumes "prov = ANTHROPIC \<or> prov = CODEX"
  shows "map snd (representative_candidates p now) = map win_utilization (signal_windows prov p now)"
proof -
  have "signal_windows prov p now = opt_list (normalizeSession p) @ opt_list (normalizeWeeklyAll p) @ opt_list (flatOauthAppsWindow (Some p))"
    using assms by (elim disjE) (simp_all add: signal_windows_def)
  then show ?thesis by (simp add: representative_candidates_def flatOauthAppsWindow_def flat_utilization comp_def)
qed

lemma restored_windows:
  assumes "prov = ANTHROPIC \<or> prov = CODEX" and "signal_windows prov p now \<noteq> []"
  shows "shouldReportCapacityRestored (representative_utilization (Some p) now) \<longleftrightarrow>
    (\<forall>w \<in> set (signal_windows prov p now). 0 < headroom w)"
proof -
  note m = representative_windows [OF assms(1), of p now]
  obtain c cs where cs: "representative_candidates p now = c # cs" using m assms(2) by (cases "representative_candidates p now") auto
  have "shouldReportCapacityRestored (representative_utilization (Some p) now) \<longleftrightarrow> (\<forall>u \<in> set (map snd (c # cs)). u < 100)"
    by (simp add: shouldReportCapacityRestored_def representative_utilization_def resolveRepresentativeWindow_def cs representative_max)
  also have "\<dots> \<longleftrightarrow> (\<forall>w \<in> set (signal_windows prov p now). 0 < headroom w)"
    unfolding cs [symmetric] m by (simp add: headroom_def)
  finally show ?thesis .
qed

subsection \<open>Properties\<close>

text \<open>
  C34. The readers of a usage payload agree. A signal that routing may act on names no reset that has
  passed; whenever the account-wide verdict calls the account exhausted, the signal shows no headroom; and
  a poll of an Anthropic or Codex account reports restored capacity exactly if the signal shows headroom.
\<close>

theorem usage_readers_agree:
  assumes "getAccountCapacitySignal (Some p) prov now = Some s" and "shaped_for prov p"
  shows "(\<forall>d \<in> {sig_soonestResetMs s, sig_weeklyResetMs s, sig_bindingWeeklyResetMs s, sig_sessionResetMs s}. d \<noteq> None \<longrightarrow> (\<exists>r > now. d = Some (At r)))
    \<and> (exhausted (accountWideExhaustionFor prov (Some p) now (Some p)) \<longrightarrow> sig_minHeadroom s \<le> 0)
    \<and> (prov = ANTHROPIC \<or> prov = CODEX \<longrightarrow>
         (shouldReportCapacityRestored (representative_utilization (Some p) now) \<longleftrightarrow> 0 < sig_minHeadroom s))"
proof (intro conjI impI ballI, goal_cases)
  case (1 d)
  then obtain x w r where "d = Some x" "w \<in> set (signal_windows prov p now)" "win_resetMs w = Some r" "x = At r"
    using signal_fromD(4) [OF signal_windows [OF assms(1)]] by (metis not_Some_eq)
  then show ?case using signal_fromD(2) [OF signal_windows [OF assms(1)], of w] by (simp add: past_reset_def)
next
  case 2
  then show ?case
    using verdict_window [OF assms(2)] open_spent_headroom signal_positive [OF signal_windows [OF assms(1)]] by (meson not_le)
next
  case 3
  then show ?case using restored_windows signal_positive [OF signal_windows [OF assms(1)]]
      signal_fromD(1) [OF signal_windows [OF assms(1)]] by blast
qed

subsection \<open>Witnesses\<close>

definition spent_payload :: usage_payload where
  "spent_payload = sample_payload\<lparr>p_seven_day := Some (Some (no_window\<lparr>utilization := Some 100, resets_at := Reset_at 602000000\<rparr>))\<rparr>"

theorem usage_readers_agree_witness:
  "\<exists>s. getAccountCapacitySignal (Some spent_payload) ANTHROPIC 1000 = Some s \<and> sig_minHeadroom s \<le> 0
    \<and> \<not> shouldReportCapacityRestored (representative_utilization (Some spent_payload) 1000)"
proof -
  note defs = spent_payload_def sample_payload_def no_payload_def no_window_def
  have norm: "normalizeSession spent_payload = Some \<lparr>win_utilization = 50, win_resetMs = Some 18000000\<rparr>"
    "normalizeWeeklyAll spent_payload = Some \<lparr>win_utilization = 100, win_resetMs = Some 602000000\<rparr>"
    "flatWindowToHard (value_of (p_seven_day_oauth_apps spent_payload)) = None" "flatOauthAppsWindow (Some spent_payload) = None"
    by (simp_all add: normalizeSession_def normalizeWeeklyAll_def flatWindowToHard_def flatOauthAppsWindow_def value_of_def defs)
  obtain s where s: "getAccountCapacitySignal (Some spent_payload) ANTHROPIC 1000 = Some s"
    by (simp add: getAccountCapacitySignal_def anthropicCapacity_def norm opt_list_def past_reset_def Let_def)
  have "exhausted (accountWideExhaustionFor ANTHROPIC (Some spent_payload) 1000 (Some spent_payload))"
    by (simp add: accountWideExhaustionFor_def accountWideExhaustion_def weeklyExhaustion_def norm opt_list_def
        weekly_spent_step_def open_spent_def exhausted_by_def Let_def)
  with usage_readers_agree [OF s] s show ?thesis by (auto simp: shaped_for_def)
qed

end
