(* ===== verification/HeaderView.thy ===== *)
theory HeaderView
  imports Capacity ClaimHeaders
begin

section \<open>The usage view routing reads\<close>

text \<open>
  \<^verbatim>\<open>providers/src/usage-header-view.ts\<close>: the polled usage payload with its two account-wide windows
  brought up to date from the headers of later responses, and the freshness test over the result. The
  reset of a header reading is whole milliseconds; a freshness instant of \<^verbatim>\<open>-Infinity\<close> is \<^term>\<open>None\<close>.
  Shown: the header store holds the newest evidence whatever order responses land in, an axis written into
  a payload is the one read back from it and the other axis is untouched, and within one window the view
  never reports less than either source.
\<close>

definition HEADER_WINDOW_IDENTITY_TOLERANCE_MS :: int where "HEADER_WINDOW_IDENTITY_TOLERANCE_MS = 2000"

record header_reading =
  hr_utilization :: rat
  hr_resetMs :: int
  hr_status :: string
  hr_observedAtMs :: int

record shape_observation =
  so_present :: bool
  so_observedAtMs :: int

record header_windows =
  hw_fiveHour :: "header_reading option"
  hw_sevenDay :: "header_reading option"
  hw_fiveHourShape :: "shape_observation option"
  hw_fiveHourAbsentAtMs :: "int option"

datatype axis_source = From_poll | From_header | From_both

record axis_view =
  ax_source :: axis_source
  ax_observedAtMs :: "int option"
  ax_freshAtMs :: "int option"

record usage_view =
  view_data :: usage_payload
  view_fiveHour :: axis_view
  view_sevenDay :: axis_view
  view_pollWrittenAtMs :: int
  view_pollObservedAtMs :: "int option"
  view_pollFreshAtMs :: int

record poll_reading =
  poll_data :: usage_payload
  poll_writtenAtMs :: int
  poll_observedAtMs :: "int option"
  poll_freshAtMs :: "int option"

definition MAX_DATE_MS :: int where "MAX_DATE_MS = 8640000000000000"

definition js_round :: "rat \<Rightarrow> int" where "js_round x = \<lfloor>x + 1 / 2\<rfloor>"

definition toPercent :: "rat \<Rightarrow> rat" where
  "toPercent fraction = of_int (js_round (fraction * 100 * 1000000)) / 1000000"

subsection \<open>Readings from headers\<close>

definition headerWindowFromClaim :: "extracted_claim \<Rightarrow> int \<Rightarrow> header_reading option" where
  "headerWindowFromClaim c observedAt =
     (if xc_status c \<notin> set USAGE_READING_CLAIM_STATUSES then None
      else case xc_utilization c of
        None \<Rightarrow> None
      | Some u \<Rightarrow>
          if u < 0 \<or> u > 1 then None
          else case xc_resetMs c of
            None \<Rightarrow> None
          | Some r \<Rightarrow>
              if r \<le> observedAt \<or> r > MAX_DATE_MS then None
              else Some \<lparr>hr_utilization = toPercent u, hr_resetMs = r, hr_status = xc_status c, hr_observedAtMs = observedAt\<rparr>)"

definition pick_claim :: "extracted_claim list \<Rightarrow> int \<Rightarrow> string \<Rightarrow> header_reading option" where
  "pick_claim claims observedAt token =
     Option.bind (List.find (\<lambda>c. xc_claim c = token) claims) (\<lambda>c. headerWindowFromClaim c observedAt)"

definition headerWindowsFromClaims :: "extracted_claim list \<Rightarrow> int \<Rightarrow> claim_shape \<Rightarrow> header_windows" where
  "headerWindowsFromClaims claims observedAt shape =
     \<lparr>hw_fiveHour = pick_claim claims observedAt ''5h'', hw_sevenDay = pick_claim claims observedAt ''7d'',
      hw_fiveHourShape = (if shape = Unknown_shape then None
        else Some \<lparr>so_present = (shape = Present), so_observedAtMs = observedAt\<rparr>),
      hw_fiveHourAbsentAtMs = (if shape = Absent then Some observedAt else None)\<rparr>"

subsection \<open>The header store\<close>

definition newerOf :: "header_reading option \<Rightarrow> header_reading option \<Rightarrow> header_reading option" where
  "newerOf stored incoming = (case incoming of
     None \<Rightarrow> stored
   | Some i \<Rightarrow> (case stored of
       None \<Rightarrow> Some i
     | Some s \<Rightarrow> if hr_observedAtMs s > hr_observedAtMs i then Some s else Some i))"

definition newerShape :: "shape_observation option \<Rightarrow> shape_observation option \<Rightarrow> shape_observation option" where
  "newerShape stored incoming = (case incoming of
     None \<Rightarrow> stored
   | Some i \<Rightarrow> (case stored of
       None \<Rightarrow> Some i
     | Some s \<Rightarrow>
         if so_observedAtMs i > so_observedAtMs s then Some i
         else if so_observedAtMs i < so_observedAtMs s then Some s
         else if so_present i then Some i else Some s))"

definition laterOf :: "int option \<Rightarrow> int option \<Rightarrow> int option" where
  "laterOf a b = (case a of None \<Rightarrow> b | Some x \<Rightarrow> (case b of None \<Rightarrow> Some x | Some y \<Rightarrow> Some (max x y)))"

definition after_absence :: "int option \<Rightarrow> header_reading option \<Rightarrow> header_reading option" where
  "after_absence absentAt r = (case (r, absentAt) of
     (Some x, Some t) \<Rightarrow> if hr_observedAtMs x \<le> t then None else r
   | _ \<Rightarrow> r)"

definition no_headers :: header_windows where
  "no_headers = \<lparr>hw_fiveHour = None, hw_sevenDay = None, hw_fiveHourShape = None, hw_fiveHourAbsentAtMs = None\<rparr>"

definition mergeHeaderWindows :: "header_windows option \<Rightarrow> header_windows \<Rightarrow> header_windows" where
  "mergeHeaderWindows stored incoming =
     (let s = (case stored of None \<Rightarrow> no_headers | Some x \<Rightarrow> x);
          absentAt = laterOf (hw_fiveHourAbsentAtMs s) (hw_fiveHourAbsentAtMs incoming)
      in \<lparr>hw_fiveHour = newerOf (after_absence absentAt (hw_fiveHour s)) (after_absence absentAt (hw_fiveHour incoming)),
          hw_sevenDay = newerOf (hw_sevenDay s) (hw_sevenDay incoming),
          hw_fiveHourShape = newerShape (hw_fiveHourShape s) (hw_fiveHourShape incoming),
          hw_fiveHourAbsentAtMs = absentAt\<rparr>)"

subsection \<open>Reconciling an axis\<close>

datatype axis_choice = Poll_axis | Header_axis rat int | Merged_axis rat

definition chooseAxis :: "usage_window option \<Rightarrow> header_reading option \<Rightarrow> int \<Rightarrow> axis_choice" where
  "chooseAxis polled header now = (case header of
     None \<Rightarrow> Poll_axis
   | Some h \<Rightarrow>
       if hr_resetMs h \<le> now then Poll_axis
       else
         let asHeader = Header_axis (hr_utilization h) (hr_resetMs h) in
         case polled of
           None \<Rightarrow> asHeader
         | Some p \<Rightarrow> (case win_resetMs p of
             None \<Rightarrow> asHeader
           | Some r \<Rightarrow>
               let delta = hr_resetMs h - r in
               if \<bar>delta\<bar> \<le> HEADER_WINDOW_IDENTITY_TOLERANCE_MS
               then Merged_axis (max (win_utilization p) (hr_utilization h))
               else if delta > 0 then asHeader else Poll_axis))"

datatype axis = Five_hour | Seven_day

fun limit_kind :: "axis \<Rightarrow> string" where
  "limit_kind Five_hour = ''session''"
| "limit_kind Seven_day = ''weekly_all''"

fun axis_flat :: "axis \<Rightarrow> usage_payload \<Rightarrow> window_obj option option" where
  "axis_flat Five_hour p = p_five_hour p"
| "axis_flat Seven_day p = p_seven_day p"

fun set_flat :: "axis \<Rightarrow> window_obj \<Rightarrow> usage_payload \<Rightarrow> usage_payload" where
  "set_flat Five_hour w p = p\<lparr>p_five_hour := Some (Some w)\<rparr>"
| "set_flat Seven_day w p = p\<lparr>p_seven_day := Some (Some w)\<rparr>"

definition empty_window :: window_obj where
  "empty_window = \<lparr>utilization = None, resets_at = No_reset, resetAt = None, percentage = None, percentUsed = None, intervalMs = None\<rparr>"

definition reset_or :: "int option \<Rightarrow> reset_text \<Rightarrow> reset_text" where
  "reset_or r old = (case r of None \<Rightarrow> old | Some ms \<Rightarrow> Reset_at ms)"

text \<open>The first entry of \<^verbatim>\<open>limits[]\<close> of the axis's kind that has a number.\<close>

fun write_limit :: "string \<Rightarrow> rat \<Rightarrow> int option \<Rightarrow> limit_entry list \<Rightarrow> limit_entry list option" where
  "write_limit k u r [] = None"
| "write_limit k u r (l # ls) =
     (if kind l = k \<and> percent l \<noteq> None
      then Some (l\<lparr>percent := Some u, limit_resets_at := reset_or r (limit_resets_at l)\<rparr> # ls)
      else map_option ((#) l) (write_limit k u r ls))"

definition writeAxis :: "usage_payload \<Rightarrow> axis \<Rightarrow> rat \<Rightarrow> int option \<Rightarrow> usage_payload" where
  "writeAxis p ax u r =
     (case value_of (axis_flat ax p) of
        Some w \<Rightarrow>
          if utilization w \<noteq> None
          then set_flat ax (w\<lparr>utilization := Some u, resets_at := reset_or r (resets_at w)\<rparr>) p
          else (case write_limit (limit_kind ax) u r (limits_of p) of
                  Some ls \<Rightarrow> p\<lparr>p_limits := Some ls\<rparr>
                | None \<Rightarrow> set_flat ax (empty_window\<lparr>utilization := Some u, resets_at := reset_or r No_reset\<rparr>) p)
      | None \<Rightarrow>
          (case write_limit (limit_kind ax) u r (limits_of p) of
             Some ls \<Rightarrow> p\<lparr>p_limits := Some ls\<rparr>
           | None \<Rightarrow> set_flat ax (empty_window\<lparr>utilization := Some u, resets_at := reset_or r No_reset\<rparr>) p))"

definition pollFiveHourShape :: "usage_payload \<Rightarrow> claim_shape" where
  "pollFiveHourShape p =
     (if reportsNoSessionWindow (Some p) then Absent
      else if value_of (p_five_hour p) \<noteq> None then Present
      else if list_ex (\<lambda>l. kind l = ''session'') (limits_of p) then Present else Unknown_shape)"

definition withoutFiveHour :: "usage_payload \<Rightarrow> bool \<Rightarrow> usage_payload" where
  "withoutFiveHour p absent =
     p\<lparr>p_five_hour := (if absent then Some None else None),
       p_limits := map_option (filter (\<lambda>l. kind l \<noteq> ''session'')) (p_limits p)\<rparr>"

subsection \<open>Building the view\<close>

definition poll_fresh :: "poll_reading \<Rightarrow> int" where
  "poll_fresh poll = (case poll_freshAtMs poll of None \<Rightarrow> poll_writtenAtMs poll | Some t \<Rightarrow> t)"

definition poll_at :: "poll_reading \<Rightarrow> int" where
  "poll_at poll = (case poll_observedAtMs poll of None \<Rightarrow> poll_writtenAtMs poll | Some t \<Rightarrow> t)"

definition poll_axis :: "poll_reading \<Rightarrow> axis_view" where
  "poll_axis poll = \<lparr>ax_source = From_poll, ax_observedAtMs = poll_observedAtMs poll, ax_freshAtMs = Some (poll_fresh poll)\<rparr>"

text \<open>\<^verbatim>\<open>Math.max(poll.observedAtMs ?? -Infinity, t)\<close>\<close>

definition max_observed :: "poll_reading \<Rightarrow> int \<Rightarrow> int" where
  "max_observed poll t = (case poll_observedAtMs poll of None \<Rightarrow> t | Some o' \<Rightarrow> max o' t)"

text \<open>
  What the evidence about the existence of the five-hour window leaves: the payload, the polled and the
  header reading of that axis, its view, and whether presence was found after an absence.
\<close>

record five_hour_evidence =
  fe_data :: usage_payload
  fe_polled :: "usage_window option"
  fe_header :: "header_reading option"
  fe_view :: axis_view
  fe_presenceAfterAbsence :: bool

definition absent_view :: "poll_reading \<Rightarrow> header_windows \<Rightarrow> axis_view" where
  "absent_view poll h =
     (case hw_fiveHourShape h of
        Some sh \<Rightarrow>
          if \<not> so_present sh
          then (if pollFiveHourShape (poll_data poll) = Absent
                then \<lparr>ax_source = From_both, ax_observedAtMs = Some (max_observed poll (so_observedAtMs sh)),
                       ax_freshAtMs = Some (max (poll_fresh poll) (so_observedAtMs sh))\<rparr>
                else \<lparr>ax_source = From_header, ax_observedAtMs = Some (so_observedAtMs sh), ax_freshAtMs = Some (so_observedAtMs sh)\<rparr>)
          else poll_axis poll
      | None \<Rightarrow> poll_axis poll)"

definition five_hour_absence :: "poll_reading \<Rightarrow> header_windows \<Rightarrow> int option" where
  "five_hour_absence poll h =
     laterOf (if pollFiveHourShape (poll_data poll) = Absent then Some (poll_at poll) else None) (hw_fiveHourAbsentAtMs h)"

definition five_hour_presence :: "poll_reading \<Rightarrow> header_windows \<Rightarrow> int option" where
  "five_hour_presence poll h =
     laterOf (laterOf (if pollFiveHourShape (poll_data poll) = Present then Some (poll_at poll) else None)
                (case hw_fiveHourShape h of Some sh \<Rightarrow> if so_present sh then Some (so_observedAtMs sh) else None | None \<Rightarrow> None))
       (map_option hr_observedAtMs (hw_fiveHour h))"

definition fiveHourEvidence :: "poll_reading \<Rightarrow> header_windows \<Rightarrow> five_hour_evidence" where
  "fiveHourEvidence poll h =
     (let d = poll_data poll;
          shape = pollFiveHourShape d;
          base = \<lparr>fe_data = d, fe_polled = normalizeSession d, fe_header = hw_fiveHour h, fe_view = poll_axis poll,
                  fe_presenceAfterAbsence = False\<rparr>
      in case five_hour_absence poll h of
           None \<Rightarrow> base
         | Some absentAt \<Rightarrow>
             if (case five_hour_presence poll h of None \<Rightarrow> True | Some t \<Rightarrow> absentAt > t)
             then base\<lparr>fe_data := (if shape \<noteq> Absent then withoutFiveHour d True else d),
                       fe_header := None, fe_view := absent_view poll h\<rparr>
             else
               let header = (case hw_fiveHour h of Some r \<Rightarrow> if hr_observedAtMs r < absentAt then None else Some r | None \<Rightarrow> None);
                   pollCurrent = (shape = Present \<and> poll_at poll \<ge> absentAt)
               in (if shape \<noteq> Unknown_shape \<and> \<not> pollCurrent
                   then base\<lparr>fe_data := withoutFiveHour d False, fe_polled := None, fe_header := header, fe_presenceAfterAbsence := True\<rparr>
                   else base\<lparr>fe_header := header, fe_presenceAfterAbsence := True\<rparr>))"

definition apply_axis ::
  "poll_reading \<Rightarrow> int \<Rightarrow> axis \<Rightarrow> usage_window option \<Rightarrow> header_reading option \<Rightarrow> usage_payload \<times> axis_view \<Rightarrow> usage_payload \<times> axis_view" where
  "apply_axis poll now ax polled header acc = (case header of
     None \<Rightarrow> acc
   | Some h \<Rightarrow> (case chooseAxis polled header now of
       Poll_axis \<Rightarrow> acc
     | Header_axis u r \<Rightarrow> (writeAxis (fst acc) ax u (Some r),
         \<lparr>ax_source = From_header, ax_observedAtMs = Some (hr_observedAtMs h), ax_freshAtMs = Some (hr_observedAtMs h)\<rparr>)
     | Merged_axis u \<Rightarrow>
         (if Some u \<noteq> map_option win_utilization polled then writeAxis (fst acc) ax u None else fst acc,
          \<lparr>ax_source = From_both, ax_observedAtMs = Some (max_observed poll (hr_observedAtMs h)),
           ax_freshAtMs = Some (max (poll_fresh poll) (hr_observedAtMs h))\<rparr>)))"

definition buildUsageView :: "poll_reading \<Rightarrow> header_windows option \<Rightarrow> int \<Rightarrow> usage_view" where
  "buildUsageView poll headers now =
     (let view = \<lparr>view_data = poll_data poll, view_fiveHour = poll_axis poll, view_sevenDay = poll_axis poll,
            view_pollWrittenAtMs = poll_writtenAtMs poll, view_pollObservedAtMs = poll_observedAtMs poll,
            view_pollFreshAtMs = poll_fresh poll\<rparr>
      in case headers of
           None \<Rightarrow> view
         | Some h \<Rightarrow>
             let ev = fiveHourEvidence poll h;
                 (d1, five) = apply_axis poll now Five_hour (fe_polled ev) (fe_header ev) (fe_data ev, fe_view ev);
                 (d2, seven) = apply_axis poll now Seven_day (normalizeWeeklyAll (poll_data poll)) (hw_sevenDay h) (d1, poll_axis poll);
                 five' = (if fe_presenceAfterAbsence ev \<and> ax_source five = From_poll \<and> fe_polled ev = None
                          then \<lparr>ax_source = From_poll, ax_observedAtMs = None, ax_freshAtMs = None\<rparr> else five)
             in view\<lparr>view_data := d2, view_fiveHour := five', view_sevenDay := seven\<rparr>)"

definition reportsPollOnlyAxis :: "usage_payload \<Rightarrow> bool" where
  "reportsPollOnlyAxis p \<longleftrightarrow>
     Option.bind (value_of (p_seven_day_oauth_apps p)) utilization \<noteq> None
     \<or> (case value_of (p_extra_usage p) of None \<Rightarrow> False | Some e \<Rightarrow> eu_is_enabled e \<and> eu_utilization e \<noteq> None)"

definition axis_fresh :: "axis_view \<Rightarrow> int \<Rightarrow> int \<Rightarrow> bool" where
  "axis_fresh a now maxAge \<longleftrightarrow> (case ax_freshAtMs a of None \<Rightarrow> False | Some t \<Rightarrow> now - t \<le> maxAge)"

definition isUsageViewFresh :: "usage_view \<Rightarrow> int \<Rightarrow> int \<Rightarrow> bool" where
  "isUsageViewFresh v now maxAge \<longleftrightarrow>
     (if \<not> axis_fresh (view_fiveHour v) now maxAge then False
      else if \<not> axis_fresh (view_sevenDay v) now maxAge then False
      else \<not> reportsPollOnlyAxis (view_data v) \<or> now - view_pollFreshAtMs v \<le> maxAge)"

subsection \<open>Reading the cache\<close>

definition getFreshPollCapacity ::
  "(string \<Rightarrow> usage_payload option) \<Rightarrow> (string \<Rightarrow> int \<Rightarrow> int option) \<Rightarrow> string \<Rightarrow> string \<Rightarrow> int \<Rightarrow> int \<Rightarrow> capacity_signal option" where
  "getFreshPollCapacity peek peekPollFreshAt accountId prov now maxAge = (case peekPollFreshAt accountId now of
     None \<Rightarrow> None
   | Some t \<Rightarrow> if now - t > maxAge then None else getAccountCapacitySignal (peek accountId) prov now)"

definition getFreshRoutingUsage ::
  "(string \<Rightarrow> string \<Rightarrow> int \<Rightarrow> usage_view option) \<Rightarrow> string \<Rightarrow> string \<Rightarrow> int \<Rightarrow> int \<Rightarrow> usage_payload option" where
  "getFreshRoutingUsage peekUsageView accountId prov now maxAge = (case peekUsageView accountId prov now of
     None \<Rightarrow> None
   | Some v \<Rightarrow> if \<not> isUsageViewFresh v now maxAge then None else Some (view_data v))"

definition getFreshRoutingCapacity ::
  "(string \<Rightarrow> string \<Rightarrow> int \<Rightarrow> usage_view option) \<Rightarrow> string \<Rightarrow> string \<Rightarrow> int \<Rightarrow> int \<Rightarrow> capacity_signal option" where
  "getFreshRoutingCapacity peekUsageView accountId prov now maxAge =
     getAccountCapacitySignal (getFreshRoutingUsage peekUsageView accountId prov now maxAge) prov now"

subsection \<open>The store is independent of the order\<close>

lemma newer_absence: "after_absence t (newerOf x y) = newerOf (after_absence t x) (after_absence t y)"
  by (auto simp: after_absence_def newerOf_def split: option.splits if_splits)

lemma after_absence_Some:
  "after_absence t r = Some x \<longleftrightarrow> r = Some x \<and> (\<forall>u. t = Some u \<longrightarrow> u < hr_observedAtMs x)"
  by (auto simp: after_absence_def split: option.split)

lemma absence_later:
  "after_absence (laterOf t u) (after_absence t x) = after_absence (laterOf t u) x"
  by (auto simp: after_absence_def laterOf_def split: option.splits if_splits)

lemma later_commute: "laterOf (laterOf t a) b = laterOf (laterOf t b) a"
  by (auto simp: laterOf_def max_def split: option.splits)

lemma newer_commute:
  assumes "\<And>x y. a = Some x \<Longrightarrow> b = Some y \<Longrightarrow> hr_observedAtMs x = hr_observedAtMs y \<Longrightarrow> x = y"
  shows "newerOf (newerOf s a) b = newerOf (newerOf s b) a"
proof (cases a)
  case (Some x)
  show ?thesis
  proof (cases b)
    case b: (Some y)
    have "hr_observedAtMs x = hr_observedAtMs y \<Longrightarrow> x = y" using assms Some b by blast
    then show ?thesis unfolding Some b by (cases s) (auto simp: newerOf_def)
  qed (simp add: newerOf_def)
qed (simp add: newerOf_def)

lemma shape_commute: "newerShape (newerShape s a) b = newerShape (newerShape s b) a"
  by (cases s; cases a; cases b) (auto simp: newerShape_def intro: shape_observation.equality)

text \<open>Two responses that read the same axis at the same instant read the same.\<close>

definition agree :: "header_windows \<Rightarrow> header_windows \<Rightarrow> bool" where
  "agree a b \<longleftrightarrow> (\<forall>f \<in> {hw_fiveHour, hw_sevenDay}. case (f a, f b) of
     (Some x, Some y) \<Rightarrow> hr_observedAtMs x = hr_observedAtMs y \<longrightarrow> x = y | _ \<Rightarrow> True)"

lemma merge_commute:
  assumes "agree a b"
  shows "mergeHeaderWindows (Some (mergeHeaderWindows s a)) b = mergeHeaderWindows (Some (mergeHeaderWindows s b)) a"
proof -
  define t where "t = (case s of None \<Rightarrow> no_headers | Some x \<Rightarrow> x)"
  let ?T = "laterOf (laterOf (hw_fiveHourAbsentAtMs t) (hw_fiveHourAbsentAtMs a)) (hw_fiveHourAbsentAtMs b)"
  have ab: "x = y" if "f a = Some x" "f b = Some y" "hr_observedAtMs x = hr_observedAtMs y" "f = hw_fiveHour \<or> f = hw_sevenDay" for f x y
    using assms that by (auto simp: agree_def)
  have five: "newerOf (newerOf (after_absence ?T (hw_fiveHour t)) (after_absence ?T (hw_fiveHour a))) (after_absence ?T (hw_fiveHour b)) =
      newerOf (newerOf (after_absence ?T (hw_fiveHour t)) (after_absence ?T (hw_fiveHour b))) (after_absence ?T (hw_fiveHour a))"
    by (rule newer_commute) (use ab [of hw_fiveHour] in \<open>auto simp: after_absence_Some\<close>)
  have seven: "newerOf (newerOf (hw_sevenDay t) (hw_sevenDay a)) (hw_sevenDay b) = newerOf (newerOf (hw_sevenDay t) (hw_sevenDay b)) (hw_sevenDay a)"
    by (rule newer_commute) (use ab [of hw_sevenDay] in blast)
  show ?thesis
    unfolding mergeHeaderWindows_def Let_def t_def [symmetric] option.case header_windows.simps newer_absence absence_later
    unfolding later_commute [of "hw_fiveHourAbsentAtMs t" "hw_fiveHourAbsentAtMs b" "hw_fiveHourAbsentAtMs a"] five seven
    using shape_commute [of "hw_fiveHourShape t" "hw_fiveHourShape b" "hw_fiveHourShape a"] by simp
qed

definition record_headers :: "header_windows \<Rightarrow> header_windows option \<Rightarrow> header_windows option" where
  "record_headers incoming stored = Some (mergeHeaderWindows stored incoming)"

subsection \<open>Writing and reading an axis\<close>

fun read_axis :: "axis \<Rightarrow> usage_payload \<Rightarrow> usage_window option" where
  "read_axis Five_hour p = normalizeSession p"
| "read_axis Seven_day p = normalizeWeeklyAll p"

lemma read_axis_def:
  "read_axis ax p = (case Option.bind (value_of (axis_flat ax p)) (\<lambda>w. map_option (\<lambda>u. (u, w)) (utilization w)) of
     Some (u, w) \<Rightarrow> Some \<lparr>win_utilization = u, win_resetMs = parseResetMs (resets_at w)\<rparr>
   | None \<Rightarrow> first_limit (limit_kind ax) (limits_of p))"
  by (cases ax) (simp_all add: normalizeSession_def normalizeWeeklyAll_def split: option.splits)

lemma limits_set [simp]: "limits_of (p\<lparr>p_limits := Some ls\<rparr>) = ls" "limits_of (set_flat ax w p) = limits_of p"
  by (cases ax; simp add: limits_of_def)+

lemma flat_set [simp]:
  "axis_flat ax (p\<lparr>p_limits := l\<rparr>) = axis_flat ax p"
  "axis_flat ax (set_flat ax' w p) = (if ax = ax' then Some (Some w) else axis_flat ax p)"
  subgoal by (cases ax) simp_all
  subgoal by (cases ax; cases ax') simp_all
  done

lemma write_limit_Some:
  "write_limit k u r ls = Some ls' \<Longrightarrow>
    first_limit k ls' = Some \<lparr>win_utilization = u, win_resetMs = (case r of Some ms \<Rightarrow> Some ms | None \<Rightarrow> Option.bind (first_limit k ls) win_resetMs)\<rparr>"
  by (induction ls arbitrary: ls') (auto simp: reset_or_def split: option.splits if_splits)

lemma write_limit_None: "write_limit k u r ls = None \<longleftrightarrow> first_limit k ls = None"
  by (induction ls) (auto split: option.splits)

lemma write_limit_other: "write_limit k u r ls = Some ls' \<Longrightarrow> k' \<noteq> k \<Longrightarrow> first_limit k' ls' = first_limit k' ls"
  by (induction ls arbitrary: ls') (auto split: option.splits if_splits)

lemma write_read:
  "read_axis ax (writeAxis p ax u r) = Some \<lparr>win_utilization = u,
     win_resetMs = (case r of Some ms \<Rightarrow> Some ms | None \<Rightarrow> Option.bind (read_axis ax p) win_resetMs)\<rparr>"
proof (cases "\<exists>w. value_of (axis_flat ax p) = Some w \<and> utilization w \<noteq> None")
  case True
  then show ?thesis by (auto simp: writeAxis_def read_axis_def value_of_def reset_or_def split: option.split)
next
  case False
  then have flat: "Option.bind (value_of (axis_flat ax p)) (\<lambda>w. map_option (\<lambda>u. (u, w)) (utilization w)) = None"
    by (cases "value_of (axis_flat ax p)") auto
  have w: "writeAxis p ax u r = (case write_limit (limit_kind ax) u r (limits_of p) of
      Some ls \<Rightarrow> p\<lparr>p_limits := Some ls\<rparr>
    | None \<Rightarrow> set_flat ax (empty_window\<lparr>utilization := Some u, resets_at := reset_or r No_reset\<rparr>) p)"
    using False by (auto simp: writeAxis_def split: option.split)
  show ?thesis
  proof (cases "write_limit (limit_kind ax) u r (limits_of p)")
    case None
    then have "read_axis ax p = None" by (simp add: write_limit_None read_axis_def flat)
    then show ?thesis unfolding w None
      by (simp add: read_axis_def [of ax "set_flat ax _ p"] value_of_def reset_or_def split: option.split)
  next
    case (Some ls)
    have "read_axis ax p = first_limit (limit_kind ax) (limits_of p)" by (simp add: read_axis_def flat)
    then show ?thesis using write_limit_Some [OF Some] unfolding w Some
      by (simp add: read_axis_def [of ax "p\<lparr>p_limits := Some ls\<rparr>"] flat cong: option.case_cong)
  qed
qed

lemma write_other:
  assumes "ax \<noteq> ax'"
  shows "read_axis ax (writeAxis p ax' u r) = read_axis ax p"
proof -
  have k: "limit_kind ax \<noteq> limit_kind ax'" using assms by (cases ax; cases ax'; simp)
  show ?thesis using assms write_limit_other [OF _ k]
    by (auto simp: writeAxis_def read_axis_def split: option.split)
qed

text \<open>What one source leaves of an axis.\<close>

definition axis_window :: "usage_window option \<Rightarrow> axis_choice \<Rightarrow> usage_window option" where
  "axis_window polled c = (case c of
     Poll_axis \<Rightarrow> polled
   | Header_axis u r \<Rightarrow> Some \<lparr>win_utilization = u, win_resetMs = Some r\<rparr>
   | Merged_axis u \<Rightarrow> Some \<lparr>win_utilization = u, win_resetMs = Option.bind polled win_resetMs\<rparr>)"

lemma merged_polled: "chooseAxis polled h now = Merged_axis u \<Longrightarrow> \<exists>w. polled = Some w"
  by (auto simp: chooseAxis_def Let_def split: option.splits if_splits)

lemma apply_axis_read:
  "read_axis ax (fst (apply_axis poll now ax (read_axis ax d) header (d, v))) = axis_window (read_axis ax d) (chooseAxis (read_axis ax d) header now)"
proof (cases header)
  case None
  then show ?thesis by (simp add: apply_axis_def chooseAxis_def axis_window_def)
next
  case (Some h)
  show ?thesis
  proof (cases "chooseAxis (read_axis ax d) header now")
    case (Merged_axis u)
    from merged_polled [OF this] obtain w where w: "read_axis ax d = Some w" by blast
    with Some Merged_axis show ?thesis by (simp add: apply_axis_def axis_window_def write_read)
  qed (use Some in \<open>simp_all add: apply_axis_def axis_window_def write_read\<close>)
qed

lemma apply_axis_other: "ax' \<noteq> ax \<Longrightarrow> read_axis ax' (fst (apply_axis poll now ax polled header (d, v))) = read_axis ax' d"
  by (auto simp: apply_axis_def write_other split: option.split axis_choice.split)

lemma weekly_without: "read_axis Seven_day (withoutFiveHour p b) = read_axis Seven_day p"
proof -
  have "first_limit ''weekly_all'' (filter (\<lambda>l. kind l \<noteq> ''session'') ls) = first_limit ''weekly_all'' ls" for ls
    by (induction ls) (auto split: option.split)
  then show ?thesis by (simp add: normalizeWeeklyAll_def withoutFiveHour_def limits_of_def split: option.split)
qed

lemma evidence_weekly: "read_axis Seven_day (fe_data (fiveHourEvidence poll h)) = read_axis Seven_day (poll_data poll)"
  using weekly_without by (auto simp: fiveHourEvidence_def Let_def split: option.split)

lemma build_data:
  "view_data (buildUsageView poll (Some h) now) =
    fst (apply_axis poll now Seven_day (normalizeWeeklyAll (poll_data poll)) (hw_sevenDay h)
      (fst (apply_axis poll now Five_hour (fe_polled (fiveHourEvidence poll h)) (fe_header (fiveHourEvidence poll h))
        (fe_data (fiveHourEvidence poll h), fe_view (fiveHourEvidence poll h))), poll_axis poll))"
  by (simp add: buildUsageView_def Let_def case_prod_unfold)

lemma view_weekly:
  "normalizeWeeklyAll (view_data (buildUsageView poll (Some h) now)) =
    axis_window (normalizeWeeklyAll (poll_data poll)) (chooseAxis (normalizeWeeklyAll (poll_data poll)) (hw_sevenDay h) now)"
proof -
  let ?d = "fst (apply_axis poll now Five_hour (fe_polled (fiveHourEvidence poll h)) (fe_header (fiveHourEvidence poll h))
        (fe_data (fiveHourEvidence poll h), fe_view (fiveHourEvidence poll h)))"
  have "read_axis Seven_day ?d = read_axis Seven_day (poll_data poll)"
    by (simp only: apply_axis_other axis.distinct simp_thms evidence_weekly)
  then show ?thesis using apply_axis_read [of Seven_day poll now ?d "hw_sevenDay h" "poll_axis poll"] by (simp add: build_data)
qed

lemma write_limit_kinds: "write_limit k u r ls = Some ls' \<Longrightarrow> map kind ls' = map kind ls"
  by (induction ls arbitrary: ls') (auto split: if_splits)

lemma no_session_kinds:
  assumes "p_five_hour p = p_five_hour q" and "map kind (limits_of p) = map kind (limits_of q)"
  shows "reportsNoSessionWindow (Some p) = reportsNoSessionWindow (Some q)"
proof -
  have ex: "list_ex (\<lambda>l. kind l = ''session'') ls \<longleftrightarrow> ''session'' \<in> set (map kind ls)" for ls by (force simp: list_ex_iff)
  have "list_ex (\<lambda>l. kind l = ''session'') (limits_of p) = list_ex (\<lambda>l. kind l = ''session'') (limits_of q)"
    unfolding ex assms(2) ..
  then show ?thesis using assms(1) by (simp add: reportsNoSessionWindow_def)
qed

lemma write_weekly_no_session: "reportsNoSessionWindow (Some (writeAxis p Seven_day u r)) = reportsNoSessionWindow (Some p)"
  by (rule no_session_kinds) (auto simp: writeAxis_def limits_of_def dest: write_limit_kinds split: option.split)

lemma apply_weekly_no_session:
  "reportsNoSessionWindow (Some (fst (apply_axis poll now Seven_day polled header (d, v)))) = reportsNoSessionWindow (Some d)"
  by (auto simp: apply_axis_def write_weekly_no_session split: option.split axis_choice.split)

lemma no_session_reading: "reportsNoSessionWindow (Some p) \<Longrightarrow> normalizeSession p = None"
  by (auto simp: reportsNoSessionWindow_def normalizeSession_def value_of_def first_limit_None list_ex_iff split: if_splits)

lemma absent_evidence:
  assumes "five_hour_absence poll h = Some t" and "\<And>u. five_hour_presence poll h = Some u \<Longrightarrow> u < t"
  shows "reportsNoSessionWindow (Some (fe_data (fiveHourEvidence poll h)))" and "fe_header (fiveHourEvidence poll h) = None"
proof -
  have ev: "fiveHourEvidence poll h = \<lparr>fe_data = (if pollFiveHourShape (poll_data poll) \<noteq> Absent then withoutFiveHour (poll_data poll) True else poll_data poll),
      fe_polled = normalizeSession (poll_data poll), fe_header = None, fe_view = absent_view poll h, fe_presenceAfterAbsence = False\<rparr>"
    using assms by (auto simp: fiveHourEvidence_def Let_def split: option.split)
  have "reportsNoSessionWindow (Some (withoutFiveHour (poll_data poll) True))"
    by (cases "p_limits (poll_data poll)") (auto simp: reportsNoSessionWindow_def withoutFiveHour_def limits_of_def list_ex_iff)
  then show "reportsNoSessionWindow (Some (fe_data (fiveHourEvidence poll h)))"
    by (auto simp: ev pollFiveHourShape_def split: if_splits)
  show "fe_header (fiveHourEvidence poll h) = None" by (simp add: ev)
qed

subsection \<open>Properties\<close>

text \<open>
  Responses may land in any order: the header store that results from a set of responses is the same
  for every order they are recorded in, absences and shapes included, as long as two responses that read
  the same window at the same instant read the same.
\<close>

lemma header_store_order_free:
  assumes "mset es = mset es'" and "\<And>a b. a \<in> set es \<Longrightarrow> b \<in> set es \<Longrightarrow> agree a b"
  shows "fold record_headers es s = fold record_headers es' s"
proof -
  have "record_headers a \<circ> record_headers b = record_headers b \<circ> record_headers a" if "a \<in> set es" "b \<in> set es" for a b
    using merge_commute [OF assms(2) [OF that(2,1)]] by (auto simp: record_headers_def)
  then have "fold record_headers es = fold record_headers es'" using fold_multiset_equiv assms(1) by blast
  then show ?thesis by simp
qed

text \<open>
  C33. The view takes each window from the newer source. With a header reading of the weekly window that is
  still open: if the poll names the same window, the view reports the higher of the two utilizations and
  the poll's reset; if the header's window resets later, or the poll knows no reset, it is the header's; if
  it resets earlier, the poll's. A header reading whose window is over changes nothing. And when the newest
  evidence about the five-hour window is its absence, the view reports that the account has none.
\<close>

theorem usage_view_takes_newer_source:
  fixes poll h now
  defines "polled \<equiv> normalizeWeeklyAll (poll_data poll)"
  defines "weekly \<equiv> normalizeWeeklyAll (view_data (buildUsageView poll (Some h) now))"
  assumes "hw_sevenDay h = Some r"
  shows "(hr_resetMs r \<le> now \<longrightarrow> weekly = polled)
    \<and> (now < hr_resetMs r \<longrightarrow> (case Option.bind polled win_resetMs of
         None \<Rightarrow> weekly = Some \<lparr>win_utilization = hr_utilization r, win_resetMs = Some (hr_resetMs r)\<rparr>
       | Some t \<Rightarrow>
           if \<bar>hr_resetMs r - t\<bar> \<le> HEADER_WINDOW_IDENTITY_TOLERANCE_MS
           then weekly = Some \<lparr>win_utilization = max (win_utilization (the polled)) (hr_utilization r), win_resetMs = Some t\<rparr>
           else if t < hr_resetMs r then weekly = Some \<lparr>win_utilization = hr_utilization r, win_resetMs = Some (hr_resetMs r)\<rparr>
           else weekly = polled))
    \<and> (\<forall>t. five_hour_absence poll h = Some t \<and> (\<forall>u. five_hour_presence poll h = Some u \<longrightarrow> u < t) \<longrightarrow>
         reportsNoSessionWindow (Some (view_data (buildUsageView poll (Some h) now)))
         \<and> normalizeSession (view_data (buildUsageView poll (Some h) now)) = None)"
proof (intro conjI allI impI, goal_cases)
  case 1
  then show ?case using assms(3) by (simp add: weekly_def polled_def view_weekly chooseAxis_def axis_window_def)
next
  case 2
  then show ?case unfolding weekly_def view_weekly polled_def
    using assms(3) by (auto simp: chooseAxis_def axis_window_def Let_def bind_eq_None_conv split: option.splits)
next
  case (3 t)
  with absent_evidence [of poll h t] show ?case
    by (simp add: build_data apply_weekly_no_session) (simp add: apply_axis_def)
next
  case (4 t)
  with absent_evidence [of poll h t] have "reportsNoSessionWindow (Some (view_data (buildUsageView poll (Some h) now)))"
    by (simp add: build_data apply_weekly_no_session) (simp add: apply_axis_def)
  then show ?case by (rule no_session_reading)
qed

subsection \<open>Witnesses\<close>

definition sample_reading :: "rat \<Rightarrow> int \<Rightarrow> int \<Rightarrow> header_reading" where
  "sample_reading u reset seen = \<lparr>hr_utilization = u, hr_resetMs = reset, hr_status = ''allowed'', hr_observedAtMs = seen\<rparr>"

definition sample_headers :: header_windows where
  "sample_headers = no_headers\<lparr>hw_sevenDay := Some (sample_reading 12 602000500 2000),
     hw_fiveHourShape := Some \<lparr>so_present = False, so_observedAtMs = 2000\<rparr>, hw_fiveHourAbsentAtMs := Some 2000\<rparr>"

definition earlier_headers :: header_windows where
  "earlier_headers = no_headers\<lparr>hw_fiveHour := Some (sample_reading 40 18000000 1000), hw_sevenDay := Some (sample_reading 9 602000000 1000)\<rparr>"

definition sample_poll :: poll_reading where
  "sample_poll = \<lparr>poll_data = sample_payload, poll_writtenAtMs = 500, poll_observedAtMs = Some 500, poll_freshAtMs = None\<rparr>"

text \<open>A response from before the window went away lands after the one that shows it gone.\<close>

theorem usage_view_takes_newer_source_witness:
  "normalizeWeeklyAll (view_data (buildUsageView sample_poll (Some sample_headers) 3000)) =
      Some \<lparr>win_utilization = 12, win_resetMs = Some 602000000\<rparr>
    \<and> reportsNoSessionWindow (Some (view_data (buildUsageView sample_poll (Some sample_headers) 3000)))"
proof -
  have polled: "normalizeWeeklyAll (poll_data sample_poll) = Some \<lparr>win_utilization = 10, win_resetMs = Some 602000000\<rparr>"
    by (simp add: normalizeWeeklyAll_def sample_poll_def sample_payload_def no_payload_def no_window_def value_of_def)
  have shape: "pollFiveHourShape (poll_data sample_poll) = Present"
    by (simp add: pollFiveHourShape_def reportsNoSessionWindow_def sample_poll_def sample_payload_def no_payload_def value_of_def)
  have absence: "five_hour_absence sample_poll sample_headers = Some 2000"
    by (simp add: five_hour_absence_def shape sample_headers_def no_headers_def laterOf_def)
  have presence: "five_hour_presence sample_poll sample_headers = Some 500"
    by (simp add: five_hour_presence_def shape sample_headers_def no_headers_def laterOf_def poll_at_def) (simp add: sample_poll_def)
  have "hw_sevenDay sample_headers = Some (sample_reading 12 602000500 2000)"
    by (simp add: sample_headers_def no_headers_def)
  from usage_view_takes_newer_source [OF this, where poll = sample_poll and now = 3000] show ?thesis
    by (simp add: polled absence presence sample_reading_def HEADER_WINDOW_IDENTITY_TOLERANCE_MS_def)
qed

end
