(* ===== verification/FamilyGates.thy ===== *)
theory FamilyGates
  imports HeaderView OverloadBreaker
begin

section \<open>Decisions of the family and liveness gates\<close>

text \<open>
  The pure decisions behind the admission gates: \<^verbatim>\<open>proxy/src/handlers/family-weekly-gate.ts\<close>,
  \<^verbatim>\<open>proxy/src/handlers/family-reservation-gate.ts\<close>, \<^verbatim>\<open>proxy/src/handlers/pool-liveness-gate.ts\<close>, and the small
  stores they read: \<^verbatim>\<open>proxy/src/family-weekly-memo.ts\<close>, \<^verbatim>\<open>proxy/src/protected-family-demand.ts\<close>,
  \<^verbatim>\<open>proxy/src/weekly-burn-slope.ts\<close>; and the arithmetic of \<^verbatim>\<open>proxy/src/retry-after.ts\<close>. Headrooms are
  finite numbers; \<^verbatim>\<open>Math.random()\<close> is an argument between 0 and 1.
  Shown: a refusal's advice never lies ahead of a deadline it could have named and is bounded; a scoped
  claim is never read as a family verdict against account-wide evidence; the memo of refused families is
  bounded, keyed by account and family, and an older success never erases a newer finding.
\<close>

subsection \<open>Retry-After\<close>

definition RETRY_AFTER_RECHECK_CEILING_SECONDS :: int where "RETRY_AFTER_RECHECK_CEILING_SECONDS = 60"
definition RECHECK_MIN_SECONDS :: int where "RECHECK_MIN_SECONDS = 45"
definition RECHECK_MAX_SECONDS :: int where "RECHECK_MAX_SECONDS = 55"
definition DEFAULT_RECHECK_RETRY_AFTER_SECONDS :: int where "DEFAULT_RECHECK_RETRY_AFTER_SECONDS = 60"

definition ceilRetryAfterSeconds :: "int \<Rightarrow> int \<Rightarrow> int" where
  "ceilRetryAfterSeconds deadlineMs now = max 1 \<lceil>of_int (deadlineMs - now) / (1000 :: rat)\<rceil>"

definition clampRetryAfterSeconds :: "rat \<Rightarrow> int \<Rightarrow> int" where
  "clampRetryAfterSeconds random honest =
     (if honest \<le> RETRY_AFTER_RECHECK_CEILING_SECONDS then honest
      else RECHECK_MIN_SECONDS + \<lfloor>random * of_int (RECHECK_MAX_SECONDS - RECHECK_MIN_SECONDS + 1)\<rfloor>)"

definition earliest_future :: "int \<Rightarrow> int option \<Rightarrow> int option \<Rightarrow> int option" where
  "earliest_future now earliest d = (case d of
     None \<Rightarrow> earliest
   | Some t \<Rightarrow> if t \<le> now then earliest
               else (case earliest of None \<Rightarrow> Some t | Some e \<Rightarrow> if t < e then Some t else Some e))"

definition retryAfterFromDeadlines :: "rat \<Rightarrow> int option list \<Rightarrow> int \<Rightarrow> int" where
  "retryAfterFromDeadlines random deadlines now = (case foldl (earliest_future now) None deadlines of
     None \<Rightarrow> DEFAULT_RECHECK_RETRY_AFTER_SECONDS
   | Some e \<Rightarrow> clampRetryAfterSeconds random (ceilRetryAfterSeconds e now))"

subsection \<open>Weekly quota of a family\<close>

definition FAMILY_WEEKLY_MAX_USAGE_AGE_MS :: int where "FAMILY_WEEKLY_MAX_USAGE_AGE_MS = 180000"

record weekly_excluded =
  we_account :: account
  we_family :: model_family
  we_resetAt :: int

definition resolveFamilyWeeklyExclusion ::
  "account \<Rightarrow> string option \<Rightarrow> usage_payload option \<Rightarrow> capacity_signal option \<Rightarrow> int \<Rightarrow> weekly_excluded option" where
  "resolveFamilyWeeklyExclusion a modelForGate usage capacity now = (case family_of modelForGate of
     None \<Rightarrow> None
   | Some family \<Rightarrow>
       if \<not> isFamilyWeeklyExhaustedWithHeadroom usage capacity family now then None
       else let match = List.find (\<lambda>e. sc_family e = family) (getExhaustedFamilies usage now)
            in Some \<lparr>we_account = a, we_family = family,
                 we_resetAt = (case match of None \<Rightarrow> now | Some e \<Rightarrow> sc_resetsAtMs e)\<rparr>)"

record weekly_paced =
  wp_account :: account
  wp_family :: model_family
  wp_resumeAt :: rat

definition pacing_step :: "int \<Rightarrow> rat option \<Rightarrow> scoped_limit \<Rightarrow> rat option" where
  "pacing_step now resumeAt e =
     (if sc_percent e \<ge> FAMILY_WEEKLY_EXHAUSTED_THRESHOLD_PERCENT then resumeAt
      else case computeThrottleResumeAt (Some (sc_resetsAtMs e)) ''seven_day_scoped'' (sc_percent e) now None None of
        None \<Rightarrow> resumeAt
      | Some t \<Rightarrow> (case resumeAt of None \<Rightarrow> Some t | Some r \<Rightarrow> if t > r then Some t else Some r))"

definition resolveFamilyWeeklyPacing ::
  "account \<Rightarrow> string option \<Rightarrow> usage_payload option \<Rightarrow> capacity_signal option \<Rightarrow> int \<Rightarrow> weekly_paced option" where
  "resolveFamilyWeeklyPacing a modelForGate usage capacity now = (case family_of modelForGate of
     None \<Rightarrow> None
   | Some family \<Rightarrow> (case capacity of
       None \<Rightarrow> None
     | Some s \<Rightarrow>
         if sig_minHeadroom s \<le> 0 then None
         else map_option (\<lambda>t. \<lparr>wp_account = a, wp_family = family, wp_resumeAt = t\<rparr>)
                (foldl (pacing_step now) None (getScopedFamilyLimits usage family now))))"

record header_excluded =
  he_account :: account
  he_family :: model_family
  he_resetAt :: "rat option"

definition resolveFamilyWeeklyExclusionFromHeaders ::
  "account \<Rightarrow> string option \<Rightarrow> headers \<Rightarrow> int \<Rightarrow> header_excluded option" where
  "resolveFamilyWeeklyExclusionFromHeaders a modelForGate h now =
     (if provider a \<noteq> ANTHROPIC \<or> (custom_endpoint a \<noteq> None \<and> custom_endpoint a \<noteq> Some []) then None
      else case family_of modelForGate of
        None \<Rightarrow> None
      | Some family \<Rightarrow>
          if jm_get h (UNIFIED @ ''status'') \<noteq> Some ''rejected'' then None
          else if getAccountWideClaimHeadroom h = None then None
          else case getScopedClaimRejection h now of
            None \<Rightarrow> None
          | Some soonest \<Rightarrow> Some \<lparr>he_account = a, he_family = family, he_resetAt = soonest\<rparr>)"

text \<open>The refusal of a request whose family is spent on every account, without its text.\<close>

record family_refusal =
  fr_retryAfter :: int
  fr_poolStatus :: string
  fr_earliestKnownReset :: "int option"
  fr_excluded :: "(string \<times> int) list"

definition least_of :: "int list \<Rightarrow> int option" where
  "least_of xs = (case xs of [] \<Rightarrow> None | y # ys \<Rightarrow> Some (foldl min y ys))"

definition createFamilyWeeklyExhaustedResponse ::
  "rat \<Rightarrow> weekly_excluded list \<Rightarrow> int \<Rightarrow> (string \<times> int) option \<Rightarrow> family_refusal" where
  "createFamilyWeeklyExhaustedResponse random excluded now transientSibling =
     (let soonestReset = least_of (filter (\<lambda>r. r > now) (map we_resetAt excluded));
          siblingCooldown = (case transientSibling of
              None \<Rightarrow> None | Some (_, t) \<Rightarrow> if t > now then Some t else None);
          earliest = (case (soonestReset, siblingCooldown) of
              (Some a, Some b) \<Rightarrow> Some (min a b) | (Some a, None) \<Rightarrow> Some a | (None, b) \<Rightarrow> b);
          retryAfter = (case earliest of
              Some e \<Rightarrow> clampRetryAfterSeconds random (ceilRetryAfterSeconds e now)
            | None \<Rightarrow> DEFAULT_RECHECK_RETRY_AFTER_SECONDS)
      in \<lparr>fr_retryAfter = retryAfter,
          fr_poolStatus = (if siblingCooldown \<noteq> None then ''family-weekly-sibling-cooldown'' else ''family-weekly-exhausted''),
          fr_earliestKnownReset = earliest,
          fr_excluded = map (\<lambda>e. (acc_name (we_account e), we_resetAt e)) excluded\<rparr>)"

definition resolveTransientlyCooledFamilySibling ::
  "account \<Rightarrow> model_family \<Rightarrow> usage_payload option \<Rightarrow> int option \<Rightarrow> int option \<Rightarrow> int \<Rightarrow> weekly_excluded option" where
  "resolveTransientlyCooledFamilySibling a family usage rateLimitedUntil providerOverloadUntil now =
     (if provider a \<noteq> ANTHROPIC then None
      else if paused a \<or> rate_limited_reason a = Some Org_permission_denied then None
      else
        let rl = (case rateLimitedUntil of None \<Rightarrow> 0 | Some t \<Rightarrow> if t > now then t else 0);
            ov = (case providerOverloadUntil of None \<Rightarrow> 0 | Some t \<Rightarrow> if t > now then t else 0);
            availableAt = max rl ov
        in if availableAt \<le> now then None
           else if list_ex (\<lambda>e. sc_family e = family) (getExhaustedFamilies usage now) then None
           else Some \<lparr>we_account = a, we_family = family, we_resetAt = availableAt\<rparr>)"

subsection \<open>Reservation for the protected family\<close>

definition SESSION_RESERVE_HEADROOM_PCT :: rat where "SESSION_RESERVE_HEADROOM_PCT = 25"
definition WEEKLY_RESERVE_HEADROOM_PCT :: rat where "WEEKLY_RESERVE_HEADROOM_PCT = 40"
definition PROTECTED_FAMILY_DEMAND_LOOKBACK_MS :: int where "PROTECTED_FAMILY_DEMAND_LOOKBACK_MS = 43200000"
definition WEEKLY_HARVEST_YIELD_HORIZON_MS :: int where "WEEKLY_HARVEST_YIELD_HORIZON_MS = 7200000"

definition PROTECTED_FAMILY :: model_family where "PROTECTED_FAMILY = hd FAMILY_PRIORITY"

definition finite_reset :: "deadline option \<Rightarrow> int option" where
  "finite_reset d = (case d of Some (At r) \<Rightarrow> Some r | _ \<Rightarrow> None)"

definition resolveReservationDemotion ::
  "account \<Rightarrow> string option \<Rightarrow> usage_payload option \<Rightarrow> capacity_signal option \<Rightarrow> int option \<Rightarrow> int \<Rightarrow> bool" where
  "resolveReservationDemotion a modelForGate usage capacity lastProtectedDemand now = (case family_of modelForGate of
     None \<Rightarrow> False
   | Some family \<Rightarrow>
       if isProtectedFamily (Some family) then False
       else if provider a \<noteq> ANTHROPIC then False
       else case capacity of
         None \<Rightarrow> False
       | Some s \<Rightarrow>
           if list_ex (\<lambda>e. sc_family e = PROTECTED_FAMILY) (getExhaustedFamilies usage now) then False
           else if sig_sessionHeadroom s < SESSION_RESERVE_HEADROOM_PCT then True
           else if sig_weeklyHeadroom s < WEEKLY_RESERVE_HEADROOM_PCT then
             (let recentDemand = (case lastProtectedDemand of
                    None \<Rightarrow> False | Some t \<Rightarrow> now - t \<le> PROTECTED_FAMILY_DEMAND_LOOKBACK_MS);
                  nearReset = (case finite_reset (sig_bindingWeeklyResetMs s) of
                    None \<Rightarrow> True | Some r \<Rightarrow> r - now \<le> WEEKLY_HARVEST_YIELD_HORIZON_MS)
              in recentDemand \<and> \<not> nearReset)
           else False)"

subsection \<open>The liveness reserve of the pool\<close>

definition LIVENESS_RESERVE_HEADROOM_PCT :: rat where "LIVENESS_RESERVE_HEADROOM_PCT = 20"
definition LIVENESS_RESERVE_PROTECTED_HEADROOM_PCT :: rat where "LIVENESS_RESERVE_PROTECTED_HEADROOM_PCT = 10"
definition LIVENESS_RELEASE_HORIZON_MIN_MS :: rat where "LIVENESS_RELEASE_HORIZON_MIN_MS = 12 * of_int HOUR_MS"
definition LIVENESS_RELEASE_HORIZON_MAX_MS :: rat where "LIVENESS_RELEASE_HORIZON_MAX_MS = 36 * of_int HOUR_MS"
definition LIVENESS_DESIGN_SLOPE_PCT_PER_HOUR :: rat where "LIVENESS_DESIGN_SLOPE_PCT_PER_HOUR = 66 / 100"

definition resolveLivenessReserveThreshold :: "bool \<Rightarrow> rat" where
  "resolveLivenessReserveThreshold protectedRequest =
     (if protectedRequest then LIVENESS_RESERVE_PROTECTED_HEADROOM_PCT else LIVENESS_RESERVE_HEADROOM_PCT)"

definition isAbsorbablePeer :: "capacity_signal option \<Rightarrow> bool \<Rightarrow> bool \<Rightarrow> rat \<Rightarrow> bool" where
  "isAbsorbablePeer capacity familyReserved owesRecoveryProbe threshold = (case capacity of
     None \<Rightarrow> False
   | Some s \<Rightarrow>
       if sig_minHeadroom s < threshold then False
       else if familyReserved then False
       else if owesRecoveryProbe then False
       else True)"

definition resolveReleaseHorizonMs :: "rat \<Rightarrow> rat \<Rightarrow> rat option \<Rightarrow> rat" where
  "resolveReleaseHorizonMs weeklyHead threshold slope =
     (if (case slope of None \<Rightarrow> False | Some v \<Rightarrow> v > 0)
      then min LIVENESS_RELEASE_HORIZON_MAX_MS
             (max LIVENESS_RELEASE_HORIZON_MIN_MS (weeklyHead / the slope * of_int HOUR_MS))
      else threshold / LIVENESS_DESIGN_SLOPE_PCT_PER_HOUR * of_int HOUR_MS)"

definition resolvePoolLivenessDemotion ::
  "capacity_signal option \<Rightarrow> nat \<Rightarrow> int \<Rightarrow> rat \<Rightarrow> rat option \<Rightarrow> int option \<Rightarrow> bool" where
  "resolvePoolLivenessDemotion capacity absorbablePeerCount now threshold slope subscriptionEnd = (case capacity of
     None \<Rightarrow> False
   | Some s \<Rightarrow>
       if sig_weeklyHeadroom s \<ge> threshold then False
       else if absorbablePeerCount < 1 then False
       else case finite_reset (sig_bindingWeeklyResetMs s) of
         None \<Rightarrow> False
       | Some reset \<Rightarrow>
           let horizon = resolveReleaseHorizonMs (sig_weeklyHeadroom s) threshold slope;
               lostAt = (case subscriptionEnd of None \<Rightarrow> reset | Some e \<Rightarrow> min reset e)
           in \<not> of_int (lostAt - now) \<le> horizon)"

subsection \<open>Weekly burn\<close>

definition WEEKLY_SLOPE_MAX_AGE_MS :: int where "WEEKLY_SLOPE_MAX_AGE_MS = 15 * 60 * 1000"
definition WEEKLY_SLOPE_RESET_MATCH_TOLERANCE_MS :: int where "WEEKLY_SLOPE_RESET_MATCH_TOLERANCE_MS = 5 * 60 * 1000"

record slope_record =
  slopePctPerHour :: rat
  lowConfidence :: bool
  slope_observedAt :: int
  windowResetMs :: int

type_synonym slopes = "(string, slope_record) jsmap"

definition recordWeeklyBurnSlope :: "string \<Rightarrow> slope_record \<Rightarrow> slopes \<Rightarrow> slopes" where
  "recordWeeklyBurnSlope accountId r s = jm_set s accountId r"

definition clearWeeklyBurnSlopes :: "string option \<Rightarrow> slopes \<Rightarrow> slopes" where
  "clearWeeklyBurnSlopes accountId s = (case accountId of None \<Rightarrow> [] | Some i \<Rightarrow> jm_delete s i)"

definition pruneWeeklyBurnSlopes :: "string list \<Rightarrow> slopes \<Rightarrow> slopes" where
  "pruneWeeklyBurnSlopes live s = filter (\<lambda>(i, _). i \<in> set live) s"

definition getWeeklyBurnSlope :: "string \<Rightarrow> int \<Rightarrow> slopes \<Rightarrow> (rat \<times> int) option" where
  "getWeeklyBurnSlope accountId now s = (case jm_get s accountId of
     None \<Rightarrow> None
   | Some e \<Rightarrow>
       if lowConfidence e then None
       else if now - slope_observedAt e > WEEKLY_SLOPE_MAX_AGE_MS then None
       else Some (slopePctPerHour e, windowResetMs e))"

definition resolveEffectiveWeeklySlope :: "string \<Rightarrow> capacity_signal option \<Rightarrow> int \<Rightarrow> slopes \<Rightarrow> rat option" where
  "resolveEffectiveWeeklySlope accountId capacity now s = (case capacity of
     None \<Rightarrow> None
   | Some c \<Rightarrow> (case finite_reset (sig_bindingWeeklyResetMs c) of
       None \<Rightarrow> None
     | Some bindingReset \<Rightarrow> (case getWeeklyBurnSlope accountId now s of
         None \<Rightarrow> None
       | Some (slope, reset) \<Rightarrow>
           if \<bar>reset - bindingReset\<bar> > WEEKLY_SLOPE_RESET_MATCH_TOLERANCE_MS then None else Some slope)))"

subsection \<open>Demand for the protected family\<close>

type_synonym demand = "(string, int) jsmap"

definition recordProtectedFamilyDemand :: "string \<Rightarrow> int \<Rightarrow> demand \<Rightarrow> demand" where
  "recordProtectedFamilyDemand accountId now d = jm_set d accountId now"

definition getLastProtectedFamilyDemand :: "string \<Rightarrow> demand \<Rightarrow> int option" where
  "getLastProtectedFamilyDemand accountId d = jm_get d accountId"

subsection \<open>The memo of refused families\<close>

record memo_entry =
  memo_resetAt :: int
  memo_observedAt :: int

type_synonym memo = "(string, memo_entry) jsmap"

definition MAX_MEMO_ENTRIES :: nat where "MAX_MEMO_ENTRIES = 1000"
definition MAX_MEMO_HORIZON_MS :: int where "MAX_MEMO_HORIZON_MS = 14 * 86400000"

definition keyFor :: "string \<Rightarrow> model_family \<Rightarrow> string" where
  "keyFor accountId family = accountId @ '':'' @ family_string family"

definition pruneExpired :: "int \<Rightarrow> memo \<Rightarrow> memo" where
  "pruneExpired now m = filter (\<lambda>(_, e). \<not> now \<ge> memo_resetAt e) m"

definition recordFamilyWeeklyExhausted :: "string \<Rightarrow> model_family \<Rightarrow> int \<Rightarrow> int \<Rightarrow> memo \<Rightarrow> memo \<times> bool" where
  "recordFamilyWeeklyExhausted accountId family until now m =
     (if until \<le> now then (m, False)
      else if until > now + MAX_MEMO_HORIZON_MS then (m, False)
      else let m' = pruneExpired now m; key = keyFor accountId family; known = jm_has m' key in
        if length m' \<ge> MAX_MEMO_ENTRIES \<and> \<not> known then (m', False)
        else (jm_set m' key \<lparr>memo_resetAt = until, memo_observedAt = now\<rparr>, \<not> known))"

definition getFamilyWeeklyExhaustedUntil :: "string \<Rightarrow> model_family \<Rightarrow> int \<Rightarrow> memo \<Rightarrow> memo \<times> int option" where
  "getFamilyWeeklyExhaustedUntil accountId family now m =
     (let key = keyFor accountId family in
      case jm_get m key of
        None \<Rightarrow> (m, None)
      | Some e \<Rightarrow> if now \<ge> memo_resetAt e then (jm_delete m key, None) else (m, Some (memo_resetAt e)))"

definition clearFamilyWeeklyExhausted :: "string \<Rightarrow> model_family \<Rightarrow> int \<Rightarrow> memo \<Rightarrow> memo" where
  "clearFamilyWeeklyExhausted accountId family observedAfter m =
     (let key = keyFor accountId family in
      case jm_get m key of
        None \<Rightarrow> m
      | Some e \<Rightarrow> if memo_observedAt e \<ge> observedAfter then m else jm_delete m key)"

definition isFamilyWeeklyMemoExhausted :: "account \<Rightarrow> string option \<Rightarrow> int \<Rightarrow> memo \<Rightarrow> memo \<times> bool" where
  "isFamilyWeeklyMemoExhausted a model now m =
     (if provider a \<noteq> ANTHROPIC then (m, False)
      else case getModelFamily (case model of None \<Rightarrow> [] | Some x \<Rightarrow> x) of
        None \<Rightarrow> (m, False)
      | Some f \<Rightarrow> (case getFamilyWeeklyExhaustedUntil (acc_id a) f now m of (m', r) \<Rightarrow> (m', r \<noteq> None)))"

definition clearFamilyWeeklyExhaustedForAccount :: "string \<Rightarrow> memo \<Rightarrow> memo" where
  "clearFamilyWeeklyExhaustedForAccount accountId m = filter (\<lambda>(k, _). \<not> starts_with k (accountId @ '':'')) m"

subsection \<open>Lemmas on advice\<close>

lemma ceil_seconds:
  assumes "now < e"
  shows "1 \<le> ceilRetryAfterSeconds e now" "e \<le> now + 1000 * ceilRetryAfterSeconds e now"
    "now + 1000 * ceilRetryAfterSeconds e now < e + 1000"
proof -
  define c where "c = \<lceil>of_int (e - now) / (1000 :: rat)\<rceil>"
  have c: "of_int (e - now) / (1000 :: rat) \<le> of_int c" "of_int c - 1 < of_int (e - now) / (1000 :: rat)"
    using ceiling_correct [of "of_int (e - now) / (1000 :: rat)"] unfolding c_def by blast+
  then have "(of_int (e - now) :: rat) \<le> of_int (1000 * c)" "of_int (1000 * c) < (of_int (e - now + 1000) :: rat)"
    by (simp_all add: field_simps)
  then have "e - now \<le> 1000 * c" "1000 * c < e - now + 1000" by (simp_all only: of_int_le_iff of_int_less_iff)
  moreover have "ceilRetryAfterSeconds e now = max 1 c" by (simp only: ceilRetryAfterSeconds_def c_def)
  ultimately show "1 \<le> ceilRetryAfterSeconds e now" "e \<le> now + 1000 * ceilRetryAfterSeconds e now"
    "now + 1000 * ceilRetryAfterSeconds e now < e + 1000"
    using assms by simp_all
qed

lemma clamp_seconds:
  assumes "0 \<le> random" "random < 1"
  shows "n \<le> 60 \<Longrightarrow> clampRetryAfterSeconds random n = n"
    and "60 < n \<Longrightarrow> 45 \<le> clampRetryAfterSeconds random n \<and> clampRetryAfterSeconds random n \<le> 55"
proof -
  have "0 \<le> \<lfloor>random * 11\<rfloor>" "\<lfloor>random * 11\<rfloor> < 11"
    using assms by (simp_all add: le_floor_iff floor_less_iff)
  then show "n \<le> 60 \<Longrightarrow> clampRetryAfterSeconds random n = n"
    "60 < n \<Longrightarrow> 45 \<le> clampRetryAfterSeconds random n \<and> clampRetryAfterSeconds random n \<le> 55"
    by (auto simp: clampRetryAfterSeconds_def RETRY_AFTER_RECHECK_CEILING_SECONDS_def RECHECK_MIN_SECONDS_def RECHECK_MAX_SECONDS_def)
qed

lemma fold_min_Min: "foldl min y ys = Min (set (y # ys))" for y :: "'a :: linorder"
proof (induction ys arbitrary: y)
  case (Cons a ys)
  then show ?case by (cases "ys = []") (simp_all add: ac_simps)
qed simp

lemma least_of_Some: "least_of xs = Some x \<longleftrightarrow> xs \<noteq> [] \<and> x = Min (set xs)"
  by (cases xs) (auto simp: least_of_def fold_min_Min)

text \<open>The future deadlines a refusal knows.\<close>

definition known_deadlines :: "weekly_excluded list \<Rightarrow> (string \<times> int) option \<Rightarrow> int \<Rightarrow> int set" where
  "known_deadlines excluded sibling now = {t \<in> we_resetAt ` set excluded \<union> snd ` set_option sibling. now < t}"

lemma refusal_deadline:
  "fr_earliestKnownReset (createFamilyWeeklyExhaustedResponse random excluded now sibling) =
    (if known_deadlines excluded sibling now = {} then None else Some (Min (known_deadlines excluded sibling now)))"
proof -
  define R where "R = filter (\<lambda>r. r > now) (map we_resetAt excluded)"
  define C where "C = (case sibling of None \<Rightarrow> None | Some (_, t) \<Rightarrow> if t > now then Some t else None)"
  have known: "known_deadlines excluded sibling now = set R \<union> set_option C"
    by (auto simp: known_deadlines_def R_def C_def split: option.splits if_splits)
  have "fr_earliestKnownReset (createFamilyWeeklyExhaustedResponse random excluded now sibling) =
      (case (least_of R, C) of (Some a, Some b) \<Rightarrow> Some (min a b) | (Some a, None) \<Rightarrow> Some a | (None, b) \<Rightarrow> b)"
    by (simp add: createFamilyWeeklyExhaustedResponse_def Let_def R_def C_def)
  also have "\<dots> = (if set R \<union> set_option C = {} then None else Some (Min (set R \<union> set_option C)))"
  proof (cases "R = []")
    case True
    then show ?thesis by (cases C) (simp_all add: least_of_def)
  next
    case False
    then have "least_of R = Some (Min (set R))" by (simp add: least_of_Some)
    with False show ?thesis by (cases C) (simp_all add: min.commute)
  qed
  finally show ?thesis by (simp add: known)
qed

lemma refusal_retry:
  "fr_retryAfter (createFamilyWeeklyExhaustedResponse random excluded now sibling) =
    (case fr_earliestKnownReset (createFamilyWeeklyExhaustedResponse random excluded now sibling) of
       Some e \<Rightarrow> clampRetryAfterSeconds random (ceilRetryAfterSeconds e now) | None \<Rightarrow> 60)"
  by (simp add: createFamilyWeeklyExhaustedResponse_def Let_def DEFAULT_RECHECK_RETRY_AFTER_SECONDS_def cong: option.case_cong)

subsection \<open>The memo\<close>

lemma key_inj: "keyFor i f = keyFor j g \<longleftrightarrow> i = j \<and> f = g"
proof
  have nocolon: "CHR '':'' \<notin> set (family_string f)" for f by (cases f) simp_all
  assume "keyFor i f = keyFor j g"
  then have eq: "rev (family_string f) @ CHR '':'' # rev i = rev (family_string g) @ CHR '':'' # rev j"
    unfolding keyFor_def by (metis append_Cons append_Nil append_assoc rev_append rev.simps(2) rev_swap)
  have tw: "takeWhile (\<lambda>c. c \<noteq> CHR '':'') (xs @ CHR '':'' # ys) = xs" if "CHR '':'' \<notin> set xs" for xs ys :: string
    using that by (induction xs) auto
  have "rev (family_string f) = rev (family_string g)"
    using tw [of "rev (family_string f)" "rev i"] tw [of "rev (family_string g)" "rev j"] nocolon eq by simp
  with eq have "i = j" "family_string f = family_string g" by auto
  then show "i = j \<and> f = g" by (cases f; cases g) simp_all
qed simp

datatype memo_event =
    Family_refused string model_family int int
  | Memo_read string model_family int
  | Served string model_family int
  | Account_removed string

definition memo_step :: "memo \<Rightarrow> memo_event \<Rightarrow> memo" where
  "memo_step m ev = (case ev of
     Family_refused i f until now \<Rightarrow> fst (recordFamilyWeeklyExhausted i f until now m)
   | Memo_read i f now \<Rightarrow> fst (getFamilyWeeklyExhaustedUntil i f now m)
   | Served i f started \<Rightarrow> clearFamilyWeeklyExhausted i f started m
   | Account_removed i \<Rightarrow> clearFamilyWeeklyExhaustedForAccount i m)"

definition memo_inv :: "memo \<Rightarrow> bool" where
  "memo_inv m \<longleftrightarrow> jm_wf m \<and> length m \<le> MAX_MEMO_ENTRIES
     \<and> (\<forall>x \<in> set m. memo_observedAt (snd x) < memo_resetAt (snd x) \<and> memo_resetAt (snd x) \<le> memo_observedAt (snd x) + MAX_MEMO_HORIZON_MS)"

lemma memo_sub: "memo_inv m \<Longrightarrow> memo_inv (filter P m)"
  by (auto simp: memo_inv_def intro: jm_wf_intros order_trans [OF length_filter_le])

lemma memo_delete: "memo_inv m \<Longrightarrow> memo_inv (jm_delete m k)"
  unfolding jm_delete_filter by (rule memo_sub)

lemma memo_record:
  assumes "memo_inv m"
  shows "memo_inv (fst (recordFamilyWeeklyExhausted i f until now m))"
proof -
  let ?m = "pruneExpired now m" and ?k = "keyFor i f" and ?e = "\<lparr>memo_resetAt = until, memo_observedAt = now\<rparr>"
  have m: "memo_inv ?m" using memo_sub [OF assms] by (simp add: pruneExpired_def)
  have "length (jm_set ?m ?k ?e) \<le> MAX_MEMO_ENTRIES" if "\<not> (length ?m \<ge> MAX_MEMO_ENTRIES \<and> \<not> jm_has ?m ?k)"
  proof (cases "jm_has ?m ?k")
    case True
    with m show ?thesis by (simp add: memo_inv_def jm_length_set_known)
  next
    case False
    with that jm_length_set_le [of ?m ?k ?e] show ?thesis by simp
  qed
  then show ?thesis using m assms
    by (auto simp: recordFamilyWeeklyExhausted_def memo_inv_def Let_def jm_wf_set dest!: jm_set_in_set)
qed

lemma memo_step_inv: "memo_inv m \<Longrightarrow> memo_inv (memo_step m ev)"
  by (cases ev) (auto simp: memo_step_def memo_record getFamilyWeeklyExhaustedUntil_def clearFamilyWeeklyExhausted_def
      clearFamilyWeeklyExhaustedForAccount_def memo_sub memo_delete Let_def split: option.split)

interpretation memo: invariant_system memo_step memo_inv
  by unfold_locales (rule memo_step_inv)

text \<open>What one event does to the finding on one account and family.\<close>

lemma memo_get_prune:
  "jm_wf m \<Longrightarrow> jm_get (pruneExpired now m) k = (case jm_get m k of None \<Rightarrow> None | Some e \<Rightarrow> if now < memo_resetAt e then Some e else None)"
  by (auto simp: pruneExpired_def jm_get_filter not_le split: option.splits)


lemma memo_step_known:
  assumes "jm_wf m" and "jm_get (memo_step m ev) (keyFor i f) = Some e"
  shows "ev = Family_refused i f (memo_resetAt e) (memo_observedAt e)
    \<or> jm_get m (keyFor i f) = Some e \<and> (\<forall>s. ev = Served i f s \<longrightarrow> s \<le> memo_observedAt e) \<and> ev \<noteq> Account_removed i"
proof (cases ev)
  case (Family_refused j g until now)
  with assms show ?thesis
    by (auto simp: memo_step_def recordFamilyWeeklyExhausted_def Let_def memo_get_prune key_inj split: if_splits option.splits)
next
  case (Memo_read j g now)
  with assms show ?thesis
    by (auto simp: memo_step_def getFamilyWeeklyExhaustedUntil_def Let_def split: if_splits option.splits)
next
  case (Served j g started)
  with assms show ?thesis
    by (auto simp: memo_step_def clearFamilyWeeklyExhausted_def Let_def key_inj split: if_splits option.splits)
next
  case (Account_removed j)
  with assms show ?thesis
    by (auto simp: memo_step_def clearFamilyWeeklyExhaustedForAccount_def jm_get_filter keyFor_def starts_with_iff
        split: if_splits option.splits)
qed

text \<open>A finding in the memo after a run comes from one refusal, which nothing since has overtaken.\<close>

lemma memo_run_known:
  "jm_get (foldl memo_step [] es) (keyFor i f) = Some e \<Longrightarrow>
    \<exists>before since. es = before @ Family_refused i f (memo_resetAt e) (memo_observedAt e) # since
      \<and> (\<forall>s. Served i f s \<in> set since \<longrightarrow> s \<le> memo_observedAt e) \<and> Account_removed i \<notin> set since"
proof (induction es rule: rev_induct)
  case Nil
  then show ?case by (simp add: jm_get_def)
next
  case (snoc ev es)
  let ?m = "foldl memo_step [] es"
  have "memo_inv ?m" by (rule memo.run_inv) (simp add: memo_inv_def)
  then have "jm_wf ?m" by (simp add: memo_inv_def)
  with snoc.prems consider "ev = Family_refused i f (memo_resetAt e) (memo_observedAt e)"
    | "jm_get ?m (keyFor i f) = Some e" "\<forall>s. ev = Served i f s \<longrightarrow> s \<le> memo_observedAt e" "ev \<noteq> Account_removed i"
    using memo_step_known [of ?m ev i f e] by auto
  then show ?case
  proof cases
    case 1
    then show ?thesis by (intro exI [of _ es] exI [of _ "[]"]) simp
  next
    case 2
    with snoc.IH obtain before since where
      "es = before @ Family_refused i f (memo_resetAt e) (memo_observedAt e) # since"
      "\<forall>s. Served i f s \<in> set since \<longrightarrow> s \<le> memo_observedAt e" "Account_removed i \<notin> set since" by blast
    with 2 show ?thesis by (intro exI [of _ before] exI [of _ "since @ [ev]"]) auto
  qed
qed

text \<open>
  C35. The memo of refused families never forgets its bound and never invents a finding: after any run
  of refusals, reads, successes and removals it holds at most a thousand entries, and a read that reports
  the family of an account as spent until t names a 429 of exactly that account and family, observed
  before t and at most fourteen days ahead of it, with no success of that family that started after the
  429 and no removal of the account since. A success that started no later than the 429 erases nothing.
\<close>

theorem family_memo_sound:
  assumes "m = foldl memo_step [] es"
  shows "length m \<le> MAX_MEMO_ENTRIES
    \<and> (\<forall>i f now t. snd (getFamilyWeeklyExhaustedUntil i f now m) = Some t \<longrightarrow>
        now < t \<and> (\<exists>before since observed.
          es = before @ Family_refused i f t observed # since
          \<and> observed < t \<and> t \<le> observed + 14 * 24 * 60 * 60 * 1000
          \<and> (\<forall>s. Served i f s \<in> set since \<longrightarrow> s \<le> observed) \<and> Account_removed i \<notin> set since))
    \<and> (\<forall>i f s e. jm_get m (keyFor i f) = Some e \<longrightarrow> s \<le> memo_observedAt e \<longrightarrow> memo_step m (Served i f s) = m)"
proof -
  have inv: "memo_inv m" unfolding assms by (rule memo.run_inv) (simp add: memo_inv_def)
  have "now < t \<and> (\<exists>before since observed. es = before @ Family_refused i f t observed # since
      \<and> observed < t \<and> t \<le> observed + 14 * 24 * 60 * 60 * 1000
      \<and> (\<forall>s. Served i f s \<in> set since \<longrightarrow> s \<le> observed) \<and> Account_removed i \<notin> set since)"
    if read: "snd (getFamilyWeeklyExhaustedUntil i f now m) = Some t" for i f now t
  proof -
    obtain e where e: "jm_get m (keyFor i f) = Some e" "now < t" "memo_resetAt e = t"
      using read by (auto simp: getFamilyWeeklyExhaustedUntil_def Let_def not_le split: option.splits if_splits)
    from e(1) have "(keyFor i f, e) \<in> set m" by (simp add: jm_get_def map_of_SomeD)
    with inv e(3) have "memo_observedAt e < t" "t \<le> memo_observedAt e + 14 * 24 * 60 * 60 * 1000"
      by (auto simp: memo_inv_def MAX_MEMO_HORIZON_MS_def)
    with memo_run_known [of es i f e] e show ?thesis unfolding assms by blast
  qed
  moreover have "memo_step m (Served i f s) = m" if "jm_get m (keyFor i f) = Some e" "s \<le> memo_observedAt e" for i f s e
    using that by (simp add: memo_step_def clearFamilyWeeklyExhausted_def Let_def)
  ultimately show ?thesis using inv unfolding memo_inv_def by blast
qed

theorem family_memo_sound_witness:
  "snd (getFamilyWeeklyExhaustedUntil ''a'' Opus 20 (foldl memo_step [] [Family_refused ''a'' Opus 100 10, Served ''a'' Opus 5])) = Some 100
    \<and> length (foldl memo_step [] [Family_refused ''a'' Opus 100 10, Served ''a'' Opus 5]) \<le> MAX_MEMO_ENTRIES"
proof
  show "snd (getFamilyWeeklyExhaustedUntil ''a'' Opus 20 (foldl memo_step [] [Family_refused ''a'' Opus 100 10, Served ''a'' Opus 5])) = Some 100"
    by code_simp
  show "length (foldl memo_step [] [Family_refused ''a'' Opus 100 10, Served ''a'' Opus 5]) \<le> MAX_MEMO_ENTRIES"
    using family_memo_sound [OF refl] by (rule conjunct1)
qed

text \<open>
  What a client is told when a family is spent on every account: the instant named is the earliest
  known deadline still ahead (a reset of an excluded account, or the end of the cooldown of a sibling),
  and none when there is none; Retry-After lies between 1 and 60 seconds; a deadline at most 60 seconds
  ahead is never undercut and is overshot by less than a second; a later one gives a retry after 45 to
  55 seconds, before the deadline.
\<close>

lemma family_refusal_advice:
  assumes "0 \<le> random" "random < 1" and "r = createFamilyWeeklyExhaustedResponse random excluded now sibling"
  shows "1 \<le> fr_retryAfter r \<and> fr_retryAfter r \<le> 60
    \<and> fr_earliestKnownReset r = (if known_deadlines excluded sibling now = {} then None
         else Some (Min (known_deadlines excluded sibling now)))
    \<and> (\<forall>e. fr_earliestKnownReset r = Some e \<longrightarrow>
         (if e \<le> now + 60000 then e \<le> now + 1000 * fr_retryAfter r \<and> now + 1000 * fr_retryAfter r < e + 1000
          else 45 \<le> fr_retryAfter r \<and> fr_retryAfter r \<le> 55))"
proof (cases "fr_earliestKnownReset r")
  case None
  with assms(3) show ?thesis by (simp add: refusal_retry flip: refusal_deadline [of random])
next
  case (Some e)
  have "known_deadlines excluded sibling now \<noteq> {}" "e = Min (known_deadlines excluded sibling now)"
    using Some unfolding assms(3) refusal_deadline by (simp_all split: if_splits)
  moreover have "finite (known_deadlines excluded sibling now)" by (simp add: known_deadlines_def)
  ultimately have "now < e" using Min_in by (auto simp: known_deadlines_def)
  note ceil = ceil_seconds [OF this]
  have retry: "fr_retryAfter r = clampRetryAfterSeconds random (ceilRetryAfterSeconds e now)"
    using Some unfolding assms(3) by (simp add: refusal_retry)
  have "ceilRetryAfterSeconds e now \<le> 60 \<longleftrightarrow> e \<le> now + 60000" using ceil by linarith
  with Some ceil clamp_seconds [OF assms(1,2), of "ceilRetryAfterSeconds e now"] show ?thesis
    unfolding retry by (auto simp: assms(3) simp flip: refusal_deadline [of random])
qed

text \<open>
  A refusal is read as the exhaustion of one family only on evidence for it: the account is an
  official Anthropic one, the request has a known family, the response carries a scoped claim with status
  rejected, and no account-wide claim of it rejects. A reset it reports lies ahead.
\<close>

lemma header_verdict_scoped:
  assumes "resolveFamilyWeeklyExclusionFromHeaders a model h now = Some x"
  shows "provider a = ANTHROPIC \<and> custom_endpoint a \<in> {None, Some []} \<and> he_account x = a
    \<and> family_of model = Some (he_family x) \<and> jm_get h (UNIFIED @ ''status'') = Some ''rejected''
    \<and> \<not> hasAccountWideUnifiedRejection h
    \<and> (\<exists>token. is_scoped_token token \<and> (claim_header token ''status'', ''rejected'') \<in> set h)
    \<and> (\<forall>r. he_resetAt x = Some r \<longrightarrow> of_int now < r)"
proof -
  obtain f room soonest where x: "x = \<lparr>he_account = a, he_family = f, he_resetAt = soonest\<rparr>"
    and f: "family_of model = Some f" and room: "getAccountWideClaimHeadroom h = Some room"
    and scoped: "getScopedClaimRejection h now = Some soonest"
    and rest: "provider a = ANTHROPIC" "custom_endpoint a \<in> {None, Some []}" "jm_get h (UNIFIED @ ''status'') = Some ''rejected''"
    using assms by (auto simp: resolveFamilyWeeklyExclusionFromHeaders_def split: if_splits option.splits)
  from scoped obtain name token where "(name, ''rejected'') \<in> set h" "status_token name = Some token" "is_scoped_token token"
    using scoped_rejection_iff [of h now] by auto
  with x f rest headroom_excludes_rejection [OF room] scoped scoped_soonest_future [of h now] show ?thesis
    by (auto dest!: status_token_name)
qed

end
