(* ===== verification/AdmissionGates.thy ===== *)
theory AdmissionGates
  imports ResolvedRoute FamilyGates ProbeGate Registries SessionStrategy
begin

section \<open>Admission gates of a request\<close>

text \<open>
  \<^verbatim>\<open>proxy/src/admission-gates.ts\<close>: the gates and reorders between the strategy's ranking and the attempt loop, and
  their composition in \<^verbatim>\<open>handleProxy\<close> of \<^verbatim>\<open>proxy/src/proxy.ts\<close>. A gate may throw the routing error of
  \<^verbatim>\<open>getAttemptTarget\<close> (\<^verbatim>\<open>proxy/src/resolved-route.ts\<close>); results are sums with the error on the left, and what
  a gate wrote before it throws is left open. The caches and stores a gate only reads are the record \<open>gate_env\<close>;
  the lists a request accumulates, the latest soft demotion and the two failure memos are \<open>gate_lists\<close>.
  Every gate takes its own reading of the clock. The credential scope of an account is a digest, here a function.
  Shown: the pipeline throws exactly when a selected account has no authorized target; otherwise it keeps the
  accounts every gate passes, in an order given explicitly, and records each account it drops; a liveness
  reserve never holds back the whole pool; the pin moves only after a durable exclusion.
\<close>

subsection \<open>Context windows of Codex models\<close>

definition MODEL_CONTEXT_WINDOWS :: "(string, int) jsmap" where
  "MODEL_CONTEXT_WINDOWS =
    [(''gpt-5.5'', 272000), (''gpt-5.4'', 272000), (''gpt-5.4-mini'', 272000), (''gpt-5.3-codex-spark'', 128000),
     (''gpt-5.6-sol'', 272000), (''gpt-5.6-terra'', 272000), (''gpt-5.6-luna'', 272000), (''gpt-6-astra'', 272000),
     (''gpt-6.1-sol'', 272000), (''gpt-6-sol'', 272000), (''gpt-6-luna'', 272000)]"

definition MODEL_MAX_CONTEXT_WINDOWS :: "(string, int) jsmap" where
  "MODEL_MAX_CONTEXT_WINDOWS = [(''gpt-6-astra'', 872000)]"

definition SAFETY_MARGIN :: rat where "SAFETY_MARGIN = 97 / 100"

text \<open>\<^verbatim>\<open>/^(.+)-\d{4}-\d{2}-\d{2}$/\<close>; the dot matches no line terminator.\<close>

definition dated_suffix :: "string \<Rightarrow> bool" where
  "dated_suffix s \<longleftrightarrow> length s = 11 \<and> (\<forall>i < 11. if i \<in> {0, 5, 8} then s ! i = CHR ''-'' else is_digit (s ! i))"

definition stripDatedModelSuffix :: "string \<Rightarrow> string option" where
  "stripDatedModelSuffix model =
     (let n = length model - 11; base = take n model in
      if 0 < n \<and> dated_suffix (drop n model) \<and> list_all (\<lambda>c. c \<noteq> CHR 10 \<and> c \<noteq> CHR 13) base then Some base else None)"

definition resolveModelContextWindow :: "string \<Rightarrow> int option" where
  "resolveModelContextWindow model = (case jm_get MODEL_CONTEXT_WINDOWS model of
     Some w \<Rightarrow> Some w
   | None \<Rightarrow> Option.bind (stripDatedModelSuffix model) (jm_get MODEL_CONTEXT_WINDOWS))"

definition resolveModelMaxContextWindow :: "string \<Rightarrow> int option" where
  "resolveModelMaxContextWindow model = (case jm_get MODEL_MAX_CONTEXT_WINDOWS model of
     Some w \<Rightarrow> Some w
   | None \<Rightarrow> (case Option.bind (stripDatedModelSuffix model) (jm_get MODEL_MAX_CONTEXT_WINDOWS) of
       Some w \<Rightarrow> Some w
     | None \<Rightarrow> resolveModelContextWindow model))"

subsection \<open>State\<close>

definition USAGE_CACHE_TTL_MS :: int where "USAGE_CACHE_TTL_MS = 10 * 60 * 1000"

record gate_env =
  resolved_route :: "route option"
  scope_of :: "account \<Rightarrow> string"
  gateTokenEstimate :: rat
  isSyntheticProbeRequest :: bool
  throttling :: throttle_settings
  cache_peek :: "string \<Rightarrow> usage_payload option"
  cache_pollFreshAt :: "string \<Rightarrow> int \<Rightarrow> int option"
  cache_view :: "string \<Rightarrow> string \<Rightarrow> int \<Rightarrow> usage_view option"
  overload_state :: breaker
  probe_gates :: gate_state
  protected_demand :: demand
  weekly_slopes :: slopes

record gate_lists =
  contextExcludedAccounts :: "(account \<times> string) list"
  familyWeeklyExcludedAccounts :: "weekly_excluded list"
  familyWeeklyPacedAccounts :: "weekly_paced list"
  softDemotionReasons :: "(string, string) jsmap"
  softDemotionHead :: "account option"
  livenessHeldAtEveryTier :: "string list"
  family_memo :: memo
  transient_failures :: failures

definition modelForAccount :: "gate_env \<Rightarrow> account \<Rightarrow> routing_policy_error + string" where
  "modelForAccount env a = map_sum id upstreamModel (getAttemptTarget (scope_of env) (resolved_route env) a)"

subsection \<open>Provider overload\<close>

definition overload_step ::
  "gate_env \<Rightarrow> int \<Rightarrow> account list \<times> (account \<times> int) list \<Rightarrow> account
    \<Rightarrow> routing_policy_error + (account list \<times> (account \<times> int) list)" where
  "overload_step env now acc a = bind_result (modelForAccount env a) (\<lambda>m.
     let until = getProviderOverloadUntil (provider a) now (Some m) (overload_state env) in
     Inr (if truthy until then (fst acc, snd acc @ [(a, the until)]) else (fst acc @ [a], snd acc)))"

definition applyProviderOverloadGate ::
  "gate_env \<Rightarrow> int \<Rightarrow> account list \<Rightarrow> routing_policy_error + (account list \<times> (account \<times> int) list)" where
  "applyProviderOverloadGate env now accounts = fold_result (overload_step env now) ([], []) accounts"

definition shouldForwardProviderOverloadIfNoCrossProviderFallback ::
  "gate_env \<Rightarrow> int \<Rightarrow> account list \<Rightarrow> nat \<Rightarrow> routing_policy_error + bool" where
  "shouldForwardProviderOverloadIfNoCrossProviderFallback env now candidates index =
     (if index \<ge> length candidates
         \<or> getProviderOverloadKey (provider (candidates ! index)) \<noteq> ANTHROPIC_UPSTREAM_OVERLOAD_KEY
      then Inr False
      else let currentKey = getProviderOverloadKey (provider (candidates ! index)) in
        map_sum id Not (some_result (\<lambda>a.
            if getProviderOverloadKey (provider a) = currentKey then Inr False
            else map_sum id (\<lambda>m. \<not> isProviderOverloaded (provider a) now (Some m) (overload_state env)) (modelForAccount env a))
          (drop (index + 1) candidates)))"

definition everyRemainingCandidateUnattemptable ::
  "gate_env \<Rightarrow> int \<Rightarrow> account list \<Rightarrow> nat \<Rightarrow> routing_policy_error + bool" where
  "everyRemainingCandidateUnattemptable env now candidates index =
     every_result (\<lambda>a.
         if \<not> isAccountAvailable a now \<or> wouldSuppressProbe a now (probe_gates env) then Inr True
         else map_sum id (\<lambda>m. isProviderOverloaded (provider a) now (Some m) (overload_state env)) (modelForAccount env a))
       (drop (index + 1) candidates)"

subsection \<open>Usage throttling\<close>

definition is_throttled :: "gate_env \<Rightarrow> int \<Rightarrow> account \<Rightarrow> bool" where
  "is_throttled env now a \<longleftrightarrow>
     (case getUsageThrottleUntil
         (getFreshRoutingUsage (cache_view env) (acc_id a) (provider a) now USAGE_CACHE_TTL_MS)
         (throttling env) now (provider a) (nonRenewingSubscriptionEnd a now) of
        None \<Rightarrow> False
      | Some t \<Rightarrow> t \<noteq> 0 \<and> t > of_int now)"

definition applyUsageThrottling :: "gate_env \<Rightarrow> int \<Rightarrow> account list \<Rightarrow> account list \<times> account list" where
  "applyUsageThrottling env now accounts =
     (if isSyntheticProbeRequest env then (accounts, [])
      else if \<not> fiveHourEnabled (throttling env) \<and> \<not> weeklyEnabled (throttling env) then (accounts, [])
      else foldl (\<lambda>(available, throttled) a.
             if is_throttled env now a then (available, throttled @ [a]) else (available @ [a], throttled)) ([], []) accounts)"

subsection \<open>Context window\<close>

definition context_step ::
  "gate_env \<Rightarrow> account list \<times> gate_lists \<Rightarrow> account \<Rightarrow> routing_policy_error + (account list \<times> gate_lists)" where
  "context_step env acc a =
     (if provider a \<noteq> CODEX then Inr (fst acc @ [a], snd acc)
      else bind_result (modelForAccount env a) (\<lambda>m. Inr (
        case resolveModelMaxContextWindow m of
          None \<Rightarrow> (fst acc @ [a], snd acc)
        | Some w \<Rightarrow>
            if gateTokenEstimate env > of_int \<lfloor>of_int w * SAFETY_MARGIN\<rfloor>
            then (fst acc,
                  if list_ex (\<lambda>(b, _). acc_id b = acc_id a) (contextExcludedAccounts (snd acc)) then snd acc
                  else (snd acc)\<lparr>contextExcludedAccounts := contextExcludedAccounts (snd acc) @ [(a, m)]\<rparr>)
            else (fst acc @ [a], snd acc))))"

definition applyContextWindowGate ::
  "gate_env \<Rightarrow> account list \<Rightarrow> gate_lists \<Rightarrow> routing_policy_error + (account list \<times> gate_lists)" where
  "applyContextWindowGate env candidates g = fold_result (context_step env) ([], g) candidates"

subsection \<open>Weekly quota of the family\<close>

definition family_step ::
  "gate_env \<Rightarrow> int \<Rightarrow> account list \<times> gate_lists \<Rightarrow> account \<Rightarrow> routing_policy_error + (account list \<times> gate_lists)" where
  "family_step env now acc a =
     (if provider a \<noteq> ANTHROPIC then Inr (fst acc @ [a], snd acc)
      else bind_result (modelForAccount env a) (\<lambda>m.
        let capacity = getFreshPollCapacity (cache_peek env) (cache_pollFreshAt env) (acc_id a) (provider a) now
              FAMILY_WEEKLY_MAX_USAGE_AGE_MS;
            usage = cache_peek env (acc_id a);
            g = snd acc
        in Inr (case resolveFamilyWeeklyExclusion a (Some m) usage capacity now of
          Some x \<Rightarrow> (fst acc,
            if list_ex (\<lambda>e. acc_id (we_account e) = acc_id a) (familyWeeklyExcludedAccounts g) then g
            else g\<lparr>familyWeeklyExcludedAccounts := familyWeeklyExcludedAccounts g @ [x]\<rparr>)
        | None \<Rightarrow>
            (case if \<not> isSyntheticProbeRequest env \<and> weeklyEnabled (throttling env)
                  then resolveFamilyWeeklyPacing a (Some m) usage capacity now else None of
               Some x \<Rightarrow> (fst acc,
                 if list_ex (\<lambda>e. acc_id (wp_account e) = acc_id a) (familyWeeklyPacedAccounts g) then g
                 else g\<lparr>familyWeeklyPacedAccounts := familyWeeklyPacedAccounts g @ [x]\<rparr>)
             | None \<Rightarrow> (fst acc @ [a], g)))))"

definition applyFamilyWeeklyGate ::
  "gate_env \<Rightarrow> int \<Rightarrow> account list \<Rightarrow> gate_lists \<Rightarrow> routing_policy_error + (account list \<times> gate_lists)" where
  "applyFamilyWeeklyGate env now candidates g = fold_result (family_step env now) ([], g) candidates"

subsection \<open>Failure memos\<close>

definition memo_demotion_step ::
  "gate_env \<Rightarrow> int \<Rightarrow> (account list \<times> account list) \<times> gate_lists \<Rightarrow> account
    \<Rightarrow> routing_policy_error + ((account list \<times> account list) \<times> gate_lists)" where
  "memo_demotion_step env now acc a =
     (case acc of ((kept, demoted), g) \<Rightarrow>
        let (fs, transientUntil) = (if provider a = CODEX \<and> \<not> isSyntheticProbeRequest env
              then getCodexTransientFailureUntil (acc_id a) now (transient_failures g) else (transient_failures g, None))
        in bind_result (if provider a = ANTHROPIC then map_sum id getModelFamily (modelForAccount env a) else Inr None) (\<lambda>family.
          let (m, resetAt) = (case family of None \<Rightarrow> (family_memo g, None)
                | Some f \<Rightarrow> getFamilyWeeklyExhaustedUntil (acc_id a) f now (family_memo g));
              g' = g\<lparr>transient_failures := fs, family_memo := m\<rparr>
          in Inr (if transientUntil \<noteq> None \<or> resetAt \<noteq> None then ((kept, demoted @ [a]), g')
                  else ((kept @ [a], demoted), g'))))"

definition applyFailureMemoDemotion ::
  "gate_env \<Rightarrow> int \<Rightarrow> account list \<Rightarrow> gate_lists \<Rightarrow> routing_policy_error + (account list \<times> gate_lists)" where
  "applyFailureMemoDemotion env now candidates g =
     map_sum id (\<lambda>((kept, demoted), g'). (if demoted \<noteq> [] then kept @ demoted else candidates, g'))
       (fold_result (memo_demotion_step env now) (([], []), g) candidates)"

subsection \<open>Soft demotion\<close>

definition capacity_snapshot :: "gate_env \<Rightarrow> int \<Rightarrow> account \<Rightarrow> capacity_signal option" where
  "capacity_snapshot env now a =
     getFreshRoutingCapacity (cache_view env) (acc_id a) (provider a) now FAMILY_WEEKLY_MAX_USAGE_AGE_MS"

definition tier_threshold :: "string \<Rightarrow> rat" where
  "tier_threshold m = resolveLivenessReserveThreshold (isProtectedFamily (getModelFamily m))"

record soft_maps =
  capacityById :: "(string, capacity_signal option) jsmap"
  familyDemote :: "(string, bool) jsmap"
  livenessThreshold :: "(string, rat) jsmap"

definition soft_capacity :: "soft_maps \<Rightarrow> string \<Rightarrow> capacity_signal option" where
  "soft_capacity sm i = Option.bind (jm_get (capacityById sm) i) id"

definition soft_step :: "gate_env \<Rightarrow> int \<Rightarrow> soft_maps \<Rightarrow> account \<Rightarrow> routing_policy_error + soft_maps" where
  "soft_step env now sm a = bind_result (modelForAccount env a) (\<lambda>m. Inr (
     sm\<lparr>familyDemote := jm_set (familyDemote sm) (acc_id a)
           (resolveReservationDemotion a (Some m) (cache_peek env (acc_id a)) (soft_capacity sm (acc_id a))
             (getLastProtectedFamilyDemand (acc_id a) (protected_demand env)) now),
        livenessThreshold := jm_set (livenessThreshold sm) (acc_id a) (tier_threshold m)\<rparr>))"

definition countAbsorbablePeers :: "gate_env \<Rightarrow> soft_maps \<Rightarrow> account list \<Rightarrow> account \<Rightarrow> rat \<Rightarrow> nat" where
  "countAbsorbablePeers env sm candidates a threshold =
     length (filter (\<lambda>peer. acc_id peer \<noteq> acc_id a
       \<and> isAbsorbablePeer (soft_capacity sm (acc_id peer)) (jm_get (familyDemote sm) (acc_id peer) = Some True)
           (hasCapacityRestoredProbePending (acc_id peer) (probe_gates env)) threshold) candidates)"

definition livenessDemotes :: "gate_env \<Rightarrow> int \<Rightarrow> soft_maps \<Rightarrow> account \<Rightarrow> rat \<Rightarrow> nat \<Rightarrow> bool" where
  "livenessDemotes env now sm a threshold absorbablePeerCount =
     resolvePoolLivenessDemotion (soft_capacity sm (acc_id a)) absorbablePeerCount now threshold
       (resolveEffectiveWeeklySlope (acc_id a) (soft_capacity sm (acc_id a)) now (weekly_slopes env))
       (nonRenewingSubscriptionEnd a now)"

record soft_loop =
  loop_reasons :: "(string, string) jsmap"
  loop_held :: "string list"
  loop_kept :: "account list"
  loop_demoted :: "account list"

definition held_liveness :: "gate_env \<Rightarrow> int \<Rightarrow> soft_maps \<Rightarrow> account list \<Rightarrow> account \<Rightarrow> bool" where
  "held_liveness env now sm candidates a =
     (let threshold = (case jm_get (livenessThreshold sm) (acc_id a) of
            Some t \<Rightarrow> t | None \<Rightarrow> resolveLivenessReserveThreshold False)
      in livenessDemotes env now sm a threshold (countAbsorbablePeers env sm candidates a threshold))"

definition demotion_step :: "gate_env \<Rightarrow> int \<Rightarrow> soft_maps \<Rightarrow> account list \<Rightarrow> soft_loop \<Rightarrow> account \<Rightarrow> soft_loop" where
  "demotion_step env now sm candidates l a =
     (let threshold = (case jm_get (livenessThreshold sm) (acc_id a) of
            Some t \<Rightarrow> t | None \<Rightarrow> resolveLivenessReserveThreshold False);
          livenessDemote = held_liveness env now sm candidates a;
          protectedTier = LIVENESS_RESERVE_PROTECTED_HEADROOM_PCT;
          held = (if livenessDemote \<and> (threshold = protectedTier
                \<or> livenessDemotes env now sm a protectedTier (countAbsorbablePeers env sm candidates a protectedTier))
              then List.insert (acc_id a) (loop_held l) else loop_held l);
          family = (jm_get (familyDemote sm) (acc_id a) = Some True)
      in if family \<or> livenessDemote
         then l\<lparr>loop_held := held,
                loop_reasons := jm_set (loop_reasons l) (acc_id a)
                  (if family \<and> livenessDemote then ''both'' else if family then ''family reservation'' else ''pool liveness''),
                loop_demoted := loop_demoted l @ [a]\<rparr>
         else l\<lparr>loop_held := held, loop_kept := loop_kept l @ [a]\<rparr>)"

definition soft_maps_of :: "gate_env \<Rightarrow> int \<Rightarrow> account list \<Rightarrow> routing_policy_error + soft_maps" where
  "soft_maps_of env now candidates = fold_result (soft_step env now)
     \<lparr>capacityById = foldl (\<lambda>m a. jm_set m (acc_id a) (capacity_snapshot env now a)) [] candidates,
      familyDemote = [], livenessThreshold = []\<rparr> candidates"

definition applySoftDemotionReorder ::
  "gate_env \<Rightarrow> int \<Rightarrow> account list \<Rightarrow> gate_lists \<Rightarrow> routing_policy_error + (account list \<times> gate_lists)" where
  "applySoftDemotionReorder env now candidates g = bind_result (soft_maps_of env now candidates) (\<lambda>sm.
     let l = foldl (demotion_step env now sm candidates)
           \<lparr>loop_reasons = [], loop_held = [], loop_kept = [], loop_demoted = []\<rparr> candidates
     in Inr (loop_kept l @ loop_demoted l,
          g\<lparr>softDemotionReasons := loop_reasons l,
            softDemotionHead := (case loop_kept l of [] \<Rightarrow> None | a # _ \<Rightarrow> Some a),
            livenessHeldAtEveryTier := loop_held l\<rparr>))"

subsection \<open>The pin\<close>

definition remembered_account :: "request_meta \<Rightarrow> string option" where
  "remembered_account meta = Option.bind (routing meta) (\<lambda>r. or_else (rt_heldAccountId r) (rt_selectedAccountId r))"

definition durable_exclusion :: "gate_lists \<Rightarrow> string \<Rightarrow> bool" where
  "durable_exclusion g i \<longleftrightarrow>
     list_ex (\<lambda>a. acc_id a = i) (map fst (contextExcludedAccounts g) @ map we_account (familyWeeklyExcludedAccounts g))"

definition reconcileAffinity ::
  "(string \<Rightarrow> string) \<Rightarrow> int \<Rightarrow> int \<Rightarrow> gate_env \<Rightarrow> gate_lists \<Rightarrow> account list \<Rightarrow> request_meta \<Rightarrow> session_state option
    \<Rightarrow> session_state option \<times> request_meta \<times> account list" where
  "reconcileAffinity hash clock now env g candidates meta strategy =
     (if isSyntheticProbeRequest env \<or> map_option rt_strategy (routing meta) \<noteq> Some ''session'' then (strategy, meta, candidates)
      else case (remembered_account meta, candidates) of
        (Some original, first # rest) \<Rightarrow>
          if original = [] \<or> list_ex (\<lambda>a. acc_id a = original) candidates then (strategy, meta, candidates)
          else if durable_exclusion g original then
            (case strategy of
               None \<Rightarrow> (None, meta, candidates)
             | Some s \<Rightarrow> (case reassignAffinity hash clock now meta first s of (s', meta', first') \<Rightarrow> (Some s', meta', first' # rest)))
          else (strategy, meta, candidates)
      | _ \<Rightarrow> (strategy, meta, candidates))"

definition FOLLOWABLE_AFFINITY_DECISIONS :: "string list" where
  "FOLLOWABLE_AFFINITY_DECISIONS = [''affinity_hit'', ''affinity_miss'', ''affinity_reassigned'']"

definition prepareSoftDemotionFollow ::
  "gate_env \<Rightarrow> gate_lists \<Rightarrow> string \<Rightarrow> request_meta \<Rightarrow> account list \<Rightarrow> (string \<times> account) option" where
  "prepareSoftDemotionFollow env g path meta candidates = (case routing meta of
     None \<Rightarrow> None
   | Some r \<Rightarrow>
       if isSyntheticProbeRequest env \<or> path = ''/v1/messages/count_tokens'' \<or> rt_strategy r \<noteq> ''session''
           \<or> rt_decision r \<notin> set FOLLOWABLE_AFFINITY_DECISIONS then None
       else case List.find (\<lambda>a. Some (acc_id a) = remembered_account meta) candidates of
         None \<Rightarrow> None
       | Some held \<Rightarrow> (case (softDemotionHead g, jm_get (softDemotionReasons g) (acc_id held)) of
           (Some head, Some reason) \<Rightarrow>
             if reason = [] \<or> map_option acc_id (case candidates of [] \<Rightarrow> None | a # _ \<Rightarrow> Some a) \<noteq> Some (acc_id head)
                 \<or> acc_id head = acc_id held \<or> provider head \<noteq> provider held
                 \<or> (trimmed (affinityModel meta) = None
                    \<and> (reason \<noteq> ''pool liveness'' \<or> acc_id held \<notin> set (livenessHeldAtEveryTier g)))
             then None else Some (acc_id held, head)
         | _ \<Rightarrow> None))"

definition followServedAccount ::
  "(string \<Rightarrow> string) \<Rightarrow> int \<Rightarrow> (string \<times> account) option \<Rightarrow> account \<Rightarrow> request_meta \<Rightarrow> session_state option \<Rightarrow> session_state option" where
  "followServedAccount hash now follow served meta strategy = (case follow of
     None \<Rightarrow> strategy
   | Some (pin, head) \<Rightarrow>
       if acc_id served = acc_id head then map_option (followAffinity hash now meta pin head) strategy else strategy)"

subsection \<open>The pipeline\<close>

record admission =
  adm_overloaded :: "(account \<times> int) list"
  adm_throttled :: "account list"
  adm_accounts :: "account list"
  adm_lists :: gate_lists

text \<open>The gates in the order \<^verbatim>\<open>handleProxy\<close> applies them, with the five readings of the clock.\<close>

definition run_gates :: "gate_env \<Rightarrow> (nat \<Rightarrow> int) \<Rightarrow> account list \<Rightarrow> gate_lists \<Rightarrow> routing_policy_error + admission" where
  "run_gates env clock selected g =
     bind_result (applyProviderOverloadGate env (clock 0) selected) (\<lambda>(available, overloaded).
     let (unthrottled, throttled) = applyUsageThrottling env (clock 1) available in
     bind_result (applyFamilyWeeklyGate env (clock 2) unthrottled g) (\<lambda>(postFamily, g1).
     bind_result (applyContextWindowGate env postFamily g1) (\<lambda>(fitting, g2).
     bind_result (applySoftDemotionReorder env (clock 3) fitting g2) (\<lambda>(reordered, g3).
     bind_result (applyFailureMemoDemotion env (clock 4) reordered g3) (\<lambda>(accounts, g4).
     Inr \<lparr>adm_overloaded = overloaded, adm_throttled = throttled, adm_accounts = accounts, adm_lists = g4\<rparr>)))))"

subsection \<open>What each gate decides\<close>

definition resolvable :: "gate_env \<Rightarrow> account \<Rightarrow> bool" where
  "resolvable env a \<longleftrightarrow> \<not> isl (modelForAccount env a)"

definition model_of :: "gate_env \<Rightarrow> account \<Rightarrow> string" where
  "model_of env a = projr (modelForAccount env a)"

lemma model_resolvable: "resolvable env a \<Longrightarrow> modelForAccount env a = Inr (model_of env a)"
  by (cases "modelForAccount env a") (simp_all add: resolvable_def model_of_def)

definition overload_until :: "gate_env \<Rightarrow> int \<Rightarrow> account \<Rightarrow> int option" where
  "overload_until env now a = getProviderOverloadUntil (provider a) now (Some (model_of env a)) (overload_state env)"

definition paces :: "gate_env \<Rightarrow> bool" where
  "paces env \<longleftrightarrow> \<not> isSyntheticProbeRequest env \<and> weeklyEnabled (throttling env)"

definition throttles :: "gate_env \<Rightarrow> bool" where
  "throttles env \<longleftrightarrow> \<not> isSyntheticProbeRequest env \<and> (fiveHourEnabled (throttling env) \<or> weeklyEnabled (throttling env))"

definition poll_capacity :: "gate_env \<Rightarrow> int \<Rightarrow> account \<Rightarrow> capacity_signal option" where
  "poll_capacity env now a =
     getFreshPollCapacity (cache_peek env) (cache_pollFreshAt env) (acc_id a) (provider a) now FAMILY_WEEKLY_MAX_USAGE_AGE_MS"

definition family_spent :: "gate_env \<Rightarrow> int \<Rightarrow> account \<Rightarrow> weekly_excluded option" where
  "family_spent env now a = (if provider a \<noteq> ANTHROPIC then None
     else resolveFamilyWeeklyExclusion a (Some (model_of env a)) (cache_peek env (acc_id a)) (poll_capacity env now a) now)"

definition family_paced :: "gate_env \<Rightarrow> int \<Rightarrow> account \<Rightarrow> weekly_paced option" where
  "family_paced env now a = (if provider a \<noteq> ANTHROPIC \<or> \<not> paces env then None
     else resolveFamilyWeeklyPacing a (Some (model_of env a)) (cache_peek env (acc_id a)) (poll_capacity env now a) now)"

definition overflows :: "gate_env \<Rightarrow> account \<Rightarrow> bool" where
  "overflows env a \<longleftrightarrow> provider a = CODEX
     \<and> (case resolveModelMaxContextWindow (model_of env a) of None \<Rightarrow> False
        | Some w \<Rightarrow> gateTokenEstimate env > of_int \<lfloor>of_int w * SAFETY_MARGIN\<rfloor>)"

lemma overload_gate:
  assumes "\<forall>a \<in> set xs. resolvable env a"
  shows "applyProviderOverloadGate env now xs = Inr (filter (\<lambda>a. \<not> truthy (overload_until env now a)) xs,
      map (\<lambda>a. (a, the (overload_until env now a))) (filter (\<lambda>a. truthy (overload_until env now a)) xs))"
proof -
  let ?note = "\<lambda>r a. r @ [(a, the (overload_until env now a))]"
  let ?h = "\<lambda>acc a. if truthy (overload_until env now a) then (fst acc, ?note (snd acc) a) else (fst acc @ [a], snd acc)"
  have "applyProviderOverloadGate env now xs = Inr (foldl ?h ([], []) xs)"
    unfolding applyProviderOverloadGate_def using assms
    by (intro fold_result_total) (simp add: overload_step_def bind_result_def model_resolvable overload_until_def Let_def)
  also have "foldl ?h ([], []) xs = ([] @ filter (\<lambda>a. \<not> truthy (overload_until env now a)) xs,
      foldl ?note [] (filter (\<lambda>a. truthy (overload_until env now a)) xs))"
    by (rule fold_partition) simp
  finally show ?thesis by (simp add: foldl_snoc)
qed

lemma throttle_gate:
  "applyUsageThrottling env now xs =
    (filter (\<lambda>a. \<not> (throttles env \<and> is_throttled env now a)) xs, filter (\<lambda>a. throttles env \<and> is_throttled env now a) xs)"
proof (cases "throttles env")
  case True
  let ?h = "\<lambda>(available, throttled) a. if is_throttled env now a then (available, throttled @ [a]) else (available @ [a], throttled)"
  have "foldl ?h ([], []) xs = ([] @ filter (\<lambda>a. \<not> is_throttled env now a) xs, foldl (\<lambda>r a. r @ [id a]) [] (filter (is_throttled env now) xs))"
    by (rule fold_partition) simp
  with True show ?thesis by (auto simp: applyUsageThrottling_def throttles_def foldl_snoc)
qed (auto simp: applyUsageThrottling_def throttles_def)

definition note_family :: "gate_env \<Rightarrow> int \<Rightarrow> gate_lists \<Rightarrow> account \<Rightarrow> gate_lists" where
  "note_family env now g a = (case family_spent env now a of
     Some x \<Rightarrow>
       if list_ex (\<lambda>e. acc_id (we_account e) = acc_id a) (familyWeeklyExcludedAccounts g) then g
       else g\<lparr>familyWeeklyExcludedAccounts := familyWeeklyExcludedAccounts g @ [x]\<rparr>
   | None \<Rightarrow>
       if list_ex (\<lambda>e. acc_id (wp_account e) = acc_id a) (familyWeeklyPacedAccounts g) then g
       else g\<lparr>familyWeeklyPacedAccounts := familyWeeklyPacedAccounts g @ [the (family_paced env now a)]\<rparr>)"

definition note_context :: "gate_env \<Rightarrow> gate_lists \<Rightarrow> account \<Rightarrow> gate_lists" where
  "note_context env g a = (if list_ex (\<lambda>(b, _). acc_id b = acc_id a) (contextExcludedAccounts g) then g
     else g\<lparr>contextExcludedAccounts := contextExcludedAccounts g @ [(a, model_of env a)]\<rparr>)"

definition family_blocked :: "gate_env \<Rightarrow> int \<Rightarrow> account \<Rightarrow> bool" where
  "family_blocked env now a \<longleftrightarrow> family_spent env now a \<noteq> None \<or> family_paced env now a \<noteq> None"

lemma family_gate:
  assumes "\<forall>a \<in> set xs. resolvable env a"
  shows "applyFamilyWeeklyGate env now xs g =
    Inr (filter (\<lambda>a. \<not> family_blocked env now a) xs, foldl (note_family env now) g (filter (family_blocked env now) xs))"
proof -
  let ?h = "\<lambda>acc a. if family_blocked env now a then (fst acc, note_family env now (snd acc) a) else (fst acc @ [a], snd acc)"
  have "family_step env now acc a = Inr (?h acc a)" if "resolvable env a" for acc a
    using that by (auto simp: family_step_def bind_result_def model_resolvable family_blocked_def note_family_def
        family_spent_def family_paced_def paces_def poll_capacity_def Let_def split: option.split)
  then have "applyFamilyWeeklyGate env now xs g = Inr (foldl ?h ([], g) xs)"
    unfolding applyFamilyWeeklyGate_def using assms by (intro fold_result_total) simp
  then show ?thesis using fold_partition [of ?h "family_blocked env now" "note_family env now" "[]" g xs] by simp
qed

lemma context_gate:
  assumes "\<forall>a \<in> set xs. resolvable env a"
  shows "applyContextWindowGate env xs g =
    Inr (filter (\<lambda>a. \<not> overflows env a) xs, foldl (note_context env) g (filter (overflows env) xs))"
proof -
  let ?h = "\<lambda>acc a. if overflows env a then (fst acc, note_context env (snd acc) a) else (fst acc @ [a], snd acc)"
  have "context_step env acc a = Inr (?h acc a)" if "resolvable env a" for acc a
    using that by (auto simp: context_step_def bind_result_def model_resolvable overflows_def note_context_def split: option.split)
  then have "applyContextWindowGate env xs g = Inr (foldl ?h ([], g) xs)"
    unfolding applyContextWindowGate_def using assms by (intro fold_result_total) simp
  then show ?thesis using fold_partition [of ?h "overflows env" "note_context env" "[]" g xs] by simp
qed

text \<open>Reading a memo drops an expired entry only, which no other read can tell.\<close>

lemma memo_read_stable:
  "snd (getFamilyWeeklyExhaustedUntil i f now (fst (getFamilyWeeklyExhaustedUntil j k now m))) = snd (getFamilyWeeklyExhaustedUntil i f now m)"
  by (auto simp: getFamilyWeeklyExhaustedUntil_def Let_def split: option.split)

lemma transient_read_stable:
  "snd (getCodexTransientFailureUntil i now (fst (getCodexTransientFailureUntil j now fs))) = snd (getCodexTransientFailureUntil i now fs)"
  by (auto simp: getCodexTransientFailureUntil_def split: option.split)

definition memo_refused :: "gate_env \<Rightarrow> int \<Rightarrow> gate_lists \<Rightarrow> account \<Rightarrow> bool" where
  "memo_refused env now g a \<longleftrightarrow>
     (provider a = CODEX \<and> \<not> isSyntheticProbeRequest env
        \<and> snd (getCodexTransientFailureUntil (acc_id a) now (transient_failures g)) \<noteq> None)
     \<or> (provider a = ANTHROPIC \<and> (\<exists>f. getModelFamily (model_of env a) = Some f
        \<and> snd (getFamilyWeeklyExhaustedUntil (acc_id a) f now (family_memo g)) \<noteq> None))"

definition same_memos :: "int \<Rightarrow> gate_lists \<Rightarrow> gate_lists \<Rightarrow> bool" where
  "same_memos now g g' \<longleftrightarrow>
     (\<forall>i f. snd (getFamilyWeeklyExhaustedUntil i f now (family_memo g')) = snd (getFamilyWeeklyExhaustedUntil i f now (family_memo g)))
     \<and> (\<forall>i. snd (getCodexTransientFailureUntil i now (transient_failures g')) = snd (getCodexTransientFailureUntil i now (transient_failures g)))
     \<and> contextExcludedAccounts g' = contextExcludedAccounts g
     \<and> familyWeeklyExcludedAccounts g' = familyWeeklyExcludedAccounts g
     \<and> familyWeeklyPacedAccounts g' = familyWeeklyPacedAccounts g
     \<and> softDemotionReasons g' = softDemotionReasons g \<and> softDemotionHead g' = softDemotionHead g
     \<and> livenessHeldAtEveryTier g' = livenessHeldAtEveryTier g"

lemma memo_step:
  assumes "resolvable env a"
  obtains g' where "same_memos now g g'"
    and "memo_demotion_step env now ((kept, demoted), g) a =
      Inr (if memo_refused env now g a then ((kept, demoted @ [a]), g') else ((kept @ [a], demoted), g'))"
proof -
  define fs where "fs = (if provider a = CODEX \<and> \<not> isSyntheticProbeRequest env
    then fst (getCodexTransientFailureUntil (acc_id a) now (transient_failures g)) else transient_failures g)"
  define m where "m = (case (if provider a = ANTHROPIC then getModelFamily (model_of env a) else None) of
    None \<Rightarrow> family_memo g | Some f \<Rightarrow> fst (getFamilyWeeklyExhaustedUntil (acc_id a) f now (family_memo g)))"
  let ?g = "g\<lparr>transient_failures := fs, family_memo := m\<rparr>"
  show thesis
  proof
    show "same_memos now g ?g"
      by (auto simp: same_memos_def fs_def m_def memo_read_stable transient_read_stable split: option.split)
    show "memo_demotion_step env now ((kept, demoted), g) a =
        Inr (if memo_refused env now g a then ((kept, demoted @ [a]), ?g) else ((kept @ [a], demoted), ?g))"
      using assms by (auto simp: memo_demotion_step_def bind_result_def model_resolvable memo_refused_def fs_def m_def Let_def
          split: prod.splits option.splits)
  qed
qed

lemma same_memos_trans: "same_memos now g g' \<Longrightarrow> same_memos now g' g'' \<Longrightarrow> same_memos now g g''"
  by (simp add: same_memos_def)

lemma memo_refused_same: "same_memos now g g' \<Longrightarrow> memo_refused env now g' = memo_refused env now g"
  by (rule ext) (simp add: same_memos_def memo_refused_def)

lemma memo_loop:
  assumes "\<forall>a \<in> set xs. resolvable env a"
  shows "\<exists>g'. same_memos now g g' \<and> fold_result (memo_demotion_step env now) ((kept, demoted), g) xs =
    Inr ((kept @ filter (\<lambda>a. \<not> memo_refused env now g a) xs, demoted @ filter (memo_refused env now g) xs), g')"
  using assms
proof (induction xs arbitrary: kept demoted g)
  case Nil
  then show ?case by (intro exI [of _ g]) (simp add: same_memos_def)
next
  case (Cons a xs)
  obtain g1 where g1: "same_memos now g g1" "memo_demotion_step env now ((kept, demoted), g) a =
      Inr (if memo_refused env now g a then ((kept, demoted @ [a]), g1) else ((kept @ [a], demoted), g1))"
    using memo_step [of env a now g kept demoted] Cons.prems by auto
  let ?k = "if memo_refused env now g a then kept else kept @ [a]" and ?d = "if memo_refused env now g a then demoted @ [a] else demoted"
  obtain g2 where g2: "same_memos now g1 g2" "fold_result (memo_demotion_step env now) ((?k, ?d), g1) xs =
      Inr ((?k @ filter (\<lambda>a. \<not> memo_refused env now g1 a) xs, ?d @ filter (memo_refused env now g1) xs), g2)"
    using Cons.IH [of g1 ?k ?d] Cons.prems by auto
  with g1 show ?case
    by (intro exI [of _ g2]) (auto simp: memo_refused_same intro: same_memos_trans split: if_splits)
qed

lemma memo_gate:
  assumes "\<forall>a \<in> set xs. resolvable env a"
  shows "\<exists>g'. same_memos now g g' \<and> applyFailureMemoDemotion env now xs g =
    Inr (filter (\<lambda>a. \<not> memo_refused env now g a) xs @ filter (memo_refused env now g) xs, g')"
proof -
  obtain g' where "same_memos now g g'" "fold_result (memo_demotion_step env now) (([], []), g) xs =
      Inr ((filter (\<lambda>a. \<not> memo_refused env now g a) xs, filter (memo_refused env now g) xs), g')"
    using memo_loop [OF assms, of now g "[]" "[]"] by auto
  then show ?thesis by (auto simp: applyFailureMemoDemotion_def filter_empty_conv intro!: exI [of _ g'])
qed

subsection \<open>The soft reorder\<close>

definition reserved :: "gate_env \<Rightarrow> int \<Rightarrow> account \<Rightarrow> bool" where
  "reserved env now a = resolveReservationDemotion a (Some (model_of env a)) (cache_peek env (acc_id a)) (capacity_snapshot env now a)
     (getLastProtectedFamilyDemand (acc_id a) (protected_demand env)) now"

text \<open>The maps of the reorder, looked up at the id of a candidate.\<close>

definition maps_agree :: "gate_env \<Rightarrow> int \<Rightarrow> account list \<Rightarrow> soft_maps \<Rightarrow> bool" where
  "maps_agree env now candidates sm \<longleftrightarrow> (\<forall>a \<in> set candidates.
     soft_capacity sm (acc_id a) = capacity_snapshot env now a
     \<and> jm_get (familyDemote sm) (acc_id a) = Some (reserved env now a)
     \<and> jm_get (livenessThreshold sm) (acc_id a) = Some (tier_threshold (model_of env a)))"

lemma soft_maps_loop:
  assumes "\<forall>a \<in> set xs. resolvable env a"
  shows "fold_result (soft_step env now) sm xs = Inr (sm\<lparr>
    familyDemote := foldl (\<lambda>m a. jm_set m (acc_id a) (resolveReservationDemotion a (Some (model_of env a)) (cache_peek env (acc_id a))
      (soft_capacity sm (acc_id a)) (getLastProtectedFamilyDemand (acc_id a) (protected_demand env)) now)) (familyDemote sm) xs,
    livenessThreshold := foldl (\<lambda>m a. jm_set m (acc_id a) (tier_threshold (model_of env a))) (livenessThreshold sm) xs\<rparr>)"
  using assms by (induction xs arbitrary: sm) (simp_all add: soft_step_def bind_result_def model_resolvable soft_capacity_def)

lemma soft_maps_total:
  assumes "\<forall>a \<in> set xs. resolvable env a"
  obtains sm where "soft_maps_of env now xs = Inr sm" and "distinct (map acc_id xs) \<Longrightarrow> maps_agree env now xs sm"
proof -
  define cap where "cap = foldl (\<lambda>m a. jm_set m (acc_id a) (capacity_snapshot env now a)) [] xs"
  have cap: "Option.bind (jm_get cap (acc_id a)) id = capacity_snapshot env now a" if "distinct (map acc_id xs)" "a \<in> set xs" for a
    using jm.fill_get [OF that, of "capacity_snapshot env now" "[]"] by (simp add: cap_def)
  show thesis
  proof (rule that)
    show "soft_maps_of env now xs = Inr \<lparr>capacityById = cap,
      familyDemote = foldl (\<lambda>m a. jm_set m (acc_id a) (resolveReservationDemotion a (Some (model_of env a)) (cache_peek env (acc_id a))
        (Option.bind (jm_get cap (acc_id a)) id) (getLastProtectedFamilyDemand (acc_id a) (protected_demand env)) now)) [] xs,
      livenessThreshold = foldl (\<lambda>m a. jm_set m (acc_id a) (tier_threshold (model_of env a))) [] xs\<rparr>" (is "_ = Inr ?sm")
      by (simp add: soft_maps_of_def soft_maps_loop [OF assms] cap_def soft_capacity_def)
    show "maps_agree env now xs ?sm" if d: "distinct (map acc_id xs)"
      using cap [OF d] by (auto simp: maps_agree_def reserved_def soft_capacity_def jm.fill_get [OF d])
  qed
qed

definition soft_demoted :: "gate_env \<Rightarrow> int \<Rightarrow> soft_maps \<Rightarrow> account list \<Rightarrow> account \<Rightarrow> bool" where
  "soft_demoted env now sm candidates a \<longleftrightarrow>
     jm_get (familyDemote sm) (acc_id a) = Some True \<or> held_liveness env now sm candidates a"

lemma demotion_loop:
  "let l' = foldl (demotion_step env now sm candidates) l xs in
     loop_kept l' = loop_kept l @ filter (\<lambda>a. \<not> soft_demoted env now sm candidates a) xs
     \<and> loop_demoted l' = loop_demoted l @ filter (soft_demoted env now sm candidates) xs
     \<and> (\<forall>i. jm_has (loop_reasons l') i \<longleftrightarrow> jm_has (loop_reasons l) i \<or> (\<exists>a \<in> set xs. acc_id a = i \<and> soft_demoted env now sm candidates a))"
  by (induction xs arbitrary: l) (auto simp: demotion_step_def soft_demoted_def Let_def jm_has_def)

definition reasons_sound :: "bool \<Rightarrow> soft_loop \<Rightarrow> bool" where
  "reasons_sound held l \<longleftrightarrow> (\<forall>i r. jm_get (loop_reasons l) i = Some r \<longrightarrow> r = ''family reservation'' \<or> held)"

lemma demotion_reasons:
  assumes "reasons_sound (\<exists>a \<in> set candidates. held_liveness env now sm candidates a) l" and "set xs \<subseteq> set candidates"
  shows "reasons_sound (\<exists>a \<in> set candidates. held_liveness env now sm candidates a) (foldl (demotion_step env now sm candidates) l xs)"
  using assms
proof (induction xs arbitrary: l)
  case (Cons a xs)
  have "reasons_sound (\<exists>a \<in> set candidates. held_liveness env now sm candidates a) (demotion_step env now sm candidates l a)"
    using Cons.prems by (auto simp: reasons_sound_def demotion_step_def Let_def)
  with Cons show ?case by simp
qed simp

lemma first_filter: "(case filter P ys of [] \<Rightarrow> None | a # _ \<Rightarrow> Some a) = List.find P ys"
  by (induction ys) simp_all

lemma soft_gate:
  assumes "\<forall>a \<in> set xs. resolvable env a" and "soft_maps_of env now xs = Inr sm"
  shows "\<exists>reasons held. applySoftDemotionReorder env now xs g =
      Inr (filter (\<lambda>a. \<not> soft_demoted env now sm xs a) xs @ filter (soft_demoted env now sm xs) xs,
        g\<lparr>softDemotionReasons := reasons,
          softDemotionHead := List.find (\<lambda>a. \<not> soft_demoted env now sm xs a) xs, livenessHeldAtEveryTier := held\<rparr>)
    \<and> (\<forall>i. jm_has reasons i \<longleftrightarrow> (\<exists>a \<in> set xs. acc_id a = i \<and> soft_demoted env now sm xs a))
    \<and> (\<forall>i r. jm_get reasons i = Some r \<longrightarrow> r = ''family reservation'' \<or> (\<exists>a \<in> set xs. held_liveness env now sm xs a))"
proof -
  define l where "l = foldl (demotion_step env now sm xs) \<lparr>loop_reasons = [], loop_held = [], loop_kept = [], loop_demoted = []\<rparr> xs"
  have l: "loop_kept l = filter (\<lambda>a. \<not> soft_demoted env now sm xs a) xs" "loop_demoted l = filter (soft_demoted env now sm xs) xs"
    "jm_has (loop_reasons l) i \<longleftrightarrow> (\<exists>a \<in> set xs. acc_id a = i \<and> soft_demoted env now sm xs a)"
    for i
    using demotion_loop [of env now sm xs "\<lparr>loop_reasons = [], loop_held = [], loop_kept = [], loop_demoted = []\<rparr>" xs]
    by (simp_all add: l_def Let_def jm_has_def jm_get_def)
  have "reasons_sound (\<exists>a \<in> set xs. held_liveness env now sm xs a) l"
    unfolding l_def by (rule demotion_reasons) (simp_all add: reasons_sound_def jm_get_def)
  then show ?thesis
    by (intro exI [of _ "loop_reasons l"] exI [of _ "loop_held l"])
       (auto simp: applySoftDemotionReorder_def assms(2) bind_result_def Let_def l first_filter reasons_sound_def simp flip: l_def)
qed

text \<open>An account that could absorb traffic of the strictest tier is itself kept.\<close>

lemma snapshot_headroom:
  "capacity_snapshot env now a = Some s \<Longrightarrow> x \<le> 100 \<Longrightarrow> x \<le> sig_minHeadroom s \<Longrightarrow> x \<le> sig_weeklyHeadroom s"
  unfolding capacity_snapshot_def getFreshRoutingCapacity_def by (rule signal_headroom(1))

lemma tier_values: "tier_threshold m = 10 \<or> tier_threshold m = 20"
  by (simp add: tier_threshold_def resolveLivenessReserveThreshold_def LIVENESS_RESERVE_PROTECTED_HEADROOM_PCT_def LIVENESS_RESERVE_HEADROOM_PCT_def)

lemma held_absorber:
  assumes agree: "maps_agree env now xs sm" and a: "a \<in> set xs" and held: "held_liveness env now sm xs a"
  obtains peer s where "peer \<in> set xs" "\<not> reserved env now peer" "capacity_snapshot env now peer = Some s"
    "tier_threshold (model_of env a) \<le> sig_weeklyHeadroom s"
proof -
  let ?t = "tier_threshold (model_of env a)"
  have "countAbsorbablePeers env sm xs a ?t \<ge> 1"
    using agree a held by (auto simp: maps_agree_def held_liveness_def livenessDemotes_def resolvePoolLivenessDemotion_def Let_def
        split: option.splits if_splits)
  then obtain peer where peer: "peer \<in> set xs" and abs: "isAbsorbablePeer (soft_capacity sm (acc_id peer))
      (jm_get (familyDemote sm) (acc_id peer) = Some True) (hasCapacityRestoredProbePending (acc_id peer) (probe_gates env)) ?t"
    by (auto simp: countAbsorbablePeers_def Suc_le_eq filter_empty_conv)
  then obtain s where s: "capacity_snapshot env now peer = Some s" "?t \<le> sig_minHeadroom s" "\<not> reserved env now peer"
    using agree by (auto simp: maps_agree_def isAbsorbablePeer_def not_less split: option.splits if_splits)
  with peer snapshot_headroom [OF s(1) _ s(2)] tier_values [of "model_of env a"] show thesis by (intro that) auto
qed

lemma not_held:
  assumes "maps_agree env now xs sm" "a \<in> set xs" "capacity_snapshot env now a = Some s"
    and "tier_threshold (model_of env a) \<le> sig_weeklyHeadroom s"
  shows "\<not> held_liveness env now sm xs a"
  using assms by (auto simp: maps_agree_def held_liveness_def livenessDemotes_def resolvePoolLivenessDemotion_def)

lemma held_leaves_kept:
  assumes agree: "maps_agree env now xs sm" and a: "a \<in> set xs" and held: "held_liveness env now sm xs a"
  shows "\<exists>b \<in> set xs. \<not> soft_demoted env now sm xs b"
proof -
  have kept: "\<not> soft_demoted env now sm xs b" if "b \<in> set xs" "\<not> reserved env now b" "\<not> held_liveness env now sm xs b" for b
    using that agree by (auto simp: soft_demoted_def maps_agree_def)
  obtain b s where b: "b \<in> set xs" "\<not> reserved env now b" "capacity_snapshot env now b = Some s"
    "tier_threshold (model_of env a) \<le> sig_weeklyHeadroom s" using held_absorber [OF agree a held] .
  show ?thesis
  proof (cases "held_liveness env now sm xs b")
    case False
    with b kept show ?thesis by blast
  next
    case True
    then have "tier_threshold (model_of env b) = 20"
      using not_held [OF agree b(1,3)] b(4) tier_values [of "model_of env a"] tier_values [of "model_of env b"] by auto
    moreover obtain c s' where c: "c \<in> set xs" "\<not> reserved env now c" "capacity_snapshot env now c = Some s'"
      "tier_threshold (model_of env b) \<le> sig_weeklyHeadroom s'" using held_absorber [OF agree b(1) True] .
    ultimately have "\<not> held_liveness env now sm xs c"
      using tier_values [of "model_of env c"] by (intro not_held [OF agree c(1,3)]) auto
    with c kept show ?thesis by blast
  qed
qed

lemma soft_resolvable:
  assumes "applySoftDemotionReorder env now candidates g = Inr x"
  shows "\<forall>a \<in> set candidates. resolvable env a"
proof (rule ccontr)
  assume "\<not> ?thesis"
  then obtain a where "List.find (\<lambda>a. isl (modelForAccount env a)) candidates = Some a"
    by (cases "List.find (\<lambda>a. isl (modelForAccount env a)) candidates") (auto simp: find_None_iff resolvable_def)
  moreover from this obtain e where "modelForAccount env a = Inl e" by (auto simp: find_Some_iff isl_def)
  ultimately have "\<exists>e. soft_maps_of env now candidates = Inl e"
    unfolding soft_maps_of_def using fold_result_find [where f = "soft_step env now", OF soft_step_def] by blast
  with assms show False by (auto simp: applySoftDemotionReorder_def bind_result_def)
qed

text \<open>
  C22. A liveness reserve never holds back the whole pool: the reorder only permutes the candidates, and
  whenever an account is held back for pool liveness, some candidate is held back for no reason and heads
  the new order.
\<close>

theorem liveness_reserve_leaves_a_head:
  assumes "applySoftDemotionReorder env now candidates g = Inr (order, g')"
    and "distinct (map acc_id candidates)"
    and "jm_get (softDemotionReasons g') i = Some reason" and "reason \<in> {''pool liveness'', ''both''}"
  shows "mset order = mset candidates \<and> (\<exists>head rest. order = head # rest \<and> softDemotionHead g' = Some head
    \<and> \<not> jm_has (softDemotionReasons g') (acc_id head))"
proof -
  have res: "\<forall>a \<in> set candidates. resolvable env a" using soft_resolvable [OF assms(1)] .
  obtain sm where sm: "soft_maps_of env now candidates = Inr sm" and agree: "maps_agree env now candidates sm"
    using soft_maps_total [OF res] assms(2) by metis
  let ?P = "\<lambda>a. \<not> soft_demoted env now sm candidates a"
  note gate = soft_gate [OF res sm, of g]
  have order: "order = filter ?P candidates @ filter (\<lambda>a. \<not> ?P a) candidates" and head: "softDemotionHead g' = List.find ?P candidates"
    and reasons: "jm_has (softDemotionReasons g') j \<longleftrightarrow> (\<exists>a \<in> set candidates. acc_id a = j \<and> \<not> ?P a)" for j
    using gate assms(1) by auto
  have "\<forall>i r. jm_get (softDemotionReasons g') i = Some r \<longrightarrow>
      r = ''family reservation'' \<or> (\<exists>a \<in> set candidates. held_liveness env now sm candidates a)"
    using gate assms(1) by auto
  moreover have "reason \<noteq> ''family reservation''" using assms(4) by auto
  ultimately obtain a where "a \<in> set candidates" "held_liveness env now sm candidates a" using assms(3) by blast
  then obtain b where b: "b \<in> set candidates" "?P b" using held_leaves_kept [OF agree] by blast
  then obtain x xs where x: "filter ?P candidates = x # xs" by (cases "filter ?P candidates") (auto simp: filter_empty_conv)
  then have "x \<in> set (filter ?P candidates)" by simp
  then have "x \<in> set candidates" "?P x" by simp_all
  moreover have "List.find ?P candidates = Some x" using first_filter [of ?P candidates] x by simp
  moreover have "acc_id y = acc_id x \<Longrightarrow> y \<in> set candidates \<Longrightarrow> y = x" for y
    using assms(2) \<open>x \<in> set candidates\<close> by (simp add: distinct_map inj_on_def)
  moreover have "mset order = mset candidates" unfolding order by simp
  ultimately show ?thesis using order head x by (auto simp: reasons)
qed

subsection \<open>The whole pipeline\<close>

definition admitted :: "gate_env \<Rightarrow> (nat \<Rightarrow> int) \<Rightarrow> account \<Rightarrow> bool" where
  "admitted env clock a \<longleftrightarrow> \<not> truthy (overload_until env (clock 0) a) \<and> \<not> (throttles env \<and> is_throttled env (clock 1) a)
     \<and> \<not> family_blocked env (clock 2) a \<and> \<not> overflows env a"

definition move_back :: "('a \<Rightarrow> bool) \<Rightarrow> 'a list \<Rightarrow> 'a list" where
  "move_back P xs = filter (\<lambda>x. \<not> P x) xs @ filter P xs"

lemma mset_move_back [simp]: "mset (move_back P xs) = mset xs"
  by (simp add: move_back_def)

lemma move_back_cong: "(\<And>x. x \<in> set xs \<Longrightarrow> P x = Q x) \<Longrightarrow> move_back P xs = move_back Q xs"
  by (simp add: move_back_def cong: filter_cong)

text \<open>The accounts the family gate and the context gate see and stop.\<close>

definition stopped_family :: "gate_env \<Rightarrow> (nat \<Rightarrow> int) \<Rightarrow> account list \<Rightarrow> account list" where
  "stopped_family env clock selected = filter (\<lambda>a. \<not> truthy (overload_until env (clock 0) a)
     \<and> \<not> (throttles env \<and> is_throttled env (clock 1) a) \<and> family_blocked env (clock 2) a) selected"

definition stopped_context :: "gate_env \<Rightarrow> (nat \<Rightarrow> int) \<Rightarrow> account list \<Rightarrow> account list" where
  "stopped_context env clock selected = filter (\<lambda>a. \<not> truthy (overload_until env (clock 0) a)
     \<and> \<not> (throttles env \<and> is_throttled env (clock 1) a) \<and> \<not> family_blocked env (clock 2) a \<and> overflows env a) selected"

lemma notes_keep_memos:
  "family_memo (foldl (note_context env) g xs) = family_memo g" "transient_failures (foldl (note_context env) g xs) = transient_failures g"
  "family_memo (foldl (note_family env now) g xs) = family_memo g" "transient_failures (foldl (note_family env now) g xs) = transient_failures g"
  by (induction xs arbitrary: g) (auto simp: note_context_def note_family_def split: option.split)

lemma run_gates_total:
  fixes g :: gate_lists
  assumes "\<forall>a \<in> set selected. resolvable env a"
    and "soft_maps_of env (clock 3) (filter (admitted env clock) selected) = Inr sm"
  defines "noted \<equiv> foldl (note_context env) (foldl (note_family env (clock 2)) g (stopped_family env clock selected)) (stopped_context env clock selected)"
  shows "\<exists>adm. run_gates env clock selected g = Inr adm
    \<and> adm_overloaded adm = map (\<lambda>a. (a, the (overload_until env (clock 0) a))) (filter (\<lambda>a. truthy (overload_until env (clock 0) a)) selected)
    \<and> adm_throttled adm = filter (\<lambda>a. \<not> truthy (overload_until env (clock 0) a) \<and> throttles env \<and> is_throttled env (clock 1) a) selected
    \<and> adm_accounts adm = move_back (memo_refused env (clock 4) g)
        (move_back (soft_demoted env (clock 3) sm (filter (admitted env clock) selected)) (filter (admitted env clock) selected))
    \<and> (\<forall>i. jm_has (softDemotionReasons (adm_lists adm)) i \<longleftrightarrow> (\<exists>a \<in> set selected. acc_id a = i \<and> admitted env clock a
         \<and> soft_demoted env (clock 3) sm (filter (admitted env clock) selected) a))
    \<and> contextExcludedAccounts (adm_lists adm) = contextExcludedAccounts noted
    \<and> familyWeeklyExcludedAccounts (adm_lists adm) = familyWeeklyExcludedAccounts noted
    \<and> familyWeeklyPacedAccounts (adm_lists adm) = familyWeeklyPacedAccounts noted"
proof -
  let ?fit = "filter (admitted env clock) selected"
  let ?soft = "soft_demoted env (clock 3) sm ?fit"
  define free where "free = filter (\<lambda>a. \<not> (throttles env \<and> is_throttled env (clock 1) a)) (filter (\<lambda>a. \<not> truthy (overload_until env (clock 0) a)) selected)"
  have fit: "filter (\<lambda>a. \<not> overflows env a) (filter (\<lambda>a. \<not> family_blocked env (clock 2) a) free) = ?fit"
    unfolding free_def filter_filter by (rule filter_cong) (auto simp: admitted_def)
  have stopped: "filter (family_blocked env (clock 2)) free = stopped_family env clock selected"
    "filter (overflows env) (filter (\<lambda>a. \<not> family_blocked env (clock 2) a) free) = stopped_context env clock selected"
    unfolding free_def filter_filter stopped_family_def stopped_context_def by (auto intro: filter_cong)
  have noted: "foldl (note_context env) (foldl (note_family env (clock 2)) g (filter (family_blocked env (clock 2)) free))
      (filter (overflows env) (filter (\<lambda>a. \<not> family_blocked env (clock 2) a) free)) = noted"
    by (simp only: stopped noted_def)
  have res: "\<forall>a \<in> set free. resolvable env a" "\<forall>a \<in> set (filter (\<lambda>a. \<not> family_blocked env (clock 2) a) free). resolvable env a"
    "\<forall>a \<in> set ?fit. resolvable env a" "\<forall>a \<in> set (move_back ?soft ?fit). resolvable env a"
    using assms(1) by (auto simp: free_def move_back_def)
  obtain reasons held where soft: "applySoftDemotionReorder env (clock 3) ?fit noted = Inr (move_back ?soft ?fit,
      noted\<lparr>softDemotionReasons := reasons, softDemotionHead := List.find (\<lambda>a. \<not> ?soft a) ?fit, livenessHeldAtEveryTier := held\<rparr>)"
    (is "_ = Inr (_, ?g3)")
    and reasons: "\<forall>i. jm_has reasons i \<longleftrightarrow> (\<exists>a \<in> set ?fit. acc_id a = i \<and> ?soft a)"
    using soft_gate [OF res(3) assms(2), of noted] by (auto simp: move_back_def)
  obtain g4 where g4: "same_memos (clock 4) ?g3 g4"
    and memo: "applyFailureMemoDemotion env (clock 4) (move_back ?soft ?fit) ?g3 = Inr (move_back (memo_refused env (clock 4) ?g3) (move_back ?soft ?fit), g4)"
    using memo_gate [OF res(4), of "clock 4" ?g3] by (auto simp: move_back_def)
  have "memo_refused env (clock 4) ?g3 = memo_refused env (clock 4) g"
    by (rule ext) (simp add: memo_refused_def noted_def notes_keep_memos)
  with memo have memo: "applyFailureMemoDemotion env (clock 4) (move_back ?soft ?fit) ?g3 =
      Inr (move_back (memo_refused env (clock 4) g) (move_back ?soft ?fit), g4)" by simp
  have thr: "applyUsageThrottling env (clock 1) (filter (\<lambda>a. \<not> truthy (overload_until env (clock 0) a)) selected) = (free,
      filter (\<lambda>a. \<not> truthy (overload_until env (clock 0) a) \<and> throttles env \<and> is_throttled env (clock 1) a) selected)"
    by (simp only: throttle_gate free_def filter_filter)
  note family = family_gate [OF res(1), of "clock 2" g]
  note fits = context_gate [OF res(2), unfolded fit, of "foldl (note_family env (clock 2)) g (filter (family_blocked env (clock 2)) free)", unfolded noted]
  have run: "run_gates env clock selected g = Inr \<lparr>
      adm_overloaded = map (\<lambda>a. (a, the (overload_until env (clock 0) a))) (filter (\<lambda>a. truthy (overload_until env (clock 0) a)) selected),
      adm_throttled = filter (\<lambda>a. \<not> truthy (overload_until env (clock 0) a) \<and> throttles env \<and> is_throttled env (clock 1) a) selected,
      adm_accounts = move_back (memo_refused env (clock 4) g) (move_back ?soft ?fit), adm_lists = g4\<rparr>"
    (is "_ = Inr ?adm")
    by (simp only: run_gates_def bind_result_def overload_gate [OF assms(1)] thr family fits soft memo sum.case prod.case Let_def)
  have lists: "softDemotionReasons g4 = reasons" "contextExcludedAccounts g4 = contextExcludedAccounts noted"
    "familyWeeklyExcludedAccounts g4 = familyWeeklyExcludedAccounts noted" "familyWeeklyPacedAccounts g4 = familyWeeklyPacedAccounts noted"
    using g4 by (simp_all add: same_memos_def)
  have "\<forall>i. jm_has (softDemotionReasons g4) i \<longleftrightarrow> (\<exists>a \<in> set selected. acc_id a = i \<and> admitted env clock a \<and> ?soft a)"
    using reasons unfolding lists by auto
  with run lists show ?thesis by (intro exI [of _ ?adm] conjI) (simp_all only: admission.simps simp_thms)
qed

lemma run_gates_error:
  "run_gates env clock selected g = Inl e \<longleftrightarrow>
    (\<exists>a. List.find (\<lambda>a. isl (modelForAccount env a)) selected = Some a \<and> modelForAccount env a = Inl e)"
proof (cases "\<forall>a \<in> set selected. resolvable env a")
  case True
  then have "\<forall>a \<in> set (filter (admitted env clock) selected). resolvable env a" by simp
  then obtain sm where "soft_maps_of env (clock 3) (filter (admitted env clock) selected) = Inr sm"
    using soft_maps_total by metis
  from run_gates_total [OF True this, of g] True show ?thesis
    by (auto simp: resolvable_def find_Some_iff)
next
  case False
  then have found: "List.find (\<lambda>a. isl (modelForAccount env a)) selected \<noteq> None"
    by (auto simp: find_None_iff resolvable_def)
  have gate: "applyProviderOverloadGate env (clock 0) selected = Inl e \<longleftrightarrow>
      (\<exists>a. List.find (\<lambda>a. isl (modelForAccount env a)) selected = Some a \<and> modelForAccount env a = Inl e)" for e
    unfolding applyProviderOverloadGate_def by (rule fold_result_find) (simp add: overload_step_def Let_def)
  with found obtain e' where "applyProviderOverloadGate env (clock 0) selected = Inl e'"
    by (auto simp: find_Some_iff isl_def)
  with gate [of e] show ?thesis by (auto simp: run_gates_def bind_result_def)
qed

lemma run_gates_ok:
  assumes "run_gates env clock selected g = Inr adm"
  obtains sm where "\<forall>a \<in> set selected. resolvable env a"
    and "soft_maps_of env (clock 3) (filter (admitted env clock) selected) = Inr sm"
proof -
  have all: "\<forall>a \<in> set selected. resolvable env a"
  proof (rule ccontr)
    assume "\<not> ?thesis"
    then obtain a where a: "List.find (\<lambda>a. isl (modelForAccount env a)) selected = Some a"
      by (cases "List.find (\<lambda>a. isl (modelForAccount env a)) selected") (auto simp: find_None_iff resolvable_def)
    then obtain e where "modelForAccount env a = Inl e" by (auto simp: find_Some_iff isl_def)
    with a run_gates_error [of env clock selected g e] assms show False by auto
  qed
  then have "\<forall>a \<in> set (filter (admitted env clock) selected). resolvable env a" by simp
  from soft_maps_total [OF this] all that show thesis by metis
qed

lemma run_gates_subset:
  assumes "run_gates env clock selected g = Inr adm"
  shows "set (adm_accounts adm) \<subseteq> set selected"
proof -
  from assms obtain sm where "\<forall>a \<in> set selected. resolvable env a"
    "soft_maps_of env (clock 3) (filter (admitted env clock) selected) = Inr sm" by (rule run_gates_ok)
  from run_gates_total [OF this, of g] assms show ?thesis by (auto simp: move_back_def)
qed

text \<open>
  C21. The pipeline throws exactly when some selected account is outside the authorized destinations of
  the request (or the request has no resolved route), and then with the error of the first such account:
  no gate after the first one adds an error of its own.
\<close>

theorem admission_error_iff_unauthorized:
  "run_gates env clock selected g = Inl e \<longleftrightarrow>
    (\<exists>before a after. selected = before @ a # after
      \<and> getAttemptTarget (scope_of env) (resolved_route env) a = Inl e
      \<and> (\<forall>b \<in> set before. \<exists>t. getAttemptTarget (scope_of env) (resolved_route env) b = Inr t))"
proof -
  have isl: "isl (modelForAccount env b) \<longleftrightarrow> \<not> (\<exists>t. getAttemptTarget (scope_of env) (resolved_route env) b = Inr t)" for b
    by (cases "getAttemptTarget (scope_of env) (resolved_route env) b") (simp_all add: modelForAccount_def)
  have Inl: "modelForAccount env a = Inl e \<longleftrightarrow> getAttemptTarget (scope_of env) (resolved_route env) a = Inl e" for a
    by (cases "getAttemptTarget (scope_of env) (resolved_route env) a") (simp_all add: modelForAccount_def)
  show ?thesis unfolding run_gates_error find_split isl Inl by (metis Inl_Inr_False)
qed

text \<open>The lists a request accumulates.\<close>

definition excluded_ids :: "gate_lists \<Rightarrow> string set" where
  "excluded_ids g = {i. (\<exists>x \<in> set (contextExcludedAccounts g). acc_id (fst x) = i)
     \<or> (\<exists>x \<in> set (familyWeeklyExcludedAccounts g). acc_id (we_account x) = i)}"

definition paced_ids :: "gate_lists \<Rightarrow> string set" where
  "paced_ids g = {i. \<exists>x \<in> set (familyWeeklyPacedAccounts g). acc_id (wp_account x) = i}"

lemma durable_iff: "durable_exclusion g i \<longleftrightarrow> i \<in> excluded_ids g"
  by (auto simp: durable_exclusion_def excluded_ids_def list_ex_iff)

lemma spent_account: "family_spent env now a = Some x \<Longrightarrow> we_account x = a"
  by (auto simp: family_spent_def resolveFamilyWeeklyExclusion_def Let_def split: if_splits option.splits)

lemma paced_account: "family_paced env now a = Some x \<Longrightarrow> wp_account x = a"
  by (auto simp: family_paced_def resolveFamilyWeeklyPacing_def split: if_splits option.splits)

lemma note_family_ids:
  assumes "family_blocked env now a"
  shows "excluded_ids (note_family env now g a) = excluded_ids g \<union> {i. i = acc_id a \<and> family_spent env now a \<noteq> None}"
    and "paced_ids (note_family env now g a) = paced_ids g \<union> {i. i = acc_id a \<and> family_spent env now a = None}"
  using assms by (auto simp: note_family_def excluded_ids_def paced_ids_def family_blocked_def list_ex_iff
      dest: spent_account paced_account split: option.split if_splits)

lemma note_context_ids:
  "excluded_ids (note_context env g a) = insert (acc_id a) (excluded_ids g)" "paced_ids (note_context env g a) = paced_ids g"
  by (auto simp: note_context_def excluded_ids_def paced_ids_def list_ex_iff split_beta)

lemma notes_ids:
  "excluded_ids (foldl (note_context env) g ys) = excluded_ids g \<union> acc_id ` set ys"
  "paced_ids (foldl (note_context env) g ys) = paced_ids g"
  "\<forall>a \<in> set xs. family_blocked env now a \<Longrightarrow>
    excluded_ids (foldl (note_family env now) g xs) = excluded_ids g \<union> acc_id ` {a \<in> set xs. family_spent env now a \<noteq> None}"
  "\<forall>a \<in> set xs. family_blocked env now a \<Longrightarrow>
    paced_ids (foldl (note_family env now) g xs) = paced_ids g \<union> acc_id ` {a \<in> set xs. family_spent env now a = None}"
proof -
  show "excluded_ids (foldl (note_context env) g ys) = excluded_ids g \<union> acc_id ` set ys" "paced_ids (foldl (note_context env) g ys) = paced_ids g"
    by (induction ys arbitrary: g) (simp_all add: note_context_ids)
  show "excluded_ids (foldl (note_family env now) g xs) = excluded_ids g \<union> acc_id ` {a \<in> set xs. family_spent env now a \<noteq> None}"
    if "\<forall>a \<in> set xs. family_blocked env now a"
    using that by (induction xs arbitrary: g) (auto simp: note_family_ids)
  show "paced_ids (foldl (note_family env now) g xs) = paced_ids g \<union> acc_id ` {a \<in> set xs. family_spent env now a = None}"
    if "\<forall>a \<in> set xs. family_blocked env now a"
    using that by (induction xs arbitrary: g) (auto simp: note_family_ids)
qed

lemma run_gates_ids:
  assumes "run_gates env clock selected g = Inr adm"
  shows "excluded_ids (adm_lists adm) = excluded_ids g \<union> acc_id ` {a \<in> set (stopped_family env clock selected). family_spent env (clock 2) a \<noteq> None}
      \<union> acc_id ` set (stopped_context env clock selected)"
    and "paced_ids (adm_lists adm) = paced_ids g \<union> acc_id ` {a \<in> set (stopped_family env clock selected). family_spent env (clock 2) a = None}"
proof -
  obtain sm where all: "\<forall>a \<in> set selected. resolvable env a"
    and sm: "soft_maps_of env (clock 3) (filter (admitted env clock) selected) = Inr sm" using run_gates_ok [OF assms] .
  let ?noted = "foldl (note_context env) (foldl (note_family env (clock 2)) g (stopped_family env clock selected)) (stopped_context env clock selected)"
  have "excluded_ids (adm_lists adm) = excluded_ids ?noted" "paced_ids (adm_lists adm) = paced_ids ?noted"
    using run_gates_total [OF all sm, of g] assms by (auto simp: excluded_ids_def paced_ids_def)
  moreover have "\<forall>a \<in> set (stopped_family env clock selected). family_blocked env (clock 2) a" by (simp add: stopped_family_def)
  ultimately show "excluded_ids (adm_lists adm) = excluded_ids g \<union> acc_id ` {a \<in> set (stopped_family env clock selected). family_spent env (clock 2) a \<noteq> None}
      \<union> acc_id ` set (stopped_context env clock selected)"
    "paced_ids (adm_lists adm) = paced_ids g \<union> acc_id ` {a \<in> set (stopped_family env clock selected). family_spent env (clock 2) a = None}"
    by (simp_all add: notes_ids)
qed

text \<open>
  C20. What the gates hand to the attempt loop: exactly the selected accounts that no gate stops, in the
  order of the ranking except that softly demoted accounts move behind the others, and accounts with a
  remembered failure behind all of them. Every account a gate stops is on record: as overloaded, as
  throttled, as excluded for its window or its family, or as paced.
\<close>

theorem admission_result:
  assumes "run_gates env clock selected g = Inr adm" and "distinct (map acc_id selected)"
  shows "adm_accounts adm = move_back (memo_refused env (clock 4) g)
      (move_back (\<lambda>a. jm_has (softDemotionReasons (adm_lists adm)) (acc_id a)) (filter (admitted env clock) selected))
    \<and> (\<forall>a \<in> set selected. \<not> admitted env clock a \<longrightarrow>
        a \<in> fst ` set (adm_overloaded adm) \<or> a \<in> set (adm_throttled adm)
        \<or> acc_id a \<in> excluded_ids (adm_lists adm) \<or> acc_id a \<in> paced_ids (adm_lists adm))"
proof
  obtain sm where all: "\<forall>a \<in> set selected. resolvable env a"
    and sm: "soft_maps_of env (clock 3) (filter (admitted env clock) selected) = Inr sm" using run_gates_ok [OF assms(1)] .
  note total = run_gates_total [OF all sm, of g]
  let ?fit = "filter (admitted env clock) selected"
  have "jm_has (softDemotionReasons (adm_lists adm)) (acc_id a) = soft_demoted env (clock 3) sm ?fit a" if "a \<in> set ?fit" for a
  proof -
    have "b = a" if "b \<in> set selected" "acc_id b = acc_id a" for b
      using that \<open>a \<in> set ?fit\<close> assms(2) by (auto simp: distinct_map inj_on_def)
    then show ?thesis using total assms(1) \<open>a \<in> set ?fit\<close> by auto
  qed
  then have "move_back (\<lambda>a. jm_has (softDemotionReasons (adm_lists adm)) (acc_id a)) ?fit = move_back (soft_demoted env (clock 3) sm ?fit) ?fit"
    by (rule move_back_cong)
  with total assms(1) show "adm_accounts adm = move_back (memo_refused env (clock 4) g)
      (move_back (\<lambda>a. jm_has (softDemotionReasons (adm_lists adm)) (acc_id a)) ?fit)" by auto
  have stops: "adm_overloaded adm = map (\<lambda>a. (a, the (overload_until env (clock 0) a))) (filter (\<lambda>a. truthy (overload_until env (clock 0) a)) selected)"
    "adm_throttled adm = filter (\<lambda>a. \<not> truthy (overload_until env (clock 0) a) \<and> throttles env \<and> is_throttled env (clock 1) a) selected"
    using total assms(1) by auto
  show "\<forall>a \<in> set selected. \<not> admitted env clock a \<longrightarrow> a \<in> fst ` set (adm_overloaded adm) \<or> a \<in> set (adm_throttled adm)
      \<or> acc_id a \<in> excluded_ids (adm_lists adm) \<or> acc_id a \<in> paced_ids (adm_lists adm)"
  proof (intro ballI impI)
    fix a
    assume a: "a \<in> set selected" "\<not> admitted env clock a"
    then consider "a \<in> fst ` set (adm_overloaded adm)" | "a \<in> set (adm_throttled adm)"
      | "a \<in> set (stopped_family env clock selected)" | "a \<in> set (stopped_context env clock selected)"
      unfolding stops by (auto simp: admitted_def stopped_family_def stopped_context_def image_image)
    then show "a \<in> fst ` set (adm_overloaded adm) \<or> a \<in> set (adm_throttled adm)
        \<or> acc_id a \<in> excluded_ids (adm_lists adm) \<or> acc_id a \<in> paced_ids (adm_lists adm)"
      unfolding run_gates_ids [OF assms(1)] by cases blast+
  qed
qed

text \<open>
  C23. A conversation's pin survives transient trouble: after the gates, the strategy rebinds the
  conversation (its state or the routing metadata changes) only if the remembered account is not among the
  candidates and was excluded, in this pass or an earlier one of the request, because its context window
  is too small or its weekly quota for the family is spent. Overload, throttling, pacing, soft demotion
  and failure memos never move it.
\<close>

theorem pin_moves_only_on_durable_exclusion:
  assumes "run_gates env clock selected g = Inr adm"
    and "reconcileAffinity hash t now env (adm_lists adm) (adm_accounts adm) meta strategy = (strategy', meta', accounts')"
    and "strategy' \<noteq> strategy \<or> meta' \<noteq> meta \<or> accounts' \<noteq> adm_accounts adm"
  shows "\<exists>i. remembered_account meta = Some i \<and> i \<notin> acc_id ` set (adm_accounts adm)
    \<and> (i \<in> excluded_ids g \<or> (\<exists>a \<in> set selected. acc_id a = i \<and> (family_spent env (clock 2) a \<noteq> None \<or> overflows env a)))"
proof -
  obtain i where i: "remembered_account meta = Some i" "i \<notin> acc_id ` set (adm_accounts adm)" "durable_exclusion (adm_lists adm) i"
    using assms(2,3) by (auto simp: reconcileAffinity_def list_ex_iff image_iff split: if_splits option.splits list.splits)
  moreover from i(3) have "i \<in> excluded_ids g \<or> (\<exists>a \<in> set selected. acc_id a = i \<and> (family_spent env (clock 2) a \<noteq> None \<or> overflows env a))"
    unfolding durable_iff run_gates_ids(1) [OF assms(1)] by (auto simp: stopped_family_def stopped_context_def)
  ultimately show ?thesis by blast
qed

subsection \<open>Witnesses\<close>

text \<open>Account a is in the tail of its week, b has headroom, c serves a window too small for the request.\<close>

definition tail_payload :: usage_payload where
  "tail_payload = sample_payload\<lparr>p_seven_day := Some (Some (no_window\<lparr>utilization := Some 95, resets_at := Reset_at 602000000\<rparr>))\<rparr>"

definition sample_view :: "usage_payload \<Rightarrow> usage_view" where
  "sample_view p = (let axis = \<lparr>ax_source = From_poll, ax_observedAtMs = Some 500, ax_freshAtMs = Some 500\<rparr> in
     \<lparr>view_data = p, view_fiveHour = axis, view_sevenDay = axis, view_pollWrittenAtMs = 500,
      view_pollObservedAtMs = Some 500, view_pollFreshAtMs = 500\<rparr>)"

definition sample_cache :: "string \<Rightarrow> usage_payload option" where
  "sample_cache i = (if i = ''a'' then Some tail_payload else if i = ''b'' then Some sample_payload else None)"

definition sample_codex :: account where
  "sample_codex = (sample_account ''c'' 2)\<lparr>provider := CODEX\<rparr>"

definition plain_route :: "route_targets \<Rightarrow> route" where
  "plain_route ts = \<lparr>route_requestedModel = ''claude-opus-4'', admissionError = None, route_ruleId = None, route_alias = None,
     aliasReason = None, officialAnthropicExcluded = None, route_maintenance = None, route_model = common_model ts,
     route_rule = None, targets = ts\<rparr>"

definition sample_env :: gate_env where
  "sample_env = \<lparr>
     resolved_route = Some (plain_route [(''a'', \<lparr>upstreamModel = ''claude-opus-4'', targetSource = From_identity, target_provider = ANTHROPIC, target_scope = ''s''\<rparr>),
       (''b'', \<lparr>upstreamModel = ''claude-opus-4'', targetSource = From_identity, target_provider = ANTHROPIC, target_scope = ''s''\<rparr>),
       (''c'', \<lparr>upstreamModel = ''gpt-5.5-2026-05-13'', targetSource = From_identity, target_provider = CODEX, target_scope = ''s''\<rparr>)]),
     scope_of = (\<lambda>_. ''s''), gateTokenEstimate = 300000, isSyntheticProbeRequest = False,
     throttling = \<lparr>fiveHourEnabled = False, weeklyEnabled = False\<rparr>, cache_peek = sample_cache,
     cache_pollFreshAt = (\<lambda>_ _. Some 500), cache_view = (\<lambda>i _ _. map_option sample_view (sample_cache i)),
     overload_state = no_breaker, probe_gates = empty_gate, protected_demand = [], weekly_slopes = []\<rparr>"

definition no_lists :: gate_lists where
  "no_lists = \<lparr>contextExcludedAccounts = [], familyWeeklyExcludedAccounts = [], familyWeeklyPacedAccounts = [],
     softDemotionReasons = [], softDemotionHead = None, livenessHeldAtEveryTier = [], family_memo = [], transient_failures = []\<rparr>"

definition gate_pool :: "account list" where
  "gate_pool = [sample_codex, sample_account ''a'' 0, sample_account ''b'' 1]"

definition sample_lists :: gate_lists where
  "sample_lists = no_lists\<lparr>contextExcludedAccounts := [(sample_codex, ''gpt-5.5-2026-05-13'')],
     softDemotionReasons := [(''a'', ''pool liveness'')],
     softDemotionHead := Some (sample_account ''b'' 1), livenessHeldAtEveryTier := [''a'']\<rparr>"

lemma sample_admission: "run_gates sample_env (\<lambda>_. 1000) gate_pool no_lists =
    Inr \<lparr>adm_overloaded = [], adm_throttled = [], adm_accounts = [sample_account ''b'' 1, sample_account ''a'' 0], adm_lists = sample_lists\<rparr>"
  by code_simp

theorem liveness_reserve_leaves_a_head_witness:
  "\<exists>order g'. applySoftDemotionReorder sample_env 1000 [sample_account ''a'' 0, sample_account ''b'' 1] no_lists = Inr (order, g')
    \<and> jm_get (softDemotionReasons g') ''a'' = Some ''pool liveness'' \<and> (\<exists>head rest. order = head # rest \<and> \<not> jm_has (softDemotionReasons g') (acc_id head))"
proof -
  let ?g = "no_lists\<lparr>softDemotionReasons := [(''a'', ''pool liveness'')], softDemotionHead := Some (sample_account ''b'' 1), livenessHeldAtEveryTier := [''a'']\<rparr>"
  have run: "applySoftDemotionReorder sample_env 1000 [sample_account ''a'' 0, sample_account ''b'' 1] no_lists =
      Inr ([sample_account ''b'' 1, sample_account ''a'' 0], ?g)" by code_simp
  have reason: "jm_get (softDemotionReasons ?g) ''a'' = Some ''pool liveness''" by (simp add: jm_get_def)
  have "distinct (map acc_id [sample_account ''a'' 0, sample_account ''b'' 1])" by (simp add: sample_account_def)
  from liveness_reserve_leaves_a_head [OF run this reason] run reason show ?thesis by auto
qed

theorem admission_result_witness:
  "\<exists>adm. run_gates sample_env (\<lambda>_. 1000) gate_pool no_lists = Inr adm
    \<and> map acc_id (adm_accounts adm) = [''b'', ''a''] \<and> \<not> admitted sample_env (\<lambda>_. 1000) sample_codex \<and> ''c'' \<in> excluded_ids (adm_lists adm)"
proof -
  have "distinct (map acc_id gate_pool)" by (simp add: gate_pool_def sample_codex_def sample_account_def)
  note result = admission_result [OF sample_admission this]
  have stopped: "\<not> admitted sample_env (\<lambda>_. 1000) sample_codex" by code_simp
  have "sample_codex \<in> set gate_pool" "acc_id sample_codex = ''c''" by (simp_all add: gate_pool_def sample_codex_def sample_account_def)
  moreover have "paced_ids sample_lists = {}" by (simp add: paced_ids_def sample_lists_def no_lists_def)
  ultimately have "''c'' \<in> excluded_ids sample_lists" using result stopped by auto
  with stopped show ?thesis by (intro exI [of _ _]) (auto simp: sample_admission sample_account_def)
qed

definition pinned_meta :: request_meta where
  "pinned_meta = sample_meta\<lparr>routing := Some \<lparr>rt_strategy = ''session'', rt_decision = ''affinity_hit'', rt_affinityScope = None,
     rt_affinityKey = None, rt_selectedAccountId = Some ''c'', rt_previousAccountId = None, rt_candidatesCount = 3,
     rt_failoverReason = None, rt_heldAccountId = None\<rparr>\<rparr>"

theorem pin_moves_only_on_durable_exclusion_witness:
  "fst (snd (reconcileAffinity id 1000 1000 sample_env sample_lists [sample_account ''b'' 1, sample_account ''a'' 0] pinned_meta None)) = pinned_meta
    \<and> remembered_account pinned_meta = Some ''c'' \<and> overflows sample_env sample_codex
    \<and> (\<exists>s meta accounts. reconcileAffinity id 1000 1000 sample_env sample_lists [sample_account ''b'' 1, sample_account ''a'' 0] pinned_meta
          (Some (new_strategy 5000)) = (s, meta, accounts) \<and> meta \<noteq> pinned_meta)"
proof -
  define out where "out = reconcileAffinity id 1000 1000 sample_env sample_lists [sample_account ''b'' 1, sample_account ''a'' 0] pinned_meta
    (Some (new_strategy 5000))"
  have "Option.bind (routing (fst (snd out))) rt_heldAccountId = Some ''b''" unfolding out_def by code_simp
  then have moved: "fst (snd out) \<noteq> pinned_meta" by (auto simp: pinned_meta_def)
  have "reconcileAffinity id 1000 1000 sample_env (adm_lists \<lparr>adm_overloaded = [], adm_throttled = [],
      adm_accounts = [sample_account ''b'' 1, sample_account ''a'' 0], adm_lists = sample_lists\<rparr>)
    (adm_accounts \<lparr>adm_overloaded = [], adm_throttled = [], adm_accounts = [sample_account ''b'' 1, sample_account ''a'' 0], adm_lists = sample_lists\<rparr>)
    pinned_meta (Some (new_strategy 5000)) = (fst out, fst (snd out), snd (snd out))"
    by (simp add: out_def)
  from pin_moves_only_on_durable_exclusion [OF sample_admission this] moved
  have cause: "\<exists>i. remembered_account pinned_meta = Some i
    \<and> (i \<in> excluded_ids no_lists \<or> (\<exists>a \<in> set gate_pool. acc_id a = i \<and> (family_spent sample_env 1000 a \<noteq> None \<or> overflows sample_env a)))" by blast
  moreover have "remembered_account pinned_meta = Some ''c''" by code_simp
  moreover have "family_spent sample_env 1000 sample_codex = None" by code_simp
  moreover have "fst (snd (reconcileAffinity id 1000 1000 sample_env sample_lists [sample_account ''b'' 1, sample_account ''a'' 0] pinned_meta None)) = pinned_meta"
    by code_simp
  ultimately show ?thesis using moved
    by (auto simp: excluded_ids_def no_lists_def gate_pool_def sample_codex_def sample_account_def out_def prod_eq_iff)
qed

theorem admission_error_iff_unauthorized_witness:
  "run_gates sample_env (\<lambda>_. 1000) [sample_account ''a'' 0, sample_account ''z'' 0] no_lists = Inl (Outside_destinations ''z'')"
proof (rule admission_error_iff_unauthorized [THEN iffD2], intro exI conjI)
  show "[sample_account ''a'' 0, sample_account ''z'' 0] = [sample_account ''a'' 0] @ sample_account ''z'' 0 # []" by simp
  show "getAttemptTarget (scope_of sample_env) (resolved_route sample_env) (sample_account ''z'' 0) = Inl (Outside_destinations ''z'')" by code_simp
  show "\<forall>b \<in> set [sample_account ''a'' 0]. \<exists>t. getAttemptTarget (scope_of sample_env) (resolved_route sample_env) b = Inr t"
    by (simp add: getAttemptTarget_def route_target_def sample_env_def plain_route_def sample_account_def jm_get_def)
qed

end
