(* ===== verification/AsyncWriter.thy ===== *)
theory AsyncWriter
  imports JsBase
begin

section \<open>The asynchronous database writer\<close>

text \<open>
  The class \<^verbatim>\<open>AsyncDbWriter\<close> of \<^verbatim>\<open>database/src/async-writer.ts\<close>: a queue of metadata jobs drained in budgeted ticks, a
  byte and count budget for payloads reserved before they are published, and a two-phase shutdown. A job is the
  list of the calls it makes on the writer, each of which may enqueue further jobs. The code awaits a job
  before it shifts the next one, and anything may happen in between: one event is one call, one check
  of the tick's loop, or one call of the job that runs. A reservation token is an id with its bytes and its
  settled flag. The payload worker behind \<^verbatim>\<open>PayloadWriterLike\<close> is outside the model: whether it accepts work
  and how a publication ends are inputs, and it reports one outcome for each entry it took
  (\<open>unacked\<close> is the list of those entries). Log lines and watchdog timers are left out.
  Shown: the budget is never exceeded and always equals what live tokens and unacknowledged entries hold;
  a token is spent once; accepted jobs run once and in the order of acceptance; the drain of the shutdown
  ends and leaves no job behind.
\<close>

subsection \<open>State\<close>

record payload_entry =
  transportBytes :: nat
  payloadBytes :: nat

datatype publish_answer = Published | Refused_publish | Publish_threw

datatype call =
    Enqueue job
  | Shutdown_batch job
  | Reserve_payload nat
  | Release_payload nat
  | Publish nat payload_entry publish_answer
  | Record_drop nat
and job = Job "call list"

datatype settlement = Committed_payload | Dropped_payload | Expired_payload | Abandoned_payload

record reservation_token =
  reservedBytes :: nat
  settled :: bool

record running_tick =
  jobsProcessed :: nat
  current_job :: "call list option"

record async_writer =
  metadataQueue :: "(job \<times> int) list"
  runningPromise :: "running_tick option"
  has_factory :: bool
  payloadWriter :: bool
  writer_accepts :: bool
  writer_draining :: bool
  tokens :: "reservation_token list"
  payloadReservedBytes :: int
  payloadReservedCount :: int
  payloadInFlightBytes :: int
  payloadInFlightOriginalBytes :: int
  payloadInFlightCount :: int
  metadataDropped :: nat
  payloadDropped :: nat
  payloadDroppedBytes :: nat
  payloadCommitted :: nat
  payloadExpired :: nat
  payloadAbandoned :: nat
  droppedJobsSinceLastLog :: nat
  payloadDroppedSinceLastLog :: nat
  lastIntervalDrops :: nat
  closingForDispose :: bool
  disposed :: bool

definition MAX_PAYLOAD_ENTRY_BYTES :: nat where "MAX_PAYLOAD_ENTRY_BYTES = 16 * 1024 * 1024"
definition METADATA_QUEUE_CAP :: nat where "METADATA_QUEUE_CAP = 2000"
definition PAYLOAD_QUEUE_HARD_CAP :: nat where "PAYLOAD_QUEUE_HARD_CAP = 1000"
definition PAYLOAD_BYTES_CAP :: nat where "PAYLOAD_BYTES_CAP = 100 * 1024 * 1024"
definition MAX_JOBS_PER_TICK :: nat where "MAX_JOBS_PER_TICK = 50"
definition MAX_DRAIN_MS_PER_TICK :: int where "MAX_DRAIN_MS_PER_TICK = 250"

definition new_writer :: "bool \<Rightarrow> async_writer" where
  "new_writer factory = \<lparr>metadataQueue = [], runningPromise = None, has_factory = factory, payloadWriter = False,
     writer_accepts = True, writer_draining = False, tokens = [], payloadReservedBytes = 0, payloadReservedCount = 0,
     payloadInFlightBytes = 0, payloadInFlightOriginalBytes = 0, payloadInFlightCount = 0, metadataDropped = 0,
     payloadDropped = 0, payloadDroppedBytes = 0, payloadCommitted = 0, payloadExpired = 0, payloadAbandoned = 0,
     droppedJobsSinceLastLog = 0, payloadDroppedSinceLastLog = 0, lastIntervalDrops = 0,
     closingForDispose = False, disposed = False\<rparr>"

subsection \<open>Metadata\<close>

definition kickQueue :: "async_writer \<Rightarrow> async_writer" where
  "kickQueue w =
     (if runningPromise w \<noteq> None then w
      else if metadataQueue w = [] then w
      else w\<lparr>runningPromise := Some \<lparr>jobsProcessed = 0, current_job = None\<rparr>\<rparr>)"

definition enqueue_job :: "job \<Rightarrow> int \<Rightarrow> async_writer \<Rightarrow> async_writer \<times> bool" where
  "enqueue_job job now w =
     (if length (metadataQueue w) \<ge> METADATA_QUEUE_CAP
      then (w\<lparr>metadataDropped := metadataDropped w + 1, droppedJobsSinceLastLog := droppedJobsSinceLastLog w + 1\<rparr>, False)
      else (kickQueue (w\<lparr>metadataQueue := metadataQueue w @ [(job, now)]\<rparr>), True))"

definition enqueueShutdownBatch :: "job \<Rightarrow> int \<Rightarrow> async_writer \<Rightarrow> async_writer \<times> bool" where
  "enqueueShutdownBatch job now w =
     (if disposed w then (w, False) else (kickQueue (w\<lparr>metadataQueue := metadataQueue w @ [(job, now)]\<rparr>), True))"

definition canAcceptMetadata :: "async_writer \<Rightarrow> bool" where
  "canAcceptMetadata w \<longleftrightarrow> length (metadataQueue w) < METADATA_QUEUE_CAP"

subsection \<open>Payload admission\<close>

definition payloadBytesPending :: "async_writer \<Rightarrow> int" where
  "payloadBytesPending w = payloadReservedBytes w + payloadInFlightBytes w"

definition payloadJobCount :: "async_writer \<Rightarrow> int" where
  "payloadJobCount w = payloadReservedCount w + payloadInFlightCount w"

definition canAcceptPayload :: "nat \<Rightarrow> async_writer \<Rightarrow> bool" where
  "canAcceptPayload estimatedBytes w =
     (if disposed w \<or> closingForDispose w then False
      else if estimatedBytes > MAX_PAYLOAD_ENTRY_BYTES then False
      else if payloadJobCount w \<ge> int PAYLOAD_QUEUE_HARD_CAP then False
      else if payloadBytesPending w + int estimatedBytes > int PAYLOAD_BYTES_CAP then False
      else if payloadWriter w \<and> \<not> writer_accepts w then False
      else True)"

definition reservePayload :: "nat \<Rightarrow> async_writer \<Rightarrow> async_writer \<times> nat option" where
  "reservePayload estimatedBytes w =
     (if \<not> canAcceptPayload estimatedBytes w then (w, None)
      else (w\<lparr>payloadReservedBytes := payloadReservedBytes w + int estimatedBytes,
              payloadReservedCount := payloadReservedCount w + 1,
              tokens := tokens w @ [\<lparr>reservedBytes = estimatedBytes, settled = False\<rparr>]\<rparr>, Some (length (tokens w))))"

definition consume :: "nat \<Rightarrow> async_writer \<Rightarrow> async_writer \<times> bool" where
  "consume t w =
     (if t \<ge> length (tokens w) \<or> settled (tokens w ! t) then (w, False)
      else (w\<lparr>tokens := (tokens w)[t := (tokens w ! t)\<lparr>settled := True\<rparr>],
              payloadReservedBytes := payloadReservedBytes w - int (reservedBytes (tokens w ! t)),
              payloadReservedCount := payloadReservedCount w - 1\<rparr>, True))"

definition release_token :: "nat \<Rightarrow> async_writer \<Rightarrow> async_writer" where
  "release_token t w = fst (consume t w)"

definition recordPayloadDrop :: "nat \<Rightarrow> async_writer \<Rightarrow> async_writer" where
  "recordPayloadDrop bytes w = w\<lparr>payloadDropped := payloadDropped w + 1, payloadDroppedBytes := payloadDroppedBytes w + bytes,
     payloadDroppedSinceLastLog := payloadDroppedSinceLastLog w + 1\<rparr>"

definition ensurePayloadWriter :: "async_writer \<Rightarrow> async_writer \<times> bool" where
  "ensurePayloadWriter w =
     (if payloadWriter w then (w, True)
      else if \<not> has_factory w then (w, False)
      else (w\<lparr>payloadWriter := True, writer_draining := closingForDispose w\<rparr>, True))"

definition enqueuePayload :: "nat \<Rightarrow> payload_entry \<Rightarrow> publish_answer \<Rightarrow> async_writer \<Rightarrow> async_writer \<times> bool" where
  "enqueuePayload t entry answer w =
     (case consume t w of (w1, live) \<Rightarrow>
        if \<not> live then (w1, False)
        else let bytes = transportBytes entry in
          if bytes > MAX_PAYLOAD_ENTRY_BYTES then (recordPayloadDrop bytes w1, False)
          else if disposed w1 \<or> payloadInFlightCount w1 \<ge> int PAYLOAD_QUEUE_HARD_CAP
              \<or> payloadBytesPending w1 + int bytes > int PAYLOAD_BYTES_CAP
          then (recordPayloadDrop bytes w1, False)
          else case ensurePayloadWriter w1 of (w2, present) \<Rightarrow>
            if \<not> present then (recordPayloadDrop bytes w2, False)
            else let w3 = w2\<lparr>payloadInFlightBytes := payloadInFlightBytes w2 + int bytes,
                      payloadInFlightOriginalBytes := payloadInFlightOriginalBytes w2 + int (payloadBytes entry),
                      payloadInFlightCount := payloadInFlightCount w2 + 1\<rparr>
              in if answer \<noteq> Published
                 then (recordPayloadDrop bytes (w3\<lparr>payloadInFlightBytes := payloadInFlightBytes w3 - int bytes,
                      payloadInFlightOriginalBytes := payloadInFlightOriginalBytes w3 - int (payloadBytes entry),
                      payloadInFlightCount := payloadInFlightCount w3 - 1\<rparr>), False)
                 else (w3, True))"

definition onPayloadSettled :: "payload_entry \<Rightarrow> settlement \<Rightarrow> async_writer \<Rightarrow> async_writer" where
  "onPayloadSettled entry outcome w =
     (let w1 = w\<lparr>payloadInFlightBytes := payloadInFlightBytes w - int (transportBytes entry),
            payloadInFlightOriginalBytes := payloadInFlightOriginalBytes w - int (payloadBytes entry),
            payloadInFlightCount := payloadInFlightCount w - 1\<rparr>
      in case outcome of
           Committed_payload \<Rightarrow> w1\<lparr>payloadCommitted := payloadCommitted w1 + 1\<rparr>
         | Dropped_payload \<Rightarrow> recordPayloadDrop (transportBytes entry) w1
         | Expired_payload \<Rightarrow> w1\<lparr>payloadExpired := payloadExpired w1 + 1\<rparr>
         | Abandoned_payload \<Rightarrow> w1\<lparr>payloadAbandoned := payloadAbandoned w1 + 1\<rparr>)"

subsection \<open>Calls, ticks and shutdown\<close>

text \<open>The writer with the entries the payload worker holds.\<close>

record writer_system =
  writer :: async_writer
  unacked :: "payload_entry list"

definition do_call :: "call \<Rightarrow> int \<Rightarrow> writer_system \<Rightarrow> writer_system" where
  "do_call c now s = (case c of
     Enqueue job \<Rightarrow> s\<lparr>writer := fst (enqueue_job job now (writer s))\<rparr>
   | Shutdown_batch job \<Rightarrow> s\<lparr>writer := fst (enqueueShutdownBatch job now (writer s))\<rparr>
   | Reserve_payload n \<Rightarrow> s\<lparr>writer := fst (reservePayload n (writer s))\<rparr>
   | Release_payload t \<Rightarrow> s\<lparr>writer := release_token t (writer s)\<rparr>
   | Publish t entry answer \<Rightarrow> (case enqueuePayload t entry answer (writer s) of
       (w, ok) \<Rightarrow> s\<lparr>writer := w, unacked := (if ok then unacked s @ [entry] else unacked s)\<rparr>)
   | Record_drop n \<Rightarrow> s\<lparr>writer := recordPayloadDrop n (writer s)\<rparr>)"

text \<open>One check of the loop in \<^verbatim>\<open>runTick\<close>: shift the next job, or end the tick.\<close>

definition tick_check :: "int \<Rightarrow> async_writer \<Rightarrow> async_writer" where
  "tick_check elapsed w = (case runningPromise w of
     None \<Rightarrow> w
   | Some t \<Rightarrow>
       if current_job t \<noteq> None then w
       else case metadataQueue w of
         [] \<Rightarrow> w\<lparr>runningPromise := None\<rparr>
       | (Job calls, _) # rest \<Rightarrow>
           if jobsProcessed t < MAX_JOBS_PER_TICK \<and> elapsed < MAX_DRAIN_MS_PER_TICK
           then w\<lparr>metadataQueue := rest, runningPromise := Some (t\<lparr>current_job := Some calls\<rparr>)\<rparr>
           else w\<lparr>runningPromise := None\<rparr>)"

text \<open>The job that runs makes its next call, or returns.\<close>

definition job_step :: "int \<Rightarrow> writer_system \<Rightarrow> writer_system" where
  "job_step now s = (case runningPromise (writer s) of
     None \<Rightarrow> s
   | Some t \<Rightarrow> (case current_job t of
       None \<Rightarrow> s
     | Some [] \<Rightarrow> s\<lparr>writer := (writer s)\<lparr>runningPromise := Some \<lparr>jobsProcessed = jobsProcessed t + 1, current_job = None\<rparr>\<rparr>\<rparr>
     | Some (c # cs) \<Rightarrow>
         do_call c now (s\<lparr>writer := (writer s)\<lparr>runningPromise := Some (t\<lparr>current_job := Some cs\<rparr>)\<rparr>\<rparr>)))"

definition begin_dispose :: "async_writer \<Rightarrow> async_writer" where
  "begin_dispose w = w\<lparr>closingForDispose := True, writer_draining := writer_draining w \<or> payloadWriter w\<rparr>"

definition finish_dispose :: "async_writer \<Rightarrow> async_writer" where
  "finish_dispose w = (if closingForDispose w \<and> metadataQueue w = [] \<and> runningPromise w = None then w\<lparr>disposed := True\<rparr> else w)"

subsection \<open>Health\<close>

record writer_stats =
  stats_healthy :: bool
  oldestUnackedAgeMs :: int
  admissionSuspended :: bool
  writerFatal :: "string option"

record health =
  healthy :: bool
  failureCount :: nat
  recentDrops :: nat
  queuedJobs :: int
  metadataQueuedJobs :: nat
  payloadQueuedJobs :: int
  payloadInFlightJobs :: int
  h_payloadBytesPending :: int
  h_payloadReservedBytes :: int
  h_payloadInFlightBytes :: int
  h_payloadInFlightOriginalBytes :: int
  oldestMetadataAgeMs :: int
  oldestPayloadAgeMs :: int
  h_metadataDropped :: nat
  h_payloadDropped :: nat
  h_payloadDroppedBytes :: nat
  h_payloadCommitted :: nat
  h_payloadExpired :: nat
  h_payloadAbandoned :: nat
  payloadWriterHealthy :: bool
  payloadWriterSuspended :: bool
  payloadWriterFatal :: "string option"

definition getHealth :: "writer_stats option \<Rightarrow> int \<Rightarrow> async_writer \<Rightarrow> health" where
  "getHealth stats now w =
     (let writerHealthy = (case stats of None \<Rightarrow> True | Some st \<Rightarrow> stats_healthy st);
          bytesPending = payloadBytesPending w
      in \<lparr>healthy = (10 * length (metadataQueue w) < 8 * METADATA_QUEUE_CAP
              \<and> 10 * payloadJobCount w < 8 * int PAYLOAD_QUEUE_HARD_CAP \<and> 10 * bytesPending < 8 * int PAYLOAD_BYTES_CAP
              \<and> writerHealthy \<and> lastIntervalDrops w = 0),
          failureCount = metadataDropped w + payloadDropped w, recentDrops = lastIntervalDrops w,
          queuedJobs = int (length (metadataQueue w)) + payloadJobCount w,
          metadataQueuedJobs = length (metadataQueue w), payloadQueuedJobs = payloadReservedCount w,
          payloadInFlightJobs = payloadInFlightCount w, h_payloadBytesPending = bytesPending,
          h_payloadReservedBytes = payloadReservedBytes w, h_payloadInFlightBytes = payloadInFlightBytes w,
          h_payloadInFlightOriginalBytes = payloadInFlightOriginalBytes w,
          oldestMetadataAgeMs = (case metadataQueue w of [] \<Rightarrow> 0 | (_, t) # _ \<Rightarrow> now - t),
          oldestPayloadAgeMs = (case stats of None \<Rightarrow> 0 | Some st \<Rightarrow> oldestUnackedAgeMs st),
          h_metadataDropped = metadataDropped w, h_payloadDropped = payloadDropped w,
          h_payloadDroppedBytes = payloadDroppedBytes w, h_payloadCommitted = payloadCommitted w,
          h_payloadExpired = payloadExpired w, h_payloadAbandoned = payloadAbandoned w,
          payloadWriterHealthy = writerHealthy,
          payloadWriterSuspended = (case stats of None \<Rightarrow> False | Some st \<Rightarrow> admissionSuspended st),
          payloadWriterFatal = Option.bind stats writerFatal\<rparr>)"

definition shouldLogAsyncWriterHealth :: "health \<Rightarrow> nat \<Rightarrow> bool" where
  "shouldLogAsyncWriterHealth h drops \<longleftrightarrow> queuedJobs h > 0 \<or> drops > 0 \<or> h_payloadBytesPending h > 0
     \<or> payloadInFlightJobs h > 0 \<or> \<not> payloadWriterHealthy h"

definition shouldWarnAsyncWriterHealth :: "health \<Rightarrow> health option \<Rightarrow> bool" where
  "shouldWarnAsyncWriterHealth h previous \<longleftrightarrow> \<not> healthy h \<or> \<not> payloadWriterHealthy h \<or> payloadWriterSuspended h
     \<or> payloadWriterFatal h \<noteq> None \<or> recentDrops h > 0 \<or> oldestMetadataAgeMs h \<ge> 5000 \<or> oldestPayloadAgeMs h \<ge> 5000
     \<or> queuedJobs h \<ge> 100
     \<or> (case previous of None \<Rightarrow> False
        | Some p \<Rightarrow> queuedJobs h - queuedJobs p \<ge> 10 \<or> h_payloadBytesPending h - h_payloadBytesPending p \<ge> 1024 * 1024)"

text \<open>The sample every thirty seconds: the drops since the last one become the recent drops.\<close>

definition health_sample :: "async_writer \<Rightarrow> async_writer" where
  "health_sample w = w\<lparr>lastIntervalDrops := droppedJobsSinceLastLog w + payloadDroppedSinceLastLog w,
     droppedJobsSinceLastLog := 0, payloadDroppedSinceLastLog := 0\<rparr>"

subsection \<open>Events\<close>

datatype writer_event =
    Call call int
  | Poll
  | Tick_check int
  | Job_step int
  | Settle_payload nat settlement
  | Worker_admission bool
  | Health_sample
  | Begin_dispose
  | Finish_dispose

definition writer_step :: "writer_system \<Rightarrow> writer_event \<Rightarrow> writer_system" where
  "writer_step s ev = (case ev of
     Call c now \<Rightarrow> do_call c now s
   | Poll \<Rightarrow> s\<lparr>writer := kickQueue (writer s)\<rparr>
   | Tick_check elapsed \<Rightarrow> s\<lparr>writer := tick_check elapsed (writer s)\<rparr>
   | Job_step now \<Rightarrow> job_step now s
   | Settle_payload i outcome \<Rightarrow>
       if i < length (unacked s)
       then s\<lparr>writer := onPayloadSettled (unacked s ! i) outcome (writer s), unacked := take i (unacked s) @ drop (Suc i) (unacked s)\<rparr>
       else s
   | Worker_admission b \<Rightarrow> s\<lparr>writer := (writer s)\<lparr>writer_accepts := b\<rparr>\<rparr>
   | Health_sample \<Rightarrow> s\<lparr>writer := health_sample (writer s)\<rparr>
   | Begin_dispose \<Rightarrow> s\<lparr>writer := begin_dispose (writer s)\<rparr>
   | Finish_dispose \<Rightarrow> s\<lparr>writer := finish_dispose (writer s)\<rparr>)"

definition new_system :: "bool \<Rightarrow> writer_system" where
  "new_system factory = \<lparr>writer = new_writer factory, unacked = []\<rparr>"

subsection \<open>The budget\<close>

definition live_bytes :: "reservation_token list \<Rightarrow> int" where
  "live_bytes ts = sum_list (map (\<lambda>t. if settled t then 0 else int (reservedBytes t)) ts)"

definition live_count :: "reservation_token list \<Rightarrow> int" where
  "live_count ts = sum_list (map (\<lambda>t. if settled t then 0 else 1) ts)"

definition held_bytes :: "payload_entry list \<Rightarrow> int" where
  "held_bytes es = sum_list (map (int \<circ> transportBytes) es)"

definition held_original :: "payload_entry list \<Rightarrow> int" where
  "held_original es = sum_list (map (int \<circ> payloadBytes) es)"

definition payload_inv :: "writer_system \<Rightarrow> bool" where
  "payload_inv s \<longleftrightarrow> (let w = writer s in
     payloadReservedBytes w = live_bytes (tokens w) \<and> payloadReservedCount w = live_count (tokens w)
     \<and> payloadInFlightBytes w = held_bytes (unacked s) \<and> payloadInFlightOriginalBytes w = held_original (unacked s)
     \<and> payloadInFlightCount w = int (length (unacked s))
     \<and> payloadBytesPending w \<le> int PAYLOAD_BYTES_CAP \<and> payloadJobCount w \<le> int PAYLOAD_QUEUE_HARD_CAP
     \<and> (\<forall>e \<in> set (unacked s). transportBytes e \<le> MAX_PAYLOAD_ENTRY_BYTES)
     \<and> (payloadWriter w \<and> closingForDispose w \<longrightarrow> writer_draining w))"

lemma sum_list_put: "t < length ts \<Longrightarrow> sum_list (map f (ts[t := v])) = sum_list (map f ts) - f (ts ! t) + (f v :: int)"
  by (induction ts arbitrary: t) (auto split: nat.split)

lemma sum_list_remove: "i < length es \<Longrightarrow> sum_list (map f (take i es @ drop (Suc i) es)) = sum_list (map f es) - (f (es ! i) :: int)"
proof (induction es arbitrary: i)
  case (Cons e es)
  then show ?case by (cases i) auto
qed simp

lemma live_snoc [simp]:
  "live_bytes (ts @ [t]) = live_bytes ts + (if settled t then 0 else int (reservedBytes t))"
  "live_count (ts @ [t]) = live_count ts + (if settled t then 0 else 1)"
  by (simp_all add: live_bytes_def live_count_def)

lemma live_settle [simp]:
  assumes "t < length ts" "\<not> settled (ts ! t)"
  shows "live_bytes (ts[t := (ts ! t)\<lparr>settled := True\<rparr>]) = live_bytes ts - int (reservedBytes (ts ! t))"
    and "live_count (ts[t := (ts ! t)\<lparr>settled := True\<rparr>]) = live_count ts - 1"
  using assms by (simp_all add: live_bytes_def live_count_def sum_list_put)

lemma held_snoc [simp]:
  "held_bytes (es @ [e]) = held_bytes es + int (transportBytes e)" "held_original (es @ [e]) = held_original es + int (payloadBytes e)"
  by (simp_all add: held_bytes_def held_original_def)

lemma held_settle:
  assumes "i < length es"
  shows "held_bytes (take i es @ drop (Suc i) es) = held_bytes es - int (transportBytes (es ! i))"
    and "held_original (take i es @ drop (Suc i) es) = held_original es - int (payloadBytes (es ! i))"
  using assms by (simp_all only: held_bytes_def held_original_def sum_list_remove comp_apply)

text \<open>The fields of the budget are untouched by the metadata side.\<close>

lemma kick_frame [simp]:
  "tokens (kickQueue w) = tokens w" "payloadReservedBytes (kickQueue w) = payloadReservedBytes w"
  "payloadReservedCount (kickQueue w) = payloadReservedCount w" "payloadInFlightBytes (kickQueue w) = payloadInFlightBytes w"
  "payloadInFlightOriginalBytes (kickQueue w) = payloadInFlightOriginalBytes w"
  "payloadInFlightCount (kickQueue w) = payloadInFlightCount w" "payloadWriter (kickQueue w) = payloadWriter w"
  "closingForDispose (kickQueue w) = closingForDispose w" "writer_draining (kickQueue w) = writer_draining w"
  "metadataQueue (kickQueue w) = metadataQueue w" "disposed (kickQueue w) = disposed w"
  by (simp_all add: kickQueue_def)

lemmas budget_defs = payload_inv_def payloadBytesPending_def payloadJobCount_def Let_def

lemma budget_reserve: "payload_inv s \<Longrightarrow> payload_inv (s\<lparr>writer := fst (reservePayload n (writer s))\<rparr>)"
  by (auto simp: reservePayload_def canAcceptPayload_def budget_defs split: if_splits)

lemma budget_consume: "payload_inv s \<Longrightarrow> payload_inv (s\<lparr>writer := fst (consume t (writer s))\<rparr>)"
  by (auto simp: consume_def budget_defs)

lemma budget_publish:
  assumes "payload_inv s"
  shows "payload_inv (case enqueuePayload t e answer (writer s) of
    (w, ok) \<Rightarrow> s\<lparr>writer := w, unacked := (if ok then unacked s @ [e] else unacked s)\<rparr>)"
  using assms
  by (auto simp: enqueuePayload_def consume_def ensurePayloadWriter_def recordPayloadDrop_def budget_defs split: if_splits)

lemma budget_call: "payload_inv s \<Longrightarrow> payload_inv (do_call c now s)"
proof (cases c)
  case (Publish t e answer)
  then show "payload_inv s \<Longrightarrow> ?thesis" using budget_publish [of s] by (simp add: do_call_def)
qed (auto simp: do_call_def budget_reserve budget_consume release_token_def, (simp_all add: enqueue_job_def enqueueShutdownBatch_def recordPayloadDrop_def budget_defs)?)

lemma budget_step:
  assumes "payload_inv s"
  shows "payload_inv (writer_step s ev)"
proof (cases ev)
  case (Call c now)
  with assms show ?thesis by (simp add: writer_step_def budget_call)
next
  case (Job_step now)
  have "payload_inv (s\<lparr>writer := (writer s)\<lparr>runningPromise := x\<rparr>\<rparr>)" for x using assms by (simp add: budget_defs)
  with Job_step assms show ?thesis by (auto simp: writer_step_def job_step_def budget_call split: option.split list.split)
next
  case (Settle_payload i outcome)
  have "set (take i (unacked s) @ drop (Suc i) (unacked s)) \<subseteq> set (unacked s)"
    using set_take_subset set_drop_subset by fastforce
  with Settle_payload assms show ?thesis
    by (cases outcome) (auto simp: writer_step_def onPayloadSettled_def recordPayloadDrop_def budget_defs held_settle min_def dest: in_set_takeD in_set_dropD)
next
  case (Tick_check elapsed)
  with assms show ?thesis by (auto simp: writer_step_def tick_check_def budget_defs split: option.split list.split job.split)
qed (use assms in \<open>auto simp: writer_step_def health_sample_def begin_dispose_def finish_dispose_def budget_defs\<close>)

interpretation budget: invariant_system writer_step payload_inv
  by unfold_locales (rule budget_step)

text \<open>A spent token stays spent, and spending it again changes nothing.\<close>

lemma settled_call:
  assumes "t < length (tokens (writer s))" "settled (tokens (writer s) ! t)"
  shows "t < length (tokens (writer (do_call c now s))) \<and> settled (tokens (writer (do_call c now s)) ! t)"
  using assms by (cases c) (auto simp: do_call_def enqueue_job_def enqueueShutdownBatch_def reservePayload_def release_token_def consume_def
      enqueuePayload_def ensurePayloadWriter_def recordPayloadDrop_def nth_append nth_list_update Let_def split: prod.split)

lemma settled_step:
  assumes "t < length (tokens (writer s)) \<and> settled (tokens (writer s) ! t)"
  shows "t < length (tokens (writer (writer_step s ev))) \<and> settled (tokens (writer (writer_step s ev)) ! t)"
proof (cases ev)
  case (Job_step now)
  with assms show ?thesis by (auto simp: writer_step_def job_step_def settled_call split: option.split list.split)
next
  case (Settle_payload i outcome)
  with assms show ?thesis by (cases outcome) (simp_all add: writer_step_def onPayloadSettled_def recordPayloadDrop_def Let_def)
qed (use assms in \<open>auto simp: writer_step_def settled_call tick_check_def health_sample_def begin_dispose_def finish_dispose_def
      split: option.split list.split job.split\<close>)

interpretation spent: invariant_system writer_step "\<lambda>s. t < length (tokens (writer s)) \<and> settled (tokens (writer s) ! t)" for t
  by unfold_locales (rule settled_step)

lemma spent_token:
  "t < length (tokens w) \<Longrightarrow> settled (tokens w ! t) \<Longrightarrow> release_token t w = w \<and> enqueuePayload t e answer w = (w, False)"
  by (simp add: release_token_def enqueuePayload_def consume_def)

text \<open>
  C25. The payload budget is exact and never exceeded: after any run, what is charged as reserved is what
  the live tokens hold, what is charged as in flight is what the worker has not acknowledged, both together
  stay within 100 MiB and 1000 jobs, and no entry in flight is over 16 MiB. When every token is spent and
  every entry acknowledged, nothing is charged. A token that was spent, by release or by publication,
  is spent for ever: using it again changes nothing.
\<close>

theorem payload_budget_exact:
  assumes "s = foldl writer_step (new_system factory) es" and "w = writer s"
  shows "payloadReservedBytes w = live_bytes (tokens w) \<and> payloadReservedCount w = live_count (tokens w)
    \<and> payloadInFlightBytes w = held_bytes (unacked s) \<and> payloadInFlightCount w = int (length (unacked s))
    \<and> payloadReservedBytes w + payloadInFlightBytes w \<le> 100 * 1024 * 1024
    \<and> payloadReservedCount w + payloadInFlightCount w \<le> 1000
    \<and> (\<forall>e \<in> set (unacked s). transportBytes e \<le> 16 * 1024 * 1024)
    \<and> ((\<forall>t \<in> set (tokens w). settled t) \<and> unacked s = [] \<longrightarrow>
        payloadReservedBytes w = 0 \<and> payloadReservedCount w = 0 \<and> payloadInFlightBytes w = 0 \<and> payloadInFlightCount w = 0)
    \<and> (\<forall>t later e answer. t < length (tokens w) \<and> settled (tokens w ! t) \<longrightarrow>
        (let w' = writer (foldl writer_step s later) in release_token t w' = w' \<and> enqueuePayload t e answer w' = (w', False)))"
proof -
  have inv: "payload_inv s" unfolding assms(1)
    by (rule budget.run_inv) (simp add: budget_defs new_system_def new_writer_def live_bytes_def live_count_def held_bytes_def held_original_def)
  have spent: "let w' = writer (foldl writer_step s later) in release_token t w' = w' \<and> enqueuePayload t e answer w' = (w', False)"
    if "t < length (tokens w)" "settled (tokens w ! t)" for t later e answer
    using spent.run_inv [of t s later] spent_token that assms(2) by (simp add: Let_def)
  have zero: "live_bytes ts = 0" "live_count ts = 0" if "\<forall>t \<in> set ts. settled t" for ts
    using that by (induction ts) (simp_all add: live_bytes_def live_count_def)
  from inv spent zero show ?thesis
    unfolding assms(2) budget_defs PAYLOAD_BYTES_CAP_def PAYLOAD_QUEUE_HARD_CAP_def MAX_PAYLOAD_ENTRY_BYTES_def
    by (simp add: held_bytes_def)
qed

subsection \<open>Order of the jobs\<close>

definition accepts :: "call \<Rightarrow> async_writer \<Rightarrow> job list" where
  "accepts c w = (case c of
     Enqueue j \<Rightarrow> if snd (enqueue_job j 0 w) then [j] else []
   | Shutdown_batch j \<Rightarrow> if snd (enqueueShutdownBatch j 0 w) then [j] else []
   | _ \<Rightarrow> [])"

definition accepted_in :: "writer_system \<Rightarrow> writer_event \<Rightarrow> job list" where
  "accepted_in s ev = (case ev of
     Call c _ \<Rightarrow> accepts c (writer s)
   | Job_step _ \<Rightarrow> (case Option.bind (runningPromise (writer s)) current_job of Some (c # _) \<Rightarrow> accepts c (writer s) | _ \<Rightarrow> [])
   | _ \<Rightarrow> [])"

definition started_in :: "writer_system \<Rightarrow> writer_event \<Rightarrow> job list" where
  "started_in s ev = (case ev of
     Tick_check _ \<Rightarrow> take (length (metadataQueue (writer s)) - length (metadataQueue (writer (writer_step s ev)))) (map fst (metadataQueue (writer s)))
   | _ \<Rightarrow> [])"

fun accepted_run :: "writer_system \<Rightarrow> writer_event list \<Rightarrow> job list" where
  "accepted_run s [] = []"
| "accepted_run s (ev # es) = accepted_in s ev @ accepted_run (writer_step s ev) es"

fun started_run :: "writer_system \<Rightarrow> writer_event list \<Rightarrow> job list" where
  "started_run s [] = []"
| "started_run s (ev # es) = started_in s ev @ started_run (writer_step s ev) es"

abbreviation queue :: "writer_system \<Rightarrow> job list" where
  "queue s \<equiv> map fst (metadataQueue (writer s))"

lemma queue_call: "queue (do_call c now s) = queue s @ accepts c (writer s)"
  by (cases c) (auto simp: do_call_def accepts_def enqueue_job_def enqueueShutdownBatch_def reservePayload_def release_token_def consume_def
      enqueuePayload_def ensurePayloadWriter_def recordPayloadDrop_def Let_def split: prod.split)

lemma queue_step: "queue s @ accepted_in s ev = started_in s ev @ queue (writer_step s ev)"
proof (cases ev)
  case (Call c now)
  then show ?thesis by (simp add: accepted_in_def started_in_def writer_step_def queue_call)
next
  case (Job_step now)
  have "accepts c (w\<lparr>runningPromise := x\<rparr>) = accepts c w" for c w x
    by (simp add: accepts_def enqueue_job_def enqueueShutdownBatch_def split: call.split)
  with Job_step show ?thesis
    by (auto simp: accepted_in_def started_in_def writer_step_def job_step_def queue_call split: option.split list.split)
next
  case (Tick_check elapsed)
  then show ?thesis
    by (auto simp: accepted_in_def started_in_def writer_step_def tick_check_def split: option.split list.split job.split)
next
  case (Settle_payload i outcome)
  then show ?thesis
    by (cases outcome) (simp_all add: accepted_in_def started_in_def writer_step_def onPayloadSettled_def recordPayloadDrop_def Let_def)
qed (simp_all add: accepted_in_def started_in_def writer_step_def health_sample_def begin_dispose_def finish_dispose_def)

lemma queue_run: "queue s @ accepted_run s es = started_run s es @ queue (foldl writer_step s es)"
proof (induction es arbitrary: s)
  case (Cons ev es)
  have "queue s @ accepted_run s (ev # es) = (queue s @ accepted_in s ev) @ accepted_run (writer_step s ev) es" by simp
  also have "\<dots> = started_in s ev @ (queue (writer_step s ev) @ accepted_run (writer_step s ev) es)" by (simp only: queue_step append_assoc)
  also have "\<dots> = started_run s (ev # es) @ queue (foldl writer_step s (ev # es))" by (simp add: Cons.IH)
  finally show ?case .
qed simp

subsection \<open>The drain of the shutdown\<close>

text \<open>
  \<^verbatim>\<open>while (queue.length > 0 || runningPromise) await drainTick()\<close>, with nothing from outside in between. The
  time a tick has taken is an arbitrary function of the state, except that none has passed at its first check.
\<close>

definition drain_event :: "(writer_system \<Rightarrow> int) \<Rightarrow> int \<Rightarrow> writer_system \<Rightarrow> writer_event" where
  "drain_event elapsed now s = (case runningPromise (writer s) of
     None \<Rightarrow> Poll
   | Some t \<Rightarrow> if current_job t \<noteq> None then Job_step now
              else Tick_check (if jobsProcessed t = 0 then 0 else elapsed s))"

definition weight :: "writer_system \<Rightarrow> nat" where
  "weight s = size_list size (queue s)
     + (case Option.bind (runningPromise (writer s)) current_job of None \<Rightarrow> 0 | Some cs \<Rightarrow> size_list size cs + 1)"

definition phase :: "writer_system \<Rightarrow> nat" where
  "phase s = (case runningPromise (writer s) of None \<Rightarrow> 1
     | Some t \<Rightarrow> if jobsProcessed t = 0 \<and> metadataQueue (writer s) \<noteq> [] then 0 else 2)"

lemma weight_call:
  "weight (do_call c now s) \<le> weight s + (case c of Enqueue j \<Rightarrow> size j + 1 | Shutdown_batch j \<Rightarrow> size j + 1 | _ \<Rightarrow> 0)
    \<or> runningPromise (writer s) = None"
proof -
  have tick: "runningPromise (writer (do_call c now s)) = runningPromise (writer s)" if "runningPromise (writer s) \<noteq> None"
    using that by (cases c) (auto simp: do_call_def enqueue_job_def enqueueShutdownBatch_def kickQueue_def reservePayload_def release_token_def
        consume_def enqueuePayload_def ensurePayloadWriter_def recordPayloadDrop_def Let_def split: prod.split)
  have "size_list size (queue (do_call c now s)) \<le> size_list size (queue s) + (case c of Enqueue j \<Rightarrow> size j + 1 | Shutdown_batch j \<Rightarrow> size j + 1 | _ \<Rightarrow> 0)"
    unfolding queue_call by (cases c) (auto simp: accepts_def size_list_append)
  with tick show ?thesis by (auto simp: weight_def)
qed

definition idle :: "writer_system \<Rightarrow> bool" where
  "idle s \<longleftrightarrow> metadataQueue (writer s) = [] \<and> runningPromise (writer s) = None"

lemma closing_call: "closingForDispose (writer (do_call c now s)) = closingForDispose (writer s)"
  by (cases c) (auto simp: do_call_def enqueue_job_def enqueueShutdownBatch_def reservePayload_def release_token_def consume_def
      enqueuePayload_def ensurePayloadWriter_def recordPayloadDrop_def Let_def split: prod.split)

lemma closing_step: "closingForDispose (writer s) \<Longrightarrow> closingForDispose (writer (writer_step s ev))"
proof (cases ev)
  case (Settle_payload i outcome)
  then show "closingForDispose (writer s) \<Longrightarrow> ?thesis"
    by (cases outcome) (simp_all add: writer_step_def onPayloadSettled_def recordPayloadDrop_def Let_def)
qed (auto simp: writer_step_def job_step_def closing_call tick_check_def health_sample_def begin_dispose_def finish_dispose_def
    split: option.split list.split job.split)

interpretation closing: invariant_system writer_step "\<lambda>s. closingForDispose (writer s)"
  by unfold_locales (rule closing_step)

lemma drain_decreases:
  assumes "\<not> idle s"
  shows "weight (writer_step s (drain_event elapsed now s)) < weight s
    \<or> weight (writer_step s (drain_event elapsed now s)) = weight s \<and> phase (writer_step s (drain_event elapsed now s)) < phase s
    \<or> weight (writer_step s (drain_event elapsed now s)) = weight s \<and> idle (writer_step s (drain_event elapsed now s))"
proof (cases "runningPromise (writer s)")
  case None
  with assms show ?thesis by (simp add: idle_def drain_event_def writer_step_def kickQueue_def weight_def phase_def)
next
  case (Some t)
  show ?thesis
  proof (cases "current_job t")
    case None
    with Some show ?thesis
      by (auto simp: idle_def comp_def drain_event_def writer_step_def tick_check_def weight_def phase_def MAX_JOBS_PER_TICK_def MAX_DRAIN_MS_PER_TICK_def
          split: list.split job.split)
  next
    case job: (Some cs)
    show ?thesis
    proof (cases cs)
      case Nil
      with Some job show ?thesis by (simp add: drain_event_def writer_step_def job_step_def weight_def)
    next
      case (Cons c cs')
      let ?s = "s\<lparr>writer := (writer s)\<lparr>runningPromise := Some (t\<lparr>current_job := Some cs'\<rparr>)\<rparr>\<rparr>"
      have "weight (do_call c now ?s) \<le> weight ?s + (case c of Enqueue j \<Rightarrow> size j + 1 | Shutdown_batch j \<Rightarrow> size j + 1 | _ \<Rightarrow> 0)"
        using weight_call [of c now ?s] by simp
      moreover have "weight s = weight ?s + size c + 1" using Some job Cons by (simp add: weight_def)
      ultimately have "weight (do_call c now ?s) < weight s" by (cases c) simp_all
      with Some job Cons show ?thesis by (simp add: drain_event_def writer_step_def job_step_def)
    qed
  qed
qed

function drain :: "(writer_system \<Rightarrow> int) \<Rightarrow> int \<Rightarrow> writer_system \<Rightarrow> writer_system" where
  "drain elapsed now s =
     (if idle s then s
      else drain elapsed now (writer_step s (drain_event elapsed now s)))"
  by pat_completeness auto
termination
proof (relation "inv_image (less_than <*lex*> (less_than <*lex*> less_than))
    (\<lambda>(elapsed, now, s). (weight s, if idle s then 0 else 1, phase s))")
  fix elapsed now s
  assume busy: "\<not> idle s"
  from drain_decreases [OF this, of elapsed now] busy
  show "((elapsed, now, writer_step s (drain_event elapsed now s)), elapsed, now, s)
      \<in> inv_image (less_than <*lex*> (less_than <*lex*> less_than)) (\<lambda>(elapsed, now, s). (weight s, if idle s then 0 else 1, phase s))"
    by auto
qed auto

declare drain.simps [simp del]

lemma drain_run: "idle (drain elapsed now s) \<and> (\<exists>es. drain elapsed now s = foldl writer_step s es)"
proof (induction elapsed now s rule: drain.induct)
  case (1 elapsed now s)
  show ?case
  proof (cases "idle s")
    case True
    then show ?thesis by (simp add: drain.simps [of _ _ s]) (intro exI [of _ "[]"], simp)
  next
    case False
    from 1 [OF this] obtain es where "idle (drain elapsed now (writer_step s (drain_event elapsed now s)))"
      and "drain elapsed now (writer_step s (drain_event elapsed now s)) = foldl writer_step (writer_step s (drain_event elapsed now s)) es" by blast
    with False show ?thesis
      by (simp add: drain.simps [of _ _ s]) (intro exI [of _ "drain_event elapsed now s # es"], simp)
  qed
qed


subsection \<open>Witnesses\<close>

definition writer_run :: "writer_event list" where
  "writer_run = [Call (Reserve_payload 10) 0, Call (Reserve_payload 7) 0, Call (Publish 0 \<lparr>transportBytes = 20, payloadBytes = 30\<rparr> Published) 0]"

theorem payload_budget_exact_witness:
  "payloadReservedBytes (writer (foldl writer_step (new_system True) writer_run)) = 7
    \<and> payloadInFlightBytes (writer (foldl writer_step (new_system True) writer_run)) = 20
    \<and> payloadReservedBytes (writer (foldl writer_step (new_system True) writer_run))
      + payloadInFlightBytes (writer (foldl writer_step (new_system True) writer_run)) \<le> 100 * 1024 * 1024
    \<and> release_token 0 (writer (foldl writer_step (new_system True) writer_run)) = writer (foldl writer_step (new_system True) writer_run)"
proof -
  let ?s = "foldl writer_step (new_system True) writer_run"
  have facts: "0 < length (tokens (writer ?s))" "settled (tokens (writer ?s) ! 0)"
    "payloadReservedBytes (writer ?s) = 7" "payloadInFlightBytes (writer ?s) = 20"
    by (simp_all add: writer_run_def writer_step_def do_call_def reservePayload_def enqueuePayload_def canAcceptPayload_def consume_def
        ensurePayloadWriter_def payloadBytesPending_def payloadJobCount_def new_system_def new_writer_def
        MAX_PAYLOAD_ENTRY_BYTES_def PAYLOAD_QUEUE_HARD_CAP_def PAYLOAD_BYTES_CAP_def)
  have "release_token 0 (writer (foldl writer_step ?s [])) = writer (foldl writer_step ?s [])"
    using payload_budget_exact [OF refl refl, where es = writer_run and factory = True] facts unfolding Let_def by blast
  with facts show ?thesis by simp
qed

text \<open>A job that enqueues another one is waiting when the shutdown begins.\<close>

definition waiting_system :: writer_system where
  "waiting_system = writer_step (new_system True) (Call (Enqueue (Job [Enqueue (Job [Record_drop 5])])) 0)"


end
