(* ===== verification/DbRetry.thy ===== *)
theory DbRetry
  imports JsBase
begin

section \<open>Retry of database operations\<close>

text \<open>
  \<^verbatim>\<open>database/src/retry.ts\<close>: which errors count as lock contention, the delay before the next attempt, and the loop
  of \<^verbatim>\<open>withDatabaseRetry\<close>. The operation is given by its outcome on each attempt; a run also yields the number of times
  it was called and the delays slept. \<^verbatim>\<open>Math.random()\<close> of each attempt is an argument. An exhausted loop with no
  attempt at all throws \<^verbatim>\<open>undefined\<close>, here \<open>None\<close>.
  Shown: the operation runs at least once and at most as often as configured, only lock contention is retried, and
  what is returned or thrown is the outcome of the last run.
\<close>

record db_error =
  err_message :: string
  err_code :: "string option"

record retry_config =
  attempts :: int
  delayMs :: rat
  backoff :: rat
  maxDelayMs :: rat

record partial_config =
  p_attempts :: "int option"
  p_delayMs :: "rat option"
  p_backoff :: "rat option"
  p_maxDelayMs :: "rat option"

definition RETRYABLE_SQLITE_ERRORS :: "string list" where
  "RETRYABLE_SQLITE_ERRORS = [''SQLITE_BUSY'', ''SQLITE_LOCKED'', ''database is locked'', ''database table is locked'']"

definition isRetryableError :: "db_error \<Rightarrow> bool" where
  "isRetryableError e \<longleftrightarrow> list_ex (\<lambda>r. str_includes (err_message e) r \<or> err_code e = Some r) RETRYABLE_SQLITE_ERRORS"

definition calculateDelay :: "rat \<Rightarrow> nat \<Rightarrow> retry_config \<Rightarrow> rat" where
  "calculateDelay random attempt config =
     (let baseDelay = delayMs config * backoff config ^ attempt; jitter = random * (1 / 10) * baseDelay
      in min (baseDelay + jitter) (maxDelayMs config))"

record 'a retry_run =
  run_result :: "db_error option + 'a"
  run_calls :: nat
  run_delays :: "rat list"

function retry_loop :: "(nat \<Rightarrow> db_error + 'a) \<Rightarrow> (nat \<Rightarrow> rat) \<Rightarrow> retry_config \<Rightarrow> nat \<Rightarrow> db_error option \<Rightarrow> rat list \<Rightarrow> 'a retry_run" where
  "retry_loop operation random config attempt lastError delays =
     (if \<not> int attempt < attempts config then \<lparr>run_result = Inl lastError, run_calls = attempt, run_delays = delays\<rparr>
      else case operation attempt of
        Inr x \<Rightarrow> \<lparr>run_result = Inr x, run_calls = attempt + 1, run_delays = delays\<rparr>
      | Inl e \<Rightarrow>
          if \<not> isRetryableError e then \<lparr>run_result = Inl (Some e), run_calls = attempt + 1, run_delays = delays\<rparr>
          else if int attempt = attempts config - 1
          then \<lparr>run_result = Inl (Some e), run_calls = attempt + 1, run_delays = delays\<rparr>
          else retry_loop operation random config (attempt + 1) (Some e) (delays @ [calculateDelay (random attempt) attempt config]))"
  by pat_completeness auto
termination
  by (relation "measure (\<lambda>(operation, random, config, attempt, lastError, delays). nat (attempts config - int attempt))") auto

declare retry_loop.simps [simp del]

definition executeWithRetryAsync :: "(nat \<Rightarrow> db_error + 'a) \<Rightarrow> (nat \<Rightarrow> rat) \<Rightarrow> retry_config \<Rightarrow> 'a retry_run" where
  "executeWithRetryAsync operation random config = retry_loop operation random config 0 None []"

definition withDatabaseRetry :: "(nat \<Rightarrow> db_error + 'a) \<Rightarrow> (nat \<Rightarrow> rat) \<Rightarrow> partial_config \<Rightarrow> 'a retry_run" where
  "withDatabaseRetry operation random config =
     (let get = (\<lambda>d x. case x of None \<Rightarrow> d | Some v \<Rightarrow> v)
      in executeWithRetryAsync operation random
           \<lparr>attempts = (case p_attempts config of None \<Rightarrow> 3 | Some n \<Rightarrow> n), delayMs = get 100 (p_delayMs config),
            backoff = get 2 (p_backoff config), maxDelayMs = get 5000 (p_maxDelayMs config)\<rparr>)"

subsection \<open>Lemmas\<close>

text \<open>The run stops with a call: its outcome is final, every earlier one was lock contention.\<close>

definition stops_at :: "(nat \<Rightarrow> db_error + 'a) \<Rightarrow> int \<Rightarrow> nat \<Rightarrow> bool" where
  "stops_at operation n k \<longleftrightarrow> (case operation k of Inr _ \<Rightarrow> True | Inl e \<Rightarrow> \<not> isRetryableError e \<or> int k = n - 1)"

lemma retry_loop_stop:
  assumes "int attempt < attempts config" and "\<not> stops_at operation (attempts config) attempt"
  obtains e where "operation attempt = Inl e" "isRetryableError e" "int (attempt + 1) < attempts config"
    "retry_loop operation random config attempt lastError delays = retry_loop operation random config (attempt + 1) (Some e)
      (delays @ [calculateDelay (random attempt) attempt config])"
proof -
  obtain e where "operation attempt = Inl e" "isRetryableError e" "int attempt \<noteq> attempts config - 1"
    using assms(2) by (auto simp: stops_at_def split: sum.splits)
  with assms(1) that show thesis by (simp add: retry_loop.simps [of operation random config attempt])
qed

lemma retry_loop_result:
  assumes "int attempt < attempts config"
  shows "\<exists>k \<ge> attempt. int k < attempts config
    \<and> (\<forall>j. attempt \<le> j \<and> j < k \<longrightarrow> (\<exists>e. operation j = Inl e \<and> isRetryableError e))
    \<and> stops_at operation (attempts config) k
    \<and> run_result (retry_loop operation random config attempt lastError delays) = map_sum Some (\<lambda>x. x) (operation k)
    \<and> run_calls (retry_loop operation random config attempt lastError delays) = k + 1
    \<and> run_delays (retry_loop operation random config attempt lastError delays) =
        delays @ map (\<lambda>j. calculateDelay (random j) j config) [attempt..<k]"
  using assms
proof (induction operation random config attempt lastError delays rule: retry_loop.induct)
  case (1 operation random config attempt lastError delays)
  show ?case
  proof (cases "stops_at operation (attempts config) attempt")
    case True
    with "1.prems" show ?thesis
      by (intro exI [of _ attempt]) (auto simp: stops_at_def retry_loop.simps [of operation random config attempt] split: sum.splits)
  next
    case False
    obtain e where e: "operation attempt = Inl e" "isRetryableError e" "int (attempt + 1) < attempts config"
      and loop: "retry_loop operation random config attempt lastError delays = retry_loop operation random config (attempt + 1) (Some e)
        (delays @ [calculateDelay (random attempt) attempt config])"
      using retry_loop_stop [OF "1.prems" False] .
    have "int attempt \<noteq> attempts config - 1" using e(3) by simp
    from "1.IH" [OF _ e(1) _ this] "1.prems" e obtain k where k: "k \<ge> attempt + 1" "int k < attempts config"
      "\<forall>j. attempt + 1 \<le> j \<and> j < k \<longrightarrow> (\<exists>e. operation j = Inl e \<and> isRetryableError e)" "stops_at operation (attempts config) k"
      "run_result (retry_loop operation random config attempt lastError delays) = map_sum Some (\<lambda>x. x) (operation k)"
      "run_calls (retry_loop operation random config attempt lastError delays) = k + 1"
      "run_delays (retry_loop operation random config attempt lastError delays) =
        (delays @ [calculateDelay (random attempt) attempt config]) @ map (\<lambda>j. calculateDelay (random j) j config) [attempt + 1..<k]"
      unfolding loop by auto
    have "\<exists>e. operation j = Inl e \<and> isRetryableError e" if "attempt \<le> j" "j < k" for j
      using that k(3) e(1,2) by (cases "j = attempt") auto
    with k show ?thesis by (intro exI [of _ k]) (auto simp: upt_conv_Cons)
  qed
qed

text \<open>
  C27. The outcome of a retried operation, errors included: with at least one attempt allowed there is a last
  call k within the allowed attempts; every call before it failed with lock contention; the call k
  succeeded, or failed with another error, or was the last one allowed; its outcome is what is returned
  or thrown, and exactly one delay of at most the configured maximum was slept between two calls. With no attempt
  allowed the operation is never called and \<open>undefined\<close> is thrown.
\<close>

theorem retry_outcome:
  assumes "r = executeWithRetryAsync operation random config"
  shows "(attempts config \<le> 0 \<longrightarrow> run_result r = Inl None \<and> run_calls r = 0 \<and> run_delays r = [])
    \<and> (0 < attempts config \<longrightarrow> (\<exists>k. int k < attempts config \<and> run_calls r = k + 1 \<and> run_result r = map_sum Some (\<lambda>x. x) (operation k)
        \<and> (\<forall>j < k. \<exists>e. operation j = Inl e \<and> isRetryableError e)
        \<and> ((\<exists>x. operation k = Inr x) \<or> (\<exists>e. operation k = Inl e \<and> \<not> isRetryableError e) \<or> int k = attempts config - 1)
        \<and> length (run_delays r) = k \<and> (\<forall>d \<in> set (run_delays r). d \<le> maxDelayMs config)))"
proof (intro conjI impI)
  assume "attempts config \<le> 0"
  then have r: "r = \<lparr>run_result = Inl None, run_calls = 0, run_delays = []\<rparr>"
    by (simp add: assms executeWithRetryAsync_def retry_loop.simps [of operation random config 0])
  then show "run_result r = Inl None" "run_calls r = 0" "run_delays r = []" by simp_all
next
  assume "0 < attempts config"
  then have "int 0 < attempts config" by simp
  from retry_loop_result [OF this, of operation random None "[]"] obtain k where k: "int k < attempts config"
    "\<forall>j < k. \<exists>e. operation j = Inl e \<and> isRetryableError e" "stops_at operation (attempts config) k"
    "run_result r = map_sum Some (\<lambda>x. x) (operation k)" "run_calls r = k + 1"
    "run_delays r = map (\<lambda>j. calculateDelay (random j) j config) [0..<k]"
    unfolding assms executeWithRetryAsync_def by auto
  moreover from k(3) have "(\<exists>x. operation k = Inr x) \<or> (\<exists>e. operation k = Inl e \<and> \<not> isRetryableError e) \<or> int k = attempts config - 1"
    by (auto simp: stops_at_def split: sum.splits)
  ultimately show "\<exists>k. int k < attempts config \<and> run_calls r = k + 1 \<and> run_result r = map_sum Some (\<lambda>x. x) (operation k)
      \<and> (\<forall>j < k. \<exists>e. operation j = Inl e \<and> isRetryableError e)
      \<and> ((\<exists>x. operation k = Inr x) \<or> (\<exists>e. operation k = Inl e \<and> \<not> isRetryableError e) \<or> int k = attempts config - 1)
      \<and> length (run_delays r) = k \<and> (\<forall>d \<in> set (run_delays r). d \<le> maxDelayMs config)"
    by (intro exI [of _ k]) (auto simp: calculateDelay_def Let_def)
qed

definition busy_once :: "nat \<Rightarrow> db_error + nat" where
  "busy_once n = (if n = 0 then Inl \<lparr>err_message = ''database is locked'', err_code = None\<rparr> else Inr n)"

definition default_config :: retry_config where
  "default_config = \<lparr>attempts = 3, delayMs = 100, backoff = 2, maxDelayMs = 5000\<rparr>"

theorem retry_outcome_witness:
  "\<exists>k. run_calls (executeWithRetryAsync busy_once (\<lambda>_. 0) default_config) = k + 1
    \<and> run_result (executeWithRetryAsync busy_once (\<lambda>_. 0) default_config) = Inr 1 \<and> k = 1"
proof -
  have retry: "isRetryableError \<lparr>err_message = ''database is locked'', err_code = None\<rparr>" by code_simp
  have cfg: "attempts default_config = 3" by (simp add: default_config_def)
  obtain k where k: "int k < 3" "run_calls (executeWithRetryAsync busy_once (\<lambda>_. 0) default_config) = k + 1"
    "run_result (executeWithRetryAsync busy_once (\<lambda>_. 0) default_config) = map_sum Some (\<lambda>x. x) (busy_once k)"
    "\<forall>j < k. \<exists>e. busy_once j = Inl e \<and> isRetryableError e"
    "(\<exists>x. busy_once k = Inr x) \<or> (\<exists>e. busy_once k = Inl e \<and> \<not> isRetryableError e) \<or> int k = 2"
    using retry_outcome [OF refl, where operation = busy_once and random = "\<lambda>_. 0" and config = default_config] by (auto simp: cfg)
  from k(5) retry have "k \<noteq> 0" by (auto simp: busy_once_def split: if_splits)
  moreover have "\<not> 1 < k" using k(4) by (auto simp: busy_once_def)
  ultimately have "k = 1" by simp
  with k show ?thesis by (simp add: busy_once_def)
qed

end
