(* ===== verification/ReadBudget.thy ===== *)
theory ReadBudget
  imports JsBase
begin

section \<open>Budget of usage reads\<close>

text \<open>
  The class \<^verbatim>\<open>UsageReadBudget\<close> of \<^verbatim>\<open>providers/src/usage-read-budget.ts\<close>. The map of the class holds references to the
  per-account state objects, which a slot keeps when the map is cleared: objects live in a list and the map
  and the slots hold their positions. \<open>reads\<close> is the record of the reads reported to \<^verbatim>\<open>onRead\<close>, with the object they
  were counted on and whether they were admitted.
  Shown: two admitted reads counted on one object are a full gap apart on a clock that does not go back.
\<close>

definition ANTHROPIC_USAGE_READ_MIN_GAP_MS :: int where "ANTHROPIC_USAGE_READ_MIN_GAP_MS = 150000"

record account_state =
  st_lastReadAt :: "int option"
  st_held :: bool

record read_slot =
  slot_account :: string
  slot_state :: nat
  slot_done :: bool

record read_event =
  rd_account :: string
  rd_state :: nat
  rd_at :: int
  rd_admitted :: bool

record read_budget =
  gapMs :: int
  accounts_map :: "(string, nat) jsmap"
  states :: "account_state list"
  read_slots :: "read_slot list"
  reads :: "read_event list"

datatype read_grant = Grant_slot nat | Grant_wait int

definition new_budget :: "int \<Rightarrow> read_budget" where
  "new_budget gap = \<lparr>gapMs = gap, accounts_map = [], states = [], read_slots = [], reads = []\<rparr>"

definition budget_state :: "string \<Rightarrow> read_budget \<Rightarrow> read_budget \<times> nat" where
  "budget_state accountId b = (case jm_get (accounts_map b) accountId of
     Some i \<Rightarrow> (b, i)
   | None \<Rightarrow> (b\<lparr>states := states b @ [\<lparr>st_lastReadAt = None, st_held = False\<rparr>],
               accounts_map := jm_set (accounts_map b) accountId (length (states b))\<rparr>, length (states b)))"

definition put_state :: "nat \<Rightarrow> (account_state \<Rightarrow> account_state) \<Rightarrow> read_budget \<Rightarrow> read_budget" where
  "put_state i f b = b\<lparr>states := (states b)[i := f (states b ! i)]\<rparr>"

definition waitFor :: "nat \<Rightarrow> int \<Rightarrow> read_budget \<Rightarrow> read_budget \<times> int" where
  "waitFor i now b = (case st_lastReadAt (states b ! i) of
     None \<Rightarrow> (b, 0)
   | Some l \<Rightarrow>
       let l' = (if l > now then now else l)
       in (put_state i (\<lambda>st. st\<lparr>st_lastReadAt := Some l'\<rparr>) b, max 0 (l' + gapMs b - now)))"

definition markRead :: "string \<Rightarrow> nat \<Rightarrow> bool \<Rightarrow> int \<Rightarrow> read_budget \<Rightarrow> read_budget" where
  "markRead accountId i adm now b =
     (put_state i (\<lambda>st. st\<lparr>st_lastReadAt := Some now\<rparr>) b)
       \<lparr>reads := reads b @ [\<lparr>rd_account = accountId, rd_state = i, rd_at = now, rd_admitted = adm\<rparr>]\<rparr>"

definition tryAcquireRead :: "string \<Rightarrow> int \<Rightarrow> read_budget \<Rightarrow> read_budget \<times> read_grant" where
  "tryAcquireRead accountId now b0 =
     (case budget_state accountId b0 of (b, i) \<Rightarrow>
        if st_held (states b ! i) then (b, Grant_wait (gapMs b))
        else case waitFor i now b of (b', wait) \<Rightarrow>
          if wait > 0 then (b', Grant_wait wait)
          else ((put_state i (\<lambda>st. st\<lparr>st_held := True\<rparr>) b')
                  \<lparr>read_slots := read_slots b' @ [\<lparr>slot_account = accountId, slot_state = i, slot_done = False\<rparr>]\<rparr>,
                Grant_slot (length (read_slots b'))))"

definition close_slot :: "nat \<Rightarrow> read_budget \<Rightarrow> read_budget" where
  "close_slot k b = put_state (slot_state (read_slots b ! k)) (\<lambda>st. st\<lparr>st_held := False\<rparr>)
     (b\<lparr>read_slots := (read_slots b)[k := (read_slots b ! k)\<lparr>slot_done := True\<rparr>]\<rparr>)"

definition slot_commit :: "nat \<Rightarrow> int \<Rightarrow> read_budget \<Rightarrow> read_budget" where
  "slot_commit k now b =
     (if k \<ge> length (read_slots b) \<or> slot_done (read_slots b ! k) then b
      else markRead (slot_account (read_slots b ! k)) (slot_state (read_slots b ! k)) True now (close_slot k b))"

definition slot_cancel :: "nat \<Rightarrow> read_budget \<Rightarrow> read_budget" where
  "slot_cancel k b = (if k \<ge> length (read_slots b) \<or> slot_done (read_slots b ! k) then b else close_slot k b)"

definition recordRead :: "string \<Rightarrow> int \<Rightarrow> read_budget \<Rightarrow> read_budget" where
  "recordRead accountId now b0 = (case budget_state accountId b0 of (b, i) \<Rightarrow> markRead accountId i False now b)"

definition seedRead :: "string \<Rightarrow> int \<Rightarrow> int \<Rightarrow> read_budget \<Rightarrow> read_budget" where
  "seedRead accountId lastReadAt now b0 =
     (let t = min lastReadAt now in
      case budget_state accountId b0 of (b, i) \<Rightarrow>
        (case st_lastReadAt (states b ! i) of
           None \<Rightarrow> put_state i (\<lambda>st. st\<lparr>st_lastReadAt := Some t\<rparr>) b
         | Some l \<Rightarrow> if t > l then put_state i (\<lambda>st. st\<lparr>st_lastReadAt := Some t\<rparr>) b else b))"

definition waitMs :: "string \<Rightarrow> int \<Rightarrow> read_budget \<Rightarrow> read_budget \<times> int" where
  "waitMs accountId now b = (case jm_get (accounts_map b) accountId of
     None \<Rightarrow> (b, 0)
   | Some i \<Rightarrow> if st_held (states b ! i) then (b, gapMs b) else waitFor i now b)"

definition lastReadAt :: "string \<Rightarrow> read_budget \<Rightarrow> int option" where
  "lastReadAt accountId b = Option.bind (jm_get (accounts_map b) accountId) (\<lambda>i. st_lastReadAt (states b ! i))"

definition clear_budget :: "read_budget \<Rightarrow> read_budget" where
  "clear_budget b = b\<lparr>accounts_map := []\<rparr>"

subsection \<open>Runs\<close>

datatype read_request =
    Try_acquire string
  | Commit nat
  | Cancel nat
  | Record_read string
  | Seed string int
  | Ask_wait string
  | Clear_budget

definition read_step :: "int \<times> read_budget \<Rightarrow> nat \<times> read_request \<Rightarrow> int \<times> read_budget" where
  "read_step s e = (case s of (t, b) \<Rightarrow>
     let now = t + int (fst e) in
     (now, case snd e of
        Try_acquire a \<Rightarrow> fst (tryAcquireRead a now b)
      | Commit k \<Rightarrow> slot_commit k now b
      | Cancel k \<Rightarrow> slot_cancel k b
      | Record_read a \<Rightarrow> recordRead a now b
      | Seed a l \<Rightarrow> seedRead a l now b
      | Ask_wait a \<Rightarrow> fst (waitMs a now b)
      | Clear_budget \<Rightarrow> clear_budget b))"

text \<open>The admitted reads of an object, in their order, and the number of its open slots.\<close>

definition admitted_at :: "nat \<Rightarrow> read_budget \<Rightarrow> int list" where
  "admitted_at i b = map rd_at (filter (\<lambda>r. rd_state r = i \<and> rd_admitted r) (reads b))"

definition is_open :: "nat \<Rightarrow> read_slot \<Rightarrow> bool" where
  "is_open i sl \<longleftrightarrow> slot_state sl = i \<and> \<not> slot_done sl"

definition open_slots :: "nat \<Rightarrow> read_budget \<Rightarrow> nat" where
  "open_slots i b = length (filter (is_open i) (read_slots b))"

definition object_inv :: "int \<Rightarrow> read_budget \<Rightarrow> nat \<Rightarrow> bool" where
  "object_inv now b i \<longleftrightarrow>
     (\<forall>l. st_lastReadAt (states b ! i) = Some l \<longrightarrow> l \<le> now)
     \<and> (\<forall>t \<in> set (admitted_at i b). \<exists>l. st_lastReadAt (states b ! i) = Some l \<and> t \<le> l)
     \<and> open_slots i b \<le> (if st_held (states b ! i) then 1 else 0)
     \<and> (open_slots i b \<noteq> 0 \<longrightarrow> (\<forall>t \<in> set (admitted_at i b). t + gapMs b \<le> now))
     \<and> sorted_wrt (\<lambda>x y. x + gapMs b \<le> y) (admitted_at i b)"

definition read_inv :: "int \<Rightarrow> read_budget \<Rightarrow> bool" where
  "read_inv now b \<longleftrightarrow>
     (\<forall>a i. jm_get (accounts_map b) a = Some i \<longrightarrow> i < length (states b))
     \<and> (\<forall>sl \<in> set (read_slots b). slot_state sl < length (states b))
     \<and> (\<forall>r \<in> set (reads b). rd_state r < length (states b))
     \<and> (\<forall>i < length (states b). object_inv now b i)"

lemma length_filter_update:
  "k < length xs \<Longrightarrow> length (filter P (xs[k := v])) + (if P (xs ! k) then 1 else 0) = length (filter P xs) + (if P v then 1 else 0)"
proof (induction xs arbitrary: k)
  case (Cons x xs)
  then show ?case using Cons.IH [of "k - 1"] by (cases k) auto
qed simp

lemma object_mono: "object_inv now b i \<Longrightarrow> now \<le> now' \<Longrightarrow> object_inv now' b i"
  by (fastforce simp: object_inv_def)

lemma read_mono: "read_inv now b \<Longrightarrow> now \<le> now' \<Longrightarrow> read_inv now' b"
  by (auto simp: read_inv_def intro: object_mono)

lemma get_state_inv:
  assumes "read_inv now b0" and "budget_state a b0 = (b, i)"
  shows "read_inv now b" "i < length (states b)" "read_slots b = read_slots b0" "reads b = reads b0"
proof -
  have "object_inv now (b0\<lparr>states := states b0 @ [st], accounts_map := m\<rparr>) j" if "j < length (states b0)" for st m j
    using that assms(1) by (simp add: read_inv_def object_inv_def admitted_at_def open_slots_def nth_append)
  moreover have "object_inv now (b0\<lparr>states := states b0 @ [\<lparr>st_lastReadAt = None, st_held = False\<rparr>], accounts_map := m\<rparr>) (length (states b0))" for m
  proof -
    have "filter (is_open (length (states b0))) (read_slots b0) = []" "filter (\<lambda>r. rd_state r = length (states b0) \<and> rd_admitted r) (reads b0) = []"
      using assms(1) by (auto simp: read_inv_def filter_empty_conv is_open_def)
    then show ?thesis by (simp add: object_inv_def admitted_at_def open_slots_def)
  qed
  ultimately show "read_inv now b" "i < length (states b)" "read_slots b = read_slots b0" "reads b = reads b0"
    using assms by (auto simp: budget_state_def read_inv_def less_Suc_eq split: option.splits if_splits)
qed

lemma put_lastRead_same: "st_lastReadAt (states b ! i) = Some l \<Longrightarrow> put_state i (\<lambda>st. st\<lparr>st_lastReadAt := Some l\<rparr>) b = b"
  by (cases "states b ! i") (simp add: put_state_def, metis list_update_id read_budget.surjective read_budget.update_convs(3))

lemma wait_inv:
  assumes "read_inv now b" "i < length (states b)"
  shows "waitFor i now b = (b, case st_lastReadAt (states b ! i) of None \<Rightarrow> 0 | Some l \<Rightarrow> max 0 (l + gapMs b - now))"
proof (cases "st_lastReadAt (states b ! i)")
  case (Some l)
  with assms have "l \<le> now" by (simp add: read_inv_def object_inv_def)
  with Some show ?thesis by (simp add: waitFor_def put_lastRead_same)
qed (simp add: waitFor_def)

text \<open>A change of one object that keeps the facts about it keeps the invariant.\<close>

lemma change_inv:
  assumes "read_inv now b" and "i < length (states b)" and "object_inv now b' i"
    and "accounts_map b' = accounts_map b" "gapMs b' = gapMs b" "states b' = (states b)[i := st]"
    and "\<And>j. j \<noteq> i \<Longrightarrow> open_slots j b' = open_slots j b \<and> admitted_at j b' = admitted_at j b"
    and "\<forall>sl \<in> set (read_slots b'). slot_state sl < length (states b)" "\<forall>r \<in> set (reads b'). rd_state r < length (states b)"
  shows "read_inv now b'"
proof -
  have "object_inv now b' j" if "j < length (states b)" for j
  proof (cases "j = i")
    case False
    with that assms(1) have "object_inv now b j" by (simp add: read_inv_def)
    with False show ?thesis unfolding object_inv_def assms(5,6) using assms(7) [OF False] by simp
  qed (simp add: assms(3))
  with assms show ?thesis by (simp add: read_inv_def)
qed

lemma acquire_inv:
  assumes "read_inv now b0"
  shows "read_inv now (fst (tryAcquireRead a now b0))"
proof -
  obtain b i where st: "budget_state a b0 = (b, i)" by fastforce
  note b = get_state_inv [OF assms st]
  have obj: "object_inv now b i" using b by (simp add: read_inv_def)
  have "read_inv now ((put_state i (\<lambda>st. st\<lparr>st_held := True\<rparr>) b)\<lparr>read_slots := read_slots b @ [\<lparr>slot_account = a, slot_state = i, slot_done = False\<rparr>]\<rparr>)"
    (is "read_inv now ?b") if free: "\<not> st_held (states b ! i)"
    and due: "(case st_lastReadAt (states b ! i) of None \<Rightarrow> 0 | Some l \<Rightarrow> max 0 (l + gapMs b - now)) \<le> 0"
  proof (rule change_inv [OF b(1,2), where st = "(states b ! i)\<lparr>st_held := True\<rparr>"])
    have "open_slots i b = 0" using obj free by (simp add: object_inv_def)
    then have "open_slots i ?b = 1" "admitted_at i ?b = admitted_at i b" by (simp_all add: open_slots_def is_open_def admitted_at_def put_state_def)
    moreover have "t + gapMs b \<le> now" if "t \<in> set (admitted_at i b)" for t
      using that obj due by (fastforce simp: object_inv_def)
    ultimately show "object_inv now ?b i" using obj b(2) by (simp add: object_inv_def put_state_def)
    show "open_slots j ?b = open_slots j b \<and> admitted_at j ?b = admitted_at j b" if "j \<noteq> i" for j
      using that by (simp add: open_slots_def is_open_def admitted_at_def put_state_def)
  qed (use b in \<open>auto simp: read_inv_def put_state_def\<close>)
  then show ?thesis using b by (auto simp: tryAcquireRead_def st wait_inv split: if_splits)
qed

lemma closed_slots:
  assumes "k < length (read_slots b)" "\<not> slot_done (read_slots b ! k)"
    and "sls = (read_slots b)[k := (read_slots b ! k)\<lparr>slot_done := True\<rparr>]" and "read_slots b' = sls"
  shows "open_slots (slot_state (read_slots b ! k)) b' + 1 = open_slots (slot_state (read_slots b ! k)) b"
    and "j \<noteq> slot_state (read_slots b ! k) \<Longrightarrow> open_slots j b' = open_slots j b"
    and "sl \<in> set sls \<Longrightarrow> \<exists>sl' \<in> set (read_slots b). slot_state sl = slot_state sl'"
proof -
  have upd: "open_slots j b' + (if is_open j (read_slots b ! k) then 1 else 0) = open_slots j b" for j
    using length_filter_update [OF assms(1), of "is_open j" "(read_slots b ! k)\<lparr>slot_done := True\<rparr>"]
    by (simp add: open_slots_def assms(3,4) is_open_def)
  show "open_slots (slot_state (read_slots b ! k)) b' + 1 = open_slots (slot_state (read_slots b ! k)) b"
    using upd [of "slot_state (read_slots b ! k)"] assms(2) by (simp add: is_open_def)
  show "j \<noteq> slot_state (read_slots b ! k) \<Longrightarrow> open_slots j b' = open_slots j b" using upd [of j] by (simp add: is_open_def)
  show "sl \<in> set sls \<Longrightarrow> \<exists>sl' \<in> set (read_slots b). slot_state sl = slot_state sl'"
    unfolding assms(3) using nth_mem [OF assms(1)] by (auto dest!: subsetD [OF set_update_subset_insert])
qed

lemma commit_inv:
  assumes "read_inv now b"
  shows "read_inv now (slot_commit k now b)"
proof (cases "k < length (read_slots b) \<and> \<not> slot_done (read_slots b ! k)")
  case True
  let ?i = "slot_state (read_slots b ! k)" and ?b = "slot_commit k now b"
  have i: "?i < length (states b)" using assms True nth_mem by (auto simp: read_inv_def)
  then have obj: "object_inv now b ?i" using assms by (simp add: read_inv_def)
  have new: "read_slots ?b = (read_slots b)[k := (read_slots b ! k)\<lparr>slot_done := True\<rparr>]"
    "states ?b = (states b)[?i := (states b ! ?i)\<lparr>st_held := False, st_lastReadAt := Some now\<rparr>]" "gapMs ?b = gapMs b" "accounts_map ?b = accounts_map b"
    "reads ?b = reads b @ [\<lparr>rd_account = slot_account (read_slots b ! k), rd_state = ?i, rd_at = now, rd_admitted = True\<rparr>]"
    using True i by (simp_all add: slot_commit_def markRead_def close_slot_def put_state_def)
  note closed = closed_slots [OF True [THEN conjunct1] True [THEN conjunct2] refl new(1)]
  show ?thesis
  proof (rule change_inv [OF assms i _ new(4,3,2)])
    have adm: "admitted_at ?i ?b = admitted_at ?i b @ [now]" by (simp add: admitted_at_def new)
    have "open_slots ?i b \<noteq> 0" using closed(1) by linarith
    with obj have gap: "\<forall>t \<in> set (admitted_at ?i b). t + gapMs b \<le> now" and one: "open_slots ?i b \<le> 1" by (simp_all add: object_inv_def split: if_splits)
    with closed(1) have "open_slots ?i ?b = 0" by linarith
    moreover have "t \<le> now" if "t \<in> set (admitted_at ?i b)" for t using that obj by (fastforce simp: object_inv_def)
    ultimately show "object_inv now ?b ?i" using obj gap i by (auto simp: object_inv_def adm new sorted_wrt_append)
    show "open_slots j ?b = open_slots j b \<and> admitted_at j ?b = admitted_at j b" if "j \<noteq> ?i" for j
      using that closed(2) [OF that] by (simp add: admitted_at_def new)
    show "\<forall>sl \<in> set (read_slots ?b). slot_state sl < length (states b)" using closed(3) assms unfolding new by (fastforce simp: read_inv_def)
    show "\<forall>r \<in> set (reads ?b). rd_state r < length (states b)" using assms i by (auto simp: new read_inv_def)
  qed
qed (use assms in \<open>auto simp: slot_commit_def\<close>)

lemma cancel_inv:
  assumes "read_inv now b"
  shows "read_inv now (slot_cancel k b)"
proof (cases "k < length (read_slots b) \<and> \<not> slot_done (read_slots b ! k)")
  case True
  let ?i = "slot_state (read_slots b ! k)" and ?b = "slot_cancel k b"
  have i: "?i < length (states b)" using assms True nth_mem by (auto simp: read_inv_def)
  then have obj: "object_inv now b ?i" using assms by (simp add: read_inv_def)
  have new: "read_slots ?b = (read_slots b)[k := (read_slots b ! k)\<lparr>slot_done := True\<rparr>]" "reads ?b = reads b"
    "states ?b = (states b)[?i := (states b ! ?i)\<lparr>st_held := False\<rparr>]" "gapMs ?b = gapMs b" "accounts_map ?b = accounts_map b"
    using True i by (simp_all add: slot_cancel_def close_slot_def put_state_def)
  note closed = closed_slots [OF True [THEN conjunct1] True [THEN conjunct2] refl new(1)]
  show ?thesis
  proof (rule change_inv [OF assms i _ new(5,4,3)])
    have "open_slots ?i b \<le> 1" using obj by (simp add: object_inv_def split: if_splits)
    with closed(1) have "open_slots ?i ?b = 0" by linarith
    then show "object_inv now ?b ?i" using obj i by (simp add: object_inv_def admitted_at_def new)
    show "open_slots j ?b = open_slots j b \<and> admitted_at j ?b = admitted_at j b" if "j \<noteq> ?i" for j
      using that closed(2) [OF that] by (simp add: admitted_at_def new)
    show "\<forall>sl \<in> set (read_slots ?b). slot_state sl < length (states b)" using closed(3) assms unfolding new by (fastforce simp: read_inv_def)
    show "\<forall>r \<in> set (reads ?b). rd_state r < length (states b)" using assms by (auto simp: new read_inv_def)
  qed
qed (use assms in \<open>auto simp: slot_cancel_def\<close>)

text \<open>Raising the last read of an object, with or without a read that was not admitted.\<close>

lemma raise_inv:
  assumes "read_inv now b" "i < length (states b)" "t \<le> now" "\<forall>l. st_lastReadAt (states b ! i) = Some l \<longrightarrow> l \<le> t"
    and "set rs \<subseteq> {\<lparr>rd_account = a, rd_state = i, rd_at = t, rd_admitted = False\<rparr>}"
  shows "read_inv now ((put_state i (\<lambda>st. st\<lparr>st_lastReadAt := Some t\<rparr>) b)\<lparr>reads := reads b @ rs\<rparr>)" (is "read_inv now ?b")
proof (rule change_inv [OF assms(1,2), where st = "(states b ! i)\<lparr>st_lastReadAt := Some t\<rparr>"])
  have none: "filter (\<lambda>r. rd_state r = j \<and> rd_admitted r) rs = []" for j using assms(5) by (auto simp: filter_empty_conv)
  then have same: "admitted_at j ?b = admitted_at j b" "open_slots j ?b = open_slots j b" for j
    by (simp_all add: admitted_at_def open_slots_def put_state_def)
  have "object_inv now b i" using assms(1,2) by (simp add: read_inv_def)
  then show "object_inv now ?b i" using assms(2-4) unfolding object_inv_def same
    by (fastforce simp: put_state_def)
  show "open_slots j ?b = open_slots j b \<and> admitted_at j ?b = admitted_at j b" if "j \<noteq> i" for j by (simp add: same)
qed (use assms in \<open>auto simp: read_inv_def put_state_def\<close>)

lemma recorded_inv:
  assumes "read_inv now b0"
  shows "read_inv now (recordRead a now b0)"
proof -
  obtain b i where st: "budget_state a b0 = (b, i)" by fastforce
  note b = get_state_inv [OF assms st]
  have "\<forall>l. st_lastReadAt (states b ! i) = Some l \<longrightarrow> l \<le> now" using b by (simp add: read_inv_def object_inv_def)
  from raise_inv [OF b(1,2) order_refl this, of "[\<lparr>rd_account = a, rd_state = i, rd_at = now, rd_admitted = False\<rparr>]" a]
  show ?thesis by (simp add: recordRead_def st markRead_def)
qed

lemma seed_inv:
  assumes "read_inv now b0"
  shows "read_inv now (seedRead a l now b0)"
proof -
  obtain b i where st: "budget_state a b0 = (b, i)" by fastforce
  note b = get_state_inv [OF assms st]
  have "read_inv now (put_state i (\<lambda>st. st\<lparr>st_lastReadAt := Some (min l now)\<rparr>) b)"
    if "\<forall>x. st_lastReadAt (states b ! i) = Some x \<longrightarrow> x \<le> min l now"
    using raise_inv [OF b(1,2) _ that, of "[]" a] by (simp add: put_state_def)
  with b(1) show ?thesis by (auto simp: seedRead_def st Let_def split: option.split)
qed

lemma read_step_inv: "read_inv (fst s) (snd s) \<Longrightarrow> read_inv (fst (read_step s e)) (snd (read_step s e))"
proof -
  obtain t b d ev where se: "s = (t, b)" "e = (d, ev)" by (cases s; cases e) auto
  assume "read_inv (fst s) (snd s)"
  then have inv: "read_inv (t + int d) b" using se by (auto intro: read_mono)
  have ask: "read_inv (t + int d) (fst (waitMs a (t + int d) b))" for a
    using inv by (auto simp: waitMs_def read_inv_def wait_inv [unfolded read_inv_def] split: option.split)
  have "read_inv (t + int d) (clear_budget b)"
    using inv by (simp add: clear_budget_def read_inv_def object_inv_def admitted_at_def open_slots_def jm_get_def)
  with inv ask show ?thesis
    by (cases ev) (simp_all add: se read_step_def Let_def acquire_inv commit_inv cancel_inv recorded_inv seed_inv)
qed

interpretation reads: invariant_system read_step "\<lambda>s. read_inv (fst s) (snd s)"
  by unfold_locales (rule read_step_inv)

text \<open>As long as the map is not cleared, an account keeps its object.\<close>

definition names_inv :: "int \<Rightarrow> read_budget \<Rightarrow> bool" where
  "names_inv gap b \<longleftrightarrow> gapMs b = gap
     \<and> (\<forall>sl \<in> set (read_slots b). jm_get (accounts_map b) (slot_account sl) = Some (slot_state sl))
     \<and> (\<forall>r \<in> set (reads b). jm_get (accounts_map b) (rd_account r) = Some (rd_state r))"

lemma names_state:
  "names_inv gap b0 \<Longrightarrow> budget_state a b0 = (b, i) \<Longrightarrow> names_inv gap b \<and> jm_get (accounts_map b) a = Some i"
  by (auto simp: budget_state_def names_inv_def split: option.splits)

lemma names_put: "names_inv gap b \<Longrightarrow> names_inv gap (put_state i f b)"
  by (simp add: names_inv_def put_state_def)

lemma names_wait: "names_inv gap b \<Longrightarrow> waitFor i now b = (b', w) \<Longrightarrow> names_inv gap b' \<and> accounts_map b' = accounts_map b"
  by (auto simp: waitFor_def Let_def names_put split: option.splits) (simp_all add: put_state_def)

lemma names_close: "names_inv gap b \<Longrightarrow> k < length (read_slots b) \<Longrightarrow> names_inv gap (close_slot k b)"
  using nth_mem [of k "read_slots b"]
  by (auto simp: close_slot_def put_state_def names_inv_def dest!: subsetD [OF set_update_subset_insert])

lemma names_mark: "names_inv gap b \<Longrightarrow> jm_get (accounts_map b) a = Some i \<Longrightarrow> names_inv gap (markRead a i adm now b)"
  by (auto simp: markRead_def put_state_def names_inv_def)

lemma names_step:
  assumes "names_inv gap (snd s)" and "snd e \<noteq> Clear_budget"
  shows "names_inv gap (snd (read_step s e))"
proof -
  obtain t b d ev where se: "s = (t, b)" "e = (d, ev)" by (cases s; cases e) auto
  have b: "names_inv gap b" using assms(1) se by simp
  have acquire: "names_inv gap (fst (tryAcquireRead a now b))" for a now
  proof -
    obtain b1 i where st: "budget_state a b = (b1, i)" by fastforce
    obtain b2 w where wait: "waitFor i now b1 = (b2, w)" by fastforce
    note b1 = names_state [OF b st]
    note b2 = names_wait [OF b1 [THEN conjunct1] wait]
    from b1 b2 show ?thesis by (auto simp: tryAcquireRead_def st wait) (simp add: names_inv_def put_state_def)
  qed
  have commit: "names_inv gap (slot_commit k now b)" for k now
  proof (cases "k < length (read_slots b) \<and> \<not> slot_done (read_slots b ! k)")
    case True
    have "jm_get (accounts_map (close_slot k b)) (slot_account (read_slots b ! k)) = Some (slot_state (read_slots b ! k))"
      using b True nth_mem [of k "read_slots b"] by (simp add: names_inv_def close_slot_def put_state_def)
    with True names_close [OF b] show ?thesis by (simp add: slot_commit_def names_mark)
  qed (use b in \<open>auto simp: slot_commit_def\<close>)
  have cancel: "names_inv gap (slot_cancel k b)" for k using b by (simp add: slot_cancel_def names_close)
  have ask: "names_inv gap (fst (waitMs a now b))" for a now
    using names_wait [OF b] b by (auto simp: waitMs_def split: option.split) (metis prod.collapse)
  have rest: "names_inv gap (recordRead a now b)" "names_inv gap (seedRead a l now b)" for a l now
    using names_state [OF b, of a] by (auto simp: recordRead_def seedRead_def Let_def names_mark names_put split: prod.split option.split)
  show ?thesis using assms(2) b by (cases ev) (simp_all add: se read_step_def Let_def acquire commit cancel ask rest)
qed

lemma names_run: "names_inv gap (snd s) \<Longrightarrow> Clear_budget \<notin> snd ` set es \<Longrightarrow> names_inv gap (snd (foldl read_step s es))"
proof (induction es arbitrary: s)
  case (Cons e es)
  then have "names_inv gap (snd (read_step s e))" by (intro names_step) auto
  with Cons.IH [of "read_step s e"] Cons.prems show ?case by simp
qed simp

text \<open>
  Admitted usage reads of one account are a full gap apart: in any run on a clock that does not go back and
  without clearing the budget, whatever is acquired, committed, cancelled, recorded or seeded in between, each
  committed read of an account comes at least the gap after every committed read of that account before it.
\<close>

lemma usage_reads_spaced:
  assumes "Clear_budget \<notin> snd ` set es"
  shows "sorted_wrt (\<lambda>earlier later. rd_at earlier + gap \<le> rd_at later)
    (filter (\<lambda>r. rd_account r = account \<and> rd_admitted r) (reads (snd (foldl read_step (start, new_budget gap) es))))"
proof -
  define b where "b = snd (foldl read_step (start, new_budget gap) es)"
  have names: "names_inv gap b" unfolding b_def
    by (rule names_run [OF _ assms]) (simp add: names_inv_def new_budget_def)
  have "read_inv (fst (foldl read_step (start, new_budget gap) es)) b" unfolding b_def
    by (rule reads.run_inv) (simp add: read_inv_def new_budget_def jm_get_def)
  then have spaced: "sorted_wrt (\<lambda>x y. rd_at x + gap \<le> rd_at y) (filter (\<lambda>r. rd_state r = i \<and> rd_admitted r) (reads b))"
    if "i < length (states b)" for i
    using that names by (auto simp: read_inv_def object_inv_def admitted_at_def names_inv_def sorted_wrt_map)
  show ?thesis
  proof (cases "jm_get (accounts_map b) account")
    case None
    then have "filter (\<lambda>r. rd_account r = account \<and> rd_admitted r) (reads b) = []"
      using names by (auto simp: names_inv_def filter_empty_conv)
    then show ?thesis by (simp add: b_def)
  next
    case (Some i)
    then have "i < length (states b)" using \<open>read_inv _ b\<close> by (simp add: read_inv_def)
    from sorted_wrt_filter [OF spaced [OF this], of "\<lambda>r. rd_account r = account"]
    have "sorted_wrt (\<lambda>x y. rd_at x + gap \<le> rd_at y) (filter (\<lambda>r. (rd_state r = i \<and> rd_admitted r) \<and> rd_account r = account) (reads b))"
      by (simp add: conj_ac)
    also have "filter (\<lambda>r. (rd_state r = i \<and> rd_admitted r) \<and> rd_account r = account) (reads b) =
        filter (\<lambda>r. rd_account r = account \<and> rd_admitted r) (reads b)"
      using names Some by (intro filter_cong) (auto simp: names_inv_def)
    finally show ?thesis by (simp add: b_def)
  qed
qed

definition spaced_reads :: "(nat \<times> read_request) list" where
  "spaced_reads = [(0, Try_acquire ''a''), (5, Commit 0), (50, Try_acquire ''a''), (60, Try_acquire ''a''), (1, Commit 1)]"

end
