(* ===== verification/RoutingService.thy ===== *)
theory RoutingService
  imports ResolvedRoute
begin

section \<open>Initialising the route of a request\<close>

text \<open>
  \<^verbatim>\<open>proxy/src/routing-service.ts\<close>: which accounts, which model and which evidence a route is built from, for an
  ordinary request, for each stage of an alias and for an inner call of the SDK bridge, and the re-evaluation of
  admission when accounts are selected. With it the effort variants of \<^verbatim>\<open>core/src/effort-variants.ts\<close>, the names
  Claude Code sees (\<^verbatim>\<open>types/src/clients.ts\<close>), the key's profile (\<^verbatim>\<open>proxy/src/official-anthropic-floor.ts\<close>) and the
  pairs excluded for one request (\<^verbatim>\<open>proxy/src/request-model-exclusions.ts\<close>).
  The database, the permission service and the bridge are read through the record \<open>routing_context\<close>: a permission
  read answers per phase, since a refresh may come in between, and \<^verbatim>\<open>localeCompare\<close> is its field \<open>cx_compare\<close>.
  Shown: whatever is installed authorizes only accounts that exist, are not disabled and are allowed by the key.
\<close>

subsection \<open>Suppressions\<close>

definition suppressionIds :: "account \<Rightarrow> string \<Rightarrow> string list" where
  "suppressionIds a model =
     (let wire = sdkBridgeWireModel model in
      if isOfficialAnthropicProvider (provider a) \<and> wire \<noteq> model then [model, wire] else [model])"

type_synonym suppressions = "string \<Rightarrow> string \<Rightarrow> string \<Rightarrow> string option"

definition readSuppressionReason :: "suppressions \<Rightarrow> account \<Rightarrow> string \<Rightarrow> string \<Rightarrow> string option" where
  "readSuppressionReason suppressedFor a scope model =
     (case List.find (\<lambda>i. suppressedFor (acc_id a) scope i \<noteq> None) (suppressionIds a model) of
        None \<Rightarrow> None | Some i \<Rightarrow> suppressedFor (acc_id a) scope i)"

definition isModelSuppressedFor :: "suppressions \<Rightarrow> account \<Rightarrow> string \<Rightarrow> string \<Rightarrow> bool" where
  "isModelSuppressedFor suppressedFor a scope model = list_ex (\<lambda>i. suppressedFor (acc_id a) scope i \<noteq> None) (suppressionIds a model)"

definition MODEL_SUBSTITUTION_SUPPRESSION_REASON :: string where
  "MODEL_SUBSTITUTION_SUPPRESSION_REASON = ''upstream_model_substituted''"

text \<open>The pairs of one request a definitive rejection took out.\<close>

type_synonym request_exclusions = "(string \<times> string) list"

definition excludeModelForRequest :: "string \<Rightarrow> string \<Rightarrow> request_exclusions \<Rightarrow> request_exclusions" where
  "excludeModelForRequest accountId model pairs = List.insert (accountId, model) pairs"

definition isModelExcludedForRequest :: "request_exclusions \<Rightarrow> string \<Rightarrow> string \<Rightarrow> bool" where
  "isModelExcludedForRequest pairs accountId model \<longleftrightarrow> (accountId, model) \<in> set pairs"

subsection \<open>Effort variants\<close>

definition EFFORT_ORDER :: "string list" where
  "EFFORT_ORDER = [''none'', ''minimal'', ''low'', ''medium'', ''high'', ''xhigh'', ''max'']"

definition variantEffort :: "string option \<Rightarrow> string option" where
  "variantEffort name =
     (let normalized = map_option (\<lambda>s. filter (\<lambda>c. c \<in> set ''abcdefghijklmnopqrstuvwxyz'') (to_lower s)) name in
      List.find (\<lambda>e. Some e = normalized) EFFORT_ORDER)"

record model_variant =
  family :: string
  effort :: "string option"
  dimensions :: string

fun index_of :: "'a \<Rightarrow> 'a list \<Rightarrow> int" where
  "index_of x [] = -1"
| "index_of x (y # ys) = (if x = y then 0 else let i = index_of x ys in if i < 0 then i else i + 1)"

definition effort_rank :: "string \<Rightarrow> int" where
  "effort_rank e = index_of e EFFORT_ORDER"

definition cmp_sibling :: "(string \<Rightarrow> string \<Rightarrow> int) \<Rightarrow> string \<times> int \<Rightarrow> string \<times> int \<Rightarrow> int" where
  "cmp_sibling compareIds a b = (if snd a - snd b \<noteq> 0 then snd a - snd b else compareIds (fst a) (fst b))"

definition selectEffortVariant ::
  "(string \<Rightarrow> string \<Rightarrow> int) \<Rightarrow> string \<Rightarrow> string option \<Rightarrow> (string, model_variant) jsmap \<Rightarrow> string" where
  "selectEffortVariant compareIds target requested variants =
     (case (variantEffort requested, jm_get variants target) of
        (Some want, Some base) \<Rightarrow>
          if \<not> nonempty (effort base) then target
          else
            let siblings = js_sort (cmp_sibling compareIds) (map (\<lambda>(i, v). (i, effort_rank (the (effort v))))
                  (filter (\<lambda>(_, v). family v = family base \<and> dimensions v = dimensions base \<and> effort v \<noteq> None
                     \<and> (effort v \<noteq> Some ''none'' \<or> want = ''none'')) variants));
                atOrBelow = filter (\<lambda>s. snd s \<le> effort_rank want) siblings
            in (if atOrBelow \<noteq> [] then fst (last atOrBelow) else case siblings of [] \<Rightarrow> target | s # _ \<Rightarrow> fst s)
      | _ \<Rightarrow> target)"

subsection \<open>Names Claude Code sees\<close>

definition claude_code_visible :: "string \<Rightarrow> bool" where
  "claude_code_visible s \<longleftrightarrow> str_includes (to_lower s) ''claude'' \<or> str_includes (to_lower s) ''anthropic''"

definition claudeCodeName :: "string \<Rightarrow> string" where
  "claudeCodeName i = (if claude_code_visible i then i else ''claude-'' @ i)"

definition claudeCodeTarget :: "string \<Rightarrow> string option" where
  "claudeCodeTarget name =
     (if \<not> starts_with name ''claude-'' then None
      else let rest = drop 7 name in if rest \<noteq> [] \<and> \<not> claude_code_visible rest then Some rest else None)"

lemma claude_code_name_target: "i \<noteq> [] \<Longrightarrow> claudeCodeName i \<noteq> i \<Longrightarrow> claudeCodeTarget (claudeCodeName i) = Some i"
  by (auto simp: claudeCodeName_def claudeCodeTarget_def starts_with_iff split: if_splits)

subsection \<open>The context of a request\<close>

record account_permissions = permission_set +
  permission_scope :: string
  model_variants :: "(string, model_variant) jsmap"

datatype permission_answer = Permissions account_permissions | Identity_changed | Read_failed string

record alias_target =
  alias_target_model :: string
  alias_target_accountIds :: "string list option"

record model_alias =
  model_alias_id :: string
  displayName :: string
  alias_targets :: "alias_target list"
  revision :: int

datatype bridge_availability = Available | Unavailable string | Shutting_down

record stored_pin =
  malformed :: bool
  stored_application :: "string option"
  stored_destinations :: routing_pin

record routing_context =
  cx_accounts :: "account list"
  cx_rules :: "routing_rule list"
  cx_alias :: "string \<Rightarrow> model_alias option"
  cx_key :: "string \<Rightarrow> stored_pin option"
  cx_bridge :: "bridge_availability option"
  cx_versionFloor :: "string \<Rightarrow> version_floor option"
  cx_answers :: "nat \<Rightarrow> account \<Rightarrow> permission_answer"
  cx_suppression :: suppressions
  cx_compare :: "string \<Rightarrow> string \<Rightarrow> int"
  cx_scopeOf :: "account \<Rightarrow> string"

record bridge_candidate =
  candidate_account :: string
  candidate_provider :: string
  candidate_model :: string

record inner_context =
  turnId :: string
  plan_candidates :: "bridge_candidate list"
  preferredAccountId :: string
  deadlineAt :: int

record route_request =
  rq_requestedModel :: string
  rq_internal :: bool
  rq_accountHeader :: "string option"
  rq_keepaliveHeader :: "string option"
  rq_autoRefreshHeader :: "string option"
  rq_clientApplication :: "string option option"
  rq_pin :: "routing_pin option"
  rq_viaSdkBridge :: bool
  rq_method :: string
  rq_path :: string
  rq_refusedField :: "refused_field option"
  rq_serverToolType :: "string option"
  rq_reasoningEffort :: "string option"
  rq_chat :: "chat_field list option"
  rq_inner :: "inner_context option"

subsection \<open>Reading permissions\<close>

type_synonym permission_map = "(string, account_permissions) jsmap"

definition permission_step ::
  "(account \<Rightarrow> permission_answer) \<Rightarrow> permission_map \<times> string list \<Rightarrow> account \<Rightarrow> routing_policy_error + (permission_map \<times> string list)" where
  "permission_step answers acc a = (case answers a of
     Permissions p \<Rightarrow> Inr (jm_set (fst acc) (acc_id a) p, snd acc)
   | Identity_changed \<Rightarrow> Inr (fst acc, List.insert (acc_id a) (snd acc))
   | Read_failed e \<Rightarrow> Inl (Permission_read_failed e))"

definition readPermissions ::
  "(account \<Rightarrow> permission_answer) \<Rightarrow> account list \<Rightarrow> permission_map \<times> string list
    \<Rightarrow> routing_policy_error + (permission_map \<times> string list)" where
  "readPermissions answers accounts into = fold_result (permission_step answers) into accounts"

definition permission_sets :: "permission_map \<Rightarrow> (string, permission_set) jsmap" where
  "permission_sets perms = map (\<lambda>(i, p). (i, permission_set.truncate p)) perms"

definition permitted_by :: "permission_map \<Rightarrow> string \<Rightarrow> routing_rule option \<Rightarrow> account \<Rightarrow> bool" where
  "permitted_by perms model rule a =
     isModelPermitted (map_option permission_set.truncate (jm_get perms (acc_id a))) (acc_id a) (provider a) model rule"

definition stageVariantModel ::
  "(string \<Rightarrow> string \<Rightarrow> int) \<Rightarrow> string \<Rightarrow> string option \<Rightarrow> account list \<Rightarrow> permission_map \<Rightarrow> string" where
  "stageVariantModel compareIds target requestedEffort pool perms =
     selectEffortVariant compareIds target requestedEffort
       (case List.find (\<lambda>v. jm_has v target) (List.map_filter (\<lambda>a. map_option model_variants (jm_get perms (acc_id a))) pool) of
          None \<Rightarrow> [] | Some v \<Rightarrow> v)"

type_synonym prior_exclusions = "(string, string \<times> exclusion) jsmap"

definition note_prior :: "exclusion \<Rightarrow> prior_exclusions \<Rightarrow> account \<Rightarrow> prior_exclusions" where
  "note_prior reason prior a = jm_set prior (acc_id a) (routeAccountLabel a, reason)"

definition withoutStale :: "account list \<Rightarrow> string list \<Rightarrow> prior_exclusions \<Rightarrow> account list \<times> prior_exclusions" where
  "withoutStale accounts stale prior =
     (filter (\<lambda>a. acc_id a \<notin> set stale) accounts,
      foldl (note_prior Account_changed) prior (filter (\<lambda>a. acc_id a \<in> set stale) accounts))"

definition suppressed_pairs ::
  "routing_context \<Rightarrow> permission_map \<Rightarrow> string \<Rightarrow> account list \<Rightarrow> (string \<times> string) list \<times> (string \<times> string) list" where
  "suppressed_pairs ctx perms target routed =
     (let reason = (\<lambda>a. Option.bind (jm_get perms (acc_id a))
                        (\<lambda>p. readSuppressionReason (cx_suppression ctx) a (permission_scope p) target))
      in (map (\<lambda>a. (acc_id a, target)) (filter (\<lambda>a. reason a \<noteq> None) routed),
          map (\<lambda>a. (acc_id a, target)) (filter (\<lambda>a. reason a = Some MODEL_SUBSTITUTION_SUPPRESSION_REASON) routed)))"

subsection \<open>Routes of a pool\<close>

definition build_input ::
  "destination_restrictions \<Rightarrow> alias_evidence option \<Rightarrow> account list \<Rightarrow> routing_rule list \<Rightarrow> string \<Rightarrow> string option \<Rightarrow> string option
    \<Rightarrow> permission_map \<Rightarrow> prior_exclusions \<Rightarrow> (string \<times> string) list \<times> (string \<times> string) list \<Rightarrow> chat_field list option \<Rightarrow> build_route_input" where
  "build_input restrictions al accounts rules model routingModel apiKeyId perms prior pairs chat =
     destination_restrictions.extend restrictions
       (build_route_input.fields al accounts rules model routingModel apiKeyId (permission_sets perms) prior (fst pairs) (snd pairs) chat)"

text \<open>The permissions of a pool: a second read follows when some account lacks the model, after its discovery.\<close>

definition read_pool ::
  "routing_context \<Rightarrow> nat \<Rightarrow> account list \<Rightarrow> string \<Rightarrow> routing_rule option \<Rightarrow> routing_policy_error + (permission_map \<times> string list)" where
  "read_pool ctx phase pool target winning =
     bind_result (readPermissions (cx_answers ctx phase) pool ([], [])) (\<lambda>(perms, stale).
       if list_ex (\<lambda>a. acc_id a \<notin> set stale \<and> \<not> permitted_by perms target winning a) pool
       then readPermissions (cx_answers ctx (phase + 1)) pool (perms, stale)
       else Inr (perms, stale))"

definition installPooledRoute ::
  "routing_context \<Rightarrow> destination_restrictions \<Rightarrow> account list \<Rightarrow> routing_rule list \<Rightarrow> routing_rule option \<Rightarrow> string \<Rightarrow> string
    \<Rightarrow> string option \<Rightarrow> string option \<Rightarrow> prior_exclusions \<Rightarrow> chat_field list option \<Rightarrow> request_routes
    \<Rightarrow> routing_policy_error + request_routes" where
  "installPooledRoute ctx restrictions pool rules winning target model routingModel apiKeyId prior chat st =
     bind_result (if in_maintenance restrictions = None then read_pool ctx 1 pool target winning else Inr ([], [])) (\<lambda>(perms, stale).
       let (routed, prior') = withoutStale pool stale prior in
       bind_result (buildResolvedRoute (cx_scopeOf ctx)
           (build_input restrictions None routed rules model routingModel apiKeyId perms prior' (suppressed_pairs ctx perms target routed) chat))
         (\<lambda>r. installResolvedRoute r st))"

subsection \<open>Stages of an alias\<close>

definition isModelAliasId :: "string \<Rightarrow> bool" where
  "isModelAliasId m = starts_with m ''alias:''"

definition stage_rule :: "routing_rule option \<Rightarrow> model_alias \<Rightarrow> string \<Rightarrow> alias_target \<Rightarrow> string \<Rightarrow> routing_rule" where
  "stage_rule winning al routingModel destination stageModel =
     (let pools = alias_target_accountIds destination \<noteq> None in
      \<lparr>rule_id = (case winning of None \<Rightarrow> model_alias_id al | Some w \<Rightarrow> rule_id w),
       rule_name = (case winning of None \<Rightarrow> displayName al | Some w \<Rightarrow> rule_name w),
       rule_enabled = True, position = 0, match_api_key_id = None, match_model_kind = Exact, match_model_value = Some routingModel,
       rule_pool_kind = (if pools then Accounts_pool else case winning of None \<Rightarrow> Inherit | Some w \<Rightarrow> rule_pool_kind w),
       pool_provider = (if pools then None else Option.bind winning pool_provider),
       pool_account_ids = (if pools then alias_target_accountIds destination else Option.bind winning pool_account_ids),
       rule_target_kind = Literal, target_model = Some stageModel\<rparr>)"

definition stage_pool :: "alias_target \<Rightarrow> account list \<Rightarrow> account list" where
  "stage_pool destination pool =
     filter (\<lambda>a. case alias_target_accountIds destination of None \<Rightarrow> True | Some is \<Rightarrow> acc_id a \<in> set is) pool"

text \<open>The permissions and the model of a stage; a first discovery may bring the variants in.\<close>

definition read_stage ::
  "routing_context \<Rightarrow> nat \<Rightarrow> route_request \<Rightarrow> routing_rule option \<Rightarrow> model_alias \<Rightarrow> string \<Rightarrow> alias_target \<Rightarrow> account list
    \<Rightarrow> routing_policy_error + (permission_map \<times> string list \<times> string)" where
  "read_stage ctx phase rq winning al routingModel destination pool =
     bind_result (readPermissions (cx_answers ctx phase) pool ([], [])) (\<lambda>(perms, stale).
       let variant = stageVariantModel (cx_compare ctx) (alias_target_model destination) (rq_reasoningEffort rq) pool;
           m = variant perms;
           missing = filter (\<lambda>a. acc_id a \<notin> set stale
             \<and> \<not> permitted_by perms m (Some (stage_rule winning al routingModel destination m)) a) pool
       in if missing = [] then Inr (perms, stale, m)
          else bind_result (readPermissions (cx_answers ctx (phase + 1)) missing (perms, stale)) (\<lambda>(perms', stale').
            Inr (perms', stale', variant perms')))"

definition alias_stage ::
  "routing_context \<Rightarrow> route_request \<Rightarrow> string option \<Rightarrow> destination_restrictions \<Rightarrow> account list \<Rightarrow> routing_rule option \<Rightarrow> model_alias \<Rightarrow> string
    \<Rightarrow> route list \<times> prior_exclusions \<Rightarrow> nat \<times> alias_target \<Rightarrow> routing_policy_error + (route list \<times> prior_exclusions)" where
  "alias_stage ctx rq apiKeyId restrictions pool winning al routingModel acc target =
     (let (k, destination) = target; stagePool = stage_pool destination pool in
      if stagePool = [] then Inr acc
      else bind_result (read_stage ctx (2 * k + 1) rq winning al routingModel destination stagePool) (\<lambda>(perms, stale, m).
        let (routed, prior) = withoutStale stagePool stale (snd acc) in
        bind_result (buildResolvedRoute (cx_scopeOf ctx)
            (build_input restrictions (Some \<lparr>alias_id = model_alias_id al, alias_revision = revision al, alias_targetIndex = k\<rparr>)
              routed [stage_rule winning al routingModel destination m] (rq_requestedModel rq) (Some routingModel) apiKeyId perms prior
              (suppressed_pairs ctx perms m routed) (rq_chat rq)))
          (\<lambda>r. Inr (fst acc @ [r], prior))))"

subsection \<open>Initialising a route\<close>

definition destinations_of :: "'z destination_restrictions_scheme \<Rightarrow> routing_rule option \<Rightarrow> account list \<Rightarrow> account list" where
  "destinations_of restrictions rule accounts = filter (\<lambda>a. destinationExclusionReason a restrictions rule = None) accounts"

definition prior_of :: "'z destination_restrictions_scheme \<Rightarrow> routing_rule option \<Rightarrow> account list \<Rightarrow> prior_exclusions" where
  "prior_of restrictions rule accounts = foldl (\<lambda>prior a. case destinationExclusionReason a restrictions rule of
     None \<Rightarrow> prior | Some reason \<Rightarrow> note_prior reason prior a) [] accounts"

text \<open>\<^verbatim>\<open>meta.officialAnthropicExcluded\<close>, which the response headers report.\<close>

definition officialAnthropicExcludedNote :: "'z destination_restrictions_scheme \<Rightarrow> routing_rule option \<Rightarrow> account list \<Rightarrow> string option" where
  "officialAnthropicExcludedNote restrictions rule accounts =
     (if list_ex (\<lambda>a. case destinationExclusionReason a restrictions rule of Some (Official_excluded _) \<Rightarrow> True | _ \<Rightarrow> False) accounts
      then officialAnthropicExclusion restrictions else None)"

definition exact_rule_for :: "string \<Rightarrow> string option \<Rightarrow> routing_rule \<Rightarrow> bool" where
  "exact_rule_for model apiKeyId r \<longleftrightarrow> rule_enabled r \<and> match_model_kind r = Exact \<and> match_model_value r = Some model
     \<and> (match_api_key_id r = None \<or> match_api_key_id r = apiKeyId)"

definition claudeCodeRoutingModel ::
  "routing_context \<Rightarrow> string option \<Rightarrow> string option \<Rightarrow> string \<Rightarrow> destination_restrictions \<Rightarrow> routing_policy_error + string" where
  "claudeCodeRoutingModel ctx application apiKeyId model restrictions =
     (if application \<noteq> Some ''claude-code'' \<or> getRoutingModelFamily model \<noteq> None then Inr model
      else case claudeCodeTarget model of
        None \<Rightarrow> Inr model
      | Some candidate \<Rightarrow>
          if list_ex (exact_rule_for model apiKeyId) (cx_rules ctx) then Inr model
          else let winning = matchRoutingRule (cx_rules ctx) apiKeyId candidate in
            bind_result (map_sum (\<lambda>_. Literal_without_target) fst (resolveRoutingTarget winning candidate)) (\<lambda>target.
              if isModelAliasId target then Inr (if cx_alias ctx target \<noteq> None then candidate else model)
              else let pool = destinations_of restrictions winning (cx_accounts ctx) in
                bind_result (readPermissions (cx_answers ctx 0) pool ([], [])) (\<lambda>(perms, stale).
                  Inr (if stale \<noteq> [] then model
                       else if list_ex (permitted_by perms target None) pool \<and> \<not> list_ex (permitted_by perms model None) pool
                       then candidate else model))))"

definition isSdkBridgeTurnRequest :: "route_request \<Rightarrow> bool" where
  "isSdkBridgeTurnRequest rq \<longleftrightarrow> rq_method rq = ''POST'' \<and> rq_path rq = ''/v1/messages''"

definition sdkBridgeExclusionReason :: "routing_context \<Rightarrow> route_request \<Rightarrow> string option" where
  "sdkBridgeExclusionReason ctx rq =
     (let only = ''official Anthropic accounts serve this client only through the SDK bridge, which '' in
      if \<not> isSdkBridgeTurnRequest rq
      then Some (only @ ''serves only POST /v1/messages, not '' @ rq_method rq @ '' '' @ rq_path rq)
      else case (case cx_bridge ctx of None \<Rightarrow> Unavailable ''not configured'' | Some b \<Rightarrow> b) of
        Available \<Rightarrow> None
      | Shutting_down \<Rightarrow> Some (only @ ''is shutting down'')
      | Unavailable reason \<Rightarrow> Some (only @ ''is unavailable ('' @ reason @ '')''))"

text \<open>The key's destinations and profile, read once: the request with its pin and its application.\<close>

definition resolveApiKeyProfile :: "routing_context \<Rightarrow> string option \<Rightarrow> route_request \<Rightarrow> routing_policy_error + route_request" where
  "resolveApiKeyProfile ctx apiKeyId rq =
     (if rq_clientApplication rq \<noteq> None then Inr rq
      else if nonempty apiKeyId \<and> \<not> rq_internal rq then
        (case cx_key ctx (the apiKeyId) of
           None \<Rightarrow> Inl Key_destinations_invalid
         | Some k \<Rightarrow> if malformed k then Inl Key_destinations_invalid
             else Inr (rq\<lparr>rq_pin := Some (stored_destinations k), rq_clientApplication := Some (stored_application k)\<rparr>))
      else Inr (rq\<lparr>rq_clientApplication := Some None\<rparr>))"

definition request_maintenance :: "route_request \<Rightarrow> routing_policy_error + maintenance option" where
  "request_maintenance rq =
     (if \<not> rq_internal rq then Inr None
      else if \<not> nonempty (rq_accountHeader rq) then Inl Internal_without_account
      else if nonempty (rq_keepaliveHeader rq)
      then Inr (Some \<lparr>maintained_account = the (rq_accountHeader rq), maintenance_purpose = Keepalive\<rparr>)
      else if nonempty (rq_autoRefreshHeader rq)
      then Inr (Some \<lparr>maintained_account = the (rq_accountHeader rq), maintenance_purpose = Auto_refresh\<rparr>)
      else Inl Internal_without_purpose)"

definition request_restrictions :: "routing_context \<Rightarrow> route_request \<Rightarrow> maintenance option \<Rightarrow> destination_restrictions" where
  "request_restrictions ctx rq mt =
     (let excluded = (if rq_viaSdkBridge rq then sdkBridgeExclusionReason ctx rq else None);
          bridges = (rq_viaSdkBridge rq \<and> excluded = None)
      in \<lparr>in_pin = rq_pin rq, headerAccountId = rq_accountHeader rq, officialAnthropicExclusion = excluded,
          bridgesOfficialAnthropic = bridges, sdkBridgeRefusal = rq_refusedField rq,
          sdkBridgeVersionFloor = (if bridges \<and> cx_bridge ctx \<noteq> None then cx_versionFloor ctx else (\<lambda>_. None)),
          serverToolType = rq_serverToolType rq, in_maintenance = mt\<rparr>)"

text \<open>The request with its routing model: pool, target and the route of an alias or of the pool itself.\<close>

definition route_for_model ::
  "routing_context \<Rightarrow> route_request \<Rightarrow> string option \<Rightarrow> destination_restrictions \<Rightarrow> string \<Rightarrow> request_routes
    \<Rightarrow> routing_policy_error + request_routes" where
  "route_for_model ctx rq apiKeyId restrictions routingModel st =
     (let mt = in_maintenance restrictions;
          winning = (if mt \<noteq> None then None else matchRoutingRule (cx_rules ctx) apiKeyId routingModel);
          pool = destinations_of restrictions winning (cx_accounts ctx);
          prior = prior_of restrictions winning (cx_accounts ctx)
      in bind_result (if map_option maintenance_purpose mt = Some Keepalive then Inr (rq_requestedModel rq)
                      else map_sum (\<lambda>_. Literal_without_target) fst (resolveRoutingTarget winning routingModel)) (\<lambda>target.
        if mt = None \<and> isModelAliasId target then
          (case cx_alias ctx target of
             None \<Rightarrow> Inl (Unknown_alias target)
           | Some al \<Rightarrow>
               bind_result (fold_result (alias_stage ctx rq apiKeyId restrictions pool winning al routingModel) ([], prior)
                   (enumerate 0 (alias_targets al)))
                 (\<lambda>(stages, _). installAliasRoutes stages st))
        else installPooledRoute ctx restrictions pool (cx_rules ctx) winning target (rq_requestedModel rq) (Some routingModel)
               apiKeyId prior (rq_chat rq) st))"

definition sdkBridgeCandidatesForModel :: "bridge_candidate list \<Rightarrow> string \<Rightarrow> bridge_candidate list" where
  "sdkBridgeCandidatesForModel candidates model =
     filter (\<lambda>c. candidate_model c = model \<or> sdkBridgeWireModel (candidate_model c) = model) candidates"

definition inner_exclusion ::
  "destination_restrictions \<Rightarrow> bridge_candidate list \<Rightarrow> account \<Rightarrow> exclusion option" where
  "inner_exclusion restrictions planned a =
     (case List.find (\<lambda>c. candidate_account c = acc_id a) (rev planned) of
        None \<Rightarrow> None
      | Some c \<Rightarrow> if candidate_provider c \<noteq> provider a then Some Provider_changed
                  else destinationExclusionReason a restrictions None)"

definition initializeSdkBridgeInnerRoute ::
  "routing_context \<Rightarrow> int \<Rightarrow> route_request \<Rightarrow> inner_context \<Rightarrow> string option \<Rightarrow> request_routes \<Rightarrow> routing_policy_error + request_routes" where
  "initializeSdkBridgeInnerRoute ctx now rq inner apiKeyId st =
     (let model = rq_requestedModel rq; planned = sdkBridgeCandidatesForModel (plan_candidates inner) model;
          restrictions = \<lparr>in_pin = None, headerAccountId = None, officialAnthropicExclusion = None, bridgesOfficialAnthropic = False,
            sdkBridgeRefusal = None, sdkBridgeVersionFloor = (\<lambda>_. None), serverToolType = rq_serverToolType rq, in_maintenance = None\<rparr>;
          candidates = filter (\<lambda>a. acc_id a \<in> candidate_account ` set planned) (cx_accounts ctx);
          pool = filter (\<lambda>a. inner_exclusion restrictions planned a = None) candidates;
          prior = foldl (\<lambda>prior a. case inner_exclusion restrictions planned a of
            None \<Rightarrow> prior | Some reason \<Rightarrow> note_prior reason prior a) [] candidates;
          rule = \<lparr>rule_id = ''sdk-bridge:'' @ turnId inner, rule_name = ''SDK bridge turn'', rule_enabled = True, position = 0,
            match_api_key_id = None, match_model_kind = Exact, match_model_value = Some model, rule_pool_kind = Accounts_pool,
            pool_provider = None, pool_account_ids = Some (map candidate_account planned), rule_target_kind = Literal,
            target_model = Some model\<rparr>
      in if now > deadlineAt inner then Inl Bridge_deadline_passed
         else if planned = [] then Inl (Not_a_bridge_model model)
         else installPooledRoute ctx restrictions pool [rule] (Some rule) model model None apiKeyId prior (rq_chat rq) st)"

definition initializeRequestRoute ::
  "routing_context \<Rightarrow> int \<Rightarrow> route_request \<Rightarrow> string option \<Rightarrow> request_routes \<Rightarrow> routing_policy_error + request_routes" where
  "initializeRequestRoute ctx now rq0 apiKeyId st =
     (if rq_requestedModel rq0 = [] then Inl Model_required
      else case rq_inner rq0 of
        Some inner \<Rightarrow> initializeSdkBridgeInnerRoute ctx now rq0 inner apiKeyId st
      | None \<Rightarrow>
          bind_result (resolveApiKeyProfile ctx apiKeyId rq0) (\<lambda>rq.
          bind_result (request_maintenance rq) (\<lambda>mt.
            let restrictions = request_restrictions ctx rq mt in
            bind_result (if mt \<noteq> None then Inr (rq_requestedModel rq)
                else claudeCodeRoutingModel ctx (the (rq_clientApplication rq)) apiKeyId (rq_requestedModel rq) restrictions)
              (\<lambda>routingModel. route_for_model ctx rq apiKeyId restrictions routingModel st))))"

subsection \<open>Eligible accounts of an installed route\<close>

text \<open>
  \<^verbatim>\<open>eligibleRouteAccounts\<close>: the accounts of the database as they are now that the route still targets, permits and
  that nothing suppresses. An account whose identity changed is left out; another failure of a read is thrown.
\<close>

definition eligible_step ::
  "routing_context \<Rightarrow> nat \<Rightarrow> request_exclusions \<Rightarrow> route \<Rightarrow> account list \<Rightarrow> account \<Rightarrow> routing_policy_error + account list" where
  "eligible_step ctx phase excluded r acc a = (case route_target (cx_scopeOf ctx) r a of
     None \<Rightarrow> Inr acc
   | Some t \<Rightarrow>
       if route_maintenance r \<noteq> None then Inr (acc @ [a])
       else case cx_answers ctx phase a of
         Read_failed e \<Rightarrow> Inl (Permission_read_failed e)
       | Identity_changed \<Rightarrow> Inr acc
       | Permissions p \<Rightarrow>
           Inr (if \<not> permits (cx_scopeOf ctx) r a (Some (permission_set.truncate p)) then acc
                else if isModelExcludedForRequest excluded (acc_id a) (upstreamModel t)
                    \<or> isModelSuppressedFor (cx_suppression ctx) a (target_scope t) (upstreamModel t) then acc
                else acc @ [a]))"

definition eligibleRouteAccounts ::
  "routing_context \<Rightarrow> nat \<Rightarrow> request_exclusions \<Rightarrow> request_routes \<Rightarrow> routing_policy_error + account list" where
  "eligibleRouteAccounts ctx phase excluded st =
     bind_result (getResolvedRoute st) (\<lambda>r. fold_result (eligible_step ctx phase excluded r) [] (cx_accounts ctx))"

subsection \<open>What an initialised route authorizes\<close>

text \<open>The restrictions that do not depend on the routing rule, on the identity a target was authorized under.\<close>

definition allowed_destination :: "'z destination_restrictions_scheme \<Rightarrow> account \<Rightarrow> bool" where
  "allowed_destination restrictions b \<longleftrightarrow> eligible_destination restrictions None b"

lemma eligible_allowed: "eligible_destination restrictions rule b \<Longrightarrow> allowed_destination restrictions b"
  by (simp add: allowed_destination_def eligible_destination_def in_pool_def)

definition allowed_route :: "destination_restrictions \<Rightarrow> account list \<Rightarrow> route \<Rightarrow> bool" where
  "allowed_route restrictions accounts r \<longleftrightarrow> route_maintenance r = in_maintenance restrictions \<and> (\<forall>i t. jm_get (targets r) i = Some t \<longrightarrow>
     (\<exists>b \<in> set accounts. acc_id b = i \<and> target_provider t = provider b \<and> allowed_destination restrictions b))"

definition allowed_routes :: "destination_restrictions \<Rightarrow> account list \<Rightarrow> request_routes \<Rightarrow> bool" where
  "allowed_routes restrictions accounts st \<longleftrightarrow> (\<forall>r \<in> set (route_objects st). allowed_route restrictions accounts r)"

lemma allowed_unreasoned [simp]: "allowed_route restrictions accounts (unreasoned r) = allowed_route restrictions accounts r"
  by (simp add: allowed_route_def unreasoned_def)

lemma build_input_restrictions:
  "eligible_destination (build_input restrictions al accounts rules m rm key perms prior pairs chat) rule b = eligible_destination restrictions rule b"
  "in_accounts (build_input restrictions al accounts rules m rm key perms prior pairs chat) = accounts"
  "in_maintenance (build_input restrictions al accounts rules m rm key perms prior pairs chat) = in_maintenance restrictions"
  by (simp_all add: build_input_def eligible_destination_def destination_restrictions.defs build_route_input.defs)

lemma built_allowed:
  assumes "buildResolvedRoute scopeOf (build_input restrictions al pool rules m rm key perms prior pairs chat) = Inr r"
    and "set pool \<subseteq> set accounts"
  shows "allowed_route restrictions accounts r"
proof -
  have "\<exists>b \<in> set pool. acc_id b = i \<and> target_provider t = provider b \<and> allowed_destination restrictions b"
    if "jm_get (targets r) i = Some t" for i t
    using build_target_eligible [OF assms(1) that] by (auto simp: build_input_restrictions dest: eligible_allowed)
  moreover have "route_maintenance r = in_maintenance restrictions"
    using assms(1) by (auto simp: buildResolvedRoute_def bind_result_Inr new_route_def build_input_restrictions Let_def split: if_splits)
  ultimately show ?thesis using assms(2) unfolding allowed_route_def by blast
qed

lemma withoutStale_subset: "set (fst (withoutStale pool stale prior)) \<subseteq> set pool"
  by (auto simp: withoutStale_def)

lemma install_resolved_allowed:
  assumes "installResolvedRoute r no_routes = Inr st" and "allowed_route restrictions accounts r"
  shows "allowed_routes restrictions accounts st \<and> routes_wf st \<and> installed st \<noteq> None"
  using assms by (auto simp: installResolvedRoute_def install_object_def no_routes_def allowed_routes_def routes_wf_def)

lemma install_alias_allowed:
  assumes "installAliasRoutes stages no_routes = Inr st" and "\<forall>r \<in> set stages. allowed_route restrictions accounts r"
  shows "allowed_routes restrictions accounts st \<and> routes_wf st \<and> installed st \<noteq> None"
proof -
  have "routes_wf no_routes" by (simp add: routes_wf_def no_routes_def)
  then have "routes_wf (route_step no_routes (Install_alias stages))" by (rule routes_wf_step)
  then have "routes_wf st" by (simp add: route_step_def assms(1))
  with assms show ?thesis
    by (auto simp: installAliasRoutes_def install_object_def no_routes_def allowed_routes_def Let_def split: list.splits)
qed

lemma pooled_allowed:
  assumes "installPooledRoute ctx restrictions pool rules winning target m rm key prior chat no_routes = Inr st"
    and "set pool \<subseteq> set accounts"
  shows "allowed_routes restrictions accounts st \<and> routes_wf st \<and> installed st \<noteq> None"
proof -
  from assms(1) obtain perms stale r where
    r: "buildResolvedRoute (cx_scopeOf ctx) (build_input restrictions None (fst (withoutStale pool stale prior)) rules m rm key perms
      (snd (withoutStale pool stale prior)) (suppressed_pairs ctx perms target (fst (withoutStale pool stale prior))) chat) = Inr r"
    and st: "installResolvedRoute r no_routes = Inr st"
    by (auto simp: installPooledRoute_def bind_result_Inr split_beta)
  from withoutStale_subset [of pool stale prior] assms(2) have "set (fst (withoutStale pool stale prior)) \<subseteq> set accounts" by blast
  from install_resolved_allowed [OF st built_allowed [OF r this]] show ?thesis .
qed

lemma stage_allowed:
  assumes "alias_stage ctx rq key restrictions pool winning al rm (stages, prior) target = Inr (stages', prior')"
    and "set pool \<subseteq> set accounts" and "\<forall>r \<in> set stages. allowed_route restrictions accounts r"
  shows "\<forall>r \<in> set stages'. allowed_route restrictions accounts r"
proof (cases "stage_pool (snd target) pool = []")
  case True
  with assms show ?thesis by (auto simp: alias_stage_def split: prod.splits)
next
  case False
  let ?left = "\<lambda>stale. withoutStale (stage_pool (snd target) pool) stale prior"
  from False assms(1) obtain perms stale m r where
    r: "buildResolvedRoute (cx_scopeOf ctx) (build_input restrictions
        (Some \<lparr>alias_id = model_alias_id al, alias_revision = revision al, alias_targetIndex = fst target\<rparr>) (fst (?left stale))
        [stage_rule winning al rm (snd target) m] (rq_requestedModel rq) (Some rm) key perms (snd (?left stale))
        (suppressed_pairs ctx perms m (fst (?left stale))) (rq_chat rq)) = Inr r" and stages': "stages' = stages @ [r]"
    by (auto simp: alias_stage_def bind_result_Inr split_beta Let_def)
  have "set (stage_pool (snd target) pool) \<subseteq> set pool" by (auto simp: stage_pool_def)
  with withoutStale_subset [of "stage_pool (snd target) pool" stale prior] assms(2) have "set (fst (?left stale)) \<subseteq> set accounts" by blast
  from built_allowed [OF r this] stages' assms(3) show ?thesis by simp
qed

lemma stages_allowed:
  assumes "fold_result (alias_stage ctx rq key restrictions pool winning al rm) ([], prior) xs = Inr (stages, prior')"
    and "set pool \<subseteq> set accounts"
  shows "\<forall>r \<in> set stages. allowed_route restrictions accounts r"
proof -
  have "\<forall>r \<in> set (fst (stages, prior')). allowed_route restrictions accounts r"
    by (rule fold_result_inv [where P = "\<lambda>acc. \<forall>r \<in> set (fst acc). allowed_route restrictions accounts r", OF assms(1)])
      (auto dest!: stage_allowed [OF _ assms(2)])
  then show ?thesis by simp
qed

lemma destinations_subset: "set (destinations_of restrictions rule accounts) \<subseteq> set accounts"
  by (auto simp: destinations_of_def)

lemma model_route_allowed:
  assumes "route_for_model ctx rq key restrictions rm no_routes = Inr st"
  shows "allowed_routes restrictions (cx_accounts ctx) st \<and> routes_wf st \<and> installed st \<noteq> None"
proof -
  let ?winning = "if in_maintenance restrictions \<noteq> None then None else matchRoutingRule (cx_rules ctx) key rm"
  from assms consider (staged) al stages prior prior' where
      "fold_result (alias_stage ctx rq key restrictions (destinations_of restrictions ?winning (cx_accounts ctx)) ?winning al rm) ([], prior)
        (enumerate 0 (alias_targets al)) = Inr (stages, prior')" "installAliasRoutes stages no_routes = Inr st"
    | (pooled) target prior where "installPooledRoute ctx restrictions (destinations_of restrictions ?winning (cx_accounts ctx)) (cx_rules ctx)
        ?winning target (rq_requestedModel rq) (Some rm) key prior (rq_chat rq) no_routes = Inr st"
    by (auto simp: route_for_model_def Let_def bind_result_Inr split: if_splits option.splits prod.splits)
  then show ?thesis
  proof cases
    case staged
    from install_alias_allowed [OF staged(2) stages_allowed [OF staged(1) destinations_subset]] show ?thesis .
  next
    case pooled
    from pooled_allowed [OF pooled destinations_subset] show ?thesis .
  qed
qed

text \<open>The restrictions an ordinary request is routed under.\<close>

definition restricted_request :: "routing_context \<Rightarrow> string option \<Rightarrow> route_request \<Rightarrow> destination_restrictions \<Rightarrow> bool" where
  "restricted_request ctx key rq restrictions \<longleftrightarrow> (\<exists>rq' mt. resolveApiKeyProfile ctx key rq = Inr rq' \<and> request_maintenance rq' = Inr mt
     \<and> restrictions = request_restrictions ctx rq' mt)"

lemma initialized_allowed:
  assumes "initializeRequestRoute ctx now rq key no_routes = Inr st" and "rq_inner rq = None"
  obtains restrictions where "restricted_request ctx key rq restrictions"
    and "allowed_routes restrictions (cx_accounts ctx) st" and "routes_wf st" and "installed st \<noteq> None"
proof -
  from assms obtain rq' mt rm where "resolveApiKeyProfile ctx key rq = Inr rq'" "request_maintenance rq' = Inr mt"
    "route_for_model ctx rq' key (request_restrictions ctx rq' mt) rm no_routes = Inr st"
    by (auto simp: initializeRequestRoute_def Let_def bind_result_Inr split: if_splits)
  with model_route_allowed that show ?thesis by (force simp: restricted_request_def)
qed

lemma allowed_routes_run:
  assumes "allowed_routes restrictions accounts st" and "installed st \<noteq> None" and "routes_wf st"
    and "installed_route (foldl route_step st es) = Some r"
  shows "allowed_route restrictions accounts r"
proof -
  let ?st = "foldl route_step st es"
  have same: "map unreasoned (route_objects ?st) = map unreasoned (route_objects st)"
    using plan_run(1) [OF assms(2,3)] by (simp add: same_plan_def)
  have "routes_wf ?st" using assms(3) by (rule routes.run_inv)
  with assms(4) obtain i where i: "i < length (route_objects ?st)" "route_objects ?st ! i = r"
    by (auto simp: installed_route_def routes_wf_def)
  with same have "i < length (route_objects st)" "unreasoned r = unreasoned (route_objects st ! i)" by (metis length_map nth_map)+
  moreover from this(1) have "allowed_route restrictions accounts (route_objects st ! i)" using assms(1) by (simp add: allowed_routes_def)
  ultimately show ?thesis by (metis allowed_unreasoned)
qed

text \<open>What the re-evaluation has checked of an account it keeps, with the permissions read at the given phase.\<close>

definition eligible_now :: "routing_context \<Rightarrow> nat \<Rightarrow> request_exclusions \<Rightarrow> route \<Rightarrow> account \<Rightarrow> bool" where
  "eligible_now ctx phase excluded r b \<longleftrightarrow> (case route_target (cx_scopeOf ctx) r b of
     None \<Rightarrow> False
   | Some t \<Rightarrow> route_maintenance r \<noteq> None \<or> (\<exists>p. cx_answers ctx phase b = Permissions p
       \<and> isModelPermitted (Some (permission_set.truncate p)) (acc_id b) (provider b) (upstreamModel t) (route_rule r)
       \<and> \<not> isModelExcludedForRequest excluded (acc_id b) (upstreamModel t)
       \<and> \<not> isModelSuppressedFor (cx_suppression ctx) b (target_scope t) (upstreamModel t)))"

lemma eligible_step_now:
  "eligible_step ctx phase excluded r acc b = Inr acc' \<Longrightarrow> acc' = (if eligible_now ctx phase excluded r b then acc @ [b] else acc)"
  by (auto simp: eligible_step_def eligible_now_def permits_def split: option.splits if_splits permission_answer.splits)

lemma eligible_accounts_now:
  assumes "eligibleRouteAccounts ctx phase excluded st = Inr accounts" and "getResolvedRoute st = Inr r"
  shows "accounts = filter (eligible_now ctx phase excluded r) (cx_accounts ctx)"
proof -
  from assms have run: "fold_result (eligible_step ctx phase excluded r) [] (cx_accounts ctx) = Inr accounts"
    by (simp add: eligibleRouteAccounts_def bind_result_def)
  have step: "fold_result (eligible_step ctx phase excluded r) acc xs = Inr out
      \<Longrightarrow> out = acc @ filter (eligible_now ctx phase excluded r) xs" for acc xs out
  proof (induction xs arbitrary: acc)
    case (Cons b xs)
    then obtain acc' where "eligible_step ctx phase excluded r acc b = Inr acc'" "fold_result (eligible_step ctx phase excluded r) acc' xs = Inr out"
      by (auto split: sum.splits)
    with Cons.IH eligible_step_now show ?case by fastforce
  qed simp
  from step [OF run] show ?thesis by simp
qed

end
