(* ===== verification/AccountSelection.thy ===== *)
theory AccountSelection
  imports RoutingService AdmissionGates LeastUsed
begin

section \<open>Selecting the accounts of a request\<close>

text \<open>
  \<^verbatim>\<open>proxy/src/handlers/account-selector.ts\<close>: the accounts of an installed route, ranked by the configured strategy or
  reduced to the one account the key or a header names, and the usage refresh before a cold selection. The strategy
  is one of the two the repository has. The account flag \<^verbatim>\<open>auto_pause_on_overage_enabled\<close>, which no other part of the
  model reads, is a function of the account. What the client is told when a named destination is unavailable
  (\<^verbatim>\<open>pinFailure\<close>) is part of the result.
  Shown: a selected account is one the installed route authorizes, so the admission gates never reject a
  selection; and every account a request can be sent to is allowed by its key.
\<close>

subsection \<open>Refreshing usage\<close>

definition COLD_REFRESH_COOLDOWN_MS :: int where "COLD_REFRESH_COOLDOWN_MS = 30000"

type_synonym refresh_attempts = "(string, int) jsmap"

record usage_refresh =
  attempts_after :: refresh_attempts
  refreshed :: "string list"
  waits :: bool

definition stale_usage ::
  "(account \<Rightarrow> capacity_signal option) \<Rightarrow> (string \<Rightarrow> int option) \<Rightarrow> int \<Rightarrow> refresh_attempts \<Rightarrow> account \<Rightarrow> bool" where
  "stale_usage capacity limitedUntil now attempts a \<longleftrightarrow> capacity a = None
     \<and> (case limitedUntil (acc_id a) of None \<Rightarrow> 0 | Some t \<Rightarrow> t) \<le> now
     \<and> now - (case jm_get attempts (acc_id a) of None \<Rightarrow> 0 | Some t \<Rightarrow> t) > COLD_REFRESH_COOLDOWN_MS"

definition ensureUsageFreshForSelection ::
  "(account \<Rightarrow> capacity_signal option) \<Rightarrow> (string \<Rightarrow> int option) \<Rightarrow> account list \<Rightarrow> int \<Rightarrow> refresh_attempts \<Rightarrow> usage_refresh" where
  "ensureUsageFreshForSelection capacity limitedUntil accounts now attempts =
     (let anthropic = filter (\<lambda>a. provider a = ANTHROPIC \<and> isAccountAvailable a now) accounts;
          stale = filter (stale_usage capacity limitedUntil now attempts) anthropic;
          top = Min (priority ` set anthropic);
          topTier = filter (\<lambda>a. priority a = top) anthropic
      in if stale = [] then \<lparr>attempts_after = attempts, refreshed = [], waits = False\<rparr>
         else \<lparr>attempts_after = foldl (\<lambda>m a. jm_set m (acc_id a) now) attempts stale, refreshed = map acc_id stale,
               waits = (topTier \<noteq> [] \<and> list_all (\<lambda>a. acc_id a \<in> acc_id ` set stale) topTier)\<rparr>)"

subsection \<open>Ordering by the strategy\<close>

definition getRoutingAffinity :: "request_meta \<Rightarrow> string option \<times> affinity_scope option" where
  "getRoutingAffinity meta =
     (let prefix = (case trimmed (affinityPartition meta) of None \<Rightarrow> [] | Some p \<Rightarrow> ''partition:'' @ p @ '':'')
      in case (trimmed (affinityKey meta), affinityScope meta) of
        (Some k, Some sc) \<Rightarrow> (Some (prefix @ scope_string sc @ '':'' @ k), Some sc)
      | _ \<Rightarrow> (case trimmed (project meta) of
          None \<Rightarrow> (None, None)
        | Some p \<Rightarrow> (Some (prefix @ ''project:'' @ p), Some Project_scope)))"

datatype strategy_state = Session_strategy session_state | Least_used_strategy least_used_state

definition strategy_select ::
  "(string \<Rightarrow> string) \<Rightarrow> int \<Rightarrow> int \<Rightarrow> account list \<Rightarrow> request_meta \<Rightarrow> strategy_state \<Rightarrow> strategy_state \<times> request_meta \<times> account list" where
  "strategy_select hash now clock accounts meta st = (case st of
     Session_strategy s \<Rightarrow>
       (let x = select hash now clock accounts meta s in (Session_strategy (sel_state x), sel_meta x, sel_result x))
   | Least_used_strategy s \<Rightarrow> (case lu_select accounts now meta s of (s', meta', as) \<Rightarrow> (Least_used_strategy s', meta', as)))"

definition strategy_reassign ::
  "(string \<Rightarrow> string) \<Rightarrow> int \<Rightarrow> int \<Rightarrow> request_meta \<Rightarrow> account \<Rightarrow> strategy_state \<Rightarrow> strategy_state \<times> request_meta \<times> account" where
  "strategy_reassign hash clock now meta a st = (case st of
     Session_strategy s \<Rightarrow> (case reassignAffinity hash clock now meta a s of (s', meta', a') \<Rightarrow> (Session_strategy s', meta', a'))
   | Least_used_strategy s \<Rightarrow> (st, meta, a))"

definition ESTABLISHED_AFFINITY :: "string list" where
  "ESTABLISHED_AFFINITY = [''affinity_hit'', ''affinity_hold'']"

definition prefer_index :: "string \<Rightarrow> account list \<Rightarrow> nat option" where
  "prefer_index i as = (let k = length (takeWhile (\<lambda>a. acc_id a \<noteq> i) as) in if k < length as then Some k else None)"

definition preferPlannedAccount ::
  "(string \<Rightarrow> string) \<Rightarrow> int \<Rightarrow> int \<Rightarrow> account list \<Rightarrow> request_meta \<Rightarrow> string \<Rightarrow> strategy_state
    \<Rightarrow> strategy_state \<times> request_meta \<times> account list" where
  "preferPlannedAccount hash clock now ordered meta preferredId st =
     (case prefer_index preferredId ordered of
        None \<Rightarrow> (st, meta, ordered)
      | Some k \<Rightarrow>
          if k = 0 \<or> (case routing meta of None \<Rightarrow> False | Some r \<Rightarrow> rt_decision r \<in> set ESTABLISHED_AFFINITY) then (st, meta, ordered)
          else (case strategy_reassign hash clock now meta (ordered ! k) st of (st', meta', preferred) \<Rightarrow>
            (st', meta'\<lparr>routing := map_option (\<lambda>r. r\<lparr>rt_decision := ''sdk_bridge_preferred'', rt_selectedAccountId := Some (acc_id preferred)\<rparr>)
                (routing meta')\<rparr>,
             preferred # filter (\<lambda>a. acc_id a \<noteq> acc_id preferred) ordered)))"

definition sent_model :: "route \<Rightarrow> string option" where
  "sent_model r = map_option to_lower (trimmed (route_model r))"

definition getOrderedAccounts ::
  "(string \<Rightarrow> string) \<Rightarrow> int \<Rightarrow> int \<Rightarrow> routing_context \<Rightarrow> nat \<Rightarrow> request_exclusions \<Rightarrow> request_routes \<Rightarrow> string option \<Rightarrow> request_meta \<Rightarrow> strategy_state
    \<Rightarrow> routing_policy_error + (strategy_state \<times> request_meta \<times> account list)" where
  "getOrderedAccounts hash now clock ctx phase excluded routes preferred meta st =
     bind_result (eligibleRouteAccounts ctx phase excluded routes) (\<lambda>accounts.
       if accounts = [] then Inl No_permitted_account
       else bind_result (getResolvedRoute routes) (\<lambda>r.
         case strategy_select hash now clock accounts (meta\<lparr>affinityModel := sent_model r\<rparr>) st of (st', meta', selected) \<Rightarrow>
           let ordered = filter (\<lambda>a. acc_id a \<in> acc_id ` set accounts \<and> route_target (cx_scopeOf ctx) r a \<noteq> None) selected in
           Inr (case preferred of
             None \<Rightarrow> (st', meta', ordered)
           | Some i \<Rightarrow> preferPlannedAccount hash clock now ordered meta' i st')))"

subsection \<open>Selection\<close>

datatype pin_failure = Pinned_no_available_account | Pinned_account_unavailable

record selected_accounts =
  chosen_strategy :: strategy_state
  chosen_meta :: request_meta
  pinFailure :: "pin_failure option"
  chosen :: "account list"

definition named_account :: "route_request \<Rightarrow> string option" where
  "named_account rq =
     (case Option.bind (rq_pin rq) key_accountId of
        Some i \<Rightarrow> if i \<noteq> [] then Some i else if rq_inner rq \<noteq> None then None else rq_accountHeader rq
      | None \<Rightarrow> if rq_inner rq \<noteq> None then None else rq_accountHeader rq)"

definition forced_routing :: "account \<Rightarrow> request_meta \<Rightarrow> request_meta" where
  "forced_routing a meta = meta\<lparr>routing := Some \<lparr>rt_strategy = ''forced'', rt_decision = ''resolved_destination'',
     rt_affinityScope = snd (getRoutingAffinity meta), rt_affinityKey = fst (getRoutingAffinity meta), rt_selectedAccountId = Some (acc_id a),
     rt_previousAccountId = None, rt_candidatesCount = 1, rt_failoverReason = None, rt_heldAccountId = None\<rparr>\<rparr>"

definition may_bypass :: "(account \<Rightarrow> bool) \<Rightarrow> route \<Rightarrow> request_meta \<Rightarrow> account \<Rightarrow> bool" where
  "may_bypass pausesOnOverage r meta a \<longleftrightarrow>
     map_option maintenance_purpose (route_maintenance r) = Some Auto_refresh \<and> bypassHeader meta = Some ''true''
     \<and> ((paused a \<and> pausesOnOverage a \<and> (\<not> nonempty (pause_reason a) \<or> pause_reason a = Some ''overage''))
        \<or> (\<not> paused a \<and> truthy (rate_limited_until a)))"

definition selectAccountsForRequest ::
  "(string \<Rightarrow> string) \<Rightarrow> (account \<Rightarrow> bool) \<Rightarrow> int \<Rightarrow> int \<Rightarrow> routing_context \<Rightarrow> nat \<Rightarrow> request_exclusions \<Rightarrow> request_routes \<Rightarrow> route_request
    \<Rightarrow> request_meta \<Rightarrow> strategy_state \<Rightarrow> routing_policy_error + selected_accounts" where
  "selectAccountsForRequest hash pausesOnOverage now clock ctx phase excluded routes rq meta st =
     bind_result (getResolvedRoute routes) (\<lambda>r.
       if \<not> nonempty (named_account rq) then
         bind_result (getOrderedAccounts hash now clock ctx phase excluded routes (map_option preferredAccountId (rq_inner rq)) meta st)
           (\<lambda>(st', meta', as). Inr \<lparr>chosen_strategy = st', chosen_meta = meta',
              pinFailure = (if as = [] \<and> isPinActive (rq_pin rq) then Some Pinned_no_available_account else None), chosen = as\<rparr>)
       else bind_result (eligibleRouteAccounts ctx phase excluded routes) (\<lambda>accounts.
         case List.find (\<lambda>a. Some (acc_id a) = named_account rq) accounts of
           None \<Rightarrow> Inl Destination_withdrawn
         | Some a \<Rightarrow>
             if \<not> isAccountAvailable a now \<and> \<not> may_bypass pausesOnOverage r meta a
             then Inr \<lparr>chosen_strategy = st, chosen_meta = meta, pinFailure = Some Pinned_account_unavailable, chosen = []\<rparr>
             else Inr \<lparr>chosen_strategy = st, chosen_meta = forced_routing a meta, pinFailure = None, chosen = [a]\<rparr>))"

subsection \<open>What is selected\<close>

text \<open>The conversation key is the one the strategy computes for itself.\<close>

lemma routing_affinity_key: "fst (getRoutingAffinity meta) = getAffinityKey meta"
  by (simp add: getRoutingAffinity_def getAffinityKey_def Let_def split: option.split)

text \<open>Rebinding a conversation touches the session fields of an account only, so its authorization stays.\<close>

definition same_identity :: "account \<Rightarrow> account \<Rightarrow> bool" where
  "same_identity a b \<longleftrightarrow> acc_id a = acc_id b \<and> provider a = provider b \<and> custom_endpoint a = custom_endpoint b"

lemma reset_identity: "same_identity (snd (resetSessionIfExpired clock a s)) a"
  by (simp add: resetSessionIfExpired_def same_identity_def)

lemma reassign_identity: "same_identity (snd (snd (strategy_reassign hash clock now meta a st))) a"
proof (cases st)
  case (Session_strategy s)
  with reset_identity [of clock a s] show ?thesis
    by (simp add: strategy_reassign_def reassignAffinity_def split_beta Let_def same_identity_def split: option.split)
qed (simp add: strategy_reassign_def same_identity_def)

lemma identity_target:
  assumes "same_identity a b"
  shows "route_target (modelPermissionScope digest parse identityOf) r a = route_target (modelPermissionScope digest parse identityOf) r b"
proof -
  from assms have "modelPermissionScope digest parse identityOf a = modelPermissionScope digest parse identityOf b"
    by (simp add: same_identity_def modelPermissionScope_def Let_def split: option.split)
  with assms show ?thesis by (simp add: same_identity_def route_target_def split: option.split)
qed

lemma preferred_identity:
  assumes "preferPlannedAccount hash clock now ordered meta i st = (st', meta', as)" and "a \<in> set as"
  shows "\<exists>b \<in> set ordered. same_identity a b"
proof -
  have same: "same_identity b b" for b by (simp add: same_identity_def)
  show ?thesis
  proof (cases "as = ordered")
    case True
    with assms(2) same show ?thesis by blast
  next
    case False
    with assms(1) obtain k where k: "prefer_index i ordered = Some k"
      and as: "as = snd (snd (strategy_reassign hash clock now meta (ordered ! k) st))
        # filter (\<lambda>b. acc_id b \<noteq> acc_id (snd (snd (strategy_reassign hash clock now meta (ordered ! k) st)))) ordered"
      by (auto simp: preferPlannedAccount_def split_beta split: option.splits if_splits)
    from k have "ordered ! k \<in> set ordered" by (auto simp: prefer_index_def Let_def split: if_splits)
    with as assms(2) consider "a = snd (snd (strategy_reassign hash clock now meta (ordered ! k) st))" | "a \<in> set ordered" by auto
    then show ?thesis using \<open>ordered ! k \<in> set ordered\<close> same reassign_identity by cases blast+
  qed
qed

lemma ordered_accounts:
  assumes "getOrderedAccounts hash now clock ctx phase excluded routes preferred meta st = Inr (st', meta', as)"
    and "getResolvedRoute routes = Inr r" and "a \<in> set as"
  obtains accounts b where "eligibleRouteAccounts ctx phase excluded routes = Inr accounts" and "acc_id b \<in> acc_id ` set accounts"
    and "route_target (cx_scopeOf ctx) r b \<noteq> None" and "same_identity a b"
proof -
  have same: "same_identity b b" for b by (simp add: same_identity_def)
  from assms(1,2) obtain accounts where el: "eligibleRouteAccounts ctx phase excluded routes = Inr accounts" and "accounts \<noteq> []"
    by (auto simp: getOrderedAccounts_def bind_result_Inr split: if_splits)
  obtain s m selected where "strategy_select hash now clock accounts (meta\<lparr>affinityModel := sent_model r\<rparr>) st = (s, m, selected)"
    by (rule prod_cases3)
  with assms(1,2) el \<open>accounts \<noteq> []\<close> have as: "(st', meta', as) = (let ordered = filter (\<lambda>a. acc_id a \<in> acc_id ` set accounts
        \<and> route_target (cx_scopeOf ctx) r a \<noteq> None) selected in
      case preferred of None \<Rightarrow> (s, m, ordered) | Some i \<Rightarrow> preferPlannedAccount hash clock now ordered m i s)"
    by (auto simp: getOrderedAccounts_def bind_result_def Let_def)
  let ?ordered = "filter (\<lambda>a. acc_id a \<in> acc_id ` set accounts \<and> route_target (cx_scopeOf ctx) r a \<noteq> None) selected"
  have "\<exists>b \<in> set ?ordered. same_identity a b"
  proof (cases preferred)
    case None
    with as assms(3) same show ?thesis by (auto simp: Let_def)
  next
    case (Some i)
    with as have "preferPlannedAccount hash clock now ?ordered m i s = (st', meta', as)" by (simp add: Let_def)
    from preferred_identity [OF this assms(3)] show ?thesis .
  qed
  with el that show ?thesis by auto
qed

lemma selected_accounts:
  assumes "selectAccountsForRequest hash pausesOnOverage now clock ctx phase excluded routes rq meta st = Inr sel"
    and "a \<in> set (chosen sel)"
  obtains r accounts b where "getResolvedRoute routes = Inr r" and "eligibleRouteAccounts ctx phase excluded routes = Inr accounts"
    and "acc_id b \<in> acc_id ` set accounts" and "route_target (cx_scopeOf ctx) r b \<noteq> None" and "same_identity a b"
    and "nonempty (named_account rq) \<Longrightarrow> named_account rq = Some (acc_id a)"
proof -
  from assms(1) obtain r where r: "getResolvedRoute routes = Inr r" by (auto simp: selectAccountsForRequest_def bind_result_Inr)
  show thesis
  proof (cases "nonempty (named_account rq)")
    case False
    with assms r obtain st' meta' as where "getOrderedAccounts hash now clock ctx phase excluded routes (map_option preferredAccountId (rq_inner rq)) meta st
        = Inr (st', meta', as)" "a \<in> set as"
      by (auto simp: selectAccountsForRequest_def bind_result_Inr split: if_splits prod.splits)
    from ordered_accounts [OF this(1) r this(2)] r that False show thesis by metis
  next
    case True
    with assms r obtain accounts b where el: "eligibleRouteAccounts ctx phase excluded routes = Inr accounts"
      and found: "List.find (\<lambda>a. Some (acc_id a) = named_account rq) accounts = Some b" and "a = b"
      by (auto simp: selectAccountsForRequest_def bind_result_Inr split: option.splits if_splits)
    from find_SomeD [OF found] have "a \<in> set accounts" "Some (acc_id a) = named_account rq" using \<open>a = b\<close> by auto
    moreover from this(1) have "route_target (cx_scopeOf ctx) r a \<noteq> None"
      using eligible_accounts_now [OF el r] by (auto simp: eligible_now_def split: option.splits)
    ultimately show thesis using r el that [of r accounts a] by (simp add: same_identity_def)
  qed
qed

text \<open>
  C9. A selection always has the shape the gates expect: every selected account has an authorized target in the
  installed route, an account rebound by the bridge's preference included, so the admission gates never throw on
  what the selector returns.
\<close>

theorem selection_never_rejected:
  assumes "selectAccountsForRequest hash pausesOnOverage now clock ctx phase excluded routes rq meta st = Inr sel"
    and "cx_scopeOf ctx = modelPermissionScope digest parse identityOf"
    and "scope_of env = cx_scopeOf ctx" and "resolved_route env = installed_route routes"
  shows "\<exists>adm. run_gates env clk (chosen sel) g = Inr adm"
proof (rule ccontr)
  assume "\<not> ?thesis"
  then obtain e where "run_gates env clk (chosen sel) g = Inl e" by (cases "run_gates env clk (chosen sel) g") auto
  then obtain a where a: "a \<in> set (chosen sel)" "modelForAccount env a = Inl e"
    by (auto simp: run_gates_error dest: find_SomeD)
  from selected_accounts [OF assms(1) a(1)] obtain r b where r: "getResolvedRoute routes = Inr r"
    and b: "route_target (cx_scopeOf ctx) r b \<noteq> None" "same_identity a b" by metis
  from r have "resolved_route env = Some r" using assms(4) by (auto simp: getResolvedRoute_def split: option.splits)
  moreover have "route_target (scope_of env) r a \<noteq> None" using b identity_target assms(2,3) by metis
  ultimately show False using a(2) by (auto simp: modelForAccount_def getAttemptTarget_def split: option.splits)
qed

lemma initialized_restrictions:
  assumes "initializeRequestRoute ctx now rq key no_routes = Inr st0" and "rq_inner rq = None"
    and "resolveApiKeyProfile ctx key rq = Inr rq'" and "getResolvedRoute (foldl route_step st0 es) = Inr r"
  obtains mt where "request_maintenance rq' = Inr mt" and "allowed_route (request_restrictions ctx rq' mt) (cx_accounts ctx) r"
proof -
  obtain restrictions where re: "restricted_request ctx key rq restrictions"
    and st0: "allowed_routes restrictions (cx_accounts ctx) st0" "routes_wf st0" "installed st0 \<noteq> None"
    using initialized_allowed [OF assms(1,2)] .
  from assms(4) have "installed_route (foldl route_step st0 es) = Some r" by (simp add: getResolvedRoute_def split: option.splits)
  from allowed_routes_run [OF st0(1,3,2) this] have "allowed_route restrictions (cx_accounts ctx) r" .
  with re assms(3) that show thesis by (auto simp: restricted_request_def)
qed

lemma bridge_exclusion_text: "sdkBridgeExclusionReason ctx rq \<noteq> Some []"
  by (simp add: sdkBridgeExclusionReason_def Let_def split: option.split bridge_availability.split)

lemma allowed_request:
  assumes "allowed_destination (request_restrictions ctx rq mt) b" and "acc_id a = acc_id b" and "provider a = provider b"
  shows "isAccountAllowedByPin (rq_pin rq) a" and "nonempty (rq_accountHeader rq) \<Longrightarrow> rq_accountHeader rq = Some (acc_id a)"
    and "rq_viaSdkBridge rq \<Longrightarrow> sdkBridgeExclusionReason ctx rq \<noteq> None \<Longrightarrow> \<not> isOfficialAnthropicProvider (provider a)"
    and "\<not> disabled b"
proof -
  have pin: "isAccountAllowedByPin (rq_pin rq) a = isAccountAllowedByPin (rq_pin rq) b"
    using assms(2,3) by (simp add: isAccountAllowedByPin_def split: option.split)
  note allowed = assms(1) [unfolded allowed_destination_def eligible_destination_def request_restrictions_def Let_def,
    simplified destination_restrictions.simps]
  show "isAccountAllowedByPin (rq_pin rq) a" using allowed pin by simp
  show "nonempty (rq_accountHeader rq) \<Longrightarrow> rq_accountHeader rq = Some (acc_id a)"
    using allowed assms(2) by auto
  show "rq_viaSdkBridge rq \<Longrightarrow> sdkBridgeExclusionReason ctx rq \<noteq> None \<Longrightarrow> \<not> isOfficialAnthropicProvider (provider a)"
    using allowed assms(3) bridge_exclusion_text [of ctx rq] by auto
  show "\<not> disabled b" using allowed by simp
qed

text \<open>
  C1. End to end, from the stored key to the attempt loop. Whatever happens to the installed route, to the strategy
  and to the account rows between the initialisation of an ordinary request and its selection, an account that
  reaches the attempt loop is allowed by the destinations of the key, is the one the account header names, is not an
  official Anthropic account when the bridge the client needs cannot serve the request, and was not disabled when the
  route was built. Unless the request maintains the account, the permissions read at selection include the model it
  would be sent, and that model is neither suppressed for the account nor excluded for the request.
\<close>

theorem attempts_respect_restrictions:
  assumes "initializeRequestRoute ctx0 now0 rq key no_routes = Inr st0" and "rq_inner rq = None"
    and "resolveApiKeyProfile ctx0 key rq = Inr rq'"
    and "selectAccountsForRequest hash pausesOnOverage now clock ctx phase excluded (foldl route_step st0 es) rq' meta st = Inr sel"
    and "run_gates env clk (chosen sel) g = Inr adm" and "a \<in> set (adm_accounts adm)"
  shows "isAccountAllowedByPin (rq_pin rq') a
    \<and> (nonempty (rq_accountHeader rq') \<longrightarrow> rq_accountHeader rq' = Some (acc_id a))
    \<and> (rq_viaSdkBridge rq' \<and> sdkBridgeExclusionReason ctx0 rq' \<noteq> None \<longrightarrow> \<not> isOfficialAnthropicProvider (provider a))
    \<and> (\<exists>b \<in> set (cx_accounts ctx0). acc_id b = acc_id a \<and> provider b = provider a \<and> \<not> disabled b)
    \<and> (\<not> rq_internal rq' \<longrightarrow> (\<exists>r t p. \<exists>b \<in> set (cx_accounts ctx). installed_route (foldl route_step st0 es) = Some r
        \<and> jm_get (targets r) (acc_id a) = Some t \<and> acc_id b = acc_id a \<and> provider b = provider a
        \<and> cx_answers ctx phase b = Permissions p
        \<and> isModelPermitted (Some (permission_set.truncate p)) (acc_id a) (provider a) (upstreamModel t) (route_rule r)
        \<and> \<not> isModelSuppressedFor (cx_suppression ctx) b (target_scope t) (upstreamModel t)
        \<and> \<not> isModelExcludedForRequest excluded (acc_id a) (upstreamModel t)))"
proof -
  from run_gates_subset [OF assms(5)] assms(6) have "a \<in> set (chosen sel)" by blast
  from selected_accounts [OF assms(4) this] obtain r accounts b c where r: "getResolvedRoute (foldl route_step st0 es) = Inr r"
    and accounts: "eligibleRouteAccounts ctx phase excluded (foldl route_step st0 es) = Inr accounts"
    and b: "route_target (cx_scopeOf ctx) r b \<noteq> None" "same_identity a b" and c: "c \<in> set accounts" "acc_id c = acc_id b" by (metis imageE)
  from eligible_accounts_now [OF accounts r] c(1) have now: "c \<in> set (cx_accounts ctx)" "eligible_now ctx phase excluded r c" by auto
  obtain mt where mt: "request_maintenance rq' = Inr mt" and allowed: "allowed_route (request_restrictions ctx0 rq' mt) (cx_accounts ctx0) r"
    using initialized_restrictions [OF assms(1-3) r] .
  from b obtain t where t: "jm_get (targets r) (acc_id a) = Some t" "target_provider t = provider a"
    by (auto simp: route_target_def same_identity_def split: option.splits if_splits)
  from allowed t(1) obtain d where d: "d \<in> set (cx_accounts ctx0)" "acc_id d = acc_id a" "target_provider t = provider d"
      "allowed_destination (request_restrictions ctx0 rq' mt) d"
    unfolding allowed_route_def by blast
  with t(2) have "provider d = provider a" by simp
  have maintained: "route_maintenance r = mt" using allowed by (simp add: allowed_route_def request_restrictions_def Let_def)
  have "\<exists>r t p. \<exists>b \<in> set (cx_accounts ctx). installed_route (foldl route_step st0 es) = Some r
        \<and> jm_get (targets r) (acc_id a) = Some t \<and> acc_id b = acc_id a \<and> provider b = provider a
        \<and> cx_answers ctx phase b = Permissions p
        \<and> isModelPermitted (Some (permission_set.truncate p)) (acc_id a) (provider a) (upstreamModel t) (route_rule r)
        \<and> \<not> isModelSuppressedFor (cx_suppression ctx) b (target_scope t) (upstreamModel t)
        \<and> \<not> isModelExcludedForRequest excluded (acc_id a) (upstreamModel t)" if "\<not> rq_internal rq'"
  proof -
    from that mt maintained have "route_maintenance r = None" by (simp add: request_maintenance_def)
    with now(2) t b(2) c(2) obtain p where "acc_id c = acc_id a" "provider c = provider a" "cx_answers ctx phase c = Permissions p"
      "isModelPermitted (Some (permission_set.truncate p)) (acc_id a) (provider a) (upstreamModel t) (route_rule r)"
      "\<not> isModelSuppressedFor (cx_suppression ctx) c (target_scope t) (upstreamModel t)"
      "\<not> isModelExcludedForRequest excluded (acc_id a) (upstreamModel t)"
      by (auto simp: eligible_now_def route_target_def same_identity_def split: option.splits if_splits)
    moreover have "installed_route (foldl route_step st0 es) = Some r" using r by (simp add: getResolvedRoute_def split: option.splits)
    ultimately show ?thesis using t(1) now(1) by blast
  qed
  moreover have "isAccountAllowedByPin (rq_pin rq') a" "nonempty (rq_accountHeader rq') \<Longrightarrow> rq_accountHeader rq' = Some (acc_id a)"
    "rq_viaSdkBridge rq' \<Longrightarrow> sdkBridgeExclusionReason ctx0 rq' \<noteq> None \<Longrightarrow> \<not> isOfficialAnthropicProvider (provider a)" "\<not> disabled d"
    using allowed_request [OF d(4), of a] d \<open>provider d = provider a\<close> by auto
  ultimately show ?thesis using d \<open>provider d = provider a\<close> by blast
qed
subsection \<open>Witnesses\<close>

text \<open>A key that allows Anthropic accounts only; account c is a Codex account, b does not permit the model.\<close>

definition no_identity :: account_identity where
  "no_identity = \<lparr>api_key = None, identity_external_id = None, identity_email = None, identity_organization_name = None,
     identity_plan_tier = None\<rparr>"

definition sample_scope :: "account \<Rightarrow> string" where
  "sample_scope = modelPermissionScope (\<lambda>_. ''s'') (\<lambda>_. None) (\<lambda>_. no_identity)"

definition sample_permissions :: "string list \<Rightarrow> account_permissions" where
  "sample_permissions ids = \<lparr>completeness = Known_complete, discovered_ids = ids, manual_ids = [], permission_scope = ''s'', model_variants = []\<rparr>"

definition sample_context :: routing_context where
  "sample_context = \<lparr>cx_accounts = [sample_codex, sample_account ''a'' 0, sample_account ''b'' 0], cx_rules = [], cx_alias = (\<lambda>_. None),
     cx_key = (\<lambda>_. Some \<lparr>malformed = False, stored_application = None,
       stored_destinations = \<lparr>key_accountId = None, key_providers = Some [ANTHROPIC], key_excludedProviders = None\<rparr>\<rparr>),
     cx_bridge = None, cx_versionFloor = (\<lambda>_. None),
     cx_answers = (\<lambda>_ a. Permissions (sample_permissions (if acc_id a = ''b'' then [] else [''claude-opus-4'']))),
     cx_suppression = (\<lambda>_ _ _. None), cx_compare = (\<lambda>_ _. 0), cx_scopeOf = sample_scope\<rparr>"

definition sample_request :: route_request where
  "sample_request = \<lparr>rq_requestedModel = ''claude-opus-4'', rq_internal = False, rq_accountHeader = None, rq_keepaliveHeader = None,
     rq_autoRefreshHeader = None, rq_clientApplication = None, rq_pin = None, rq_viaSdkBridge = False, rq_method = ''POST'',
     rq_path = ''/v1/messages'', rq_refusedField = None, rq_serverToolType = None, rq_reasoningEffort = None, rq_chat = None, rq_inner = None\<rparr>"

definition sample_profile :: route_request where
  "sample_profile = projr (resolveApiKeyProfile sample_context (Some ''key'') sample_request)"

definition sample_routes :: request_routes where
  "sample_routes = projr (initializeRequestRoute sample_context 1000 sample_request (Some ''key'') no_routes)"

definition sample_selection :: selected_accounts where
  "sample_selection = projr (selectAccountsForRequest id (\<lambda>_. False) 1000 1000 sample_context 3 [] sample_routes sample_profile sample_meta
     (Least_used_strategy \<lparr>lu_store = None, lu_lastPickedAt = [], lu_store_log = []\<rparr>))"

definition sample_gates :: gate_env where
  "sample_gates = sample_env\<lparr>resolved_route := installed_route sample_routes, scope_of := sample_scope\<rparr>"

definition sample_attempts :: admission where
  "sample_attempts = projr (run_gates sample_gates (\<lambda>_. 1000) (chosen sample_selection) no_lists)"

lemma projr_eq: "\<not> isl x \<Longrightarrow> x = Inr (projr x)"
  by (cases x) simp_all

lemma sample_initialized:
  "initializeRequestRoute sample_context 1000 sample_request (Some ''key'') no_routes = Inr sample_routes"
  "resolveApiKeyProfile sample_context (Some ''key'') sample_request = Inr sample_profile"
  unfolding sample_routes_def sample_profile_def by (rule projr_eq, code_simp)+

lemma sample_selected:
  "selectAccountsForRequest id (\<lambda>_. False) 1000 1000 sample_context 3 [] (foldl route_step sample_routes []) sample_profile sample_meta
     (Least_used_strategy \<lparr>lu_store = None, lu_lastPickedAt = [], lu_store_log = []\<rparr>) = Inr sample_selection"
  unfolding sample_selection_def foldl_Nil by (rule projr_eq, code_simp)

lemma sample_attempted: "run_gates sample_gates (\<lambda>_. 1000) (chosen sample_selection) no_lists = Inr sample_attempts"
  unfolding sample_attempts_def by (rule projr_eq, code_simp)

theorem selection_never_rejected_witness:
  "chosen sample_selection = [sample_account ''a'' 0] \<and> (\<exists>adm. run_gates sample_gates (\<lambda>_. 1000) (chosen sample_selection) no_lists = Inr adm)"
proof
  show "chosen sample_selection = [sample_account ''a'' 0]" by code_simp
  have "cx_scopeOf sample_context = modelPermissionScope (\<lambda>_. ''s'') (\<lambda>_. None) (\<lambda>_. no_identity)"
    by (simp add: sample_context_def sample_scope_def)
  moreover have "scope_of sample_gates = cx_scopeOf sample_context" by (simp add: sample_gates_def sample_context_def)
  moreover have "resolved_route sample_gates = installed_route (foldl route_step sample_routes [])" by (simp add: sample_gates_def)
  ultimately show "\<exists>adm. run_gates sample_gates (\<lambda>_. 1000) (chosen sample_selection) no_lists = Inr adm"
    by (rule selection_never_rejected [OF sample_selected])
qed

theorem attempts_respect_restrictions_witness:
  "sample_account ''a'' 0 \<in> set (adm_accounts sample_attempts) \<and> isAccountAllowedByPin (rq_pin sample_profile) (sample_account ''a'' 0)
    \<and> \<not> isAccountAllowedByPin (rq_pin sample_profile) sample_codex"
proof -
  have a: "adm_accounts sample_attempts = [sample_account ''a'' 0]" by code_simp
  then have "sample_account ''a'' 0 \<in> set (adm_accounts sample_attempts)" by simp
  from attempts_respect_restrictions [OF sample_initialized(1) _ sample_initialized(2) sample_selected sample_attempted this]
  have "isAccountAllowedByPin (rq_pin sample_profile) (sample_account ''a'' 0)" by (simp add: sample_request_def)
  moreover have "\<not> isAccountAllowedByPin (rq_pin sample_profile) sample_codex" by code_simp
  ultimately show ?thesis using a by simp
qed

end
