(* ===== verification/AttemptRows.thy ===== *)
theory AttemptRows
  imports ResolvedRoute
begin

section \<open>The rows of a request's attempts\<close>

text \<open>
  The writes on the table \<^verbatim>\<open>routing_attempts\<close> (\<^verbatim>\<open>database/src/repositories/routing.repository.ts\<close>) and the account a
  request keeps of its sends (\<^verbatim>\<open>proxy/src/pre-head-client-abort.ts\<close>). A row is inserted when an attempt is made and
  then written by three parties that do not wait for each other: the observer of the response body, the code that
  classifies the failure, and the handler of a client that left. The table is the list of its rows, keyed by id; an
  error text is a constructor with its data, and the snapshot of the route is left out.
  Shown: the verdict of a row does not depend on the order of the observer and the classifier, a row that a leaving
  client stamped is final, and no stamp replaces what the upstream answered.
\<close>

subsection \<open>Rows\<close>

datatype attempt_kind = Upstream_send | Local_reject | Local_success

datatype attempt_error =
    Transport_failed
  | Stream_failed
  | Consumption_canceled
  | Client_closed_request
  | Upstream_http int
  | Bridge_http int
  | Local_count_rejected int
  | Local_response_rejected int
  | Upstream_model_rejected
  | Bridge_at_capacity string
  | Bridge_extra_usage string
  | Bridge_version_too_old string
  | Bridge_unavailable string
  | Error_text string

definition ATTEMPT_TRANSPORT_ENDINGS :: "attempt_error list" where
  "ATTEMPT_TRANSPORT_ENDINGS = [Transport_failed, Stream_failed, Consumption_canceled]"

record adaptation =
  ad_requested :: "string option"
  ad_effective :: "string option"
  ad_reason :: "string option"

record attempt_row =
  at_id :: string
  at_request :: string
  at_rule :: "string option"
  at_account :: "string option"
  at_provider :: "string option"
  at_requested :: string
  at_resolved :: "string option"
  at_outgoing :: "string option"
  at_reported :: "string option"
  at_kind :: attempt_kind
  at_started :: int
  at_finished :: "int option"
  at_status :: "int option"
  at_error :: "attempt_error option"
  at_effort :: adaptation
  at_tier :: adaptation
  at_ignored :: "chat_field list option"

definition coalesce :: "'a option \<Rightarrow> 'a option \<Rightarrow> 'a option" where
  "coalesce x y = (if x = None then y else x)"

text \<open>An insertion fails on an id that is taken; an empty list of fields is stored as null.\<close>

definition recordAttempt :: "attempt_row \<Rightarrow> attempt_row list \<Rightarrow> attempt_row list option" where
  "recordAttempt a rows =
     (if list_ex (\<lambda>r. at_id r = at_id a) rows then None
      else Some (rows @ [a\<lparr>at_ignored := (if at_ignored a = Some [] then None else at_ignored a)\<rparr>]))"

definition update_row :: "string \<Rightarrow> (attempt_row \<Rightarrow> bool) \<Rightarrow> (attempt_row \<Rightarrow> attempt_row) \<Rightarrow> attempt_row list \<Rightarrow> attempt_row list" where
  "update_row i cond f rows = map (\<lambda>r. if at_id r = i \<and> cond r then f r else r) rows"

definition not_client_closed :: "attempt_row \<Rightarrow> bool" where
  "not_client_closed r \<longleftrightarrow> at_error r \<noteq> Some Client_closed_request"

definition finishAttempt :: "string \<Rightarrow> int \<Rightarrow> int \<Rightarrow> attempt_error option \<Rightarrow> string option \<Rightarrow> attempt_row list \<Rightarrow> attempt_row list" where
  "finishAttempt i finishedAt status err reportedModel = update_row i not_client_closed (\<lambda>r.
     r\<lparr>at_finished := Some finishedAt, at_status := Some status, at_error := coalesce (at_error r) err, at_reported := reportedModel\<rparr>)"

definition annotateAttempt :: "string \<Rightarrow> attempt_error \<Rightarrow> int option \<Rightarrow> string option \<Rightarrow> attempt_row list \<Rightarrow> attempt_row list" where
  "annotateAttempt i err status reportedModel = update_row i not_client_closed (\<lambda>r.
     r\<lparr>at_error := Some err, at_status := coalesce (at_status r) status, at_reported := coalesce (at_reported r) reportedModel\<rparr>)"

definition unsettled :: "attempt_row \<Rightarrow> bool" where
  "unsettled r \<longleftrightarrow> at_kind r = Upstream_send
     \<and> (at_status r = None \<or> (case at_error r of None \<Rightarrow> False | Some e \<Rightarrow> e \<in> set ATTEMPT_TRANSPORT_ENDINGS))"

definition finishAttemptClientClosed :: "string \<Rightarrow> int \<Rightarrow> attempt_row list \<Rightarrow> attempt_row list \<times> bool" where
  "finishAttemptClientClosed i finishedAt rows =
     (update_row i unsettled (\<lambda>r. r\<lparr>at_status := Some 499, at_error := Some Client_closed_request,
        at_finished := coalesce (at_finished r) (Some finishedAt)\<rparr>) rows,
      list_ex (\<lambda>r. at_id r = i \<and> unsettled r) rows)"

subsection \<open>Sends in flight when the client leaves\<close>

record upstream_dispatch =
  dispatch_attempt :: string
  dispatch_account :: string
  dispatch_failoverAttempts :: int
  dispatch_startedAt :: int

record tracking =
  client_aborted :: bool
  failoverAttempts :: int
  last_dispatch :: "upstream_dispatch option"
  lastInFlight :: bool
  sends :: nat
  was_bridged :: bool
  atAbort :: "(upstream_dispatch \<times> bool) option"

definition trackPreHeadClientAbort :: "bool \<Rightarrow> tracking" where
  "trackPreHeadClientAbort aborted = \<lparr>client_aborted = aborted, failoverAttempts = 0, last_dispatch = None, lastInFlight = False, sends = 0,
     was_bridged = False, atAbort = None\<rparr>"

definition on_abort :: "tracking \<Rightarrow> tracking" where
  "on_abort s =
     (if client_aborted s then s
      else s\<lparr>client_aborted := True, atAbort := (case last_dispatch s of None \<Rightarrow> atAbort s | Some d \<Rightarrow> Some (d, lastInFlight s))\<rparr>)"

definition notePreHeadAttempt :: "int \<Rightarrow> tracking \<Rightarrow> tracking" where
  "notePreHeadAttempt n s = s\<lparr>failoverAttempts := n\<rparr>"

definition noteUpstreamDispatch :: "string \<Rightarrow> string \<Rightarrow> int \<Rightarrow> tracking \<Rightarrow> tracking" where
  "noteUpstreamDispatch attemptId accountId now s =
     (if client_aborted s then s
      else s\<lparr>last_dispatch := Some \<lparr>dispatch_attempt = attemptId, dispatch_account = accountId,
               dispatch_failoverAttempts = failoverAttempts s, dispatch_startedAt = now\<rparr>,
             lastInFlight := True, sends := sends s + 1\<rparr>)"

definition noteBridgedDispatch :: "tracking \<Rightarrow> tracking" where
  "noteBridgedDispatch s = s\<lparr>was_bridged := True\<rparr>"

definition noteUpstreamSettled :: "string \<Rightarrow> tracking \<Rightarrow> tracking" where
  "noteUpstreamSettled attemptId s =
     (if map_option dispatch_attempt (last_dispatch s) = Some attemptId then s\<lparr>lastInFlight := False\<rparr> else s)"

definition wasInFlightAtAbort :: "string \<Rightarrow> tracking \<Rightarrow> bool" where
  "wasInFlightAtAbort attemptId s \<longleftrightarrow> (case atAbort s of None \<Rightarrow> False | Some (d, inFlight) \<Rightarrow> inFlight \<and> dispatch_attempt d = attemptId)"

definition preHeadAbortDispatch :: "tracking \<Rightarrow> (upstream_dispatch \<times> bool \<times> nat) option" where
  "preHeadAbortDispatch s = (case last_dispatch s of
     None \<Rightarrow> None
   | Some d \<Rightarrow> if was_bridged s then None
       else Some (d, (case atAbort s of None \<Rightarrow> False | Some (d', inFlight) \<Rightarrow> d' = d \<and> inFlight), sends s))"

subsection \<open>The writes of one row\<close>

datatype attempt_write =
    Finish int int "attempt_error option" "string option"
  | Annotate attempt_error "int option" "string option"
  | Client_closed int

fun write_row :: "attempt_row \<Rightarrow> attempt_write \<Rightarrow> attempt_row" where
  "write_row r (Finish ts status err reported) = hd (finishAttempt (at_id r) ts status err reported [r])"
| "write_row r (Annotate err status reported) = hd (annotateAttempt (at_id r) err status reported [r])"
| "write_row r (Client_closed ts) = hd (fst (finishAttemptClientClosed (at_id r) ts [r]))"

lemma write_row_simps [simp]:
  "write_row r (Finish ts status err reported) = (if not_client_closed r then
     r\<lparr>at_finished := Some ts, at_status := Some status, at_error := coalesce (at_error r) err, at_reported := reported\<rparr> else r)"
  "write_row r (Annotate e st reported) = (if not_client_closed r then
     r\<lparr>at_error := Some e, at_status := coalesce (at_status r) st, at_reported := coalesce (at_reported r) reported\<rparr> else r)"
  "write_row r (Client_closed ts) = (if unsettled r then r\<lparr>at_status := Some 499, at_error := Some Client_closed_request,
     at_finished := coalesce (at_finished r) (Some ts)\<rparr> else r)"
  by (simp_all add: finishAttempt_def annotateAttempt_def finishAttemptClientClosed_def update_row_def)

declare write_row.simps [simp del]

text \<open>A write names one row and leaves the others alone.\<close>

definition table_write :: "attempt_row list \<Rightarrow> string \<times> attempt_write \<Rightarrow> attempt_row list" where
  "table_write rows w = (case snd w of
     Finish ts status err reported \<Rightarrow> finishAttempt (fst w) ts status err reported rows
   | Annotate err status reported \<Rightarrow> annotateAttempt (fst w) err status reported rows
   | Client_closed ts \<Rightarrow> fst (finishAttemptClientClosed (fst w) ts rows))"

lemma table_write_row: "table_write rows (i, w) = map (\<lambda>r. if at_id r = i then write_row r w else r) rows"
  by (cases w) (auto simp: table_write_def finishAttempt_def annotateAttempt_def finishAttemptClientClosed_def update_row_def)

lemma write_row_id [simp]: "at_id (write_row r w) = at_id r" "at_kind (write_row r w) = at_kind r"
  by (cases w; simp)+

lemma table_run:
  "foldl table_write rows ws = map (\<lambda>r. foldl write_row r (map snd (filter (\<lambda>w. fst w = at_id r) ws))) rows"
  by (induction ws arbitrary: rows) (auto simp: table_write_row split_beta)

subsection \<open>Properties\<close>

definition stamped :: "attempt_row \<Rightarrow> bool" where
  "stamped r \<longleftrightarrow> at_error r = Some Client_closed_request \<and> at_status r = Some 499"

lemma stamped_write: "stamped r \<Longrightarrow> write_row r w = r"
  by (cases w) (simp_all add: stamped_def not_client_closed_def unsettled_def ATTEMPT_TRANSPORT_ENDINGS_def)

lemma stamped_final: "stamped r \<Longrightarrow> foldl write_row r ws = r"
  by (induction ws arbitrary: r) (simp_all add: stamped_write)

text \<open>What a row says once somebody settled what its send meant.\<close>

definition settled_verdict :: "attempt_row \<Rightarrow> bool" where
  "settled_verdict r \<longleftrightarrow> at_status r \<noteq> None \<and> (case at_error r of None \<Rightarrow> True | Some e \<Rightarrow> e \<notin> set ATTEMPT_TRANSPORT_ENDINGS)"

lemma settled_not_stamped: "settled_verdict r \<Longrightarrow> write_row r (Client_closed ts) = r"
  by (auto simp: settled_verdict_def unsettled_def split: option.splits)

text \<open>The verdict of a row from the writes on it: a classification wins over the observer, whichever comes first.\<close>

fun annotation_of :: "attempt_write \<Rightarrow> attempt_error option" where
  "annotation_of (Annotate err _ _) = Some err"
| "annotation_of _ = None"

fun finish_error_of :: "attempt_write \<Rightarrow> attempt_error option" where
  "finish_error_of (Finish _ _ err _) = err"
| "finish_error_of _ = None"

fun finish_status_of :: "attempt_write \<Rightarrow> int option" where
  "finish_status_of (Finish _ status _ _) = Some status"
| "finish_status_of _ = None"

fun annotated_status_of :: "attempt_write \<Rightarrow> int option" where
  "annotated_status_of (Annotate _ status _) = status"
| "annotated_status_of _ = None"

definition first_some :: "'a list \<Rightarrow> 'a option" where
  "first_some xs = (case xs of [] \<Rightarrow> None | x # _ \<Rightarrow> Some x)"

definition last_some :: "'a list \<Rightarrow> 'a option" where
  "last_some xs = (if xs = [] then None else Some (last xs))"

lemma first_last_snoc [simp]:
  "first_some (xs @ [x]) = (if xs = [] then Some x else first_some xs)" "last_some (xs @ [x]) = Some x"
  "first_some [] = None" "last_some [] = None" "first_some [x] = Some x" "last_some [x] = Some x"
  by (cases xs; simp add: first_some_def last_some_def)+

lemma first_last_None [simp]: "first_some xs = None \<longleftrightarrow> xs = []" "last_some xs = None \<longleftrightarrow> xs = []"
  by (cases xs; simp add: first_some_def last_some_def)+

definition verdict_error :: "attempt_write list \<Rightarrow> attempt_error option" where
  "verdict_error ws = coalesce (last_some (List.map_filter annotation_of ws)) (first_some (List.map_filter finish_error_of ws))"

definition verdict_status :: "attempt_write list \<Rightarrow> int option" where
  "verdict_status ws = coalesce (last_some (List.map_filter finish_status_of ws)) (first_some (List.map_filter annotated_status_of ws))"

lemma map_filter_snoc [simp]: "List.map_filter f (xs @ [x]) = List.map_filter f xs @ (case f x of None \<Rightarrow> [] | Some y \<Rightarrow> [y])"
  by (simp add: List.map_filter_def split: option.split)

lemma map_filter_Nil [simp]: "List.map_filter f [] = []"
  by (simp add: List.map_filter_def)

text \<open>The texts the proxy writes are never the one that marks a stamp.\<close>

definition plain_write :: "attempt_write \<Rightarrow> bool" where
  "plain_write w \<longleftrightarrow> annotation_of w \<noteq> Some Client_closed_request \<and> finish_error_of w \<noteq> Some Client_closed_request"

definition open_row :: "attempt_row \<Rightarrow> bool" where
  "open_row r \<longleftrightarrow> at_kind r = Upstream_send \<and> at_status r = None \<and> at_error r = None \<and> at_finished r = None"

definition unstamped_verdict :: "attempt_write list \<Rightarrow> attempt_row \<Rightarrow> bool" where
  "unstamped_verdict ws r \<longleftrightarrow> not_client_closed r \<and> at_error r = verdict_error ws \<and> at_status r = verdict_status ws
     \<and> (at_finished r \<noteq> None \<longleftrightarrow> List.map_filter finish_status_of ws \<noteq> [])"

lemma unstamped_step:
  assumes "unstamped_verdict ws r" and "plain_write w"
  shows "stamped (write_row r w) \<or> unstamped_verdict (ws @ [w]) (write_row r w)"
proof (cases w)
  case (Finish ts status err reported)
  with assms show ?thesis
    by (auto simp: unstamped_verdict_def verdict_error_def verdict_status_def coalesce_def plain_write_def not_client_closed_def
        split: option.split)
next
  case (Annotate err status reported)
  with assms show ?thesis
    by (auto simp: unstamped_verdict_def verdict_error_def verdict_status_def coalesce_def plain_write_def not_client_closed_def
        split: option.split)
next
  case (Client_closed ts)
  with assms show ?thesis
    by (auto simp: unstamped_verdict_def verdict_error_def verdict_status_def coalesce_def stamped_def)
qed

lemma verdict_run:
  assumes "open_row r" and "\<forall>w \<in> set ws. plain_write w"
  shows "stamped (foldl write_row r ws) \<or> unstamped_verdict ws (foldl write_row r ws)"
  using assms(2)
proof (induction ws rule: rev_induct)
  case Nil
  from assms(1) show ?case
    by (simp add: open_row_def unstamped_verdict_def not_client_closed_def verdict_error_def verdict_status_def coalesce_def)
next
  case (snoc w ws)
  then have "stamped (foldl write_row r ws) \<or> unstamped_verdict ws (foldl write_row r ws)" "plain_write w" by simp_all
  then show ?case using unstamped_step stamped_write by (auto simp: stamped_def)
qed

lemma stamp_step:
  assumes "stamped (write_row r w)" and "\<not> stamped r" and "plain_write w"
  obtains ts where "w = Client_closed ts" and "unsettled r"
  using assms by (cases w) (auto simp: stamped_def plain_write_def coalesce_def not_client_closed_def split: if_splits)

lemma stamp_made:
  assumes "\<forall>w \<in> set ws. plain_write w" and "not_client_closed r" and "stamped (foldl write_row r ws)"
  obtains before ts after where "ws = before @ Client_closed ts # after" and "unsettled (foldl write_row r before)"
    and "foldl write_row r ws = write_row (foldl write_row r before) (Client_closed ts)"
proof -
  have "\<exists>before ts after. ws = before @ Client_closed ts # after \<and> unsettled (foldl write_row r before)
    \<and> foldl write_row r ws = write_row (foldl write_row r before) (Client_closed ts)"
    using assms
  proof (induction ws rule: rev_induct)
    case Nil
    then show ?case by (simp add: stamped_def not_client_closed_def)
  next
    case (snoc w ws)
    show ?case
    proof (cases "stamped (foldl write_row r ws)")
      case True
      with snoc.IH snoc.prems obtain before ts after where "ws = before @ Client_closed ts # after" "unsettled (foldl write_row r before)"
        "foldl write_row r ws = write_row (foldl write_row r before) (Client_closed ts)" by auto
      with True show ?thesis using stamped_write by (metis append.assoc append_Cons foldl_Cons foldl_Nil foldl_append)
    next
      case False
      with snoc.prems obtain ts where "w = Client_closed ts" "unsettled (foldl write_row r ws)"
        by (auto intro: stamp_step [of "foldl write_row r ws" w])
      then have "ws @ [w] = ws @ Client_closed ts # [] \<and> unsettled (foldl write_row r ws)
        \<and> foldl write_row r (ws @ [w]) = write_row (foldl write_row r ws) (Client_closed ts)" by simp
      then show ?thesis by blast
    qed
  qed
  with that show ?thesis by blast
qed

text \<open>
  C6. The verdict of an attempt, whatever the order in which its row is written. Starting from the open row of a send:
  if a client that left stamped it, nothing settled the send before the stamp and the row is the same ever after; if
  none did, the error is the last classification, or the first error an observer reported when nobody classified, and
  the status is the last one an observer reported, or the first a classification named when there was none. So the
  observer and the classifier may write in either order.
\<close>

theorem attempt_row_verdict:
  assumes "open_row r" and "\<forall>w \<in> set ws. plain_write w"
  shows "if stamped (foldl write_row r ws)
     then \<exists>before ts after. ws = before @ Client_closed ts # after \<and> \<not> settled_verdict (foldl write_row r before)
       \<and> (\<forall>later. foldl write_row r (ws @ later) = write_row (foldl write_row r before) (Client_closed ts))
     else at_error (foldl write_row r ws) = verdict_error ws \<and> at_status (foldl write_row r ws) = verdict_status ws"
proof (cases "stamped (foldl write_row r ws)")
  case True
  have "not_client_closed r" using assms(1) by (simp add: open_row_def not_client_closed_def)
  from stamp_made [OF assms(2) this True] obtain before ts after where "ws = before @ Client_closed ts # after"
    "unsettled (foldl write_row r before)" "foldl write_row r ws = write_row (foldl write_row r before) (Client_closed ts)" .
  moreover from this(2) have "\<not> settled_verdict (foldl write_row r before)"
    by (auto simp: unsettled_def settled_verdict_def split: option.splits)
  ultimately show ?thesis using True stamped_final [OF True] by auto
next
  case False
  with verdict_run [OF assms] show ?thesis by (simp add: unstamped_verdict_def)
qed

subsection \<open>Sends in flight\<close>

datatype tracking_event = Attempt_begins int | Dispatched string string int | Bridged | Settled string | Client_left

definition tracking_step :: "tracking \<Rightarrow> tracking_event \<Rightarrow> tracking" where
  "tracking_step s ev = (case ev of
     Attempt_begins n \<Rightarrow> notePreHeadAttempt n s
   | Dispatched i a now \<Rightarrow> noteUpstreamDispatch i a now s
   | Bridged \<Rightarrow> noteBridgedDispatch s
   | Settled i \<Rightarrow> noteUpstreamSettled i s
   | Client_left \<Rightarrow> on_abort s)"

definition tracked :: "tracking_event list \<Rightarrow> tracking" where
  "tracked es = foldl tracking_step (trackPreHeadClientAbort False) es"

text \<open>The send a client abandons when it leaves after the events: the last one, if nothing settled it.\<close>

fun sends_attempt :: "string \<Rightarrow> tracking_event \<Rightarrow> bool" where
  "sends_attempt i (Dispatched j _ _) \<longleftrightarrow> j = i"
| "sends_attempt _ _ \<longleftrightarrow> False"

fun ends_flight :: "string \<Rightarrow> tracking_event \<Rightarrow> bool" where
  "ends_flight _ (Dispatched _ _ _) \<longleftrightarrow> True"
| "ends_flight i (Settled j) \<longleftrightarrow> j = i"
| "ends_flight _ _ \<longleftrightarrow> False"

definition in_flight :: "string \<Rightarrow> tracking_event list \<Rightarrow> bool" where
  "in_flight i es \<longleftrightarrow> (\<exists>before ev since. es = before @ ev # since \<and> sends_attempt i ev \<and> (\<forall>e \<in> set since. \<not> ends_flight i e))"

lemma in_flight_snoc: "in_flight i (es @ [ev]) \<longleftrightarrow> sends_attempt i ev \<or> (\<not> ends_flight i ev \<and> in_flight i es)"
proof
  assume "in_flight i (es @ [ev])"
  then obtain before e since where e: "es @ [ev] = before @ e # since" "sends_attempt i e" "\<forall>x \<in> set since. \<not> ends_flight i x"
    unfolding in_flight_def by blast
  show "sends_attempt i ev \<or> (\<not> ends_flight i ev \<and> in_flight i es)"
  proof (cases since rule: rev_cases)
    case Nil
    with e show ?thesis by simp
  next
    case (snoc ys y)
    with e have "es = before @ e # ys" "ev = y" by simp_all
    with e snoc show ?thesis by (auto simp: in_flight_def)
  qed
next
  assume "sends_attempt i ev \<or> (\<not> ends_flight i ev \<and> in_flight i es)"
  then consider "sends_attempt i ev" | before e since where "\<not> ends_flight i ev" "es = before @ e # since" "sends_attempt i e"
      "\<forall>x \<in> set since. \<not> ends_flight i x"
    unfolding in_flight_def by blast
  then show "in_flight i (es @ [ev])"
  proof cases
    case 1
    then have "es @ [ev] = es @ ev # [] \<and> sends_attempt i ev \<and> (\<forall>e \<in> set []. \<not> ends_flight i e)" by simp
    then show ?thesis unfolding in_flight_def by blast
  next
    case 2
    then have "es @ [ev] = before @ e # (since @ [ev]) \<and> sends_attempt i e \<and> (\<forall>x \<in> set (since @ [ev]). \<not> ends_flight i x)" by simp
    then show ?thesis unfolding in_flight_def by blast
  qed
qed

lemma tracked_snoc: "tracked (es @ [ev]) = tracking_step (tracked es) ev"
  by (simp add: tracked_def)

lemma tracked_before:
  assumes "Client_left \<notin> set es"
  shows "\<not> client_aborted (tracked es) \<and> atAbort (tracked es) = None
    \<and> (\<forall>i. in_flight i es \<longleftrightarrow> lastInFlight (tracked es) \<and> map_option dispatch_attempt (last_dispatch (tracked es)) = Some i)"
  using assms
proof (induction es rule: rev_induct)
  case Nil
  show ?case by (simp add: tracked_def trackPreHeadClientAbort_def in_flight_def)
next
  case (snoc ev es)
  then show ?case
    by (cases ev) (auto simp: tracked_snoc tracking_step_def in_flight_snoc notePreHeadAttempt_def noteUpstreamDispatch_def
        noteBridgedDispatch_def noteUpstreamSettled_def)
qed

lemma tracked_after:
  assumes "client_aborted s"
  shows "client_aborted (foldl tracking_step s es) \<and> atAbort (foldl tracking_step s es) = atAbort s"
  using assms
  by (induction es arbitrary: s) (auto simp: tracking_step_def notePreHeadAttempt_def noteUpstreamDispatch_def noteBridgedDispatch_def
      noteUpstreamSettled_def on_abort_def split: tracking_event.splits)

text \<open>
  C7. Which send a client abandoned. Whatever is dispatched, settled or retried around it, the send reported as in flight
  when the client left is the last one dispatched before that instant, and only if nothing had settled it by then; what
  happens after the client left changes nothing, and without a client that left there is none.
\<close>

theorem abandoned_send:
  assumes "Client_left \<notin> set before"
  shows "(wasInFlightAtAbort i (tracked (before @ Client_left # after)) \<longleftrightarrow> in_flight i before)
    \<and> \<not> wasInFlightAtAbort i (tracked before)"
proof -
  note now = tracked_before [OF assms]
  let ?s = "on_abort (tracked before)"
  have "tracked (before @ Client_left # after) = foldl tracking_step ?s after" by (simp add: tracked_def tracking_step_def)
  moreover have "client_aborted ?s" by (simp add: on_abort_def)
  ultimately have "atAbort (tracked (before @ Client_left # after)) = atAbort ?s" using tracked_after by simp
  with now show "(wasInFlightAtAbort i (tracked (before @ Client_left # after)) \<longleftrightarrow> in_flight i before)
      \<and> \<not> wasInFlightAtAbort i (tracked before)"
    by (auto simp: wasInFlightAtAbort_def on_abort_def split: option.splits)
qed

subsection \<open>Examples\<close>

definition sample_row :: attempt_row where
  "sample_row = \<lparr>at_id = ''t1'', at_request = ''q'', at_rule = None, at_account = Some ''a'', at_provider = Some ''anthropic'',
     at_requested = ''claude-opus-4'', at_resolved = Some ''claude-opus-4'', at_outgoing = Some ''claude-opus-4'', at_reported = None,
     at_kind = Upstream_send, at_started = 1000, at_finished = None, at_status = None, at_error = None,
     at_effort = \<lparr>ad_requested = None, ad_effective = None, ad_reason = None\<rparr>,
     at_tier = \<lparr>ad_requested = None, ad_effective = None, ad_reason = None\<rparr>, at_ignored = None\<rparr>"

definition sample_writes :: "attempt_write list" where
  "sample_writes = [Annotate (Error_text ''rate_limited'') (Some 429) None, Finish 2000 429 (Some (Upstream_http 429)) None, Client_closed 3000]"

theorem attempt_row_verdict_witness:
  "at_error (foldl write_row sample_row sample_writes) = Some (Error_text ''rate_limited'')
    \<and> at_status (foldl write_row sample_row sample_writes) = Some 429"
proof -
  have "open_row sample_row" by code_simp
  moreover have "list_all plain_write sample_writes" by code_simp
  moreover have "\<not> stamped (foldl write_row sample_row sample_writes)" by code_simp
  moreover have "verdict_error sample_writes = Some (Error_text ''rate_limited'')" "verdict_status sample_writes = Some 429" by code_simp+
  ultimately show ?thesis using attempt_row_verdict [of sample_row sample_writes] by (simp add: list_all_iff)
qed

definition sample_events :: "tracking_event list" where
  "sample_events = [Attempt_begins 0, Dispatched ''t1'' ''a'' 1000, Settled ''t1'', Attempt_begins 1, Dispatched ''t2'' ''b'' 2000, Settled ''t1'']"

theorem abandoned_send_witness:
  "in_flight ''t2'' sample_events \<and> \<not> wasInFlightAtAbort ''t2'' (tracked sample_events)"
proof -
  have "Client_left \<notin> set sample_events" by (simp add: sample_events_def)
  moreover have "wasInFlightAtAbort ''t2'' (tracked (sample_events @ Client_left # [Settled ''t2'']))" by code_simp
  ultimately show ?thesis using abandoned_send [of sample_events "''t2''" "[Settled ''t2'']"] by blast
qed

end
