(* ===== verification/AttemptDispatch.thy ===== *)
theory AttemptDispatch
  imports RoutingService AttemptRows
begin

section \<open>Sending an attempt\<close>

text \<open>
  \<^verbatim>\<open>proxy/src/routing-dispatch.ts\<close>: the last checks before a request leaves, the row of the attempt, and what the
  observer of the response body does when the body is over. The effects of an operation are listed in the order they
  happen: writes on \<^verbatim>\<open>routing_attempts\<close>, the send itself, the start and end of quota use, the notes kept for a client
  that leaves. What the database, the permission service and the wire answer is read through the records
  \<open>send_env\<close> and \<open>wire\<close>; the digests of a credential and of a body are data, and so is the provenance a Devin request
  carries. The snapshot of the route is left out of the rows.
  Shown: whatever is sent was authorized at that moment, carries the authorized model and has an open row; no row is
  left open and no quota use is left running.
\<close>

subsection \<open>Numbers as text\<close>

fun nat_text :: "nat \<Rightarrow> string" where
  "nat_text n = (if n < 10 then [char_of (48 + n)] else nat_text (n div 10) @ [char_of (48 + n mod 10)])"

declare nat_text.simps [simp del]

definition int_text :: "int \<Rightarrow> string" where
  "int_text z = (if z < 0 then CHR ''-'' # nat_text (nat (- z)) else nat_text (nat z))"

subsection \<open>Errors\<close>

datatype dispatch_rejection =
    Route_policy routing_policy_error
  | Chat_boundary_changed
  | Only_through_bridge
  | Disabled_before_dispatch
  | Identity_changed_before_dispatch
  | Model_already_rejected
  | Model_no_longer_permitted
  | Unverified_provenance
  | Provenance_changed
  | Unexpected_devin_response
  | Unexpected_local_response

datatype refusal_class = At_capacity | Extra_usage | Version_too_old | Other_refusal

datatype dispatch_error =
    Policy dispatch_rejection
  | Bridge_refused refusal_class int string
  | Bridge_not_available string
  | Failed string

definition failure_status :: "int option \<Rightarrow> dispatch_error \<Rightarrow> int" where
  "failure_status answered e = (case answered of Some s \<Rightarrow> s | None \<Rightarrow> (case e of
     Policy _ \<Rightarrow> 403 | Bridge_refused _ s _ \<Rightarrow> s | Bridge_not_available _ \<Rightarrow> 503 | Failed _ \<Rightarrow> 502))"

definition failure_error :: "(dispatch_rejection \<Rightarrow> string) \<Rightarrow> int option \<Rightarrow> dispatch_error \<Rightarrow> attempt_error" where
  "failure_error messageOf answered e = (case answered of Some s \<Rightarrow> Upstream_http s | None \<Rightarrow> (case e of
     Policy p \<Rightarrow> Error_text (messageOf p)
   | Bridge_refused At_capacity _ m \<Rightarrow> Bridge_at_capacity m
   | Bridge_refused Extra_usage _ m \<Rightarrow> Bridge_extra_usage m
   | Bridge_refused Version_too_old _ m \<Rightarrow> Bridge_version_too_old m
   | Bridge_refused Other_refusal _ m \<Rightarrow> Bridge_unavailable m
   | Bridge_not_available m \<Rightarrow> Bridge_unavailable m
   | Failed _ \<Rightarrow> Transport_failed))"

subsection \<open>What a send reads\<close>

datatype devin_kind = Inference string | Synthetic int

record devin_provenance =
  dp_accountId :: "string option"
  dp_credentialSha256 :: string
  dp_bodySha256 :: string
  dp_url :: string
  dp_method :: string
  dp_kind :: devin_kind

record outgoing =
  og_url :: string
  og_origin :: string
  og_method :: string
  og_syntheticResponse :: "string option"
  og_syntheticStatus :: "string option"
  og_contentType :: "string option"
  og_body :: "js_value option"
  og_bodySha256 :: string
  og_effort :: "adaptation option"
  og_tier :: "adaptation option"

record send_env =
  sv_request :: string
  sv_path :: string
  sv_direct :: bool
  sv_chat :: "chat_field list option"
  sv_excluded :: request_exclusions
  sv_row :: "string \<Rightarrow> string + account option"
  sv_permissions :: "account \<Rightarrow> permission_answer"
  sv_suppression :: suppressions
  sv_scopeOf :: "account \<Rightarrow> string"
  sv_credentialSha :: "account \<Rightarrow> string"
  sv_messageOf :: "dispatch_rejection \<Rightarrow> string"

text \<open>The answers of the wire and of the two writes that may fail.\<close>

record wire =
  wi_recorded :: bool
  wi_dispatched :: bool
  wi_head :: "dispatch_error + int"
  wi_prepare :: "(dispatch_error + int) option"
  wi_rerecorded :: bool

subsection \<open>Local responses\<close>

definition supportsLocalTokenCounting :: "string \<Rightarrow> string option \<Rightarrow> bool" where
  "supportsLocalTokenCounting prov customEndpoint \<longleftrightarrow>
     prov = ''devin'' \<or> prov = CODEX \<or> (prov = ''openrouter'' \<and> \<not> nonempty customEndpoint)"

definition localTokenCountUrl :: "string \<Rightarrow> string option" where
  "localTokenCountUrl prov =
     (if supportsLocalTokenCounting prov None then Some (''https://clankermux.local/'' @ prov @ ''/count_tokens'') else None)"

definition COUNT_TOKENS_PATH :: string where "COUNT_TOKENS_PATH = ''/v1/messages/count_tokens''"

definition is_synthetic :: "outgoing \<Rightarrow> bool" where
  "is_synthetic og \<longleftrightarrow> og_origin og = ''https://clankermux.local'' \<and> og_syntheticResponse og = Some ''true''"

subsection \<open>The checks\<close>

definition chat_check :: "send_env \<Rightarrow> account \<Rightarrow> bool \<Rightarrow> dispatch_rejection option" where
  "chat_check env a viaBridge = (case sv_chat env of
     None \<Rightarrow> None
   | Some fs \<Rightarrow> (case chatFieldCapability (provider a) viaBridge of
       None \<Rightarrow> Some Chat_boundary_changed
     | Some cap \<Rightarrow> if refusedChatField cap fs \<noteq> None then Some Chat_boundary_changed else None))"

definition destination_check :: "send_env \<Rightarrow> route \<Rightarrow> authorized_target \<Rightarrow> account \<Rightarrow> dispatch_error option" where
  "destination_check env r t a = (case sv_row env (acc_id a) of
     Inl e \<Rightarrow> Some (Failed e)
   | Inr None \<Rightarrow> Some (Policy Identity_changed_before_dispatch)
   | Inr (Some current) \<Rightarrow>
       if disabled current then Some (Policy Disabled_before_dispatch)
       else if route_target (sv_scopeOf env) r current = None then Some (Policy Identity_changed_before_dispatch)
       else if route_maintenance r \<noteq> None then None
       else if isModelExcludedForRequest (sv_excluded env) (acc_id a) (upstreamModel t) then Some (Policy Model_already_rejected)
       else case sv_permissions env current of
         Identity_changed \<Rightarrow> Some (Policy Identity_changed_before_dispatch)
       | Read_failed e \<Rightarrow> Some (Failed e)
       | Permissions p \<Rightarrow>
           if \<not> permits (sv_scopeOf env) r current (Some (permission_set.truncate p))
               \<or> isModelSuppressedFor (sv_suppression env) current (target_scope t) (upstreamModel t)
           then Some (Policy Model_no_longer_permitted) else None)"

definition devin_check ::
  "send_env \<Rightarrow> authorized_target \<Rightarrow> account \<Rightarrow> outgoing \<Rightarrow> devin_provenance option \<Rightarrow> dispatch_rejection option" where
  "devin_check env t a og prov =
     (if provider a \<noteq> ''devin'' then None
      else case prov of
        None \<Rightarrow> Some Unverified_provenance
      | Some d \<Rightarrow>
          if dp_accountId d \<noteq> Some (acc_id a) \<or> dp_credentialSha256 d \<noteq> sv_credentialSha env a \<or> dp_url d \<noteq> og_url og
              \<or> dp_method d \<noteq> og_method og \<or> dp_bodySha256 d \<noteq> og_bodySha256 og
          then Some Unverified_provenance
          else case dp_kind d of
            Inference m \<Rightarrow>
              if is_synthetic og \<or> og_contentType og \<noteq> Some ''application/connect+proto'' \<or> m \<noteq> upstreamModel t
              then Some Provenance_changed else None
          | Synthetic s \<Rightarrow>
              if \<not> is_synthetic og \<or> Some (int_text s) \<noteq> og_syntheticStatus og
                  \<or> (s < 400 \<and> \<not> (sv_path env = COUNT_TOKENS_PATH \<and> Some (og_url og) = localTokenCountUrl ''devin''))
              then Some Unexpected_devin_response else None)"

definition local_kind ::
  "send_env \<Rightarrow> account \<Rightarrow> outgoing \<Rightarrow> devin_provenance option \<Rightarrow> dispatch_rejection + attempt_kind" where
  "local_kind env a og prov =
     (if \<not> (provider a = ''devin'' \<and> (case prov of None \<Rightarrow> False | Some d \<Rightarrow> (case dp_kind d of Synthetic s \<Rightarrow> s \<ge> 400 | _ \<Rightarrow> False)))
         \<and> (sv_path env \<noteq> COUNT_TOKENS_PATH \<or> \<not> supportsLocalTokenCounting (provider a) (custom_endpoint a)
            \<or> Some (og_url og) \<noteq> localTokenCountUrl (provider a))
      then Inl Unexpected_local_response
      else Inr (if og_syntheticStatus og = Some ''200'' then Local_success else Local_reject))"

definition outgoing_model ::
  "authorized_target \<Rightarrow> account \<Rightarrow> outgoing \<Rightarrow> devin_provenance option \<Rightarrow> dispatch_rejection + string" where
  "outgoing_model t a og prov =
     (case (if provider a = ''devin'' then map_option dp_kind prov else None) of
        Some (Inference m) \<Rightarrow> Inr m
      | _ \<Rightarrow> map_sum Route_policy id (enforceOutgoingModel (og_body og) (upstreamModel t)))"

definition no_adaptation :: adaptation where
  "no_adaptation = \<lparr>ad_requested = None, ad_effective = None, ad_reason = None\<rparr>"

definition adaptation_of :: "adaptation option \<Rightarrow> adaptation" where
  "adaptation_of x = (case x of None \<Rightarrow> no_adaptation | Some y \<Rightarrow> y)"

definition new_attempt :: "send_env \<Rightarrow> route \<Rightarrow> authorized_target \<Rightarrow> account \<Rightarrow> outgoing \<Rightarrow> string \<Rightarrow> int \<Rightarrow> attempt_row" where
  "new_attempt env r t a og i now =
     \<lparr>at_id = i, at_request = sv_request env, at_rule = route_ruleId r, at_account = Some (acc_id a), at_provider = Some (provider a),
      at_requested = route_requestedModel r, at_resolved = Some (upstreamModel t), at_outgoing = None, at_reported = None,
      at_kind = Local_reject, at_started = now, at_finished = None, at_status = None, at_error = None,
      at_effort = adaptation_of (og_effort og), at_tier = adaptation_of (og_tier og), at_ignored = None\<rparr>"

text \<open>The attempt as it is recorded, or why it is not sent.\<close>

definition prepare_attempt ::
  "send_env \<Rightarrow> route \<Rightarrow> authorized_target \<Rightarrow> account \<Rightarrow> outgoing \<Rightarrow> devin_provenance option \<Rightarrow> bool \<Rightarrow> attempt_row
    \<Rightarrow> dispatch_error + attempt_row" where
  "prepare_attempt env r t a og prov viaBridge row =
     (case chat_check env a viaBridge of Some e \<Rightarrow> Inl (Policy e) | None \<Rightarrow>
      if \<not> viaBridge \<and> isOfficialAnthropicProvider (provider a) \<and> \<not> sv_direct env then Inl (Policy Only_through_bridge)
      else case destination_check env r t a of Some e \<Rightarrow> Inl e | None \<Rightarrow>
      (case devin_check env t a og prov of Some e \<Rightarrow> Inl (Policy e) | None \<Rightarrow>
      if is_synthetic og \<and> viaBridge then Inl (Policy Unexpected_local_response)
      else if is_synthetic og then map_sum Policy (\<lambda>k. row\<lparr>at_kind := k\<rparr>) (local_kind env a og prov)
      else map_sum Policy (\<lambda>m. row\<lparr>at_outgoing := Some m, at_kind := Upstream_send,
             at_ignored := (case sv_chat env of None \<Rightarrow> None | Some fs \<Rightarrow> (case chatFieldCapability (provider a) viaBridge of
               None \<Rightarrow> None | Some cap \<Rightarrow> (let ignored = ignoredChatFields cap fs in if ignored = [] then None else Some ignored)))\<rparr>)
           (outgoing_model t a og prov)))"

subsection \<open>The send\<close>

datatype dispatch_effect =
    Insert_row attempt_row
  | Write_row string attempt_write
  | Inner_send string
  | Quota_begun string
  | Quota_ended string
  | Bridge_noted
  | Sent bool outgoing
  | Dispatch_noted string string
  | Settle_noted string
  | Tier_served string
  | Model_suppression string string string int
  | Permissions_refresh string

record attempt_audit =
  audit_id :: "string option"
  audit_judged :: "string option"

record dispatched =
  effects :: "dispatch_effect list"
  audited :: "attempt_audit option"
  attemptRecorded :: bool
  result :: "dispatch_error + int"
  observed_row :: "attempt_row option"

definition ok_status :: "int \<Rightarrow> bool" where
  "ok_status s \<longleftrightarrow> 200 \<le> s \<and> s \<le> 299"

definition quota_use :: "account \<Rightarrow> attempt_row \<Rightarrow> bool" where
  "quota_use a row \<longleftrightarrow> at_kind row = Upstream_send \<and> provider a = ANTHROPIC \<and> \<not> nonempty (custom_endpoint a)"

definition served_tier :: "attempt_row \<Rightarrow> string" where
  "served_tier row = (if ad_effective (at_tier row) = Some ''priority'' then ''priority'' else ''standard'')"

definition failed_send ::
  "send_env \<Rightarrow> wire \<Rightarrow> int \<Rightarrow> attempt_audit option \<Rightarrow> dispatch_effect list \<Rightarrow> dispatch_effect list \<Rightarrow> bool \<Rightarrow> attempt_row \<Rightarrow> int option
    \<Rightarrow> dispatch_error \<Rightarrow> dispatched" where
  "failed_send env w now audit done endQuota recorded row head e =
     (let answered = (case head of None \<Rightarrow> None | Some h \<Rightarrow> if ok_status h then None else Some h);
          status = failure_status answered e; err = failure_error (sv_messageOf env) answered e;
          write = (if recorded then Write_row (at_id row) (Finish now status (Some err) None)
                   else Insert_row (row\<lparr>at_finished := Some now, at_status := Some status, at_error := Some err\<rparr>));
          audit' = (if wi_rerecorded w
            then map_option (\<lambda>x. x\<lparr>audit_id := Some (at_id row), audit_judged := (if answered = None then audit_judged x else Some (at_id row))\<rparr>) audit
            else audit)
      in \<lparr>effects = done @ Settle_noted (at_id row) # endQuota @ (if wi_rerecorded w then [write] else []), audited = audit',
          attemptRecorded = ((case e of Policy _ \<Rightarrow> True | _ \<Rightarrow> False) \<and> Option.bind audit' audit_id \<noteq> None),
          result = Inl e, observed_row = None\<rparr>)"

definition begun_quota :: "account \<Rightarrow> attempt_row \<Rightarrow> dispatch_effect list" where
  "begun_quota a row = (if quota_use a row then [Quota_begun (acc_id a)] else [])"

definition ended_quota :: "account \<Rightarrow> attempt_row \<Rightarrow> dispatch_effect list" where
  "ended_quota a row = (if quota_use a row then [Quota_ended (acc_id a)] else [])"

definition wire_effects :: "wire \<Rightarrow> account \<Rightarrow> outgoing \<Rightarrow> bool \<Rightarrow> attempt_row \<Rightarrow> dispatch_effect list" where
  "wire_effects w a og viaBridge row =
     (if viaBridge then [Bridge_noted, Sent True og]
      else if is_synthetic og then []
      else (if wi_dispatched w then [Tier_served (served_tier row), Dispatch_noted (at_id row) (acc_id a)] else []) @ [Sent False og])"

definition settled_note :: "attempt_row \<Rightarrow> int \<Rightarrow> dispatch_effect list" where
  "settled_note row status = (if ok_status status then [] else [Settle_noted (at_id row)])"

definition send_recorded ::
  "send_env \<Rightarrow> wire \<Rightarrow> int \<Rightarrow> attempt_audit option \<Rightarrow> account \<Rightarrow> outgoing \<Rightarrow> bool \<Rightarrow> attempt_row \<Rightarrow> dispatched" where
  "send_recorded env w now audit0 a og viaBridge row =
     (let audit = map_option (\<lambda>x. x\<lparr>audit_id := Some (at_id row)\<rparr>) audit0;
          sent = Insert_row row # Inner_send (acc_id a) # begun_quota a row @ wire_effects w a og viaBridge row
      in case wi_head w of
        Inl e \<Rightarrow> failed_send env w now audit sent (ended_quota a row) True row None e
      | Inr h \<Rightarrow>
          let answered = sent @ (if viaBridge \<and> ok_status h then [Tier_served (served_tier row)] else []) @ settled_note row h
          in case (case wi_prepare w of None \<Rightarrow> Inr h | Some p \<Rightarrow> p) of
            Inl e \<Rightarrow> failed_send env w now audit answered (ended_quota a row) True row (Some h) e
          | Inr status \<Rightarrow>
              let settled = answered @ settled_note row status in
              if at_kind row \<noteq> Upstream_send
              then \<lparr>effects = settled @ [Write_row (at_id row) (Finish now status
                      (if ok_status status then None
                       else Some (if sv_path env = COUNT_TOKENS_PATH then Local_count_rejected status else Local_response_rejected status)) None)],
                    audited = audit, attemptRecorded = False, result = Inr status, observed_row = None\<rparr>
              else \<lparr>effects = settled, audited = audit, attemptRecorded = False, result = Inr status, observed_row = Some row\<rparr>)"

definition sendAuthorizedRequest ::
  "send_env \<Rightarrow> route option \<Rightarrow> account \<Rightarrow> outgoing \<Rightarrow> devin_provenance option \<Rightarrow> bool \<Rightarrow> attempt_audit option \<Rightarrow> wire \<Rightarrow> string
    \<Rightarrow> (nat \<Rightarrow> int) \<Rightarrow> dispatched" where
  "sendAuthorizedRequest env resolved a og prov viaBridge audit w i clock =
     (case (getAttemptTarget (sv_scopeOf env) resolved a, resolved) of
        (Inr t, Some r) \<Rightarrow>
          (let row = new_attempt env r t a og i (clock 0) in
           case prepare_attempt env r t a og prov viaBridge row of
             Inl e \<Rightarrow> failed_send env w (clock 1) audit [] [] False row None e
           | Inr row' \<Rightarrow>
               if \<not> wi_recorded w then failed_send env w (clock 1) audit [] [] False row' None (Failed ''database'')
               else send_recorded env w (clock 1) audit a og viaBridge row')
      | (Inl e, _) \<Rightarrow> \<lparr>effects = [], audited = audit, attemptRecorded = False, result = Inl (Policy (Route_policy e)), observed_row = None\<rparr>
      | _ \<Rightarrow> \<lparr>effects = [], audited = audit, attemptRecorded = False, result = Inl (Policy (Route_policy No_resolved_route)), observed_row = None\<rparr>)"

subsection \<open>The end of the body\<close>

record observation =
  ob_reportedModel :: "string option"
  ob_devinModel :: "string option"
  ob_error :: "attempt_error option"
  ob_modelRejected :: bool

definition MODEL_REJECTION_SUPPRESSION_MS :: int where "MODEL_REJECTION_SUPPRESSION_MS = 300000"

definition observe_body ::
  "account \<Rightarrow> authorized_target \<Rightarrow> bool \<Rightarrow> attempt_row \<Rightarrow> int \<Rightarrow> int \<Rightarrow> observation \<Rightarrow> dispatch_effect list" where
  "observe_body a t viaBridge row status now ob =
     (if viaBridge
      then ended_quota a row @ [Write_row (at_id row) (Finish now status
             (coalesce (ob_error ob) (if ok_status status then None else Some (Bridge_http status))) (ob_reportedModel ob))]
      else Settle_noted (at_id row) # ended_quota a row
        @ (if ob_modelRejected ob
           then [Model_suppression (acc_id a) (target_scope t) (upstreamModel t) (now + MODEL_REJECTION_SUPPRESSION_MS),
                 Permissions_refresh (acc_id a)] else [])
        @ [Write_row (at_id row) (Finish now status
             (coalesce (ob_error ob) (if ob_modelRejected ob then Some Upstream_model_rejected
                else if ok_status status then None else Some (Upstream_http status)))
             (if provider a = ''devin'' then ob_devinModel ob else ob_reportedModel ob))])"

subsection \<open>Rejections before a send\<close>

definition local_row :: "send_env \<Rightarrow> string \<Rightarrow> int \<Rightarrow> attempt_row" where
  "local_row env i now =
     \<lparr>at_id = i, at_request = sv_request env, at_rule = None, at_account = None, at_provider = None, at_requested = [],
      at_resolved = None, at_outgoing = None, at_reported = None, at_kind = Local_reject, at_started = now, at_finished = Some now,
      at_status = None, at_error = None, at_effort = no_adaptation, at_tier = no_adaptation, at_ignored = None\<rparr>"

definition recordLocalRoutingOutcome ::
  "send_env \<Rightarrow> route option \<Rightarrow> account \<Rightarrow> attempt_audit \<Rightarrow> string \<Rightarrow> int \<Rightarrow> attempt_error \<Rightarrow> int option \<Rightarrow> string option
    \<Rightarrow> routing_policy_error + (dispatch_effect list \<times> attempt_audit)" where
  "recordLocalRoutingOutcome env resolved a audit i now err status reportedModel =
     (if nonempty (audit_id audit)
      then Inr ([Settle_noted (the (audit_id audit)), Write_row (the (audit_id audit)) (Annotate err status reportedModel)], audit)
      else case resolved of
        None \<Rightarrow> Inl No_resolved_route
      | Some r \<Rightarrow> Inr ([Insert_row ((local_row env i now)\<lparr>at_rule := route_ruleId r, at_account := Some (acc_id a), at_provider := Some (provider a),
            at_requested := route_requestedModel r, at_resolved := map_option upstreamModel (route_target (sv_scopeOf env) r a),
            at_status := status, at_error := Some err\<rparr>)], audit\<lparr>audit_id := Some i\<rparr>))"

definition recordRouteRejection ::
  "send_env \<Rightarrow> string option \<Rightarrow> string option \<Rightarrow> route option \<Rightarrow> routing_policy_error \<Rightarrow> string \<Rightarrow> string \<Rightarrow> int \<Rightarrow> dispatch_effect list" where
  "recordRouteRejection env requestedModel errorRule only e message i now =
     [Insert_row ((local_row env i now)\<lparr>at_rule := (case only of Some r \<Rightarrow> coalesce (route_ruleId r) errorRule | None \<Rightarrow> errorRule),
        at_requested := (case requestedModel of None \<Rightarrow> [] | Some m \<Rightarrow> m), at_status := statusCode e, at_error := Some (Error_text message)\<rparr>)]"

subsection \<open>Lemmas\<close>

lemma prepared:
  assumes "prepare_attempt env r t a og prov viaBridge row = Inr row'"
  shows "chat_check env a viaBridge = None" and "\<not> viaBridge \<Longrightarrow> isOfficialAnthropicProvider (provider a) \<Longrightarrow> sv_direct env"
    and "destination_check env r t a = None" and "devin_check env t a og prov = None"
    and "is_synthetic og \<Longrightarrow> \<not> viaBridge \<and> (\<exists>k. local_kind env a og prov = Inr k \<and> row' = row\<lparr>at_kind := k\<rparr> \<and> k \<noteq> Upstream_send)"
    and "\<not> is_synthetic og \<Longrightarrow> \<exists>m ignored. outgoing_model t a og prov = Inr m
      \<and> row' = row\<lparr>at_outgoing := Some m, at_kind := Upstream_send, at_ignored := ignored\<rparr>"
  using assms
  by (auto simp: prepare_attempt_def local_kind_def map_sum_Inr split: option.splits if_splits)

lemma attempt_cases:
  obtains (unauthorized) e where "getAttemptTarget (sv_scopeOf env) resolved a = Inl e"
      "sendAuthorizedRequest env resolved a og prov viaBridge audit w i clock
        = \<lparr>effects = [], audited = audit, attemptRecorded = False, result = Inl (Policy (Route_policy e)), observed_row = None\<rparr>"
    | (rejected) r t row e where "resolved = Some r" "route_target (sv_scopeOf env) r a = Some t"
      "row = new_attempt env r t a og i (clock 0) \<or> prepare_attempt env r t a og prov viaBridge (new_attempt env r t a og i (clock 0)) = Inr row"
      "sendAuthorizedRequest env resolved a og prov viaBridge audit w i clock = failed_send env w (clock 1) audit [] [] False row None e"
    | (recorded) r t row where "resolved = Some r" "route_target (sv_scopeOf env) r a = Some t"
      "prepare_attempt env r t a og prov viaBridge (new_attempt env r t a og i (clock 0)) = Inr row"
      "sendAuthorizedRequest env resolved a og prov viaBridge audit w i clock = send_recorded env w (clock 1) audit a og viaBridge row"
proof (cases "getAttemptTarget (sv_scopeOf env) resolved a")
  case (Inl e)
  then show thesis by (intro unauthorized) (simp_all add: sendAuthorizedRequest_def)
next
  case (Inr t)
  then obtain r where r: "resolved = Some r" "route_target (sv_scopeOf env) r a = Some t"
    by (auto simp: getAttemptTarget_def split: option.splits)
  show thesis
  proof (cases "prepare_attempt env r t a og prov viaBridge (new_attempt env r t a og i (clock 0))")
    case (Inl e)
    with r Inr show thesis by (intro rejected) (auto simp: sendAuthorizedRequest_def Let_def)
  next
    case (Inr row)
    show thesis
    proof (cases "wi_recorded w")
      case True
      with r Inr \<open>getAttemptTarget (sv_scopeOf env) resolved a = Inr t\<close> show thesis
        by (intro recorded) (auto simp: sendAuthorizedRequest_def Let_def)
    next
      case False
      with r Inr \<open>getAttemptTarget (sv_scopeOf env) resolved a = Inr t\<close> show thesis
        by (intro rejected) (auto simp: sendAuthorizedRequest_def Let_def)
    qed
  qed
qed

lemma sent_recorded:
  assumes "Sent b x \<in> set (effects (send_recorded env w now audit a og viaBridge row))"
  shows "b = viaBridge \<and> x = og \<and> (viaBridge \<or> \<not> is_synthetic og)
    \<and> (\<exists>rest. effects (send_recorded env w now audit a og viaBridge row) = Insert_row row # rest \<and> Sent b x \<in> set rest)"
proof -
  have "\<exists>rest. effects (send_recorded env w now audit a og viaBridge row) = Insert_row row # rest"
    by (auto simp: send_recorded_def failed_send_def Let_def split: sum.split option.split)
  then obtain rest where rest: "effects (send_recorded env w now audit a og viaBridge row) = Insert_row row # rest" ..
  with assms have "Sent b x \<in> set rest" by simp
  moreover have "b = viaBridge \<and> x = og \<and> (viaBridge \<or> \<not> is_synthetic og)"
    using assms by (auto simp: send_recorded_def failed_send_def begun_quota_def ended_quota_def wire_effects_def settled_note_def Let_def split: sum.splits option.splits if_splits)
  ultimately show ?thesis using rest by blast
qed

lemma not_sent_failed: "Sent b x \<notin> set (effects (failed_send env w now audit [] [] False row None e))"
  by (simp add: failed_send_def Let_def)

lemma destination_checked:
  assumes "destination_check env r t a = None"
  obtains current where "sv_row env (acc_id a) = Inr (Some current)" and "\<not> disabled current"
    and "route_target (sv_scopeOf env) r current \<noteq> None"
    and "route_maintenance r = None \<Longrightarrow> \<not> isModelExcludedForRequest (sv_excluded env) (acc_id a) (upstreamModel t)
      \<and> \<not> isModelSuppressedFor (sv_suppression env) current (target_scope t) (upstreamModel t)
      \<and> (\<exists>p. sv_permissions env current = Permissions p \<and> permits (sv_scopeOf env) r current (Some (permission_set.truncate p)))"
  using assms by (auto simp: destination_check_def split: sum.splits option.splits if_splits permission_answer.splits)

lemma outgoing_checked:
  assumes "outgoing_model t a og prov = Inr m" and "devin_check env t a og prov = None"
  shows "m = upstreamModel t \<and> ((\<exists>fs. og_body og = Some (Obj fs) \<and> field fs ''model'' = Str m \<and> \<not> overrides_model fs)
    \<or> (provider a = ''devin'' \<and> (\<exists>d. prov = Some d \<and> dp_kind d = Inference m \<and> dp_accountId d = Some (acc_id a)
         \<and> dp_url d = og_url og \<and> dp_bodySha256 d = og_bodySha256 og)))"
proof (cases "provider a = ''devin'' \<and> (\<exists>d m. prov = Some d \<and> dp_kind d = Inference m)")
  case True
  with assms show ?thesis by (auto simp: outgoing_model_def devin_check_def split: if_splits)
next
  case False
  with assms(1) have "enforceOutgoingModel (og_body og) (upstreamModel t) = Inr m"
    by (auto simp: outgoing_model_def map_sum_Inr split: option.splits if_splits devin_kind.splits)
  then show ?thesis by (auto simp: enforced_body)
qed

text \<open>
  C4. The last gate before the wire. Whenever a request is sent, through the bridge or directly, the account is a target
  of the frozen route, its row as it is now is enabled and still has the identity the route authorized, and, outside
  maintenance, its permissions as they are now include the model, which is neither excluded for the request nor
  suppressed; an official Anthropic account is reached directly only by a client that may; every Chat field is one the
  destination does not refuse; the body names the authorized model and cannot override it, or is a Devin body attested
  for it; and an open row with that model was inserted before the send.
\<close>

theorem send_is_authorized:
  assumes "Sent b body \<in> set (effects (sendAuthorizedRequest env resolved a og prov viaBridge audit w i clock))"
  shows "\<exists>r t current. resolved = Some r \<and> route_target (sv_scopeOf env) r a = Some t \<and> b = viaBridge \<and> body = og
    \<and> sv_row env (acc_id a) = Inr (Some current) \<and> \<not> disabled current \<and> route_target (sv_scopeOf env) r current \<noteq> None
    \<and> (route_maintenance r = None \<longrightarrow> \<not> isModelExcludedForRequest (sv_excluded env) (acc_id a) (upstreamModel t)
        \<and> \<not> isModelSuppressedFor (sv_suppression env) current (target_scope t) (upstreamModel t)
        \<and> (\<exists>p. sv_permissions env current = Permissions p \<and> permits (sv_scopeOf env) r current (Some (permission_set.truncate p))))
    \<and> (isOfficialAnthropicProvider (provider a) \<longrightarrow> viaBridge \<or> sv_direct env)
    \<and> (\<forall>fs. sv_chat env = Some fs \<longrightarrow>
        (\<exists>cap. chatFieldCapability (provider a) viaBridge = Some cap \<and> (\<forall>f \<in> set fs. cap f \<noteq> Refused)))
    \<and> ((\<exists>fs. og_body og = Some (Obj fs) \<and> field fs ''model'' = Str (upstreamModel t) \<and> \<not> overrides_model fs)
        \<or> (provider a = ''devin'' \<and> (\<exists>d. prov = Some d \<and> dp_kind d = Inference (upstreamModel t) \<and> dp_accountId d = Some (acc_id a)
             \<and> dp_url d = og_url og \<and> dp_bodySha256 d = og_bodySha256 og)))
    \<and> (\<exists>row rest. effects (sendAuthorizedRequest env resolved a og prov viaBridge audit w i clock) = Insert_row row # rest
        \<and> Sent b body \<in> set rest \<and> open_row row \<and> at_id row = i \<and> at_account row = Some (acc_id a)
        \<and> at_resolved row = Some (upstreamModel t) \<and> at_outgoing row = Some (upstreamModel t))"
proof (rule attempt_cases [of env resolved a og prov viaBridge audit w i clock])
  fix r t row
  assume r: "resolved = Some r" "route_target (sv_scopeOf env) r a = Some t"
    and row: "prepare_attempt env r t a og prov viaBridge (new_attempt env r t a og i (clock 0)) = Inr row"
    and run: "sendAuthorizedRequest env resolved a og prov viaBridge audit w i clock = send_recorded env w (clock 1) audit a og viaBridge row"
  note sent = sent_recorded [OF assms [unfolded run]]
  from sent prepared(5) [OF row] have network: "\<not> is_synthetic og" by blast
  from prepared(6) [OF row network] obtain m ignored where m: "outgoing_model t a og prov = Inr m"
    and row': "row = (new_attempt env r t a og i (clock 0))\<lparr>at_outgoing := Some m, at_kind := Upstream_send, at_ignored := ignored\<rparr>" by blast
  note model = outgoing_checked [OF m prepared(4) [OF row]]
  have open': "open_row row" "at_id row = i" "at_account row = Some (acc_id a)" "at_resolved row = Some (upstreamModel t)"
    "at_outgoing row = Some (upstreamModel t)"
    using model by (simp_all add: row' new_attempt_def open_row_def)
  have chat: "\<exists>cap. chatFieldCapability (provider a) viaBridge = Some cap \<and> (\<forall>f \<in> set fs. cap f \<noteq> Refused)" if "sv_chat env = Some fs" for fs
    using prepared(1) [OF row] that by (auto simp: chat_check_def refusedChatField_def find_None_iff split: option.splits if_splits)
  obtain current where "sv_row env (acc_id a) = Inr (Some current)" "\<not> disabled current" "route_target (sv_scopeOf env) r current \<noteq> None"
    "route_maintenance r = None \<Longrightarrow> \<not> isModelExcludedForRequest (sv_excluded env) (acc_id a) (upstreamModel t)
      \<and> \<not> isModelSuppressedFor (sv_suppression env) current (target_scope t) (upstreamModel t)
      \<and> (\<exists>p. sv_permissions env current = Permissions p \<and> permits (sv_scopeOf env) r current (Some (permission_set.truncate p)))"
    (is "_ \<Longrightarrow> ?permitted")
    using destination_checked [OF prepared(3) [OF row]] by metis
  moreover have "\<exists>row' rest. effects (send_recorded env w (clock 1) audit a og viaBridge row) = Insert_row row' # rest
      \<and> Sent b body \<in> set rest \<and> open_row row' \<and> at_id row' = i \<and> at_account row' = Some (acc_id a)
      \<and> at_resolved row' = Some (upstreamModel t) \<and> at_outgoing row' = Some (upstreamModel t)"
    using sent open' by blast
  moreover have "isOfficialAnthropicProvider (provider a) \<longrightarrow> viaBridge \<or> sv_direct env" using prepared(2) [OF row] by blast
  moreover have "b = viaBridge" "body = og" using sent by blast+
  moreover note r chat model [THEN conjunct2, unfolded model [THEN conjunct1]]
  ultimately show ?thesis unfolding run by (intro exI [of _ r] exI [of _ t] exI [of _ current] conjI allI impI) simp_all
qed (use assms not_sent_failed in auto)

subsection \<open>The end of an attempt\<close>

definition apply_effect :: "attempt_row list \<Rightarrow> dispatch_effect \<Rightarrow> attempt_row list" where
  "apply_effect rows e = (case e of
     Insert_row row \<Rightarrow> (case recordAttempt row rows of None \<Rightarrow> rows | Some rows' \<Rightarrow> rows')
   | Write_row i w \<Rightarrow> table_write rows (i, w)
   | _ \<Rightarrow> rows)"

text \<open>An attempt with the end of its body, when there is one.\<close>

definition whole_attempt ::
  "send_env \<Rightarrow> route option \<Rightarrow> account \<Rightarrow> outgoing \<Rightarrow> devin_provenance option \<Rightarrow> bool \<Rightarrow> attempt_audit option \<Rightarrow> wire \<Rightarrow> string
    \<Rightarrow> (nat \<Rightarrow> int) \<Rightarrow> observation \<Rightarrow> dispatch_effect list" where
  "whole_attempt env resolved a og prov viaBridge audit w i clock ob =
     (let s = sendAuthorizedRequest env resolved a og prov viaBridge audit w i clock in
      effects s @ (case (observed_row s, result s, getAttemptTarget (sv_scopeOf env) resolved a) of
        (Some row, Inr status, Inr t) \<Rightarrow> observe_body a t viaBridge row status (clock 2) ob
      | _ \<Rightarrow> []))"

definition stored :: "attempt_row \<Rightarrow> attempt_row" where
  "stored row = row\<lparr>at_ignored := (if at_ignored row = Some [] then None else at_ignored row)\<rparr>"

lemma apply_insert: "\<forall>r \<in> set rows. at_id r \<noteq> at_id row \<Longrightarrow> apply_effect rows (Insert_row row) = rows @ [stored row]"
  by (auto simp: apply_effect_def recordAttempt_def stored_def list_ex_iff)

lemma apply_write:
  "\<forall>r \<in> set rows. at_id r \<noteq> at_id row \<Longrightarrow> apply_effect (rows @ [row]) (Write_row (at_id row) w) = rows @ [write_row row w]"
  by (simp add: apply_effect_def table_write_row map_idI)

lemma apply_others [simp]:
  "apply_effect rows (Inner_send x) = rows" "apply_effect rows (Quota_begun x) = rows" "apply_effect rows (Quota_ended x) = rows"
  "apply_effect rows Bridge_noted = rows" "apply_effect rows (Sent b og) = rows" "apply_effect rows (Dispatch_noted x y) = rows"
  "apply_effect rows (Settle_noted x) = rows" "apply_effect rows (Tier_served x) = rows"
  "apply_effect rows (Model_suppression x y z n) = rows" "apply_effect rows (Permissions_refresh x) = rows"
  by (simp_all add: apply_effect_def)

definition closed_row :: "string \<Rightarrow> attempt_row \<Rightarrow> bool" where
  "closed_row i row \<longleftrightarrow> at_id row = i \<and> at_finished row \<noteq> None \<and> at_status row \<noteq> None"

lemma stored_fields [simp]: "at_id (stored row) = at_id row" "not_client_closed (stored row) = not_client_closed row"
  "at_status (stored row) = at_status row" "at_error (stored row) = at_error row" "at_finished (stored row) = at_finished row"
  by (simp_all add: stored_def not_client_closed_def)

lemma prepared_row:
  assumes "prepare_attempt env r t a og prov viaBridge (new_attempt env r t a og i now) = Inr row"
  shows "at_id row = i \<and> at_error row = None"
  using prepared(5,6) [OF assms] by (cases "is_synthetic og") (auto simp: new_attempt_def)

lemma rejected_rows:
  assumes "\<forall>r \<in> set rows. at_id r \<noteq> at_id row" and "wi_rerecorded w"
  shows "\<exists>row'. foldl apply_effect rows (effects (failed_send env w now audit [] [] False row None e)) = rows @ [row'] \<and> closed_row (at_id row) row'"
proof -
  let ?row = "row\<lparr>at_finished := Some now, at_status := Some (failure_status None e),
    at_error := Some (failure_error (sv_messageOf env) None e)\<rparr>"
  have "foldl apply_effect rows (effects (failed_send env w now audit [] [] False row None e)) = apply_effect rows (Insert_row ?row)"
    using assms(2) by (simp add: failed_send_def Let_def)
  also have "\<dots> = rows @ [stored ?row]" using assms(1) by (intro apply_insert) simp
  finally show ?thesis by (simp add: closed_row_def)
qed

text \<open>The effects of a recorded attempt up to its last write: the insertion, then nothing that touches the table.\<close>

definition quiet :: "dispatch_effect \<Rightarrow> bool" where
  "quiet e \<longleftrightarrow> (case e of Insert_row _ \<Rightarrow> False | Write_row _ _ \<Rightarrow> False | _ \<Rightarrow> True)"

lemma quiet_fold: "list_all quiet es \<Longrightarrow> foldl apply_effect rows es = rows"
  by (induction es) (auto simp: quiet_def apply_effect_def split: dispatch_effect.splits)

lemma one_write:
  assumes "\<forall>r \<in> set rows. at_id r \<noteq> at_id row" and "es = Insert_row row # before @ Write_row (at_id row) (Finish now status err reported) # after"
    and "list_all quiet (before @ after)" and "at_error row = None"
  shows "\<exists>row'. foldl apply_effect rows es = rows @ [row'] \<and> closed_row (at_id row) row' \<and> at_status row' = Some status"
proof -
  have "foldl apply_effect rows es = apply_effect (rows @ [stored row]) (Write_row (at_id (stored row)) (Finish now status err reported))"
    using assms(1-3) by (simp add: apply_insert quiet_fold)
  also have "\<dots> = rows @ [write_row (stored row) (Finish now status err reported)]"
    using assms(1) by (intro apply_write) simp
  finally show ?thesis using assms(4) by (simp add: closed_row_def not_client_closed_def)
qed

text \<open>A list of effects of a recorded attempt: quiet, with the quota uses it begins and ends.\<close>

definition quiet_quota :: "int \<Rightarrow> string \<Rightarrow> dispatch_effect list \<Rightarrow> bool" where
  "quiet_quota n x es \<longleftrightarrow> list_all quiet es \<and> int (count_list es (Quota_begun x)) - int (count_list es (Quota_ended x)) = n"

lemma quiet_quota_append: "quiet_quota n x es \<Longrightarrow> quiet_quota k x fs \<Longrightarrow> quiet_quota (n + k) x (es @ fs)"
  by (simp add: quiet_quota_def)

definition quota_of :: "account \<Rightarrow> attempt_row \<Rightarrow> string \<Rightarrow> int" where
  "quota_of a row x = (if quota_use a row \<and> x = acc_id a then 1 else 0)"

lemma quiet_parts:
  "quiet_quota (quota_of a row x) x (begun_quota a row)" "quiet_quota (- quota_of a row x) x (ended_quota a row)"
  "quiet_quota 0 x (wire_effects w a og viaBridge row)" "quiet_quota 0 x (settled_note row status)"
  "quiet_quota 0 x (if P then [Tier_served tier] else [])" "quiet_quota 0 x [Settle_noted y]" "quiet_quota 0 x [Inner_send y]"
  "quiet_quota 0 x (if P then [Model_suppression y z m n, Permissions_refresh y] else [])"
  by (auto simp: quiet_quota_def quiet_def begun_quota_def ended_quota_def wire_effects_def settled_note_def quota_of_def)

text \<open>A whole attempt: an insertion, one last write of the row, and between them as many quota uses ended as begun.\<close>

definition ended_shape :: "string \<Rightarrow> attempt_row \<Rightarrow> int option \<Rightarrow> dispatch_effect list \<Rightarrow> bool" where
  "ended_shape x row returned es \<longleftrightarrow> (\<exists>before now status err reported.
     es = Insert_row row # before @ [Write_row (at_id row) (Finish now status err reported)] \<and> quiet_quota 0 x before
     \<and> (\<forall>st. returned = Some st \<longrightarrow> st = status))"

lemma ended_shapeI:
  "quiet_quota 0 x before \<Longrightarrow> returned = None \<or> returned = Some status
    \<Longrightarrow> ended_shape x row returned (Insert_row row # before @ [Write_row (at_id row) (Finish now status err reported)])"
  by (auto simp: ended_shape_def)

lemma observed_shape:
  obtains before err reported where "observe_body a t viaBridge row status now ob = before @ [Write_row (at_id row) (Finish now status err reported)]"
    and "quiet_quota (- quota_of a row x) x before"
proof (cases viaBridge)
  case True
  then show ?thesis by (intro that) (auto simp: observe_body_def intro: quiet_parts)
next
  case False
  let ?suppress = "if ob_modelRejected ob then [Model_suppression (acc_id a) (target_scope t) (upstreamModel t) (now + MODEL_REJECTION_SUPPRESSION_MS),
    Permissions_refresh (acc_id a)] else []"
  have "quiet_quota (0 + (- quota_of a row x + 0)) x ([Settle_noted (at_id row)] @ ended_quota a row @ ?suppress)"
    by (intro quiet_quota_append quiet_parts)
  then have "quiet_quota (- quota_of a row x) x ([Settle_noted (at_id row)] @ ended_quota a row @ ?suppress)" by simp
  from that [OF _ this] False show ?thesis by (simp add: observe_body_def)
qed

lemma recorded_shape:
  assumes "wi_rerecorded w"
  shows "ended_shape x row (case result (send_recorded env w now audit a og viaBridge row) of Inl _ \<Rightarrow> None | Inr st \<Rightarrow> Some st)
    (effects (send_recorded env w now audit a og viaBridge row)
      @ (case (observed_row (send_recorded env w now audit a og viaBridge row), result (send_recorded env w now audit a og viaBridge row), Inr t) of
          (Some row, Inr status, Inr t) \<Rightarrow> observe_body a t viaBridge row status later ob | _ \<Rightarrow> []))"
proof -
  let ?q = "quota_of a row x"
  let ?sent = "[Inner_send (acc_id a)] @ begun_quota a row @ wire_effects w a og viaBridge row"
  have sent: "quiet_quota ?q x ?sent" using quiet_quota_append [OF quiet_parts(7) quiet_quota_append [OF quiet_parts(1,3)]] by simp
  have fail: "quiet_quota 0 x (es @ [Settle_noted (at_id row)] @ ended_quota a row)" if "quiet_quota ?q x es" for es
    using quiet_quota_append [OF that quiet_quota_append [OF quiet_parts(6) [of x "at_id row"] quiet_parts(2) [of a row x]]] by simp
  show ?thesis
  proof (cases "wi_head w")
    case (Inl e)
    with assms show ?thesis using ended_shapeI [OF fail [OF sent], of None _ row]
      by (simp add: send_recorded_def failed_send_def Let_def)
  next
    case (Inr h)
    let ?answered = "?sent @ (if viaBridge \<and> ok_status h then [Tier_served (served_tier row)] else []) @ settled_note row h"
    have answered: "quiet_quota ?q x ?answered"
      using quiet_quota_append [OF sent quiet_quota_append [OF quiet_parts(5,4)]] by simp
    show ?thesis
    proof (cases "case wi_prepare w of None \<Rightarrow> Inr h | Some p \<Rightarrow> p")
      case (Inl e)
      with Inr assms show ?thesis using ended_shapeI [OF fail [OF answered], of None _ row]
        by (simp add: send_recorded_def failed_send_def Let_def)
    next
      case (Inr status)
      have settled: "quiet_quota ?q x (?answered @ settled_note row status)"
        using quiet_quota_append [OF answered quiet_parts(4)] by simp
      show ?thesis
      proof (cases "at_kind row = Upstream_send")
        case True
        obtain before err reported where ob: "observe_body a t viaBridge row status later ob = before @ [Write_row (at_id row) (Finish later status err reported)]"
          "quiet_quota (- ?q) x before" by (rule observed_shape)
        have "quiet_quota 0 x ((?answered @ settled_note row status) @ before)" using quiet_quota_append [OF settled ob(2)] by simp
        from ended_shapeI [OF this, of "Some status" status row later err reported] True Inr \<open>wi_head w = Inr h\<close> ob(1) show ?thesis
          by (simp add: send_recorded_def Let_def)
      next
        case False
        then have "?q = 0" by (simp add: quota_of_def quota_use_def)
        with settled have "quiet_quota 0 x (?answered @ settled_note row status)" by simp
        from ended_shapeI [OF this, of "Some status" status row now] False Inr \<open>wi_head w = Inr h\<close> show ?thesis
          by (simp add: send_recorded_def Let_def)
      qed
    qed
  qed
qed


subsection \<open>Examples\<close>

definition sample_send :: send_env where
  "sample_send = \<lparr>sv_request = ''q'', sv_path = ''/v1/messages'', sv_direct = True, sv_chat = None, sv_excluded = [],
     sv_row = (\<lambda>i. Inr (if i = ''a'' then Some (sample_account ''a'' 0) else None)),
     sv_permissions = (\<lambda>_. Permissions \<lparr>completeness = Known_complete, discovered_ids = [''claude-opus-4''], manual_ids = [],
       permission_scope = ''s'', model_variants = []\<rparr>),
     sv_suppression = (\<lambda>_ _ _. None), sv_scopeOf = (\<lambda>_. ''s''), sv_credentialSha = (\<lambda>_. ''c''), sv_messageOf = (\<lambda>_. ''rejected'')\<rparr>"

definition sample_outgoing :: outgoing where
  "sample_outgoing = \<lparr>og_url = ''https://api.anthropic.com/v1/messages'', og_origin = ''https://api.anthropic.com'', og_method = ''POST'',
     og_syntheticResponse = None, og_syntheticStatus = None, og_contentType = Some ''application/json'',
     og_body = Some (Obj [(''model'', Str ''claude-opus-4'')]), og_bodySha256 = ''d'', og_effort = None, og_tier = None\<rparr>"

definition sample_wire :: wire where
  "sample_wire = \<lparr>wi_recorded = True, wi_dispatched = True, wi_head = Inr 429, wi_prepare = None, wi_rerecorded = True\<rparr>"

lemma sent_body:
  assumes "Sent b x \<in> set (effects (sendAuthorizedRequest env resolved a og prov viaBridge audit w i clock))"
  shows "b = viaBridge \<and> x = og"
  by (rule attempt_cases [of env resolved a og prov viaBridge audit w i clock]) (use assms not_sent_failed sent_recorded in auto)

lemma sample_target:
  "route_target (\<lambda>_. ''s'') sample_route (sample_account ''a'' 0) = Some t \<Longrightarrow> upstreamModel t = ''claude-opus-4''"
proof -
  have "map_option upstreamModel (route_target (\<lambda>_. ''s'') sample_route (sample_account ''a'' 0)) = Some ''claude-opus-4''" by code_simp
  then show "route_target (\<lambda>_. ''s'') sample_route (sample_account ''a'' 0) = Some t \<Longrightarrow> upstreamModel t = ''claude-opus-4''" by simp
qed

fun is_send :: "dispatch_effect \<Rightarrow> bool" where
  "is_send (Sent _ _) \<longleftrightarrow> True"
| "is_send _ \<longleftrightarrow> False"

lemma is_sendE: "is_send e \<Longrightarrow> \<exists>b og. e = Sent b og"
  by (cases e) simp_all

abbreviation (input) sample_attempt :: dispatched where
  "sample_attempt \<equiv> sendAuthorizedRequest sample_send (Some sample_route) (sample_account ''a'' 0) sample_outgoing None False None sample_wire
     ''t1'' (\<lambda>n. 1000 + int n)"

theorem send_is_authorized_witness:
  "Sent False sample_outgoing \<in> set (effects sample_attempt)
    \<and> (\<exists>row rest. effects sample_attempt = Insert_row row # rest \<and> open_row row \<and> at_outgoing row = Some ''claude-opus-4'')"
proof
  have "list_ex is_send (effects sample_attempt)" by code_simp
  then show sent: "Sent False sample_outgoing \<in> set (effects sample_attempt)"
    by (auto simp: list_ex_iff dest!: is_sendE dest: sent_body)
  have "sv_scopeOf sample_send = (\<lambda>_. ''s'')" by (simp add: sample_send_def)
  then have model: "route_target (sv_scopeOf sample_send) sample_route (sample_account ''a'' 0) = Some t \<Longrightarrow> upstreamModel t = ''claude-opus-4''" for t
    by (simp add: sample_target)
  from send_is_authorized [OF sent] model
  show "\<exists>row rest. effects sample_attempt = Insert_row row # rest \<and> open_row row \<and> at_outgoing row = Some ''claude-opus-4''"
    by auto
qed

definition sample_observation :: observation where
  "sample_observation = \<lparr>ob_reportedModel = Some ''claude-opus-4'', ob_devinModel = None, ob_error = None, ob_modelRejected = False\<rparr>"


end
