(* ===== verification/AliasRouting.thy ===== *)
theory AliasRouting
  imports AccountSelection AttemptDispatch
begin

section \<open>Requests for a model alias\<close>

text \<open>
  \<^verbatim>\<open>proxy/src/model-alias-routing.ts\<close>: an alias names an ordered list of targets, and a request for it tries the
  accounts of one target after the other. Also here: the chokepoint of every attempt in \<^verbatim>\<open>proxy/src/proxy.ts\<close>,
  which takes the probe lease of an account and gives it back, and \<^verbatim>\<open>proxy/src/sdk-bridge-refusal.ts\<close>.
  The plan of the request is the model's \<open>request_routes\<close>; selection and gates are the model's own. What happens
  meanwhile (clocks, a client that leaves, caches, other requests, the answers of the attempts) is read through the
  record \<open>alias_world\<close>, by the position of the stage and of the account. An account the strategy rebinds is the
  one returned, and the attempts made are listed in \<open>ar_sent\<close>. The pool headroom, the staged cache body and the row
  of a terminal are left out.
  Shown: a later target is tried only after every attempt on the earlier ones failed in a way that may pass, a
  rejected target is audited exactly once where the request passes it, and a conversation goes back to the target
  that served it.
\<close>

subsection \<open>The target a conversation is held on\<close>

definition AFFINITY_TTL_MS :: int where "AFFINITY_TTL_MS = 60 * 60 * 1000"
definition MAX_AFFINITIES :: nat where "MAX_AFFINITIES = 5000"

text \<open>The five parts of the JSON text that is the key.\<close>

type_synonym alias_key = "string option \<times> affinity_scope \<times> string \<times> string \<times> int"

record held_target =
  held_targetIndex :: nat
  held_expires :: int

type_synonym alias_memo = "(alias_key, held_target) jsmap"

definition clearAliasAffinity :: "alias_memo \<Rightarrow> alias_memo" where
  "clearAliasAffinity m = []"

definition alias_affinityKey :: "request_meta \<Rightarrow> alias_evidence \<Rightarrow> alias_key option" where
  "alias_affinityKey meta al = (case (affinityKey meta, affinityScope meta) of
     (Some k, Some sc) \<Rightarrow>
       if k = [] \<or> sc = Project_scope then None else Some (affinityPartition meta, sc, k, alias_id al, alias_revision al)
   | _ \<Rightarrow> None)"

definition remember :: "alias_key option \<Rightarrow> nat \<Rightarrow> int \<Rightarrow> alias_memo \<Rightarrow> alias_memo" where
  "remember key targetIndex now m = (case key of
     None \<Rightarrow> m
   | Some k \<Rightarrow>
       (let live = jm_delete (filter (\<lambda>(_, h). \<not> held_expires h \<le> now) m) k;
            room = (if length live \<ge> MAX_AFFINITIES then tl live else live)
        in jm_set room k \<lparr>held_targetIndex = targetIndex, held_expires = now + AFFINITY_TTL_MS\<rparr>))"

subsection \<open>Outcomes of an attempt\<close>

datatype attempt_outcome =
    Retryable_429
  | Hard_429
  | Model_quota_exhausted
  | Auth_failed
  | Permission_denied
  | Overload_529
  | Overload_suppressed
  | Model_not_found
  | Model_route_restricted
  | Model_not_entitled
  | Model_substituted string
  | Server_error int
  | Network_error bool
  | Invalid_request
  | Bridge_outcome_unavailable
  | Bridge_outcome_extra_usage
  | Bridge_outcome_version_too_old
  | Other_outcome

fun aliasFallbackReason :: "attempt_outcome \<Rightarrow> string option" where
  "aliasFallbackReason Hard_429 = Some ''quota_exhausted''"
| "aliasFallbackReason Model_quota_exhausted = Some ''quota_exhausted''"
| "aliasFallbackReason Retryable_429 = Some ''rate_limited''"
| "aliasFallbackReason Overload_529 = Some ''provider_overloaded''"
| "aliasFallbackReason Overload_suppressed = Some ''provider_overloaded''"
| "aliasFallbackReason (Server_error _) = Some ''temporarily_unavailable''"
| "aliasFallbackReason Bridge_outcome_unavailable = Some ''temporarily_unavailable''"
| "aliasFallbackReason Bridge_outcome_extra_usage = Some ''extra_usage_exhausted''"
| "aliasFallbackReason Bridge_outcome_version_too_old = Some ''claude_code_version_too_old''"
| "aliasFallbackReason (Network_error beforeDispatch) = (if beforeDispatch then None else Some ''temporarily_unavailable'')"
| "aliasFallbackReason _ = None"

subsection \<open>Refusals of the bridge\<close>

record bridge_refusal =
  refusal_class_of :: refusal_class
  refusal_status :: int

record refusal_state =
  rejection :: bridge_refusal
  is_last :: bool

definition noteAttemptStarted :: "refusal_state option \<Rightarrow> refusal_state option" where
  "noteAttemptStarted st = map_option (\<lambda>s. s\<lparr>is_last := False\<rparr>) st"

definition noteSdkBridgeRefusal :: "bridge_refusal \<Rightarrow> refusal_state option \<Rightarrow> refusal_state option" where
  "noteSdkBridgeRefusal r st = Some \<lparr>rejection = r, is_last = True\<rparr>"

definition priorSdkBridgeRefusal :: "refusal_state option \<Rightarrow> bridge_refusal option" where
  "priorSdkBridgeRefusal st = map_option rejection st"

definition sdkBridgeRefusalTerminal :: "refusal_state option \<Rightarrow> bridge_refusal option" where
  "sdkBridgeRefusalTerminal st = (case st of None \<Rightarrow> None | Some s \<Rightarrow> if is_last s then Some (rejection s) else None)"

definition sdkBridgeRefusalLabel :: "bridge_refusal \<Rightarrow> string" where
  "sdkBridgeRefusalLabel r = (case refusal_class_of r of
     At_capacity \<Rightarrow> ''sdk_bridge_capacity''
   | Extra_usage \<Rightarrow> ''sdk_bridge_extra_usage''
   | Version_too_old \<Rightarrow> ''sdk_bridge_version_too_old''
   | Other_refusal \<Rightarrow> ''sdk_bridge_refused'')"

subsection \<open>The chokepoint of the attempts\<close>

definition isSdkBridgeAttempt :: "bool \<Rightarrow> account \<Rightarrow> bool" where
  "isSdkBridgeAttempt viaBridge a \<longleftrightarrow> viaBridge \<and> isOfficialAnthropicProvider (provider a)"

text \<open>The attempt runs on the gate as it is and leaves it as it is afterwards; \<open>None\<close> is a suppressed candidate.\<close>

definition attemptThroughProbeGate ::
  "bool \<Rightarrow> nat \<Rightarrow> account \<Rightarrow> int \<Rightarrow> bool \<Rightarrow> (gate_state \<Rightarrow> gate_state \<times> 'r) \<Rightarrow> gate_state \<Rightarrow> gate_state \<times> 'r option" where
  "attemptThroughProbeGate viaBridge request a now reprobe attempt g =
     (if isSdkBridgeAttempt viaBridge a then (case attempt g of (g', r) \<Rightarrow> (g', Some r))
      else case getRateLimitProbeAdmission a now reprobe g of
        (g1, Suppressed) \<Rightarrow> (g1, None)
      | (g1, Not_required) \<Rightarrow> (case attempt g1 of (g2, r) \<Rightarrow> (g2, Some r))
      | (g1, Probe_admitted lease) \<Rightarrow>
          (case attempt (holdRateLimitProbeLease request lease g1) of (g2, r) \<Rightarrow>
            (dropRateLimitProbeLease request (acc_id a) (completeRateLimitProbe (acc_id a) Probe_abandoned (Some lease) g2), Some r)))"

subsection \<open>What a request meets\<close>

datatype attempt_answer =
    Attempt_response int
  | Attempt_declined "attempt_outcome option" "bridge_refusal option"
  | Attempt_threw dispatch_error

record alias_world =
  aw_hash :: "string \<Rightarrow> string"
  aw_pausesOnOverage :: "account \<Rightarrow> bool"
  aw_accounts :: "account list"
  aw_request :: nat
  aw_path :: string
  aw_viaBridge :: bool
  aw_start :: int
  aw_aborted :: "nat \<Rightarrow> nat option \<Rightarrow> bool"
  aw_abortedEnd :: bool
  aw_ctx :: "nat \<Rightarrow> routing_context"
  aw_phase :: "nat \<Rightarrow> nat"
  aw_excluded :: "nat \<Rightarrow> request_exclusions"
  aw_now :: "nat \<Rightarrow> int"
  aw_clock :: "nat \<Rightarrow> int"
  aw_gates :: "nat \<Rightarrow> nat option \<Rightarrow> gate_env"
  aw_lists :: "nat \<Rightarrow> gate_lists"
  aw_times :: "nat \<Rightarrow> nat \<Rightarrow> int"
  aw_row :: "nat \<Rightarrow> nat \<Rightarrow> account \<Rightarrow> account"
  aw_at :: "nat \<Rightarrow> nat \<Rightarrow> int"
  aw_burst :: "nat \<Rightarrow> nat \<Rightarrow> bool"
  aw_probe :: "nat \<Rightarrow> nat \<Rightarrow> gate_state"
  aw_attempt :: "nat \<Rightarrow> nat \<Rightarrow> nat \<Rightarrow> routing_policy_error + bool \<Rightarrow> routing_policy_error + bool \<Rightarrow> gate_state \<Rightarrow> gate_state \<times> attempt_answer"

text \<open>An attempt that was made: where, for whom, and how it ended.\<close>

record alias_send =
  sent_position :: nat
  sent_stage :: nat
  sent_account :: account
  sent_answer :: attempt_answer

record alias_run =
  ar_routes :: request_routes
  ar_strategy :: strategy_state
  ar_meta :: request_meta
  ar_memo :: alias_memo
  ar_refusal :: "refusal_state option"
  ar_reason :: "string option"
  ar_unaudited :: "nat list"
  ar_audits :: "(nat \<times> string option) list"
  ar_unservable :: "(nat \<times> string option \<times> bool) option"
  ar_servable :: bool
  ar_attempts :: nat
  ar_oauth :: bool
  ar_sent :: "alias_send list"

datatype terminal_message = All_targets_unavailable | Target_failed_for_good | Context_capacity_exceeded

datatype alias_answer =
    Client_gone
  | Upstream_answer nat account int
  | Alias_error dispatch_error
  | Bridge_answer bridge_refusal
  | Terminal int terminal_message

definition session_of :: "strategy_state \<Rightarrow> session_state option" where
  "session_of st = (case st of Session_strategy s \<Rightarrow> Some s | Least_used_strategy _ \<Rightarrow> None)"

definition with_session :: "strategy_state \<Rightarrow> session_state option \<Rightarrow> strategy_state" where
  "with_session st s = (case s of None \<Rightarrow> st | Some x \<Rightarrow> Session_strategy x)"

definition stage_at :: "alias_run \<Rightarrow> nat \<Rightarrow> route" where
  "stage_at s i = route_objects (ar_routes s) ! i"

definition setAliasReason :: "nat \<Rightarrow> string option \<Rightarrow> request_routes \<Rightarrow> request_routes" where
  "setAliasReason i reason routes =
     routes\<lparr>route_objects := (route_objects routes)[i := (route_objects routes ! i)\<lparr>aliasReason := reason\<rparr>]\<rparr>"

subsection \<open>Auditing rejected targets\<close>

definition audit_stage :: "alias_run \<Rightarrow> nat \<Rightarrow> alias_run" where
  "audit_stage s i =
     (if admissionError (stage_at s i) = None \<or> i \<notin> set (ar_unaudited s) then s
      else s\<lparr>ar_unaudited := removeAll i (ar_unaudited s), ar_routes := setAliasReason i (ar_reason s) (ar_routes s),
             ar_audits := ar_audits s @ [(i, ar_reason s)]\<rparr>)"

definition auditRejected :: "nat list \<Rightarrow> alias_run \<Rightarrow> alias_run" where
  "auditRejected stages s = foldl audit_stage s stages"

subsection \<open>One target\<close>

definition oauthAccountIds :: "alias_world \<Rightarrow> string list" where
  "oauthAccountIds w = map acc_id (filter isOAuthAnthropicAccount (aw_accounts w))"

definition burstSuppressed :: "alias_world \<Rightarrow> nat \<Rightarrow> nat \<Rightarrow> alias_run \<Rightarrow> string \<Rightarrow> bool" where
  "burstSuppressed w k i s accountId \<longleftrightarrow> ar_oauth s \<and> accountId \<in> set (oauthAccountIds w) \<and> aw_burst w k i"

definition stage_env :: "alias_world \<Rightarrow> nat \<Rightarrow> nat option \<Rightarrow> alias_run \<Rightarrow> gate_env" where
  "stage_env w k i s = (aw_gates w k i)\<lparr>resolved_route := installed_route (ar_routes s), scope_of := cx_scopeOf (aw_ctx w k),
     isSyntheticProbeRequest := False\<rparr>"

text \<open>\<^verbatim>\<open>everyRemainingCandidateUnattemptable(rest, -1)\<close> looks at the whole list, as index 0 does behind one more element.\<close>

definition isLastAccountAttempt :: "alias_world \<Rightarrow> nat \<Rightarrow> nat \<Rightarrow> account \<Rightarrow> account list \<Rightarrow> alias_run \<Rightarrow> routing_policy_error + bool" where
  "isLastAccountAttempt w k i a rest s =
     everyRemainingCandidateUnattemptable (stage_env w k (Some i) s) (aw_at w k i) (a # filter (\<lambda>b. \<not> burstSuppressed w k i s (acc_id b)) rest) 0"

definition isLastAliasAttempt ::
  "alias_world \<Rightarrow> nat \<Rightarrow> nat \<Rightarrow> account \<Rightarrow> account list \<Rightarrow> nat list \<Rightarrow> alias_run \<Rightarrow> routing_policy_error + bool" where
  "isLastAliasAttempt w k i a rest later s = map_sum id
     (\<lambda>last. last \<and> list_all (\<lambda>j. list_all (burstSuppressed w k i s) (accountIds (stage_at s j)))
        (admissibleAliasStages (route_objects (ar_routes s)) later))
     (isLastAccountAttempt w k i a rest s)"

text \<open>The callback of the chokepoint; when the account has no target it throws before anything is sent.\<close>

definition begun_attempt :: "account \<Rightarrow> alias_run \<Rightarrow> alias_run" where
  "begun_attempt a s = s\<lparr>ar_attempts := ar_attempts s + 1, ar_oauth := (ar_oauth s \<or> isOAuthAnthropicAccount a)\<rparr>"

definition attempt_callback ::
  "alias_world \<Rightarrow> nat \<Rightarrow> nat \<Rightarrow> nat \<Rightarrow> account \<Rightarrow> account list \<Rightarrow> nat list \<Rightarrow> alias_run \<Rightarrow> gate_state
    \<Rightarrow> gate_state \<times> (alias_run \<times> attempt_answer)" where
  "attempt_callback w k i stage a rest later s0 g =
     (let s = begun_attempt a s0 in
      case getAttemptTarget (cx_scopeOf (aw_ctx w k)) (installed_route (ar_routes s)) a of
        Inl e \<Rightarrow> (g, s, Attempt_threw (Policy (Route_policy e)))
      | Inr _ \<Rightarrow>
          (case aw_attempt w k i (ar_attempts s - 1) (isLastAccountAttempt w k i a rest s) (isLastAliasAttempt w k i a rest later s) g of
             (g', answer) \<Rightarrow>
               (let started = noteAttemptStarted (ar_refusal s)
                in (g', s\<lparr>ar_refusal := (case answer of Attempt_declined _ (Some r) \<Rightarrow> noteSdkBridgeRefusal r started | _ \<Rightarrow> started),
                        ar_sent := ar_sent s @ [\<lparr>sent_position = k, sent_stage = stage, sent_account = a, sent_answer = answer\<rparr>]\<rparr>, answer))))"

definition run_attempt ::
  "alias_world \<Rightarrow> nat \<Rightarrow> nat \<Rightarrow> nat \<Rightarrow> account \<Rightarrow> account list \<Rightarrow> nat list \<Rightarrow> alias_run \<Rightarrow> (alias_run \<times> attempt_answer) option" where
  "run_attempt w k i stage a rest later s =
     snd (attemptThroughProbeGate (aw_viaBridge w) (aw_request w) a (aw_at w k i) False (attempt_callback w k i stage a rest later s)
       (aw_probe w k i))"

text \<open>A response is final; only a good one is remembered, and any other answers for the rejected targets as well.\<close>

definition served ::
  "alias_world \<Rightarrow> nat list \<Rightarrow> alias_key option \<Rightarrow> (string \<times> account) option \<Rightarrow> int \<Rightarrow> nat \<Rightarrow> account \<Rightarrow> int \<Rightarrow> alias_run \<Rightarrow> alias_run" where
  "served w ordered key follow now stage a status s =
     (if ok_status status
      then s\<lparr>ar_memo := (case route_alias (stage_at s stage) of None \<Rightarrow> ar_memo s | Some al \<Rightarrow> remember key (alias_targetIndex al) now (ar_memo s)),
             ar_strategy := with_session (ar_strategy s) (followServedAccount (aw_hash w) now follow a (ar_meta s) (session_of (ar_strategy s)))\<rparr>
      else auditRejected ordered s)"

fun try_accounts ::
  "alias_world \<Rightarrow> nat list \<Rightarrow> alias_key option \<Rightarrow> (string \<times> account) option \<Rightarrow> nat \<Rightarrow> nat \<Rightarrow> nat list \<Rightarrow> nat \<Rightarrow> account list \<Rightarrow> bool \<Rightarrow> string
    \<Rightarrow> alias_run \<Rightarrow> (alias_run \<times> alias_answer) + (alias_run \<times> bool \<times> string)" where
  "try_accounts w ordered key follow k stage later i [] mayAdvance stageReason s = Inr (s, mayAdvance, stageReason)"
| "try_accounts w ordered key follow k stage later i (a # rest) mayAdvance stageReason s =
     (if aw_aborted w k (Some i) then Inl (s, Client_gone)
      else if \<not> isAccountAvailable (aw_row w k i a) (aw_at w k i)
      then try_accounts w ordered key follow k stage later (i + 1) rest mayAdvance stageReason s
      else if burstSuppressed w k i s (acc_id a)
      then try_accounts w ordered key follow k stage later (i + 1) rest mayAdvance ''rate_limited'' s
      else case run_attempt w k i stage a rest later s of
        None \<Rightarrow> try_accounts w ordered key follow k stage later (i + 1) rest mayAdvance ''temporarily_unavailable'' s
      | Some (s', Attempt_threw e) \<Rightarrow> Inl (s', Alias_error e)
      | Some (s', Attempt_response status) \<Rightarrow>
          Inl (served w ordered key follow (aw_at w k i) stage a status s', Upstream_answer stage a status)
      | Some (s', Attempt_declined outcome _) \<Rightarrow>
          (case Option.bind outcome aliasFallbackReason of
             None \<Rightarrow> try_accounts w ordered key follow k stage later (i + 1) rest False stageReason s'
           | Some failure \<Rightarrow> try_accounts w ordered key follow k stage later (i + 1) rest mayAdvance failure s'))"

subsection \<open>The plan\<close>

definition fresh_lists :: "gate_lists \<Rightarrow> gate_lists" where
  "fresh_lists g = g\<lparr>contextExcludedAccounts := [], familyWeeklyExcludedAccounts := [], familyWeeklyPacedAccounts := [],
     softDemotionReasons := [], softDemotionHead := None, livenessHeldAtEveryTier := []\<rparr>"

definition note_candidates :: "account list \<Rightarrow> request_meta \<Rightarrow> request_meta" where
  "note_candidates accounts meta = meta\<lparr>routing := map_option (\<lambda>r. r\<lparr>
     rt_selectedAccountId := (case accounts of [] \<Rightarrow> None | a # _ \<Rightarrow> Some (acc_id a)), rt_candidatesCount := length accounts\<rparr>) (routing meta)\<rparr>"

text \<open>The first target that ended before any account could be tried is kept; so does the next reason.\<close>

definition skip_stage :: "nat \<Rightarrow> bool \<Rightarrow> alias_run \<Rightarrow> alias_run" where
  "skip_stage stage permission s =
     s\<lparr>ar_unservable := (case ar_unservable s of None \<Rightarrow> Some (stage, ar_reason s, permission) | Some u \<Rightarrow> Some u),
       ar_reason := Some ''pool_unavailable''\<rparr>"

record admitted_pool =
  pool_run :: alias_run
  pool_accounts :: "account list"
  pool_follow :: "(string \<times> account) option"
  pool_reason :: string
  pool_context :: bool

definition admit_stage :: "alias_world \<Rightarrow> nat \<Rightarrow> selected_accounts \<Rightarrow> alias_run \<Rightarrow> routing_policy_error + admitted_pool" where
  "admit_stage w k sel s =
     (let env = stage_env w k None s; lists = fresh_lists (aw_lists w k) in
      bind_result (run_gates env (aw_times w k) (chosen sel) lists) (\<lambda>adm.
        case reconcileAffinity (aw_hash w) (aw_clock w k) (aw_now w k) env (adm_lists adm) (adm_accounts adm) (chosen_meta sel)
            (session_of (chosen_strategy sel)) of
          (sess, meta, accounts) \<Rightarrow>
            Inr \<lparr>pool_run = s\<lparr>ar_strategy := with_session (chosen_strategy sel) sess, ar_meta := note_candidates accounts meta\<rparr>,
                 pool_accounts = accounts,
                 pool_follow = prepareSoftDemotionFollow env (adm_lists adm) (aw_path w) meta accounts,
                 pool_reason = (if familyWeeklyExcludedAccounts (adm_lists adm) \<noteq> [] \<or> adm_throttled adm \<noteq> [] then ''quota_exhausted''
                   else if adm_overloaded adm \<noteq> [] then ''provider_overloaded'' else ''pool_unavailable''),
                 pool_context = (contextExcludedAccounts (adm_lists adm) \<noteq> [])\<rparr>))"

datatype plan_end = Answered alias_answer | Exhausted | Failed_for_good

fun try_stages ::
  "alias_world \<Rightarrow> route_request \<Rightarrow> nat list \<Rightarrow> alias_key option \<Rightarrow> nat \<Rightarrow> nat list \<Rightarrow> alias_run \<Rightarrow> alias_run \<times> plan_end" where
  "try_stages w rq ordered key k [] s = (s, Exhausted)"
| "try_stages w rq ordered key k (stage # later) s =
     (if aw_aborted w k None then (s, Answered Client_gone)
      else if admissionError (stage_at s stage) \<noteq> None
      then try_stages w rq ordered key (k + 1) later (auditRejected [stage] s)
      else case selectAliasRoute stage (ar_reason s) (ar_routes s) of
        Inl e \<Rightarrow> (s, Answered (Alias_error (Policy (Route_policy e))))
      | Inr routes \<Rightarrow>
          (let s1 = s\<lparr>ar_routes := routes\<rparr> in
           case selectAccountsForRequest (aw_hash w) (aw_pausesOnOverage w) (aw_now w k) (aw_clock w k) (aw_ctx w k) (aw_phase w k)
               (aw_excluded w k) routes rq (ar_meta s1) (ar_strategy s1) of
             Inl e \<Rightarrow>
               if e = No_permitted_account then try_stages w rq ordered key (k + 1) later (skip_stage stage True s1)
               else (s1, Answered (Alias_error (Policy (Route_policy e))))
           | Inr sel \<Rightarrow> (case admit_stage w k sel s1 of
               Inl e \<Rightarrow> (s1, Answered (Alias_error (Policy (Route_policy e))))
             | Inr p \<Rightarrow>
                 if pool_accounts p = [] \<and> pool_context p
                 then try_stages w rq ordered key (k + 1) later (skip_stage stage False (pool_run p))
                 else (case try_accounts w ordered key (pool_follow p) k stage later 0 (pool_accounts p) True (pool_reason p)
                     ((pool_run p)\<lparr>ar_servable := True\<rparr>) of
                   Inl (s', answer) \<Rightarrow> (s', Answered answer)
                 | Inr (s', mayAdvance, stageReason) \<Rightarrow>
                     if \<not> mayAdvance then (s', Failed_for_good)
                     else try_stages w rq ordered key (k + 1) later (s'\<lparr>ar_reason := Some stageReason\<rparr>)))))"

definition alias_terminal :: "nat list \<Rightarrow> bool \<Rightarrow> alias_run \<Rightarrow> alias_run \<times> alias_answer" where
  "alias_terminal ordered forGood s0 =
     (let s = auditRejected ordered s0 in
      case (if ar_servable s then None else ar_unservable s) of
        Some (stage, reason, True) \<Rightarrow>
          (case selectAliasRoute stage reason (ar_routes s) of
             Inl e \<Rightarrow> (s, Alias_error (Policy (Route_policy e)))
           | Inr routes \<Rightarrow> (s\<lparr>ar_routes := routes\<rparr>, Alias_error (Policy (Route_policy No_permitted_account))))
      | Some (_, _, False) \<Rightarrow> (s, Terminal 400 Context_capacity_exceeded)
      | None \<Rightarrow> (s, case sdkBridgeRefusalTerminal (ar_refusal s) of
            Some r \<Rightarrow> Bridge_answer r
          | None \<Rightarrow> Terminal 503 (if forGood then Target_failed_for_good else All_targets_unavailable)))"

definition plan_order :: "route list \<Rightarrow> nat list \<Rightarrow> held_target option \<Rightarrow> int \<Rightarrow> nat option \<times> nat list" where
  "plan_order objs stages held now =
     (case (case held of
         Some h \<Rightarrow> if held_expires h > now
           then List.find (\<lambda>i. map_option alias_targetIndex (route_alias (objs ! i)) = Some (held_targetIndex h)) (admissibleAliasStages objs stages)
           else None
       | None \<Rightarrow> None) of
        None \<Rightarrow> (None, stages)
      | Some p \<Rightarrow> (Some p, p # filter (\<lambda>i. i \<noteq> p) stages))"

definition alias_start :: "request_routes \<Rightarrow> strategy_state \<Rightarrow> request_meta \<Rightarrow> alias_memo \<Rightarrow> nat list \<Rightarrow> nat option \<Rightarrow> alias_run" where
  "alias_start routes st meta m ordered preferred =
     \<lparr>ar_routes = routes, ar_strategy = st, ar_meta = meta, ar_memo = m, ar_refusal = None,
      ar_reason = (if preferred = None then None else Some ''conversation_affinity''),
      ar_unaudited = filter (\<lambda>i. admissionError (route_objects routes ! i) \<noteq> None) ordered, ar_audits = [], ar_unservable = None,
      ar_servable = False, ar_attempts = 0, ar_oauth = False, ar_sent = []\<rparr>"

definition handleAliasProxy ::
  "alias_world \<Rightarrow> route_request \<Rightarrow> request_routes \<Rightarrow> strategy_state \<Rightarrow> request_meta \<Rightarrow> alias_memo
    \<Rightarrow> routing_policy_error + (alias_run \<times> alias_answer)" where
  "handleAliasProxy w rq routes st meta m =
     (case (alias_stages routes, Option.bind (alias_stages routes) (\<lambda>is. case is of [] \<Rightarrow> None | i # _ \<Rightarrow> route_alias (route_objects routes ! i))) of
        (Some stages, Some al) \<Rightarrow>
          (let key = alias_affinityKey meta al;
               (preferred, ordered) = plan_order (route_objects routes) stages (Option.bind key (jm_get m)) (aw_start w)
           in Inr (case try_stages w rq ordered key 0 ordered (alias_start routes st meta m ordered preferred) of
                (s, Answered answer) \<Rightarrow> (s, answer)
              | (s, ended) \<Rightarrow> if aw_abortedEnd w then (s, Client_gone) else alias_terminal ordered (ended = Failed_for_good) s))
      | _ \<Rightarrow> Inl No_alias_plan)"

subsection \<open>The chokepoint\<close>

lemma attempt_through_gate:
  "snd (attemptThroughProbeGate viaBridge request a now reprobe attempt g) = Some r \<Longrightarrow> \<exists>g'. r = snd (attempt g')"
  by (auto simp: attemptThroughProbeGate_def split_beta split: if_splits gate_decision.splits prod.splits)

lemma completed_not_live: "\<not> is_live_lease i l (completeRateLimitProbe i outcome (Some l) g)"
  by (simp add: completeRateLimitProbe_def releaseProbeLease_def is_live_lease_def Let_def)

lemma dropped_custody:
  "findRateLimitProbeLease (Some request) i (dropRateLimitProbeLease request i g) = None"
  "is_live_lease i l (dropRateLimitProbeLease request i g) = is_live_lease i l g"
  by (auto simp: findRateLimitProbeLease_def dropRateLimitProbeLease_def is_live_lease_def Let_def split: option.split)

text \<open>Whatever the attempt does, its lease is given back and forgotten when it is over.\<close>

lemma lease_returned:
  assumes "getRateLimitProbeAdmission a now reprobe g = (g1, Probe_admitted l)" and "\<not> isSdkBridgeAttempt viaBridge a"
    and "attemptThroughProbeGate viaBridge request a now reprobe attempt g = (g', r)"
  shows "r \<noteq> None \<and> \<not> is_live_lease (acc_id a) l g' \<and> findRateLimitProbeLease (Some request) (acc_id a) g' = None"
  using assms by (auto simp: attemptThroughProbeGate_def dropped_custody completed_not_live split_beta)

subsection \<open>The attempts on one target\<close>

definition declined :: "alias_send \<Rightarrow> bool" where
  "declined x \<longleftrightarrow> (case sent_answer x of Attempt_declined _ _ \<Rightarrow> True | _ \<Rightarrow> False)"

definition may_pass :: "alias_send \<Rightarrow> bool" where
  "may_pass x \<longleftrightarrow> (case sent_answer x of Attempt_declined outcome _ \<Rightarrow> Option.bind outcome aliasFallbackReason \<noteq> None | _ \<Rightarrow> False)"

definition responded :: "alias_send \<Rightarrow> bool" where
  "responded x \<longleftrightarrow> (case sent_answer x of Attempt_response _ \<Rightarrow> True | _ \<Rightarrow> False)"

lemma may_pass_declined: "may_pass x \<Longrightarrow> declined x" and declined_not_responded: "declined x \<Longrightarrow> \<not> responded x"
  by (auto simp: may_pass_def declined_def responded_def split: attempt_answer.splits)

definition sent_here :: "alias_world \<Rightarrow> nat \<Rightarrow> nat \<Rightarrow> request_routes \<Rightarrow> alias_send \<Rightarrow> bool" where
  "sent_here w k stage routes x \<longleftrightarrow> sent_position x = k \<and> sent_stage x = stage
     \<and> \<not> isl (getAttemptTarget (cx_scopeOf (aw_ctx w k)) (installed_route routes) (sent_account x))"

text \<open>A run after some more attempts on a target.\<close>

definition extends :: "alias_world \<Rightarrow> nat \<Rightarrow> nat \<Rightarrow> alias_run \<Rightarrow> alias_run \<Rightarrow> alias_send list \<Rightarrow> bool" where
  "extends w k stage s s' new \<longleftrightarrow>
     (\<exists>n oauth refusal. s' = s\<lparr>ar_attempts := n, ar_oauth := oauth, ar_refusal := refusal, ar_sent := ar_sent s @ new\<rparr>)
     \<and> list_all (sent_here w k stage (ar_routes s)) new"

lemma extends_same [simp]: "extends w k stage s s []"
  unfolding extends_def by (cases s) auto

lemma extends_trans:
  assumes "extends w k stage s s' xs" and "extends w k stage s' s'' ys"
  shows "extends w k stage s s'' (xs @ ys)"
proof -
  from assms(1) obtain n oauth refusal where s': "s' = s\<lparr>ar_attempts := n, ar_oauth := oauth, ar_refusal := refusal, ar_sent := ar_sent s @ xs\<rparr>"
    and xs: "list_all (sent_here w k stage (ar_routes s)) xs" by (auto simp: extends_def)
  from assms(2) obtain n' oauth' refusal' where "s'' = s'\<lparr>ar_attempts := n', ar_oauth := oauth', ar_refusal := refusal', ar_sent := ar_sent s' @ ys\<rparr>"
    and ys: "list_all (sent_here w k stage (ar_routes s')) ys" by (auto simp: extends_def)
  then have "s'' = s\<lparr>ar_attempts := n', ar_oauth := oauth', ar_refusal := refusal', ar_sent := ar_sent s @ xs @ ys\<rparr>" by (simp add: s')
  with xs ys show ?thesis unfolding extends_def by (auto simp: s')
qed

lemma attempt_ran:
  assumes "run_attempt w k i stage a rest later s = Some (s', answer)"
  shows "(\<exists>e. answer = Attempt_threw (Policy (Route_policy e)) \<and> extends w k stage s s' [])
    \<or> (\<exists>x. sent_account x = a \<and> sent_answer x = answer \<and> extends w k stage s s' [x])"
proof -
  from attempt_through_gate assms obtain g where "(s', answer) = snd (attempt_callback w k i stage a rest later s g)"
    unfolding run_attempt_def by metis
  then show ?thesis
    by (cases s) (auto simp: attempt_callback_def begun_attempt_def extends_def sent_here_def Let_def split_beta split: sum.splits)
qed

definition answered_here :: "alias_world \<Rightarrow> nat list \<Rightarrow> alias_key option \<Rightarrow> (string \<times> account) option \<Rightarrow> nat \<Rightarrow> nat \<Rightarrow> alias_run \<Rightarrow> alias_run \<Rightarrow> alias_answer \<Rightarrow> bool" where
  "answered_here w ordered key follow k stage s s' answer \<longleftrightarrow> (\<exists>new s1. extends w k stage s s1 new \<and> sorted_wrt (\<lambda>x _. declined x) new
     \<and> (((answer = Client_gone \<or> (\<exists>e. answer = Alias_error e)) \<and> s' = s1 \<and> (\<forall>x \<in> set new. \<not> responded x))
       \<or> (\<exists>a status now before x. answer = Upstream_answer stage a status \<and> new = before @ [x] \<and> sent_account x = a
            \<and> sent_answer x = Attempt_response status \<and> s' = served w ordered key follow now stage a status s1 \<and> (\<exists>i. now = aw_at w k i))))"

definition all_declined :: "alias_world \<Rightarrow> nat \<Rightarrow> nat \<Rightarrow> alias_run \<Rightarrow> bool \<Rightarrow> alias_run \<Rightarrow> bool \<Rightarrow> bool" where
  "all_declined w k stage s mayAdvance s' mayAdvance' \<longleftrightarrow> (\<exists>new. extends w k stage s s' new \<and> list_all declined new
     \<and> (mayAdvance' \<longleftrightarrow> mayAdvance \<and> list_all may_pass new))"

lemma stopped_here:
  assumes "extends w k stage s s' new" and "list_all (\<lambda>x. \<not> responded x) new" and "length new \<le> 1"
    and "answer = Client_gone \<or> (\<exists>e. answer = Alias_error e)"
  shows "answered_here w ordered key follow k stage s s' answer"
proof -
  have "sorted_wrt (\<lambda>x _. declined x) new" using assms(3) by (cases new) simp_all
  with assms(1,2,4) show ?thesis unfolding answered_here_def list_all_iff by blast
qed

lemma response_here:
  assumes "extends w k stage s s1 [x]" and "sent_account x = a" and "sent_answer x = Attempt_response status"
  shows "answered_here w ordered key follow k stage s (served w ordered key follow (aw_at w k i) stage a status s1) (Upstream_answer stage a status)"
proof -
  have "sorted_wrt (\<lambda>x _. declined x) [x]" "[x] = [] @ [x]" by simp_all
  with assms show ?thesis unfolding answered_here_def by blast
qed

lemma answered_after:
  assumes "extends w k stage s s1 [x]" and "declined x" and "answered_here w ordered key follow k stage s1 s' answer"
  shows "answered_here w ordered key follow k stage s s' answer"
proof -
  from assms(3) obtain new s2 where new: "extends w k stage s1 s2 new" "sorted_wrt (\<lambda>x _. declined x) new"
    and rest: "((answer = Client_gone \<or> (\<exists>e. answer = Alias_error e)) \<and> s' = s2 \<and> (\<forall>x \<in> set new. \<not> responded x))
       \<or> (\<exists>a status now before y. answer = Upstream_answer stage a status \<and> new = before @ [y] \<and> sent_account y = a
            \<and> sent_answer y = Attempt_response status \<and> s' = served w ordered key follow now stage a status s2 \<and> (\<exists>i. now = aw_at w k i))"
    unfolding answered_here_def by blast
  have "extends w k stage s s2 (x # new)" using extends_trans [OF assms(1) new(1)] by simp
  moreover have "sorted_wrt (\<lambda>x _. declined x) (x # new)" using assms(2) new(2) by simp
  moreover have "((answer = Client_gone \<or> (\<exists>e. answer = Alias_error e)) \<and> s' = s2 \<and> (\<forall>z \<in> set (x # new). \<not> responded z))
       \<or> (\<exists>a status now before y. answer = Upstream_answer stage a status \<and> x # new = before @ [y] \<and> sent_account y = a
            \<and> sent_answer y = Attempt_response status \<and> s' = served w ordered key follow now stage a status s2 \<and> (\<exists>i. now = aw_at w k i))"
    using rest declined_not_responded [OF assms(2)] by (metis append_Cons set_ConsD)
  ultimately show ?thesis unfolding answered_here_def by blast
qed

lemma declined_after:
  assumes "extends w k stage s s1 [x]" and "declined x" and "all_declined w k stage s1 (mayAdvance \<and> may_pass x) s' mayAdvance'"
  shows "all_declined w k stage s mayAdvance s' mayAdvance'"
proof -
  from assms(3) obtain new where new: "extends w k stage s1 s' new" "list_all declined new" "mayAdvance' \<longleftrightarrow> (mayAdvance \<and> may_pass x) \<and> list_all may_pass new"
    unfolding all_declined_def by blast
  have "extends w k stage s s' (x # new)" using extends_trans [OF assms(1) new(1)] by simp
  moreover have "list_all declined (x # new)" "mayAdvance' \<longleftrightarrow> mayAdvance \<and> list_all may_pass (x # new)" using assms(2) new by simp_all
  ultimately show ?thesis unfolding all_declined_def by blast
qed

lemma tried_accounts:
  "case try_accounts w ordered key follow k stage later i as mayAdvance stageReason s of
     Inl (s', answer) \<Rightarrow> answered_here w ordered key follow k stage s s' answer
   | Inr (s', mayAdvance', _) \<Rightarrow> all_declined w k stage s mayAdvance s' mayAdvance'"
proof (induction "as" arbitrary: i mayAdvance stageReason s)
  case Nil
  have "extends w k stage s s [] \<and> list_all declined [] \<and> (mayAdvance \<longleftrightarrow> mayAdvance \<and> list_all may_pass [])" by simp
  then have "all_declined w k stage s mayAdvance s mayAdvance" unfolding all_declined_def by blast
  then show ?case by simp
next
  case (Cons a rest)
  have gone: "answered_here w ordered key follow k stage s s Client_gone"
    by (rule stopped_here [OF extends_same]) simp_all
  show ?case
  proof (cases "run_attempt w k i stage a rest later s")
    case None
    with gone Cons.IH show ?thesis by simp
  next
    case (Some r)
    obtain s1 answer where r: "r = (s1, answer)" by fastforce
    from attempt_ran [OF Some [unfolded r]] consider
      (threw) e where "answer = Attempt_threw e" "extends w k stage s s1 []"
      | (sent) x where "sent_account x = a" "sent_answer x = answer" "extends w k stage s s1 [x]" by blast
    then show ?thesis
    proof cases
      case threw
      then have "answered_here w ordered key follow k stage s s1 (Alias_error e)" by (intro stopped_here [of _ _ _ _ _ "[]"]) simp_all
      with gone Cons.IH Some threw r show ?thesis by simp
    next
      case sent
      show ?thesis
      proof (cases answer)
        case (Attempt_threw e)
        with sent have "\<not> responded x" by (simp add: responded_def)
        with sent have "answered_here w ordered key follow k stage s s1 (Alias_error e)" by (intro stopped_here [of _ _ _ _ _ "[x]"]) simp_all
        with gone Cons.IH Some Attempt_threw r show ?thesis by simp
      next
        case (Attempt_response status)
        from response_here [OF sent(3,1)] sent(2) Attempt_response
        have "answered_here w ordered key follow k stage s (served w ordered key follow (aw_at w k i) stage a status s1) (Upstream_answer stage a status)"
          by blast
        with gone Cons.IH Some Attempt_response r show ?thesis by simp
      next
        case (Attempt_declined outcome refusal)
        with sent(2) have x: "declined x" "may_pass x \<longleftrightarrow> Option.bind outcome aliasFallbackReason \<noteq> None"
          by (simp_all add: declined_def may_pass_def)
        have next': "case try_accounts w ordered key follow k stage later (i + 1) rest (mayAdvance \<and> may_pass x) reason s1 of
            Inl (s', answer) \<Rightarrow> answered_here w ordered key follow k stage s s' answer
          | Inr (s', mayAdvance', _) \<Rightarrow> all_declined w k stage s mayAdvance s' mayAdvance'" for reason
          using Cons.IH [where i = "i + 1" and mayAdvance = "mayAdvance \<and> may_pass x" and stageReason = reason and s = s1] answered_after [OF sent(3) x(1)] declined_after [OF sent(3) x(1)]
          by (simp split: sum.splits prod.splits)
        show ?thesis
        proof (cases "Option.bind outcome aliasFallbackReason")
          case None
          with x(2) next' [of stageReason] have "case try_accounts w ordered key follow k stage later (i + 1) rest False stageReason s1 of
              Inl (s', answer) \<Rightarrow> answered_here w ordered key follow k stage s s' answer
            | Inr (s', mayAdvance', _) \<Rightarrow> all_declined w k stage s mayAdvance s' mayAdvance'" by simp
          with gone Cons.IH Some Attempt_declined r None show ?thesis by simp
        next
          case failure: (Some f)
          with x(2) next' [of f] have "case try_accounts w ordered key follow k stage later (i + 1) rest mayAdvance f s1 of
              Inl (s', answer) \<Rightarrow> answered_here w ordered key follow k stage s s' answer
            | Inr (s', mayAdvance', _) \<Rightarrow> all_declined w k stage s mayAdvance s' mayAdvance'" by simp
          with gone Cons.IH Some Attempt_declined r failure show ?thesis by simp
        qed
      qed
    qed
  qed
qed

subsection \<open>Plans\<close>

text \<open>The same stages in the same order, up to the reason kept for the audit.\<close>

definition same_stages :: "request_routes \<Rightarrow> request_routes \<Rightarrow> bool" where
  "same_stages st0 st \<longleftrightarrow> alias_stages st = alias_stages st0 \<and> map unreasoned (route_objects st) = map unreasoned (route_objects st0)"

lemma same_stages_trans: "same_stages st0 st1 \<Longrightarrow> same_stages st1 st2 \<Longrightarrow> same_stages st0 st2"
  by (simp add: same_stages_def)

lemma same_stages_refl [simp]: "same_stages st st"
  by (simp add: same_stages_def)

lemma same_stages_stage:
  assumes "same_stages st0 st" and "i < length (route_objects st0)"
  shows "\<exists>q. route_objects st ! i = (route_objects st0 ! i)\<lparr>aliasReason := q\<rparr>"
proof -
  have "length (route_objects st) = length (route_objects st0)"
    using assms(1) unfolding same_stages_def by (metis length_map)
  moreover have "map unreasoned (route_objects st) ! i = map unreasoned (route_objects st0) ! i" using assms(1) by (simp add: same_stages_def)
  ultimately have "unreasoned (route_objects st ! i) = unreasoned (route_objects st0 ! i)" using assms(2) by simp
  from unreasoned_eq [OF this] show ?thesis by blast
qed

lemma reasoned_fields [simp]: "admissionError (r\<lparr>aliasReason := q\<rparr>) = admissionError r" "route_alias (r\<lparr>aliasReason := q\<rparr>) = route_alias r"
  "route_target scopeOf (r\<lparr>aliasReason := q\<rparr>) a = route_target scopeOf r a"
  by (simp_all add: route_target_def)

lemma same_stages_reason: "i < length (route_objects st) \<Longrightarrow> same_stages st (setAliasReason i q st)"
  by (simp add: same_stages_def setAliasReason_def map_update) (metis list_update_id nth_map)

lemma select_stage:
  assumes "selectAliasRoute i q st = Inr st'" and "i < length (route_objects st)"
  shows "same_stages st st' \<and> installed_route st' = Some ((route_objects st ! i)\<lparr>aliasReason := q\<rparr>)"
proof -
  from assms(1) have st': "st' = (setAliasReason i q st)\<lparr>installed := Some i\<rparr>"
    by (auto simp: selectAliasRoute_def setAliasReason_def split: if_splits)
  have "same_stages st (setAliasReason i q st)" by (rule same_stages_reason [OF assms(2)])
  then have "same_stages st st'" by (simp add: st' same_stages_def)
  moreover have "installed_route st' = Some ((route_objects st ! i)\<lparr>aliasReason := q\<rparr>)"
    using assms(2) by (simp add: st' installed_route_def setAliasReason_def)
  ultimately show ?thesis ..
qed

lemma audit_run:
  assumes "\<forall>i \<in> set (ar_unaudited s). i < length (route_objects (ar_routes s)) \<and> admissionError (stage_at s i) \<noteq> None" and "distinct stages"
  shows "\<exists>R. same_stages (ar_routes s) R \<and> auditRejected stages s = s\<lparr>ar_unaudited := filter (\<lambda>i. i \<notin> set stages) (ar_unaudited s), ar_routes := R,
      ar_audits := ar_audits s @ map (\<lambda>i. (i, ar_reason s)) (filter (\<lambda>i. i \<in> set (ar_unaudited s)) stages)\<rparr>"
  using assms
proof (induction stages arbitrary: s)
  case Nil
  have "auditRejected [] s = s\<lparr>ar_unaudited := filter (\<lambda>i. i \<notin> set []) (ar_unaudited s), ar_routes := ar_routes s,
      ar_audits := ar_audits s @ map (\<lambda>i. (i, ar_reason s)) (filter (\<lambda>i. i \<in> set (ar_unaudited s)) [])\<rparr>"
    by (simp add: auditRejected_def)
  then show ?case using same_stages_refl by blast
next
  case (Cons j stages)
  show ?case
  proof (cases "j \<in> set (ar_unaudited s)")
    case False
    then have step: "audit_stage s j = s" by (simp add: audit_stage_def)
    from Cons obtain R where R: "same_stages (ar_routes s) R" and run: "auditRejected stages s = s\<lparr>ar_unaudited := filter (\<lambda>i. i \<notin> set stages) (ar_unaudited s), ar_routes := R,
      ar_audits := ar_audits s @ map (\<lambda>i. (i, ar_reason s)) (filter (\<lambda>i. i \<in> set (ar_unaudited s)) stages)\<rparr>" by auto
    have "filter (\<lambda>i. i \<notin> set (j # stages)) (ar_unaudited s) = filter (\<lambda>i. i \<notin> set stages) (ar_unaudited s)"
      using False by (intro filter_cong) auto
    with False step run have "auditRejected (j # stages) s = s\<lparr>ar_unaudited := filter (\<lambda>i. i \<notin> set (j # stages)) (ar_unaudited s), ar_routes := R,
      ar_audits := ar_audits s @ map (\<lambda>i. (i, ar_reason s)) (filter (\<lambda>i. i \<in> set (ar_unaudited s)) (j # stages))\<rparr>"
      by (simp add: auditRejected_def)
    with R show ?thesis by blast
  next
    case True
    let ?s = "s\<lparr>ar_unaudited := removeAll j (ar_unaudited s), ar_routes := setAliasReason j (ar_reason s) (ar_routes s),
        ar_audits := ar_audits s @ [(j, ar_reason s)]\<rparr>"
    from True Cons.prems(1) have j: "j < length (route_objects (ar_routes s))" "admissionError (stage_at s j) \<noteq> None" by auto
    then have step: "audit_stage s j = ?s" using True unfolding audit_stage_def by (subst if_not_P) simp_all
    note plan = same_stages_reason [OF j(1), of "ar_reason s"]
    have "\<forall>i \<in> set (ar_unaudited ?s). i < length (route_objects (ar_routes ?s)) \<and> admissionError (stage_at ?s i) \<noteq> None"
    proof
      fix i
      assume "i \<in> set (ar_unaudited ?s)"
      then have i: "i < length (route_objects (ar_routes s))" "admissionError (stage_at s i) \<noteq> None" using Cons.prems(1) by auto
      from same_stages_stage [OF plan i(1)] i(2) have "admissionError (stage_at ?s i) \<noteq> None" by (auto simp: stage_at_def)
      with i(1) show "i < length (route_objects (ar_routes ?s)) \<and> admissionError (stage_at ?s i) \<noteq> None" by (simp add: setAliasReason_def)
    qed
    from Cons.IH [OF this] Cons.prems(2) obtain R where R: "same_stages (ar_routes ?s) R" and run: "auditRejected stages ?s = ?s\<lparr>ar_unaudited := filter (\<lambda>i. i \<notin> set stages) (ar_unaudited ?s),
      ar_routes := R, ar_audits := ar_audits ?s @ map (\<lambda>i. (i, ar_reason ?s)) (filter (\<lambda>i. i \<in> set (ar_unaudited ?s)) stages)\<rparr>" by auto
    have "filter (\<lambda>i. i \<notin> set stages) (removeAll j (ar_unaudited s)) = filter (\<lambda>i. i \<notin> set (j # stages)) (ar_unaudited s)"
      by (auto simp: removeAll_filter_not_eq intro: filter_cong)
    moreover have "filter (\<lambda>i. i \<in> set (removeAll j (ar_unaudited s))) stages = filter (\<lambda>i. i \<in> set (ar_unaudited s)) stages"
      using Cons.prems(2) by (intro filter_cong) auto
    ultimately have "auditRejected (j # stages) s = s\<lparr>ar_unaudited := filter (\<lambda>i. i \<notin> set (j # stages)) (ar_unaudited s), ar_routes := R,
      ar_audits := ar_audits s @ map (\<lambda>i. (i, ar_reason s)) (filter (\<lambda>i. i \<in> set (ar_unaudited s)) (j # stages))\<rparr>"
      using True step run by (simp add: auditRejected_def)
    moreover have "same_stages (ar_routes s) R" using same_stages_trans [OF plan] R by simp
    ultimately show ?thesis by blast
  qed
qed

subsection \<open>What holds along a plan\<close>

definition rejects :: "request_routes \<Rightarrow> nat \<Rightarrow> bool" where
  "rejects routes i \<longleftrightarrow> admissionError (route_objects routes ! i) \<noteq> None"

definition plan_ok :: "request_routes \<Rightarrow> nat list \<Rightarrow> bool" where
  "plan_ok routes ordered \<longleftrightarrow> distinct ordered \<and> (\<forall>i \<in> set ordered. i < length (route_objects routes))"

text \<open>A send to the target at its position, which was admitted, for an account that target authorizes.\<close>

definition authorized_send :: "alias_world \<Rightarrow> request_routes \<Rightarrow> nat list \<Rightarrow> alias_send \<Rightarrow> bool" where
  "authorized_send w routes ordered x \<longleftrightarrow> sent_position x < length ordered \<and> sent_stage x = ordered ! sent_position x
     \<and> \<not> rejects routes (sent_stage x)
     \<and> route_target (cx_scopeOf (aw_ctx w (sent_position x))) (route_objects routes ! sent_stage x) (sent_account x) \<noteq> None"

text \<open>Every attempt but the last was declined, and a later target is tried only when all before it may pass.\<close>

definition fallback_chain :: "alias_send list \<Rightarrow> bool" where
  "fallback_chain xs \<longleftrightarrow> sorted_wrt (\<lambda>x y. sent_position x \<le> sent_position y \<and> declined x
     \<and> (sent_position x < sent_position y \<longrightarrow> may_pass x)) xs"

definition plan_run :: "alias_world \<Rightarrow> request_routes \<Rightarrow> nat list \<Rightarrow> alias_memo \<Rightarrow> nat \<Rightarrow> alias_run \<Rightarrow> bool" where
  "plan_run w routes ordered m k s \<longleftrightarrow> same_stages routes (ar_routes s)
     \<and> ar_unaudited s = filter (rejects routes) (drop k ordered)
     \<and> map fst (ar_audits s) = filter (rejects routes) (take k ordered)
     \<and> ar_memo s = m \<and> fallback_chain (ar_sent s) \<and> list_all (authorized_send w routes ordered) (ar_sent s)"

definition plan_at :: "alias_world \<Rightarrow> request_routes \<Rightarrow> nat list \<Rightarrow> alias_memo \<Rightarrow> nat \<Rightarrow> nat list \<Rightarrow> alias_run \<Rightarrow> bool" where
  "plan_at w routes ordered m k later s \<longleftrightarrow> plan_run w routes ordered m k s \<and> k \<le> length ordered \<and> drop k ordered = later
     \<and> list_all (\<lambda>x. sent_position x < k \<and> may_pass x) (ar_sent s)"

definition continues :: "alias_run \<Rightarrow> alias_run \<Rightarrow> alias_send list \<Rightarrow> bool" where
  "continues s s' new \<longleftrightarrow> same_stages (ar_routes s) (ar_routes s') \<and> ar_unaudited s' = ar_unaudited s \<and> ar_audits s' = ar_audits s
     \<and> ar_memo s' = ar_memo s \<and> ar_sent s' = ar_sent s @ new"

lemma chain_append:
  assumes "list_all (\<lambda>x. sent_position x < k \<and> may_pass x) xs" and "fallback_chain xs"
    and "list_all (\<lambda>x. sent_position x = k) new" and "sorted_wrt (\<lambda>x _. declined x) new"
  shows "fallback_chain (xs @ new)"
proof -
  have "fallback_chain new" unfolding fallback_chain_def
    by (rule sorted_wrt_mono_rel [OF _ assms(4)]) (use assms(3) in \<open>auto simp: list_all_iff\<close>)
  with assms show ?thesis by (auto simp: fallback_chain_def sorted_wrt_append list_all_iff may_pass_declined)
qed

lemma plan_position:
  assumes "drop k ordered = stage # later"
  shows "k < length ordered" and "ordered ! k = stage" and "take (k + 1) ordered = take k ordered @ [stage]" and "drop (k + 1) ordered = later"
proof -
  show k: "k < length ordered" using assms by (metis drop_all linorder_not_le list.distinct(1))
  with assms have "stage # later = ordered ! k # drop (Suc k) ordered" by (simp add: Cons_nth_drop_Suc)
  then show "ordered ! k = stage" "drop (k + 1) ordered = later" by simp_all
  with k show "take (k + 1) ordered = take k ordered @ [stage]" by (simp add: take_Suc_conv_app_nth)
qed

lemma plan_continues:
  assumes "plan_at w routes ordered m k (stage # later) s" and "\<not> rejects routes stage" and "continues s s' new"
    and "list_all (authorized_send w routes ordered) new" and "list_all (\<lambda>x. sent_position x = k) new" and "sorted_wrt (\<lambda>x _. declined x) new"
  shows "plan_run w routes ordered m (k + 1) s'"
proof -
  have later: "drop k ordered = stage # later" using assms(1) by (simp add: plan_at_def)
  note pos = plan_position [OF later]
  have "fallback_chain (ar_sent s @ new)"
    using assms(1,5,6) by (intro chain_append [of k]) (simp_all add: plan_at_def plan_run_def)
  with assms show ?thesis
    using later pos(3,4) same_stages_trans by (simp add: plan_at_def plan_run_def continues_def) metis
qed

lemma plan_advances:
  assumes "plan_at w routes ordered m k (stage # later) s" and "\<not> rejects routes stage" and "continues s s' new"
    and "list_all (authorized_send w routes ordered) new" and "list_all (\<lambda>x. sent_position x = k) new" and "list_all may_pass new"
  shows "plan_at w routes ordered m (k + 1) later s'"
proof -
  have "sorted_wrt (\<lambda>x _. declined x) new" using assms(6) may_pass_declined by (induction new) auto
  from plan_continues [OF assms(1-5) this] have "plan_run w routes ordered m (k + 1) s'" .
  moreover have "list_all (\<lambda>x. sent_position x < k + 1 \<and> may_pass x) (ar_sent s')"
    using assms by (auto simp: plan_at_def continues_def list_all_iff)
  ultimately show ?thesis using assms(1) plan_position [of k ordered stage later] by (simp add: plan_at_def)
qed

lemma unaudited_rejected:
  assumes "plan_ok routes ordered" and "plan_run w routes ordered m k s"
  shows "\<forall>i \<in> set (ar_unaudited s). i < length (route_objects (ar_routes s)) \<and> admissionError (stage_at s i) \<noteq> None"
proof
  fix i
  assume "i \<in> set (ar_unaudited s)"
  then have i: "i \<in> set ordered" "rejects routes i" using assms(2) set_drop_subset [of k ordered] by (auto simp: plan_run_def)
  then have len: "i < length (route_objects routes)" using assms(1) by (simp add: plan_ok_def)
  have same: "same_stages routes (ar_routes s)" using assms(2) by (simp add: plan_run_def)
  then have "length (route_objects (ar_routes s)) = length (route_objects routes)" unfolding same_stages_def by (metis length_map)
  with len show "i < length (route_objects (ar_routes s)) \<and> admissionError (stage_at s i) \<noteq> None"
    using same_stages_stage [OF same len] i(2) by (auto simp: stage_at_def rejects_def)
qed

lemma plan_rejects:
  assumes "plan_ok routes ordered" and "plan_at w routes ordered m k (stage # later) s" and "rejects routes stage"
  shows "plan_at w routes ordered m (k + 1) later (auditRejected [stage] s)"
proof -
  have later: "drop k ordered = stage # later" and un: "ar_unaudited s = filter (rejects routes) (stage # later)"
    and same: "same_stages routes (ar_routes s)" using assms(2) by (simp_all add: plan_at_def plan_run_def)
  have "distinct (stage # later)" using assms(1) later by (metis distinct_drop plan_ok_def)
  from assms(2) have "plan_run w routes ordered m k s" by (simp add: plan_at_def)
  note unaudited_rejected [OF assms(1) this]
  from audit_run [OF this, of "[stage]"] obtain R where R: "same_stages (ar_routes s) R"
    and run: "auditRejected [stage] s = s\<lparr>ar_unaudited := filter (\<lambda>i. i \<notin> set [stage]) (ar_unaudited s), ar_routes := R,
      ar_audits := ar_audits s @ map (\<lambda>i. (i, ar_reason s)) (filter (\<lambda>i. i \<in> set (ar_unaudited s)) [stage])\<rparr>" by auto
  have "filter (\<lambda>i. i \<notin> set [stage]) (ar_unaudited s) = filter (rejects routes) later"
  proof -
    have "filter (\<lambda>i. i \<notin> set [stage]) (filter (rejects routes) later) = filter (rejects routes) later"
      using \<open>distinct (stage # later)\<close> by (intro filter_True) auto
    with assms(3) show ?thesis by (simp add: un)
  qed
  moreover have "filter (\<lambda>i. i \<in> set (ar_unaudited s)) [stage] = [stage]" using assms(3) by (simp add: un)
  ultimately have "auditRejected [stage] s = s\<lparr>ar_unaudited := filter (rejects routes) later, ar_routes := R,
      ar_audits := ar_audits s @ [(stage, ar_reason s)]\<rparr>" using run by simp
  then show ?thesis
    using assms(2,3) plan_position [OF later] same_stages_trans [OF same R]
    by (simp add: plan_at_def plan_run_def list_all_iff less_SucI)
qed

lemma plan_split: "drop k ordered = stage # later \<Longrightarrow> ordered = take k ordered @ stage # later"
  by (metis append_take_drop_id)

lemma reached_before:
  assumes "plan_ok routes ordered" and "drop k ordered = stage # later"
  shows "takeWhile (\<lambda>i. i \<noteq> stage) ordered = take k ordered"
proof -
  note split = plan_split [OF assms(2)]
  from assms(1) have "distinct (take k ordered @ stage # later)" unfolding plan_ok_def split [symmetric] ..
  then have "\<forall>i \<in> set (take k ordered). i \<noteq> stage" by auto
  then have "takeWhile (\<lambda>i. i \<noteq> stage) (take k ordered @ stage # later) = take k ordered" by (simp add: takeWhile_append2)
  then show ?thesis unfolding split [symmetric] .
qed

lemma audit_all:
  assumes "plan_ok routes ordered" and "plan_run w routes ordered m k s"
  shows "\<exists>R. same_stages routes R \<and> (\<exists>audits. map fst audits = filter (rejects routes) ordered
    \<and> auditRejected ordered s = s\<lparr>ar_unaudited := [], ar_routes := R, ar_audits := audits\<rparr>)"
proof -
  have d: "distinct ordered" using assms(1) by (simp add: plan_ok_def)
  have un: "ar_unaudited s = filter (rejects routes) (drop k ordered)" using assms(2) by (simp add: plan_run_def)
  from audit_run [OF unaudited_rejected [OF assms] d] obtain R where R: "same_stages (ar_routes s) R"
    and run: "auditRejected ordered s = s\<lparr>ar_unaudited := filter (\<lambda>i. i \<notin> set ordered) (ar_unaudited s), ar_routes := R,
      ar_audits := ar_audits s @ map (\<lambda>i. (i, ar_reason s)) (filter (\<lambda>i. i \<in> set (ar_unaudited s)) ordered)\<rparr>" by blast
  have "filter (\<lambda>i. i \<notin> set ordered) (ar_unaudited s) = []"
    using set_drop_subset [of k ordered] by (auto simp: un filter_empty_conv)
  moreover have "filter (\<lambda>i. i \<in> set (ar_unaudited s)) ordered = filter (rejects routes) (drop k ordered)"
  proof -
    have "set (take k ordered) \<inter> set (drop k ordered) = {}" using d by (metis append_take_drop_id distinct_append)
    then have "\<forall>i \<in> set (take k ordered). i \<notin> set (drop k ordered)" by blast
    then have "filter (\<lambda>i. i \<in> set (ar_unaudited s)) (take k ordered) = []" by (simp add: un filter_empty_conv)
    moreover have "filter (\<lambda>i. i \<in> set (ar_unaudited s)) (drop k ordered) = filter (rejects routes) (drop k ordered)"
      by (intro filter_cong) (auto simp: un)
    ultimately have "filter (\<lambda>i. i \<in> set (ar_unaudited s)) (take k ordered @ drop k ordered) = filter (rejects routes) (drop k ordered)"
      by (simp only: filter_append append_Nil)
    then show ?thesis by simp
  qed
  moreover have "map fst (ar_audits s) @ filter (rejects routes) (drop k ordered) = filter (rejects routes) ordered"
    using assms(2) by (simp add: plan_run_def) (metis append_take_drop_id filter_append)
  ultimately show ?thesis
    using run same_stages_trans [OF _ R, of routes] assms(2)
    by (intro exI [of _ R] conjI exI [of _ "ar_audits s @ map (\<lambda>i. (i, ar_reason s)) (filter (rejects routes) (drop k ordered))"])
      (simp_all add: plan_run_def comp_def)
qed

lemma extends_continues: "extends w k stage s s' new \<Longrightarrow> continues s s' new"
  by (auto simp: extends_def continues_def)

lemma extends_authorized:
  assumes "extends w k stage s s' new" and "installed_route (ar_routes s) = Some ((route_objects routes ! stage)\<lparr>aliasReason := q\<rparr>)"
    and "drop k ordered = stage # later" and "\<not> rejects routes stage"
  shows "list_all (authorized_send w routes ordered) new" and "list_all (\<lambda>x. sent_position x = k) new"
proof -
  note pos = plan_position [OF assms(3)]
  from assms(1) have here: "list_all (sent_here w k stage (ar_routes s)) new" by (simp add: extends_def)
  then show "list_all (\<lambda>x. sent_position x = k) new" by (auto simp: list_all_iff sent_here_def)
  show "list_all (authorized_send w routes ordered) new"
    using here pos(1,2) assms(2,4) by (auto simp: list_all_iff sent_here_def authorized_send_def getAttemptTarget_def split: option.splits)
qed

definition answered_run ::
  "alias_world \<Rightarrow> request_routes \<Rightarrow> nat list \<Rightarrow> alias_memo \<Rightarrow> alias_key option \<Rightarrow> alias_run \<Rightarrow> nat \<Rightarrow> account \<Rightarrow> int \<Rightarrow> bool" where
  "answered_run w routes ordered m key s stage a status \<longleftrightarrow> fallback_chain (ar_sent s) \<and> list_all (authorized_send w routes ordered) (ar_sent s)
     \<and> (\<exists>before x. ar_sent s = before @ [x] \<and> sent_stage x = stage \<and> sent_account x = a \<and> sent_answer x = Attempt_response status)
     \<and> map fst (ar_audits s) = filter (rejects routes) (if ok_status status then takeWhile (\<lambda>i. i \<noteq> stage) ordered else ordered)
     \<and> (if ok_status status then \<exists>k i. ar_memo s = (case route_alias (route_objects routes ! stage) of None \<Rightarrow> m
          | Some al \<Rightarrow> remember key (alias_targetIndex al) (aw_at w k i) m) else ar_memo s = m)"

definition stopped_run :: "alias_world \<Rightarrow> request_routes \<Rightarrow> nat list \<Rightarrow> alias_memo \<Rightarrow> alias_run \<Rightarrow> bool" where
  "stopped_run w routes ordered m s \<longleftrightarrow> (\<exists>k. plan_run w routes ordered m k s) \<and> (\<forall>x \<in> set (ar_sent s). \<not> responded x)"

definition plan_ended :: "alias_world \<Rightarrow> request_routes \<Rightarrow> nat list \<Rightarrow> alias_memo \<Rightarrow> alias_key option \<Rightarrow> alias_run \<Rightarrow> plan_end \<Rightarrow> bool" where
  "plan_ended w routes ordered m key s e \<longleftrightarrow> (case e of
     Answered (Upstream_answer stage a status) \<Rightarrow> answered_run w routes ordered m key s stage a status
   | Answered (Bridge_answer _) \<Rightarrow> False
   | Answered (Terminal _ _) \<Rightarrow> False
   | _ \<Rightarrow> stopped_run w routes ordered m s)"

lemma plan_stopped: "plan_at w routes ordered m k later s \<Longrightarrow> stopped_run w routes ordered m s"
  using may_pass_declined declined_not_responded by (auto simp: plan_at_def stopped_run_def list_all_iff)

lemma served_run:
  assumes "plan_ok routes ordered" and "drop k ordered = stage # later" and "\<not> rejects routes stage"
    and "plan_run w routes ordered m (k + 1) s" and "ar_sent s = before @ [x]"
    and "sent_stage x = stage" and "sent_account x = a" and "sent_answer x = Attempt_response status"
  shows "answered_run w routes ordered m key (served w ordered key follow (aw_at w j i) stage a status s) stage a status"
proof -
  note pos = plan_position [OF assms(2)]
  have "stage < length (route_objects routes)" using assms(1) pos(1,2) unfolding plan_ok_def by (metis nth_mem)
  moreover have "same_stages routes (ar_routes s)" using assms(4) by (simp add: plan_run_def)
  ultimately have al: "route_alias (stage_at s stage) = route_alias (route_objects routes ! stage)"
    using same_stages_stage by (fastforce simp: stage_at_def)
  show ?thesis
  proof (cases "ok_status status")
    case True
    have "map fst (ar_audits s) = filter (rejects routes) (take (k + 1) ordered)" using assms(4) by (simp add: plan_run_def)
    then have "map fst (ar_audits s) = filter (rejects routes) (takeWhile (\<lambda>i. i \<noteq> stage) ordered)"
      unfolding pos(3) reached_before [OF assms(1,2)] using assms(3) by simp
    with True al assms show ?thesis by (auto simp: answered_run_def served_def plan_run_def split: option.split)
  next
    case False
    from audit_all [OF assms(1,4)] obtain R audits where "map fst audits = filter (rejects routes) ordered"
      "auditRejected ordered s = s\<lparr>ar_unaudited := [], ar_routes := R, ar_audits := audits\<rparr>" by blast
    with False assms show ?thesis by (auto simp: answered_run_def served_def plan_run_def)
  qed
qed

lemma extends_sent: "extends w k stage s s' new \<Longrightarrow> ar_sent s' = ar_sent s @ new"
  by (auto simp: extends_def)

text \<open>The attempts on an admitted target, in a run that reached it.\<close>

lemma tried_stage:
  assumes "plan_ok routes ordered" and "plan_at w routes ordered m k (stage # later) s" and "\<not> rejects routes stage"
    and "continues s s1 []" and "installed_route (ar_routes s1) = Some ((route_objects routes ! stage)\<lparr>aliasReason := q\<rparr>)"
  shows "case try_accounts w ordered key follow k stage later i as True stageReason s1 of
     Inl (s', answer) \<Rightarrow> plan_ended w routes ordered m key s' (Answered answer)
   | Inr (s', mayAdvance, _) \<Rightarrow> stopped_run w routes ordered m s' \<and> (mayAdvance \<longrightarrow> plan_at w routes ordered m (k + 1) later s')"
proof -
  have later: "drop k ordered = stage # later" using assms(2) by (simp add: plan_at_def)
  have quiet: "\<forall>x \<in> set (ar_sent s). \<not> responded x"
    using plan_stopped [OF assms(2)] by (simp add: stopped_run_def)
  have step: "continues s s' new" "list_all (authorized_send w routes ordered) new" "list_all (\<lambda>x. sent_position x = k) new"
    if "extends w k stage s1 s' new" for s' new
    using extends_continues [OF that] assms(4) same_stages_trans extends_authorized [OF that assms(5) later assms(3)]
    by (auto simp: continues_def)
  have tried: "case try_accounts w ordered key follow k stage later i as True stageReason s1 of
       Inl (s', answer) \<Rightarrow> answered_here w ordered key follow k stage s1 s' answer
     | Inr (s', mayAdvance, _) \<Rightarrow> all_declined w k stage s1 True s' mayAdvance" by (rule tried_accounts)
  show ?thesis
  proof (cases "try_accounts w ordered key follow k stage later i as True stageReason s1")
    case (Inl r)
    obtain s' answer where r: "r = (s', answer)" by fastforce
    from tried have "answered_here w ordered key follow k stage s1 s' answer" by (simp add: Inl r)
    then obtain new s2 where new: "extends w k stage s1 s2 new" "sorted_wrt (\<lambda>x _. declined x) new"
      and cases': "((answer = Client_gone \<or> (\<exists>e. answer = Alias_error e)) \<and> s' = s2 \<and> (\<forall>x \<in> set new. \<not> responded x))
       \<or> (\<exists>a status now before x. answer = Upstream_answer stage a status \<and> new = before @ [x] \<and> sent_account x = a
            \<and> sent_answer x = Attempt_response status \<and> s' = served w ordered key follow now stage a status s2 \<and> (\<exists>i. now = aw_at w k i))"
      unfolding answered_here_def by blast
    from plan_continues [OF assms(2,3) step [OF new(1)] new(2)] have run: "plan_run w routes ordered m (k + 1) s2" .
    have sent: "ar_sent s2 = ar_sent s @ new" using step(1) [OF new(1)] by (simp add: continues_def)
    from cases' show ?thesis
    proof (elim disjE conjE exE)
      assume "answer = Client_gone" "s' = s2" "\<forall>x \<in> set new. \<not> responded x"
      with run sent quiet show ?thesis by (auto simp: Inl r plan_ended_def stopped_run_def)
    next
      fix e
      assume "answer = Alias_error e" "s' = s2" "\<forall>x \<in> set new. \<not> responded x"
      with run sent quiet show ?thesis by (auto simp: Inl r plan_ended_def stopped_run_def)
    next
      fix a status now before x j
      assume answer: "answer = Upstream_answer stage a status" and x: "new = before @ [x]" "sent_account x = a" "sent_answer x = Attempt_response status"
        and s': "s' = served w ordered key follow now stage a status s2" "now = aw_at w k j"
      have "sent_stage x = stage" using new(1) x(1) by (auto simp: extends_def sent_here_def)
      moreover have "ar_sent s2 = (ar_sent s @ before) @ [x]" using sent x(1) by simp
      ultimately show ?thesis
        using served_run [OF assms(1) later assms(3) run, of "ar_sent s @ before" x a status key follow k j] x(2,3) answer s'
        by (simp add: Inl r plan_ended_def)
    qed
  next
    case (Inr r)
    obtain s' mayAdvance reason where r: "r = (s', mayAdvance, reason)" by (cases r) auto
    from tried have "all_declined w k stage s1 True s' mayAdvance" by (simp add: Inr r)
    then obtain new where new: "extends w k stage s1 s' new" "list_all declined new" "mayAdvance \<longleftrightarrow> list_all may_pass new"
      unfolding all_declined_def by auto
    have "sorted_wrt (\<lambda>x _. declined x) new" using new(2) by (induction new) (auto simp: list_all_iff)
    from plan_continues [OF assms(2,3) step [OF new(1)] this] have run: "plan_run w routes ordered m (k + 1) s'" .
    have "\<forall>x \<in> set (ar_sent s'). \<not> responded x"
      using step(1) [OF new(1)] new(2) quiet declined_not_responded by (auto simp: continues_def list_all_iff)
    with run have "stopped_run w routes ordered m s'" unfolding stopped_run_def by blast
    moreover have "plan_at w routes ordered m (k + 1) later s'" if mayAdvance
      using plan_advances [OF assms(2,3) step [OF new(1)]] new(3) that by simp
    ultimately show ?thesis by (simp add: Inr r)
  qed
qed

lemma admit_run:
  assumes "admit_stage w k sel s = Inr p"
  shows "continues s (pool_run p) [] \<and> ar_routes (pool_run p) = ar_routes s"
  using assms by (auto simp: admit_stage_def Let_def bind_result_Inr split_beta continues_def)

lemma continues_skip [simp]:
  "continues s (skip_stage stage permission s') [] = continues s s' []"
  "continues s (s'\<lparr>ar_servable := b\<rparr>) [] = continues s s' []" "continues s (s'\<lparr>ar_reason := reason\<rparr>) [] = continues s s' []"
  by (simp_all add: continues_def skip_stage_def)

lemma continues_routes: "same_stages (ar_routes s) routes \<Longrightarrow> continues s (s\<lparr>ar_routes := routes\<rparr>) []"
  by (simp add: continues_def)

lemma continues_trans: "continues s s' [] \<Longrightarrow> continues s' s'' [] \<Longrightarrow> continues s s'' []"
  using same_stages_trans by (auto simp: continues_def)

lemma plan_skips:
  "plan_at w routes ordered m k (stage # later) s \<Longrightarrow> \<not> rejects routes stage \<Longrightarrow> continues s s' []
    \<Longrightarrow> plan_at w routes ordered m (k + 1) later s'"
  by (rule plan_advances [where new = "[]"]) simp_all

lemma plan_ended_stopped:
  "plan_ended w routes ordered m key s (Answered Client_gone) \<longleftrightarrow> stopped_run w routes ordered m s"
  "plan_ended w routes ordered m key s (Answered (Alias_error e)) \<longleftrightarrow> stopped_run w routes ordered m s"
  "plan_ended w routes ordered m key s Exhausted \<longleftrightarrow> stopped_run w routes ordered m s"
  "plan_ended w routes ordered m key s Failed_for_good \<longleftrightarrow> stopped_run w routes ordered m s"
  by (simp_all add: plan_ended_def)

lemma stages_ended:
  assumes "plan_ok routes ordered" and "plan_at w routes ordered m k later s"
  shows "case try_stages w rq ordered key k later s of (s', e) \<Rightarrow> plan_ended w routes ordered m key s' e"
  using assms(2)
proof (induction later arbitrary: k s)
  case Nil
  then show ?case using plan_stopped by (simp add: plan_ended_stopped)
next
  case (Cons stage later)
  note here = plan_stopped [OF Cons.prems]
  have len: "stage < length (route_objects routes)"
    using assms(1) Cons.prems plan_position(1,2) [of k ordered stage later] unfolding plan_ok_def plan_at_def by (metis nth_mem)
  have same: "same_stages routes (ar_routes s)" using Cons.prems by (simp add: plan_at_def plan_run_def)
  have len': "stage < length (route_objects (ar_routes s))"
    using len same unfolding same_stages_def by (metis length_map)
  have rejected: "admissionError (stage_at s stage) \<noteq> None \<longleftrightarrow> rejects routes stage"
    using same_stages_stage [OF same len] by (auto simp: stage_at_def rejects_def)
  show ?case
  proof (cases "aw_aborted w k None")
    case True
    with here show ?thesis by (simp add: plan_ended_stopped)
  next
    case going: False
    show ?thesis
    proof (cases "rejects routes stage")
      case True
      with Cons.IH [OF plan_rejects [OF assms(1) Cons.prems True]] going rejected show ?thesis by simp
    next
      case admitted: False
      note skips = Cons.IH [OF plan_skips [OF Cons.prems admitted]]
      show ?thesis
      proof (cases "selectAliasRoute stage (ar_reason s) (ar_routes s)")
        case (Inl e)
        with here going admitted rejected show ?thesis by (simp add: plan_ended_stopped)
      next
        case selected: (Inr R)
        let ?s = "s\<lparr>ar_routes := R\<rparr>"
        from select_stage [OF selected len'] have R: "same_stages (ar_routes s) R"
          "installed_route R = Some ((route_objects (ar_routes s) ! stage)\<lparr>aliasReason := ar_reason s\<rparr>)" by auto
        then have go: "continues s ?s []" by (intro continues_routes)
        have "installed_route R = Some ((route_objects routes ! stage)\<lparr>aliasReason := ar_reason s\<rparr>)"
          using R(2) same_stages_stage [OF same len] by auto
        note installed = this
        have stop: "stopped_run w routes ordered m ?s" using plan_stopped plan_skips [OF Cons.prems admitted go] by blast
        show ?thesis
        proof (cases "selectAccountsForRequest (aw_hash w) (aw_pausesOnOverage w) (aw_now w k) (aw_clock w k) (aw_ctx w k) (aw_phase w k)
            (aw_excluded w k) R rq (ar_meta s) (ar_strategy s)")
          case (Inl e)
          from skips [of "skip_stage stage True ?s"] go
          have "case try_stages w rq ordered key (k + 1) later (skip_stage stage True ?s) of (s', e) \<Rightarrow> plan_ended w routes ordered m key s' e" by simp
          with Inl stop going admitted rejected selected show ?thesis by (simp add: plan_ended_stopped Let_def)
        next
          case sel: (Inr sel)
          show ?thesis
          proof (cases "admit_stage w k sel ?s")
            case (Inl e)
            with sel stop going admitted rejected selected show ?thesis by (simp add: plan_ended_stopped)
          next
            case pool: (Inr p)
            from admit_run [OF pool] have p: "continues ?s (pool_run p) []" "ar_routes (pool_run p) = R" by simp_all
            note go' = continues_trans [OF go p(1)]
            show ?thesis
            proof (cases "pool_accounts p = [] \<and> pool_context p")
              case True
              from skips [of "skip_stage stage False (pool_run p)"] go'
              have "case try_stages w rq ordered key (k + 1) later (skip_stage stage False (pool_run p)) of (s', e) \<Rightarrow> plan_ended w routes ordered m key s' e" by simp
              with True pool sel going admitted rejected selected show ?thesis by simp
            next
              case False
              let ?p = "(pool_run p)\<lparr>ar_servable := True\<rparr>"
              have "continues s ?p []" "installed_route (ar_routes ?p) = Some ((route_objects routes ! stage)\<lparr>aliasReason := ar_reason s\<rparr>)"
                using go' installed p(2) by simp_all
              note tried = tried_stage [OF assms(1) Cons.prems admitted this, of key "pool_follow p" 0 "pool_accounts p" "pool_reason p"]
              show ?thesis
              proof (cases "try_accounts w ordered key (pool_follow p) k stage later 0 (pool_accounts p) True (pool_reason p) ?p")
                case (Inl r)
                with tried False pool sel going admitted rejected selected show ?thesis by (cases r) auto
              next
                case (Inr r)
                obtain s' mayAdvance reason where r: "r = (s', mayAdvance, reason)" by (cases r) auto
                from tried Inr r have s': "stopped_run w routes ordered m s'" "mayAdvance \<longrightarrow> plan_at w routes ordered m (k + 1) later s'" by simp_all
                have "case try_stages w rq ordered key (k + 1) later (s'\<lparr>ar_reason := Some reason\<rparr>) of (s', e) \<Rightarrow> plan_ended w routes ordered m key s' e" if mayAdvance
                  using s'(2) that by (intro Cons.IH) (simp add: plan_at_def plan_run_def)
                with s'(1) r Inr False pool sel going admitted rejected selected show ?thesis by (auto simp: plan_ended_stopped)
              qed
            qed
          qed
        qed
      qed
    qed
  qed
qed

text \<open>The stages of a plan are distinct positions.\<close>

definition distinct_plan :: "request_routes \<Rightarrow> bool" where
  "distinct_plan st \<longleftrightarrow> (\<forall>is. alias_stages st = Some is \<longrightarrow> distinct is)"

lemma distinct_plan_step: "distinct_plan st \<Longrightarrow> distinct_plan (route_step st ev)"
  by (cases ev) (auto simp: distinct_plan_def route_step_def installResolvedRoute_def installAliasRoutes_def install_object_def
      selectAliasRoute_def Let_def split: list.split option.split)

interpretation plan_ids: invariant_system route_step distinct_plan
  by unfold_locales (rule distinct_plan_step)

lemma stages_ok:
  assumes "routes = foldl route_step no_routes es" and "alias_stages routes = Some stages"
  shows "plan_ok routes stages"
proof -
  have "distinct_plan routes" unfolding assms(1) by (rule plan_ids.run_inv) (simp add: distinct_plan_def no_routes_def)
  moreover have "routes_wf routes" unfolding assms(1) by (rule routes.run_inv) (simp add: routes_wf_def no_routes_def)
  moreover note assms(2)
  ultimately show ?thesis by (simp add: plan_ok_def distinct_plan_def routes_wf_def)
qed

lemma plan_order_set:
  assumes "plan_order objs stages held now = (preferred, ordered)" and "distinct stages"
  shows "set ordered = set stages \<and> distinct ordered"
proof (cases preferred)
  case None
  with assms show ?thesis by (auto simp: plan_order_def split: option.splits)
next
  case (Some p)
  with assms(1) have "p \<in> set (admissibleAliasStages objs stages)" and ordered: "ordered = p # filter (\<lambda>i. i \<noteq> p) stages"
    by (auto simp: plan_order_def dest: find_SomeD split: option.splits if_splits)
  then have "p \<in> set stages" by (auto simp: admissibleAliasStages_def)
  with assms(2) show ?thesis by (auto simp: ordered)
qed

text \<open>The order in which the targets of a request are tried.\<close>

definition alias_order :: "alias_world \<Rightarrow> request_routes \<Rightarrow> alias_key option \<Rightarrow> alias_memo \<Rightarrow> nat list" where
  "alias_order w routes key m = snd (plan_order (route_objects routes) (the (alias_stages routes)) (Option.bind key (jm_get m)) (aw_start w))"

definition plan_key :: "request_routes \<Rightarrow> request_meta \<Rightarrow> alias_key option" where
  "plan_key routes meta = (case alias_stages routes of Some (i # _) \<Rightarrow> Option.bind (route_alias (route_objects routes ! i)) (alias_affinityKey meta) | _ \<Rightarrow> None)"

definition quiet_run :: "alias_world \<Rightarrow> request_routes \<Rightarrow> nat list \<Rightarrow> alias_memo \<Rightarrow> alias_run \<Rightarrow> bool" where
  "quiet_run w routes ordered m s \<longleftrightarrow> fallback_chain (ar_sent s) \<and> list_all (authorized_send w routes ordered) (ar_sent s)
     \<and> ar_memo s = m \<and> (\<forall>x \<in> set (ar_sent s). \<not> responded x)"

lemma stopped_quiet: "stopped_run w routes ordered m s \<Longrightarrow> quiet_run w routes ordered m s"
  by (auto simp: stopped_run_def quiet_run_def plan_run_def)

lemma terminal_run:
  assumes "plan_ok routes ordered" and "stopped_run w routes ordered m s0" and "alias_terminal ordered forGood s0 = (s, answer)"
  shows "quiet_run w routes ordered m s \<and> map fst (ar_audits s) = filter (rejects routes) ordered \<and> (\<forall>stage a status. answer \<noteq> Upstream_answer stage a status)"
proof -
  from assms(2) obtain k where "plan_run w routes ordered m k s0" by (auto simp: stopped_run_def)
  from audit_all [OF assms(1) this] obtain R audits where audits: "map fst audits = filter (rejects routes) ordered"
    and run: "auditRejected ordered s0 = s0\<lparr>ar_unaudited := [], ar_routes := R, ar_audits := audits\<rparr>" by blast
  from assms(3) have "ar_sent s = ar_sent s0 \<and> ar_memo s = ar_memo s0 \<and> ar_audits s = audits \<and> (\<forall>stage a status. answer \<noteq> Upstream_answer stage a status)"
    unfolding alias_terminal_def run Let_def
    by (auto split: option.splits prod.splits bool.splits sum.splits if_splits)
  with stopped_quiet [OF assms(2)] audits show ?thesis by (simp add: quiet_run_def)
qed

lemma handled:
  assumes "handleAliasProxy w rq routes st meta m = Inr (s, answer)" and "routes = foldl route_step no_routes es"
  shows "set (alias_order w routes (plan_key routes meta) m) = set (the (alias_stages routes))
    \<and> distinct (alias_order w routes (plan_key routes meta) m)
    \<and> (case answer of
         Upstream_answer stage a status \<Rightarrow> answered_run w routes (alias_order w routes (plan_key routes meta) m) m (plan_key routes meta) s stage a status
       | _ \<Rightarrow> quiet_run w routes (alias_order w routes (plan_key routes meta) m) m s
           \<and> (\<exists>k. map fst (ar_audits s) = filter (rejects routes) (take k (alias_order w routes (plan_key routes meta) m)))
           \<and> ((\<exists>r. answer = Bridge_answer r) \<or> (\<exists>status message. answer = Terminal status message)
              \<longrightarrow> map fst (ar_audits s) = filter (rejects routes) (alias_order w routes (plan_key routes meta) m)))"
proof -
  let ?key = "plan_key routes meta" and ?ordered = "alias_order w routes (plan_key routes meta) m"
  from assms(1) obtain stages i rest al where stages: "alias_stages routes = Some stages" "stages = i # rest" "route_alias (route_objects routes ! i) = Some al"
    by (auto simp: handleAliasProxy_def split: option.splits list.splits)
  then have key: "?key = alias_affinityKey meta al" by (simp add: plan_key_def)
  obtain preferred ordered where order: "plan_order (route_objects routes) stages (Option.bind ?key (jm_get m)) (aw_start w) = (preferred, ordered)"
    by fastforce
  then have ordered: "?ordered = ordered" by (simp add: alias_order_def stages(1))
  have stages_plan: "plan_ok routes stages" using stages_ok [OF assms(2) stages(1)] .
  then have set: "set ordered = set stages" "distinct ordered" using plan_order_set [OF order] by (simp_all add: plan_ok_def)
  with stages_plan have ok: "plan_ok routes ordered" by (simp add: plan_ok_def)
  obtain s1 e where run: "try_stages w rq ordered ?key 0 ordered (alias_start routes st meta m ordered preferred) = (s1, e)" by fastforce
  have "plan_at w routes ordered m 0 ordered (alias_start routes st meta m ordered preferred)"
    by (simp add: plan_at_def plan_run_def alias_start_def rejects_def [abs_def] fallback_chain_def)
  from stages_ended [OF ok this, where rq = rq and key = ?key] have ended: "plan_ended w routes ordered m ?key s1 e" by (simp add: run)
  have result: "(s, answer) = (case e of Answered answer \<Rightarrow> (s1, answer)
      | _ \<Rightarrow> if aw_abortedEnd w then (s1, Client_gone) else alias_terminal ordered (e = Failed_for_good) s1)"
    using assms(1) stages key order run by (cases e) (auto simp: handleAliasProxy_def)
  have quiet: "quiet_run w routes ordered m s1 \<and> (\<exists>k. map fst (ar_audits s1) = filter (rejects routes) (take k ordered))"
    if "stopped_run w routes ordered m s1"
    using stopped_quiet [OF that] that by (auto simp: stopped_run_def plan_run_def)
  have terminal: "quiet_run w routes ordered m s \<and> (\<exists>k. map fst (ar_audits s) = filter (rejects routes) (take k ordered))
      \<and> map fst (ar_audits s) = filter (rejects routes) ordered \<and> (\<forall>stage a status. answer \<noteq> Upstream_answer stage a status)"
    if "stopped_run w routes ordered m s1" "alias_terminal ordered forGood s1 = (s, answer)" for forGood
    using terminal_run [OF ok that] by (metis order_refl take_all)
  show ?thesis
    unfolding ordered stages(1) option.sel
  proof (intro conjI set)
    show "case answer of
         Upstream_answer stage a status \<Rightarrow> answered_run w routes ordered m ?key s stage a status
       | _ \<Rightarrow> quiet_run w routes ordered m s \<and> (\<exists>k. map fst (ar_audits s) = filter (rejects routes) (take k ordered))
           \<and> ((\<exists>r. answer = Bridge_answer r) \<or> (\<exists>status message. answer = Terminal status message)
              \<longrightarrow> map fst (ar_audits s) = filter (rejects routes) ordered)"
    proof (cases e)
      case (Answered answer')
      with result ended quiet show ?thesis by (cases answer') (simp_all add: plan_ended_def)
    next
      case Exhausted
      with result ended quiet terminal [of False] show ?thesis
        by (cases "aw_abortedEnd w"; cases answer) (auto simp: plan_ended_def)
    next
      case Failed_for_good
      with result ended quiet terminal [of True] show ?thesis
        by (cases "aw_abortedEnd w"; cases answer) (auto simp: plan_ended_def)
    qed
  qed
qed

subsection \<open>Properties\<close>

lemma chain_pairs:
  "fallback_chain xs \<longleftrightarrow> (\<forall>i j. i < j \<longrightarrow> j < length xs \<longrightarrow> sent_position (xs ! i) \<le> sent_position (xs ! j) \<and> declined (xs ! i)
     \<and> (sent_position (xs ! i) < sent_position (xs ! j) \<longrightarrow> may_pass (xs ! i)))"
  by (simp add: fallback_chain_def sorted_wrt_iff_nth_less)

text \<open>
  C10. Falling back to another target is a last resort. Whatever the strategy, the gates, other requests and the wire do,
  the attempts of a request for an alias go through its targets in one order; each goes to a target that was admitted
  when the plan was built, for an account that target authorizes; every attempt but the last was declined, and an
  attempt on a later target is made only when every attempt on the earlier ones failed for a reason that may pass, so
  never after a refusal of the request or the model; and a response, good or bad, is always the last one and the answer.
\<close>

theorem alias_fallback_discipline:
  assumes "handleAliasProxy w rq routes st meta m = Inr (s, answer)" and "routes = foldl route_step no_routes es"
    and "ordered = alias_order w routes (plan_key routes meta) m" and "made = ar_sent s"
  shows "set ordered = set (the (alias_stages routes)) \<and> distinct ordered
    \<and> (\<forall>x \<in> set made. sent_stage x = ordered ! sent_position x \<and> sent_position x < length ordered \<and> \<not> rejects routes (sent_stage x)
        \<and> route_target (cx_scopeOf (aw_ctx w (sent_position x))) (route_objects routes ! sent_stage x) (sent_account x) \<noteq> None)
    \<and> (\<forall>i j. i < j \<longrightarrow> j < length made \<longrightarrow> sent_position (made ! i) \<le> sent_position (made ! j) \<and> declined (made ! i)
        \<and> (sent_position (made ! i) < sent_position (made ! j) \<longrightarrow> may_pass (made ! i)))
    \<and> (case answer of
         Upstream_answer stage a status \<Rightarrow> made \<noteq> [] \<and> sent_stage (last made) = stage \<and> sent_account (last made) = a
           \<and> sent_answer (last made) = Attempt_response status
       | _ \<Rightarrow> \<forall>x \<in> set made. \<not> responded x)"
proof -
  note run = handled [OF assms(1,2), folded assms(3)]
  have facts: "fallback_chain made \<and> list_all (authorized_send w routes ordered) made
    \<and> (case answer of
         Upstream_answer stage a status \<Rightarrow> made \<noteq> [] \<and> sent_stage (last made) = stage \<and> sent_account (last made) = a
           \<and> sent_answer (last made) = Attempt_response status
       | _ \<Rightarrow> \<forall>x \<in> set made. \<not> responded x)"
    using run by (cases answer) (auto simp: assms(4) quiet_run_def answered_run_def)
  moreover have "set ordered = set (the (alias_stages routes)) \<and> distinct ordered" using run by blast
  ultimately show ?thesis unfolding chain_pairs list_all_iff authorized_send_def by blast
qed

lemma first_part: "\<exists>k. (if b then takeWhile P xs else xs) = take k xs"
  by (cases b) (auto intro: takeWhile_eq_take exI [of _ "length xs"])

text \<open>
  C11. A rejected target is audited where the request passes it, once. When a target serves the request, the audited
  ones are exactly the rejected targets before it; when the answer is a response that is not good, a refusal of the
  bridge or the terminal of the proxy, they are all the rejected targets of the plan; and in any other case they are
  the rejected ones of a first part of the plan; always in the order of the plan and without repetition.
\<close>

theorem alias_audit_exact:
  assumes "handleAliasProxy w rq routes st meta m = Inr (s, answer)" and "routes = foldl route_step no_routes es"
    and "ordered = alias_order w routes (plan_key routes meta) m"
  shows "distinct (map fst (ar_audits s)) \<and> (case answer of
      Upstream_answer stage _ status \<Rightarrow>
        map fst (ar_audits s) = filter (rejects routes) (if ok_status status then takeWhile (\<lambda>i. i \<noteq> stage) ordered else ordered)
    | Bridge_answer _ \<Rightarrow> map fst (ar_audits s) = filter (rejects routes) ordered
    | Terminal _ _ \<Rightarrow> map fst (ar_audits s) = filter (rejects routes) ordered
    | _ \<Rightarrow> \<exists>k. map fst (ar_audits s) = filter (rejects routes) (take k ordered))"
proof -
  note run = handled [OF assms(1,2), folded assms(3)]
  then have ordered: "distinct ordered" by simp
  have whole: "\<exists>k. filter (rejects routes) ordered = filter (rejects routes) (take k ordered)"
    by (intro exI [of _ "length ordered"]) simp
  have "\<exists>k. map fst (ar_audits s) = filter (rejects routes) (take k ordered)"
  proof (cases answer)
    case (Upstream_answer stage a status)
    with run have "map fst (ar_audits s) = filter (rejects routes) (if ok_status status then takeWhile (\<lambda>i. i \<noteq> stage) ordered else ordered)"
      by (simp add: answered_run_def)
    with first_part [of "ok_status status" "\<lambda>i. i \<noteq> stage" ordered] show ?thesis by metis
  qed (use run whole in simp_all)
  then have "distinct (map fst (ar_audits s))" using ordered by (metis distinct_filter distinct_take)
  with run show ?thesis by (cases answer) (simp_all add: answered_run_def)
qed

lemma remember_bound:
  assumes "length m \<le> MAX_AFFINITIES"
  shows "length (remember key index now m) \<le> MAX_AFFINITIES"
proof (cases key)
  case None
  with assms show ?thesis by (simp add: remember_def)
next
  case (Some k)
  define live where "live = jm_delete (filter (\<lambda>(_, h). \<not> held_expires h \<le> now) m) k"
  define room where "room = (if length live \<ge> MAX_AFFINITIES then tl live else live)"
  have "length live \<le> MAX_AFFINITIES" unfolding live_def
    by (rule order_trans [OF jm_length_delete_le order_trans [OF length_filter_le assms]])
  moreover have "0 < MAX_AFFINITIES" by (simp add: MAX_AFFINITIES_def)
  ultimately have "Suc (length room) \<le> MAX_AFFINITIES" by (auto simp: room_def)
  moreover have "remember key index now m = jm_set room k \<lparr>held_targetIndex = index, held_expires = now + AFFINITY_TTL_MS\<rparr>"
    by (simp add: Some remember_def live_def room_def Let_def)
  then have "length (remember key index now m) \<le> Suc (length room)" by (simp add: jm_length_set_le)
  ultimately show ?thesis by (rule order_trans [rotated])
qed

lemma remember_get: "jm_get (remember (Some k) index now m) k = Some \<lparr>held_targetIndex = index, held_expires = now + AFFINITY_TTL_MS\<rparr>"
  by (simp add: remember_def Let_def)

lemma held_first:
  assumes "held_expires h > now" and "i \<in> set stages" and "admissionError (objs ! i) = None"
    and "map_option alias_targetIndex (route_alias (objs ! i)) = Some (held_targetIndex h)"
  shows "\<exists>p rest. snd (plan_order objs stages (Some h) now) = p # rest \<and> admissionError (objs ! p) = None
    \<and> map_option alias_targetIndex (route_alias (objs ! p)) = Some (held_targetIndex h)"
proof -
  let ?find = "List.find (\<lambda>i. map_option alias_targetIndex (route_alias (objs ! i)) = Some (held_targetIndex h)) (admissibleAliasStages objs stages)"
  have "?find \<noteq> None" using assms(2-4) by (auto simp: find_None_iff admissibleAliasStages_def)
  then obtain p where p: "?find = Some p" by blast
  from find_SomeD [OF p] have "admissionError (objs ! p) = None"
    "map_option alias_targetIndex (route_alias (objs ! p)) = Some (held_targetIndex h)" by (simp_all add: admissibleAliasStages_def)
  with p assms(1) show ?thesis by (simp add: plan_order_def)
qed


subsection \<open>Examples\<close>

text \<open>Three targets: the first is rejected, the second has spent its quota, the third serves.\<close>

definition sample_target_route :: "nat \<Rightarrow> string \<Rightarrow> routing_policy_error option \<Rightarrow> route" where
  "sample_target_route n i err = sample_route\<lparr>admissionError := err,
     route_alias := Some \<lparr>alias_id = ''fast'', alias_revision = 1, alias_targetIndex = n\<rparr>,
     targets := (if err = None then [(i, account_target (\<lambda>_. ''s'') ''claude-opus-4'' From_identity (sample_account i 0))] else [])\<rparr>"

definition sample_plan :: "route_event list" where
  "sample_plan = [Install_alias [sample_target_route 0 ''c'' (Some (Unknown_alias ''c'')), sample_target_route 1 ''a'' None, sample_target_route 2 ''b'' None]]"

definition sample_alias_routes :: request_routes where
  "sample_alias_routes = foldl route_step no_routes sample_plan"

definition sample_world :: alias_world where
  "sample_world = \<lparr>aw_hash = id, aw_pausesOnOverage = (\<lambda>_. False), aw_accounts = [sample_account ''a'' 0, sample_account ''b'' 0],
     aw_request = 0, aw_path = ''/v1/messages'', aw_viaBridge = False, aw_start = 1000, aw_aborted = (\<lambda>_ _. False), aw_abortedEnd = False,
     aw_ctx = (\<lambda>_. sample_context\<lparr>cx_accounts := [sample_account ''a'' 0, sample_account ''b'' 0],
       cx_answers := (\<lambda>_ _. Permissions (sample_permissions [''claude-opus-4''])), cx_scopeOf := (\<lambda>_. ''s'')\<rparr>),
     aw_phase = (\<lambda>_. 0), aw_excluded = (\<lambda>_. []), aw_now = (\<lambda>_. 1000), aw_clock = (\<lambda>_. 1000),
     aw_gates = (\<lambda>_ _. sample_env\<lparr>cache_peek := (\<lambda>_. None), cache_view := (\<lambda>_ _ _. None)\<rparr>), aw_lists = (\<lambda>_. no_lists),
     aw_times = (\<lambda>_ _. 1000), aw_row = (\<lambda>_ _ a. a), aw_at = (\<lambda>_ _. 1000), aw_burst = (\<lambda>_ _. False), aw_probe = (\<lambda>_ _. empty_gate),
     aw_attempt = (\<lambda>k _ _ _ _ g. (g, if k = 1 then Attempt_declined (Some Hard_429) None else Attempt_response 200))\<rparr>"

abbreviation (input) sample_balancer :: strategy_state where
  "sample_balancer \<equiv> Least_used_strategy \<lparr>lu_store = None, lu_lastPickedAt = [], lu_store_log = []\<rparr>"

lemma sample_handled: "map_sum id (\<lambda>(s, answer). (map (\<lambda>x. (sent_position x, sent_answer x)) (ar_sent s), answer))
    (handleAliasProxy sample_world sample_request sample_alias_routes sample_balancer sample_meta [])
  = Inr ([(1, Attempt_declined (Some Hard_429) None), (2, Attempt_response 200)], Upstream_answer 2 (sample_account ''b'' 0) 200)"
  by code_simp

lemma sample_alias_run:
  obtains s where "handleAliasProxy sample_world sample_request sample_alias_routes sample_balancer sample_meta []
      = Inr (s, Upstream_answer 2 (sample_account ''b'' 0) 200)"
    and "map sent_position (ar_sent s) = [1, 2]"
proof -
  from sample_handled obtain s answer where run: "handleAliasProxy sample_world sample_request sample_alias_routes sample_balancer sample_meta [] = Inr (s, answer)"
    and facts: "map (\<lambda>x. (sent_position x, sent_answer x)) (ar_sent s) = [(1, Attempt_declined (Some Hard_429) None), (2, Attempt_response 200)]"
      "answer = Upstream_answer 2 (sample_account ''b'' 0) 200"
    by (auto simp: map_sum_Inr)
  from facts(1) have "map fst (map (\<lambda>x. (sent_position x, sent_answer x)) (ar_sent s)) = [1, 2]" by simp
  then have "map sent_position (ar_sent s) = [1, 2]" by (simp add: comp_def)
  with run facts(2) that show thesis by simp
qed

lemma sample_order: "alias_order sample_world sample_alias_routes (plan_key sample_alias_routes sample_meta) [] = [0, 1, 2]"
  by code_simp

theorem alias_fallback_discipline_witness:
  "\<exists>s. handleAliasProxy sample_world sample_request sample_alias_routes sample_balancer sample_meta []
      = Inr (s, Upstream_answer 2 (sample_account ''b'' 0) 200) \<and> length (ar_sent s) = 2 \<and> may_pass (ar_sent s ! 0)"
proof -
  obtain s where s: "handleAliasProxy sample_world sample_request sample_alias_routes sample_balancer sample_meta []
      = Inr (s, Upstream_answer 2 (sample_account ''b'' 0) 200)" "map sent_position (ar_sent s) = [1, 2]" by (rule sample_alias_run)
  then have two: "length (ar_sent s) = 2" by (metis length_map length_Cons list.size(3) numeral_2_eq_2)
  then have "sent_position (ar_sent s ! 0) = 1" "sent_position (ar_sent s ! 1) = 2"
    using s(2) nth_map [of 0 "ar_sent s" sent_position] nth_map [of 1 "ar_sent s" sent_position] by simp_all
  with alias_fallback_discipline [OF s(1) sample_alias_routes_def refl refl] two have "may_pass (ar_sent s ! 0)" by force
  with s(1) two show ?thesis by (intro exI [of _ s] conjI)
qed

theorem alias_audit_exact_witness:
  "\<exists>s. handleAliasProxy sample_world sample_request sample_alias_routes sample_balancer sample_meta []
      = Inr (s, Upstream_answer 2 (sample_account ''b'' 0) 200) \<and> map fst (ar_audits s) = [0]"
proof -
  obtain s where s: "handleAliasProxy sample_world sample_request sample_alias_routes sample_balancer sample_meta []
      = Inr (s, Upstream_answer 2 (sample_account ''b'' 0) 200)" by (rule sample_alias_run)
  have ok: "ok_status 200" by (simp add: ok_status_def)
  from alias_audit_exact [OF s sample_alias_routes_def sample_order [symmetric], THEN conjunct2, unfolded alias_answer.case]
  have "map fst (ar_audits s) = filter (rejects sample_alias_routes) (takeWhile (\<lambda>i. i \<noteq> 2) [0, 1, 2])"
    unfolding if_P [OF ok] .
  also have "\<dots> = [0]" by code_simp
  finally have "map fst (ar_audits s) = [0]" .
  with s show ?thesis by (intro exI [of _ s] conjI)
qed


end
