(* ===== verification/Spec2Isabelle.thy ===== *)
theory Spec2Isabelle
  imports LeastUsed HoldSlots Registries OverloadBreaker RateLimitCooldown TokenRotation SessionBridge SessionPromotion
    UsageThrottle RoutingRules ReadGate AdmissionGates AsyncWriter DbRetry ReadBudget AliasRouting
begin

text \<open>
  ClankerMux is a proxy that spreads Claude and Codex traffic over a pool of accounts. This
  development models the part of it that decides which account serves a request, that keeps
  accounts and providers out of routing while they are limited or overloaded, that keeps prompt
  caches warm, and that keeps rotated credentials from being lost. All source paths are under
  \<^verbatim>\<open>src/packages\<close>.

  \<^bold>\<open>How the parts interact.\<close> A request is matched by a routing rule, which may rename its model and
  narrow the pool (\<^verbatim>\<open>core/src/routing.ts\<close>). The destinations of its key, its headers and fields, the model permissions
  of the accounts and the rule decide once which account may serve it with which model; that route is frozen for the
  request (\<^verbatim>\<open>proxy/src/routing-service.ts\<close>, \<^verbatim>\<open>proxy/src/resolved-route.ts\<close>), and selection asks again which of its
  accounts still qualify (\<^verbatim>\<open>proxy/src/handlers/account-selector.ts\<close>). A strategy ranks the available accounts of the pool and
  keeps a client on the account it is pinned to (\<^verbatim>\<open>load-balancer/src/strategies\<close>). Usage readings
  delay accounts that burn faster than their window (\<^verbatim>\<open>core/src/throttle-utils.ts\<close>). They are polled from the
  provider, at a bounded rate (\<^verbatim>\<open>providers/src/usage-read-budget.ts\<close>), and brought up to date from the headers of
  later responses (\<^verbatim>\<open>providers/src/usage-header-view.ts\<close>). The ranked accounts then pass the admission gates
  (\<^verbatim>\<open>proxy/src/admission-gates.ts\<close>): overload, throttle, family quota and context window drop accounts,
  reservations and failure memos move them to the back. Every send then passes the last checks before the wire and
  leaves a row of its attempt (\<^verbatim>\<open>proxy/src/routing-dispatch.ts\<close>), which the observer of the body, the classifier of the
  failure and the handler of a client that left write in any order
  (\<^verbatim>\<open>database/src/repositories/routing.repository.ts\<close>, \<^verbatim>\<open>proxy/src/pre-head-client-abort.ts\<close>). A request for a model
  alias repeats selection, gates and attempts for one target after the other
  (\<^verbatim>\<open>proxy/src/model-alias-routing.ts\<close>). A 429 puts a
  cooldown on the account, a 529 trips a breaker for the provider; when either elapses, a single
  probe is let through before traffic resumes (\<^verbatim>\<open>proxy/src/handlers/rate-limit-cooldown.ts\<close>,
  \<^verbatim>\<open>proxy/src/provider-overload-cooldown.ts\<close>). Cooldowns write the account's row, which availability
  and the strategies read. Sessions with a large cached prefix are replayed while idle, within a
  budget (\<^verbatim>\<open>proxy/src/session-cache-store.ts\<close>), and refresh tokens whose write to the
  database failed are held and written later (\<^verbatim>\<open>proxy/src/handlers/pending-rotation-registry.ts\<close>).
  Rows and request payloads are written behind the request by a queue with a budget
  (\<^verbatim>\<open>database/src/async-writer.ts\<close>), and a locked database is retried (\<^verbatim>\<open>database/src/retry.ts\<close>).

  \<^bold>\<open>The theories.\<close>
  \<^item> \<^verbatim>\<open>JsBase\<close>: what the sources use of JavaScript (insertion-ordered maps, stable sort, nullable
    numbers, strings, infinite deadlines) and the interfaces as locales: \<open>consistent_comparator\<close>,
    \<open>keyed_store\<close>, \<open>invariant_system\<close>, \<open>refined_system\<close>. Each component interprets those it relies on.
  \<^item> \<^verbatim>\<open>Accounts\<close>, \<^verbatim>\<open>Availability\<close>: account rows, the provider table, model families, the backoff
    ramp; \<^verbatim>\<open>isAccountAvailable\<close> and the auto-unpause rules of \<^verbatim>\<open>peek-availability.ts\<close>.
  \<^item> \<^verbatim>\<open>Affinity\<close>, \<^verbatim>\<open>SessionRanking\<close>, \<^verbatim>\<open>SessionStrategy\<close>: \<^verbatim>\<open>strategies/index.ts\<close>. The pin map with
    pruning, export and import; the comparator of \<^verbatim>\<open>sortAvailableAccounts\<close>; \<^verbatim>\<open>select\<close> on every branch.
    Shown: pins are bounded and live, import and export round-trip and never replace a newer pin, the
    ranking is the stable sort by a lexicographic key, \<^verbatim>\<open>select\<close> returns exactly the available accounts
    with the pinned one first, holds or reassigns a pin as its account fails, and
    \<^verbatim>\<open>peek\<close> predicts it.
  \<^item> \<^verbatim>\<open>LeastUsed\<close>: \<^verbatim>\<open>strategies/least-used.ts\<close>, with the contract both strategies meet as a locale.
  \<^item> \<^verbatim>\<open>HoldSlots\<close>, \<^verbatim>\<open>Registries\<close>: the keyed semaphore with its two pools, the burst marker, the
    transient-failure table, refusal credits and the TTL cache.
  \<^item> \<^verbatim>\<open>OverloadBreaker\<close>: the breaker with its half-open probes. Shown for every run of its operations:
    at most one probe per bucket, a token from before a trip changes nothing, families are
    isolated, and once the deadline has passed a probe is admitted.
  \<^item> \<^verbatim>\<open>ProbeGate\<close>, \<^verbatim>\<open>RateLimitCooldown\<close>: the leases and markers of the account probe, and the cooldown
    handlers with the row writes they enqueue (\<^verbatim>\<open>database/src/repositories/account.repository.ts\<close>).
    Shown: single flight, settlement by the owner only, the escalation of cooldowns without a
    reset, and that a late success does not clear a newer limit.
  \<^item> \<^verbatim>\<open>TokenRotation\<close>: the registry of pending rotations with the compare-and-swap row write. The
    write is split at its \<^verbatim>\<open>await\<close>, and any number of flushes and rotations interleave: the newest
    token is never lost, and one undisturbed flush lands it.
  \<^item> \<^verbatim>\<open>BridgePolicy\<close>, \<^verbatim>\<open>SessionBridge\<close>, \<^verbatim>\<open>SessionPromotion\<close>: costs and budgets of keepalives, the store of
    session bodies with its memory bounds, and the promotion of sessions to the one-hour cache.
  \<^item> \<^verbatim>\<open>UsageWindows\<close>, \<^verbatim>\<open>UsageThrottle\<close>: window starts (with the calendar the monthly window needs), the pace
    line, the normalisation of usage payloads and the throttle of an account.
  \<^item> \<^verbatim>\<open>RoutingRules\<close>: validation, matching and resolution of rules; the two regular expressions of
    \<^verbatim>\<open>getRoutingModelFamily\<close> are matched by derivatives, proved to decide their language.
  \<^item> \<^verbatim>\<open>ReadGate\<close>: \<^verbatim>\<open>proxy/src/spaced-read-gate.ts\<close>, which spaces the reads of provider usage; it refines
    a pair of queues.
  \<^item> \<^verbatim>\<open>Capacity\<close>: the capacity signal of a usage payload for every provider, scoped limits and exhaustion
    verdicts (\<^verbatim>\<open>usage-fetcher.ts\<close>, \<^verbatim>\<open>scoped-limits.ts\<close>, \<^verbatim>\<open>weekly-exhaustion.ts\<close>, \<^verbatim>\<open>usage-window-extract.ts\<close>). Shown:
    the readers of one payload agree on what is spent and until when.
  \<^item> \<^verbatim>\<open>ClaimHeaders\<close>, \<^verbatim>\<open>HeaderView\<close>: the rate-limit headers of a response, the store of the newest header
    readings and the view that merges them with the poll. Shown: the store does not depend on the
    order in which responses arrive, and the view takes the newer source of each window.
  \<^item> \<^verbatim>\<open>FamilyGates\<close>, \<^verbatim>\<open>AdmissionGates\<close>: the decisions per model family and the gates that use them, in the order
    \<^verbatim>\<open>handleProxy\<close> runs them. Shown: what the pipeline returns and drops, when it throws, that a
    liveness reserve never holds back the whole pool, and that only a durable exclusion moves a pin.
  \<^item> \<^verbatim>\<open>ResolvedRoute\<close>, \<^verbatim>\<open>RoutingService\<close>, \<^verbatim>\<open>AccountSelection\<close>: the route of a request, how it is built from the pool,
    installed and re-evaluated, and the selection of its accounts. Shown: a route authorizes exactly the accounts
    that pass every restriction, an installed route is frozen, the status of a refused route, that the body sent
    names the authorized model and cannot override it, that the gates never reject a selection, and, from the stored
    key to the attempt loop, that only accounts the key allows are attempted.
  \<^item> \<^verbatim>\<open>AttemptRows\<close>, \<^verbatim>\<open>AttemptDispatch\<close>: the writes on the rows of a request's attempts, the sends in flight when its
    client leaves, and the dispatch of one attempt. Shown: what is sent was authorized at that moment and has an open
    row, every attempt ends with one finished row and with no quota use running, the verdict of a row does not depend
    on the order of its writers, and which send an abort abandons.
  \<^item> \<^verbatim>\<open>AliasRouting\<close>: the loop over the targets of an alias, composed of selection, gates and the chokepoint of
    the attempts. Shown: a later target is tried only after failures that may pass, rejected targets are audited
    once and only as far as the request got, and a conversation returns to the target that served it.
  \<^item> \<^verbatim>\<open>AsyncWriter\<close>, \<^verbatim>\<open>DbRetry\<close>: the write queue and the retry loop. Shown: the payload budget is exact on
    every interleaving, the drain at shutdown ends with an empty queue, and only lock contention is retried.
  \<^item> \<^verbatim>\<open>ReadBudget\<close>: admitted reads of one account are a full gap apart.
  \<^item> this theory: how a cooldown acts on both strategies and on a pin.

  \<^bold>\<open>State, errors, loops.\<close> A module's state is a record that every operation takes and returns; a
  \<^verbatim>\<open>throw\<close> is the left side of a sum, \<^verbatim>\<open>null\<close> and \<^verbatim>\<open>undefined\<close> are \<^term>\<open>None\<close>. Interleavings are lists of
  events, and invariants are proved for every such list. There is no fuel: all loops are
  structural, but for the eviction loop \<^verbatim>\<open>enforceBounds\<close> of the session store, \<^verbatim>\<open>next\<close> of the
  read gate, the retry loop of the database and the drain of its write queue, whose termination is proved by the
  number of slots, of waiters, of attempts left and of calls still to make. Time stamps and counters are unbounded integers
  (the sources stay below 2^53, where doubles are exact); percentages and prices are rationals,
  so rounding of doubles is not modelled.

  \<^bold>\<open>Parameters.\<close> SHA-256 of an affinity key, the usage store's numbers, the price table and the TTL
  inspection of a request body, the digests of an account identity, a credential and a body, \<^verbatim>\<open>JSON.parse\<close> of a stored
  endpoint, \<^verbatim>\<open>localeCompare\<close>, \<^verbatim>\<open>Math.random\<close>, what the permission service, the database and the wire answer, and the
  answers of the payload worker are arguments of the definitions that use them. Where a property
  needs a fact about one of them (a one-hour cache write costs no less than a five-minute one) it is a
  hypothesis of that property, and its witness instantiates it.

  \<^bold>\<open>Not modelled.\<close> The ordinary attempt loop of the request pipeline with its holds, and what one attempt does with a response (\<^verbatim>\<open>proxy/src/proxy.ts\<close>,
  \<^verbatim>\<open>handlers/proxy-operations.ts\<close>) and the token manager: network I/O, streams and timers around the decisions
  modelled here; the discovery of model permissions; provider adapters and format conversions; SQL access other than the row writes
  named above; recording, analytics and forecasting; the HTTP API and the dashboard. Log lines are
  left out throughout.
\<close>

section \<open>Properties across components\<close>

lemma cooldown_account:
  assumes "applyRateLimitCooldown now info False lease a s = (s', a')"
  shows "acc_id a' = acc_id a" "paused a' = paused a" "disabled a' = disabled a"
  using assms by (auto simp: applyRateLimitCooldown_def Let_def split: if_splits)

text \<open>The deadline of a 429 that names no reset, or one in the future.\<close>

lemma cooldown_deadline:
  assumes "applyRateLimitCooldown now info False lease a s = (s', a')" and "0 \<le> now"
    and "\<And>r. info_resetTime info = Some r \<Longrightarrow> now < r"
  obtains u where "rate_limited_until a' = Some u" "now < u"
proof (cases "info_resetTime info")
  case None
  have "now < now + computeRateLimitBackoffMs (consecutive_rate_limits a + 1)"
    using backoff_bounds(1) [of "consecutive_rate_limits a + 1"] by (simp add: RATE_LIMIT_BACKOFF_BASE_MS_def)
  with assms(1) None show ?thesis
    by (auto simp: cooldown_without_reset Let_def intro!: that split: if_splits)
next
  case (Some r)
  have "now < now + computeRateLimitBackoffMs (consecutive_rate_limits a + 1)"
    using backoff_bounds(1) [of "consecutive_rate_limits a + 1"] by (simp add: RATE_LIMIT_BACKOFF_BASE_MS_def)
  with assms(1) Some assms(2) assms(3) [OF Some] show ?thesis
    by (auto simp: applyRateLimitCooldown_def Let_def min_def intro!: that split: if_splits)
qed

lemma available_past_deadline:
  assumes "rate_limited_until a = Some u" and "u \<noteq> 0" and "\<not> paused a"
  shows "isAccountAvailable (if b then auto_unpause t a else a) t \<longleftrightarrow> \<not> disabled a \<and> u < t"
  using assms sample_unpause by (auto simp: isAccountAvailable_def auto_unpause_def wouldAutoUnpause_def
      isAutoUnpauseCandidate_def)



text \<open>
  A quota 429 that names a reset more than fifteen minutes away moves the conversation: the
  request is served by another account, when one is available, and stays pinned to that one.
\<close>

lemma quota_reset_moves_pin:
  assumes "distinct (map acc_id accounts)" and "find_account accounts (acc_id a) = Some a"
    and "0 \<le> now" and "now \<le> t" and "u - t > AFFINITY_REASSIGN_MIN_COOLDOWN_MS"
    and "info_resetTime info = Some u" and "\<not> truthy (info_floorUntil info)"
    and "or_reason (info_reason info) Upstream_429_with_reset \<notin> set TRANSIENT_RATE_LIMIT_REASONS"
    and "\<not> paused a"
    and "applyRateLimitCooldown now info False lease a cs = (cs', a')"
    and "live_pin hash t meta s ks e" and "entry_accountId e = acc_id a"
    and "r = select hash t clock (upd_account (acc_id a) (\<lambda>_. a') accounts) meta s"
    and "b \<in> set accounts" and "acc_id b \<noteq> acc_id a" and "isAccountAvailable b t"
  shows "\<exists>c. first_id (sel_result r) = Some c \<and> c \<noteq> acc_id a \<and> pinned (sel_state r) (pin_key ks) = Some c"
proof -
  note acc = cooldown_account [OF assms(10)]
  let ?pool = "upd_account (acc_id a) (\<lambda>_. a') accounts"
  have u: "rate_limited_until a' = Some u" "now < u" "0 < u"
    and reason: "rate_limited_reason a' = Some (or_reason (info_reason info) Upstream_429_with_reset)"
    using assms(3-7,10) by (auto simp: cooldown_with_reset Let_def AFFINITY_REASSIGN_MIN_COOLDOWN_MS_def)
  have d: "distinct (map acc_id ?pool)" using assms(1) by (simp add: upd_account_ids_const acc(1))
  have f: "find_account ?pool (entry_accountId e) = Some a'"
    using find_account_upd(1) [OF assms(2) acc(1)] by (simp add: assms(12))
  have un: "after_unpause t s x = x" if "\<not> paused x" for x using that by (simp add: sample_unpause)
  have un': "after_unpause t s a' = a'" using assms(9) acc(2) by (simp add: un)
  have br: "isAffinityBreakingUnavailability a' t" "\<not> isAccountAvailable a' t"
    using u reason assms(5,8) by (simp_all add: isAffinityBreakingUnavailability_def isAccountAvailable_def
        AFFINITY_REASSIGN_MIN_COOLDOWN_MS_def)
  have "b \<in> set ?pool" using assms(14,15) by (force simp: upd_account_def)
  moreover have "isAccountAvailable (after_unpause t s b) t" using assms(16) available_paused un by metis
  ultimately have "acc_id b \<in> acc_id ` set (sel_result r)"
    using select_exact_ids(1) [OF d, where hash = hash and now = t and clock = clock and meta = meta and s = s]
    by (simp add: assms(13))
  then obtain c rest where r: "sel_result r = c # rest" by (cases "sel_result r") auto
  from pin_lost_reassign [OF d assms(11) _ r [unfolded assms(13)]] f un' br r show ?thesis
    by (simp add: assms(12,13) first_id_def)
qed

subsection \<open>Concrete instances\<close>

definition quota_429 :: rate_limit_info where
  "quota_429 = \<lparr>info_resetTime = Some 9000000, info_reason = None, info_floorUntil = None\<rparr>"

abbreviation sample_pool :: "account list" where
  "sample_pool \<equiv> [sample_account ''a'' 0, sample_account ''b'' 1]"

lemma sample_pool_facts:
  "distinct (map acc_id sample_pool)" "acc_id (sample_account i p) = i" "\<not> paused (sample_account i p)"
  "\<not> disabled (sample_account i p)" "consecutive_rate_limits (sample_account i p) = 0"
  "find_account sample_pool (acc_id (sample_account ''b'' 1)) = Some (sample_account ''b'' 1)"
  "isAccountAvailable (sample_account i p) t"
  by (simp_all add: find_account_def sample_account_def isAccountAvailable_def)



end
